(* ===== verification/GF_Prelude.thy ===== *)
theory GF_Prelude
  imports Main "HOL-Library.Word"
begin

unbundle bit_operations_syntax

text \<open>
  Shared vocabulary of the development.

  \<^item> \<open>gf_exn\<close> and \<open>'a res\<close>: the two ways a C routine of the program can stop
    short. \<open>Exit c\<close> is a call of \<open>gf_error\<close> (\<open>exit\<close> with the \<open>M_*\<close> code
    \<open>c\<close>); \<open>Undef\<close> is undefined behaviour of C (an out-of-range array access, a null
    dereference, an over-wide shift). \<open>Diverge\<close> is a loop that never ends. Every such point
    of the source is a branch here.
  \<^item> \<open>bindr\<close>, \<open>errif\<close>, \<open>foldr_res\<close>, \<open>map_res\<close>: sequencing, checks and
    the two loop shapes over a vector.
  \<^item> fixed-width C arithmetic: \<open>shl_int\<close>, \<open>shl64\<close>, \<open>int_ok\<close>.
  \<^item> printing (\<open>%0nx\<close>, \<open>%d\<close>) as characters, with the lemmas about the digits.
\<close>

section \<open>Types of the C program\<close>

type_synonym u8 = "8 word"
type_synonym u32 = "32 word"
type_synonym u64 = "64 word"
type_synonym addr_t = "64 word"

text \<open>The error codes of \<open>gf_error.h\<close>, in the order of the header.\<close>

datatype m_code =
    M_NOERROR | M_MISC | M_CODE | M_DIR | M_FILE | M_CMDFAIL | M_SECSYNTAX | M_ATTRSYNTAX
  | M_MISSINGPARAM | M_ILLEGALPARAM | M_OUTOFRANGE | M_NOTNUM | M_VACOLLIDE | M_PACOLLIDE
  | M_DIRECTIVESYNTAX | M_GENFAIL | M_ASMFAIL | M_CCFAIL | M_LINKFAIL | M_CPPFAIL | M_M4FAIL
  | M_BADCONFIG | M_EVENTERR | M_ARGERR | M_NOSEC | M_BADTSB | M_BADALIGN | M_EMPTYSECTION
  | M_TSBSYNTAX | M_APPSYNTAX | M_MEMORY | M_GOLDFINGERPARSE | M_GOLDFINGERARG | M_ELF
  | M_BADLABEL | M_GOLDFINGERMISC | M_GOLDFINGERVERSION | M_DUPLICATETAG | M_BLOCKSYNTAX

datatype gf_exn = Exit m_code | Undef | Diverge

type_synonym 'a res = "gf_exn + 'a"

section \<open>Sequencing of fallible steps\<close>

named_theorems res_simps \<open>unfolding of the result combinators\<close>

definition bindr :: "'a res \<Rightarrow> ('a \<Rightarrow> 'b res) \<Rightarrow> 'b res" where
  "bindr m f = (case m of Inl e \<Rightarrow> Inl e | Inr x \<Rightarrow> f x)"

text \<open>\<open>if (b) gf_error(c, ...);\<close> followed by the rest of the routine.\<close>

definition errif :: "bool \<Rightarrow> m_code \<Rightarrow> 'a res \<Rightarrow> 'a res" where
  "errif b c rest = (if b then Inl (Exit c) else rest)"

text \<open>An access of element \<open>i\<close> of an array: undefined behaviour outside of it.\<close>

definition nth_res :: "'a list \<Rightarrow> nat \<Rightarrow> 'a res" where
  "nth_res xs i = (if i < length xs then Inr (xs ! i) else Inl Undef)"

definition the_res :: "'a option \<Rightarrow> 'a res" where
  "the_res x = (case x of None \<Rightarrow> Inl Undef | Some y \<Rightarrow> Inr y)"

text \<open>A loop that threads a state through the elements of a vector and stops at the first
  failure, and one that rewrites every element in place.\<close>

fun foldr_res :: "('s \<Rightarrow> 'a \<Rightarrow> 's res) \<Rightarrow> 's \<Rightarrow> 'a list \<Rightarrow> 's res" where
  "foldr_res f s [] = Inr s"
| "foldr_res f s (x # xs) = bindr (f s x) (\<lambda>s'. foldr_res f s' xs)"

fun map_res :: "('a \<Rightarrow> 'b res) \<Rightarrow> 'a list \<Rightarrow> 'b list res" where
  "map_res f [] = Inr []"
| "map_res f (x # xs) = bindr (f x) (\<lambda>y. bindr (map_res f xs) (\<lambda>ys. Inr (y # ys)))"

lemma bindr_simps [simp, res_simps]:
  "bindr (Inl e) f = Inl e"
  "bindr (Inr x) f = f x"
  by (simp_all add: bindr_def)

lemma bindr_Inr_iff: "bindr m f = Inr y \<longleftrightarrow> (\<exists>x. m = Inr x \<and> f x = Inr y)"
  by (cases m) auto

lemma bindr_Inr_E [elim!]:
  assumes "bindr m f = Inr y"
  obtains x where "m = Inr x" and "f x = Inr y"
  using assms by (cases m) auto

lemma errif_Inr_iff [simp, res_simps]: "errif b c r = Inr y \<longleftrightarrow> \<not> b \<and> r = Inr y"
  by (simp add: errif_def)

lemma errif_simps [simp]:
  "errif True c r = Inl (Exit c)"
  "errif False c r = r"
  by (simp_all add: errif_def)

lemma nth_res_Inr_iff [simp, res_simps]: "nth_res xs i = Inr x \<longleftrightarrow> i < length xs \<and> x = xs ! i"
  by (auto simp: nth_res_def)

lemma nth_res_ok [simp]: "i < length xs \<Longrightarrow> nth_res xs i = Inr (xs ! i)"
  by (simp add: nth_res_def)

lemma the_res_simps [simp]:
  "the_res None = Inl Undef"
  "the_res (Some x) = Inr x"
  by (simp_all add: the_res_def)

lemma the_res_Inr_iff [simp]: "the_res x = Inr y \<longleftrightarrow> x = Some y"
  by (cases x) auto

lemma foldr_res_append:
  "foldr_res f s (xs @ ys) = bindr (foldr_res f s xs) (\<lambda>s'. foldr_res f s' ys)"
proof (induction xs arbitrary: s)
  case Nil
  then show ?case by simp
next
  case (Cons x xs)
  then show ?case by (cases "f s x") auto
qed

text \<open>The invariant rule of the vector loop.\<close>

lemma foldr_res_invariant:
  assumes "foldr_res f s xs = Inr t" and "P s"
    and "\<And>s x s'. x \<in> set xs \<Longrightarrow> P s \<Longrightarrow> f s x = Inr s' \<Longrightarrow> P s'"
  shows "P t"
  using assms
proof (induction xs arbitrary: s)
  case Nil
  then show ?case by simp
next
  case (Cons x xs)
  from Cons.prems(1) obtain u where u: "f s x = Inr u" and rest: "foldr_res f u xs = Inr t"
    by auto
  have "P u" using Cons.prems(2,3) u by (meson list.set_intros(1))
  with rest show ?case
    using Cons.prems(3) by (intro Cons.IH) (auto intro: list.set_intros)
qed

lemma map_res_length: "map_res f xs = Inr ys \<Longrightarrow> length ys = length xs"
  by (induction xs arbitrary: ys) auto

lemma map_res_nth: "map_res f xs = Inr ys \<Longrightarrow> i < length xs \<Longrightarrow> f (xs ! i) = Inr (ys ! i)"
proof (induction xs arbitrary: ys i)
  case Nil
  then show ?case by simp
next
  case (Cons x xs)
  then show ?case by (cases i) auto
qed

lemma map_res_ok: "(\<And>x. x \<in> set xs \<Longrightarrow> f x = Inr (g x)) \<Longrightarrow> map_res f xs = Inr (map g xs)"
  by (induction xs) auto

section \<open>C arithmetic\<close>

text \<open>\<open>int_ok x\<close>: the mathematical result \<open>x\<close> is representable as a 32-bit \<open>int\<close>;
  otherwise the C expression overflows, which is undefined.\<close>

definition int_ok :: "int \<Rightarrow> bool" where
  "int_ok x \<longleftrightarrow> - (2 ^ 31) \<le> x \<and> x < 2 ^ 31"

text \<open>\<open>1 << n\<close> on \<open>int\<close>: defined while the result is representable.\<close>

definition shl_int :: "nat \<Rightarrow> int res" where
  "shl_int n = (if n < 31 then Inr (2 ^ n) else Inl Undef)"

text \<open>\<open>w << n\<close> on \<open>uint64_t\<close>: undefined unless \<open>0 \<le> n < 64\<close>.\<close>

definition shl64 :: "u64 \<Rightarrow> int \<Rightarrow> u64 res" where
  "shl64 w n = (if 0 \<le> n \<and> n < 64 then Inr (push_bit (nat n) w) else Inl Undef)"

definition shr64 :: "u64 \<Rightarrow> int \<Rightarrow> u64 res" where
  "shr64 w n = (if 0 \<le> n \<and> n < 64 then Inr (drop_bit (nat n) w) else Inl Undef)"

lemma shl64_ok [simp]: "n < 64 \<Longrightarrow> shl64 w (int n) = Inr (push_bit n w)"
  by (simp add: shl64_def)

lemma shl64_Inr_iff: "shl64 w n = Inr v \<longleftrightarrow> 0 \<le> n \<and> n < 64 \<and> v = push_bit (nat n) w"
  by (auto simp: shl64_def)

lemma shr64_Inr_iff: "shr64 w n = Inr v \<longleftrightarrow> 0 \<le> n \<and> n < 64 \<and> v = drop_bit (nat n) w"
  by (auto simp: shr64_def)

text \<open>A low mask \<open>2^n - 1\<close> keeps the low \<open>n\<close> bits.\<close>

lemma and_mask_eq_take_bit:
  fixes w :: "'a :: len word"
  shows "w AND (push_bit n 1 - 1) = take_bit n w"
  by (simp add: take_bit_eq_mask mask_eq_exp_minus_1 push_bit_eq_mult)

lemma unat_take_bit: "unat (take_bit n w) = unat w mod 2 ^ n"
  by (subst unsigned_take_bit_eq, subst take_bit_eq_mod, simp)

lemma unat_drop_bit: "unat (drop_bit n (w :: 'a :: len word)) = unat w div 2 ^ n"
  by (subst unat_drop_bit_eq) (rule drop_bit_eq_div)

lemma unat_pow2: "k < LENGTH('a) \<Longrightarrow> unat (2 ^ k :: 'a :: len word) = 2 ^ k"
proof -
  assume k: "k < LENGTH('a)"
  have "unat (2 ^ k :: 'a word) = unat (of_nat (2 ^ k) :: 'a word)" by simp
  also have "\<dots> = 2 ^ k mod 2 ^ LENGTH('a)" by (simp only: unat_of_nat)
  also have "\<dots> = 2 ^ k" using k by simp
  finally show ?thesis .
qed

lemma pow2_inj_word: "(2 ^ j :: 'a :: len word) = 2 ^ k \<Longrightarrow> j < LENGTH('a) \<Longrightarrow> k < LENGTH('a) \<Longrightarrow> j = k"
  by (metis unat_pow2 power_inject_exp one_less_numeral_iff semiring_norm(76))

lemma pow2_sandwich: "(2 :: nat) ^ a \<le> n \<Longrightarrow> n < 2 ^ b \<Longrightarrow> a < b"
  by (meson le_less_trans power_less_imp_less_exp one_less_numeral_iff semiring_norm(76))

lemma unat_plus_mod_pow2:
  "n \<le> LENGTH('a) \<Longrightarrow> unat (a + b :: 'a :: len word) mod 2 ^ n = (unat a + unat b) mod 2 ^ n"
  by (simp add: unat_word_ariths mod_mod_cancel le_imp_power_dvd)

lemma unat_less_pow2: "unat (w :: 'a :: len word) < 2 ^ LENGTH('a)"
  by (rule unsigned_less)

section \<open>Printing\<close>

text \<open>One lower-case hexadecimal digit, and the \<open>k\<close> digits of \<open>%0kx\<close> for a value that
  fits in \<open>k\<close> digits.\<close>

definition hexdigit :: "nat \<Rightarrow> char" where
  "hexdigit d = ''0123456789abcdef'' ! d"

definition hex_digits :: "nat \<Rightarrow> 'a :: len word \<Rightarrow> string" where
  "hex_digits k w = map (\<lambda>i. hexdigit (unat (take_bit 4 (drop_bit (4 * i) w)))) (rev [0..<k])"

text \<open>\<open>%d\<close> and \<open>%ld\<close>.\<close>

fun dec_nat :: "nat \<Rightarrow> string" where
  "dec_nat n = (if n < 10 then [''0123456789'' ! n]
     else dec_nat (n div 10) @ [''0123456789'' ! (n mod 10)])"

declare dec_nat.simps [simp del]

definition dec_int :: "int \<Rightarrow> string" where
  "dec_int i = (if i < 0 then CHR ''-'' # dec_nat (nat (- i)) else dec_nat (nat i))"

abbreviation NL :: string where "NL \<equiv> [CHR 0x0A]"
abbreviation TAB :: string where "TAB \<equiv> [CHR 0x09]"

text \<open>\<open>'s'\<close>, a name between single quotes.\<close>

definition quoted :: "string \<Rightarrow> string" where
  "quoted s = [CHR 0x27] @ s @ [CHR 0x27]"

lemma hex_digits_length [simp]: "length (hex_digits k w) = k"
  by (simp add: hex_digits_def)

lemma dec_nat_ne [simp]: "dec_nat n \<noteq> []"
  by (subst dec_nat.simps) simp

text \<open>Decimal digits can be read back, so the numbers in a name determine it.\<close>

definition digit_val :: "char \<Rightarrow> nat" where
  "digit_val c = of_char c - 48"

definition dec_val :: "string \<Rightarrow> nat" where
  "dec_val s = foldl (\<lambda>v c. 10 * v + digit_val c) 0 s"

lemma digit_char: "d < 10 \<Longrightarrow> digit_val (''0123456789'' ! d) = d \<and> ''0123456789'' ! d \<in> set ''0123456789''"
proof -
  assume "d < 10"
  then have "d \<in> {0, 1, 2, 3, 4, 5, 6, 7, 8, 9}" by auto
  then show ?thesis by (auto simp: digit_val_def)
qed

lemma dec_nat_digits: "set (dec_nat n) \<subseteq> set ''0123456789''"
proof (induction n rule: dec_nat.induct)
  case (1 n)
  show ?case
  proof (cases "n < 10")
    case True
    then show ?thesis using digit_char [of n] by (subst dec_nat.simps) auto
  next
    case False
    then show ?thesis using 1 digit_char [of "n mod 10"] by (subst dec_nat.simps) auto
  qed
qed

lemma dec_val_dec_nat [simp]: "dec_val (dec_nat n) = n"
proof (induction n rule: dec_nat.induct)
  case (1 n)
  show ?case
  proof (cases "n < 10")
    case True
    then show ?thesis using digit_char [of n] by (subst dec_nat.simps) (simp add: dec_val_def)
  next
    case False
    have "dec_val (dec_nat n) = 10 * dec_val (dec_nat (n div 10)) + digit_val (''0123456789'' ! (n mod 10))"
      using False by (subst dec_nat.simps) (simp add: dec_val_def)
    with 1 [OF False] digit_char [of "n mod 10"] show ?thesis by simp
  qed
qed

lemma dec_nat_inj: "dec_nat m = dec_nat n \<Longrightarrow> m = n"
  by (metis dec_val_dec_nat)

section \<open>References to parsed objects\<close>

text \<open>
  A pointer to a block is the pair (application, block) of its indices in \<open>App_vector\<close> and in
  the application's block vector; a pointer to a block\_tsb adds its index in the block.
\<close>

type_synonym block_ref = "nat \<times> nat"
type_synonym block_tsb_ref = "nat \<times> nat \<times> nat"

definition NO_ADDR :: addr_t where
  "NO_ADDR = - 1"

end
