(* ===== verification/GF_Error.thy ===== *)
theory GF_Error
  imports GF_Prelude
begin

text \<open>
  \<open>gf_error.c\<close>: the error-code table, the verbosity level and the PA size, and the
  power-of-two utilities. \<open>log2\<close> is called \<open>gf_log2\<close> here, the name the header gives it.
  The utilities compute on \<open>uint64_t\<close>; the one \<open>int\<close> shift of \<open>is_pow2\<close>
  keeps its C width, so a size of \<open>2^31\<close> or more is \<open>Undef\<close>.
\<close>

section \<open>Error codes\<close>

fun m_num :: "m_code \<Rightarrow> nat" where
  "m_num M_NOERROR = 0" | "m_num M_MISC = 1" | "m_num M_CODE = 2" | "m_num M_DIR = 3"
| "m_num M_FILE = 4" | "m_num M_CMDFAIL = 5" | "m_num M_SECSYNTAX = 6"
| "m_num M_ATTRSYNTAX = 7" | "m_num M_MISSINGPARAM = 8" | "m_num M_ILLEGALPARAM = 9"
| "m_num M_OUTOFRANGE = 10" | "m_num M_NOTNUM = 11" | "m_num M_VACOLLIDE = 12"
| "m_num M_PACOLLIDE = 13" | "m_num M_DIRECTIVESYNTAX = 14" | "m_num M_GENFAIL = 15"
| "m_num M_ASMFAIL = 16" | "m_num M_CCFAIL = 17" | "m_num M_LINKFAIL = 18"
| "m_num M_CPPFAIL = 19" | "m_num M_M4FAIL = 20" | "m_num M_BADCONFIG = 21"
| "m_num M_EVENTERR = 22" | "m_num M_ARGERR = 23" | "m_num M_NOSEC = 24"
| "m_num M_BADTSB = 25" | "m_num M_BADALIGN = 26" | "m_num M_EMPTYSECTION = 27"
| "m_num M_TSBSYNTAX = 28" | "m_num M_APPSYNTAX = 29" | "m_num M_MEMORY = 30"
| "m_num M_GOLDFINGERPARSE = 31" | "m_num M_GOLDFINGERARG = 32" | "m_num M_ELF = 33"
| "m_num M_BADLABEL = 34" | "m_num M_GOLDFINGERMISC = 35" | "m_num M_GOLDFINGERVERSION = 36"
| "m_num M_DUPLICATETAG = 37" | "m_num M_BLOCKSYNTAX = 38"

definition SENTINEL_ERROR :: int where
  "SENTINEL_ERROR = 39"

definition Errstrings :: "string list" where
  "Errstrings =
    [''M_NOERROR: No error'',
     ''M_MISC: Miscellaneous error'',
     ''M_CODE: Error in midas code'',
     ''M_DIR: Directory error'',
     ''M_FILE: File error'',
     ''M_CMDFAIL: Command failed'',
     ''M_SECSYNTAX: Error in section syntax'',
     ''M_ATTRSYNTAX: Error in attr syntax'',
     ''M_MISSINGPARAM: Missing parameter'',
     ''M_ILLEGALPARAM: Illegal parameter'',
     ''M_OUTOFRANGE: Out of range'',
     ''M_NOTNUM: Not a number'',
     ''M_VACOLLIDE: VA collision'',
     ''M_PACOLLIDE: PA collision'',
     ''M_DIRECTIVESYNTAX: Directive syntax error'',
     ''M_GENFAIL: File generation failed'',
     ''M_ASMFAIL: Assembler failed'',
     ''M_CCFAIL: C compiler failed'',
     ''M_LINKFAIL: Linker failed'',
     ''M_CPPFAIL: CPP failed'',
     ''M_M4FAIL: M4 preprocessor failed'',
     ''M_BADCONFIG: Bad configuration'',
     ''M_EVENTERR: Event parsing error'',
     ''M_ARGERR: Argument error'',
     ''M_NOSEC: Undefined section'',
     ''M_BADTSB: Bad TSB'',
     ''M_BADALIGN: Bad Alignment'',
     ''M_EMPTYSECTION: Empty section'',
     ''M_TSBSYNTAX: Error in tsb syntax'',
     ''M_APPSYNTAX: Error in app syntax'',
     ''M_MEMORY: Memory error'',
     ''M_GOLDFINGERPARSE: Goldfinger parse error'',
     ''M_GOLDFINGERARG: Goldfinger arg error'',
     ''M_ELF: ELF error'',
     ''M_BADLABEL: Bad label'',
     ''M_GOLDFINGERMISC: Uncategorized goldfinger error'',
     ''M_GOLDFINGERVERSION: Bad version of goldfinger'',
     ''M_DUPLICATETAG: Duplicate tags in TSB'',
     ''M_BLOCKSYNTAX: Error defining goldfinger BLOCK'',
     ''SENTINEL_ERROR'']"

text \<open>\<open>strtok(s, "\n")\<close> to exhaustion: the maximal runs without a newline.\<close>

fun strtok_lines :: "string \<Rightarrow> string \<Rightarrow> string list" where
  "strtok_lines cur [] = (if cur = [] then [] else [cur])"
| "strtok_lines cur (c # cs) =
     (if c = CHR 0x0A then (if cur = [] then strtok_lines [] cs else cur # strtok_lines [] cs)
      else strtok_lines (cur @ [c]) cs)"

definition SBUFSIZE :: nat where
  "SBUFSIZE = 16384"

text \<open>
  The lines that \<open>gf_error(code, ...)\<close> writes to \<open>stderr\<close> before \<open>exit(code)\<close>;
  \<open>msg\<close> is the caller's formatted text. \<open>snprintf\<close> and \<open>vsnprintf\<close> cut the text to
  the buffer.
\<close>

definition gf_error_lines :: "bool \<Rightarrow> int \<Rightarrow> string \<Rightarrow> string list" where
  "gf_error_lines disable_error code msg =
     (if disable_error then []
      else
        let errmsg = (if 0 \<le> code \<and> code < SENTINEL_ERROR then Errstrings ! nat code
                      else ''<unknown>'');
            hd = take (SBUFSIZE - 1) (''ERROR '' @ dec_int code @ '' ('' @ errmsg @ ''):'' @ [CHR 0x0A]);
            index = length hd;
            buf = (if index < SBUFSIZE then hd @ take (SBUFSIZE - index - 1) msg else hd)
        in map (\<lambda>ptr. ''goldfinger: '' @ ptr) (strtok_lines [] buf))"

section \<open>Verbosity and PA size\<close>

definition VERBOSE_SILENT :: int where "VERBOSE_SILENT = 0"
definition VERBOSE_NORMAL :: int where "VERBOSE_NORMAL = 1"
definition VERBOSE_CHATTY :: int where "VERBOSE_CHATTY = 2"
definition VERBOSE_DEBUG :: int where "VERBOSE_DEBUG = 3"

definition set_verbose_level :: "int \<Rightarrow> int" where
  "set_verbose_level level =
     (if level < VERBOSE_SILENT then VERBOSE_SILENT
      else if level > VERBOSE_DEBUG then VERBOSE_DEBUG
      else level)"

text \<open>\<open>gf_say\<close>: what is written to \<open>stdout\<close> at the current level; \<open>msg\<close> is the
  caller's formatted text.\<close>

definition gf_say :: "int \<Rightarrow> string \<Rightarrow> int \<Rightarrow> string \<Rightarrow> string" where
  "gf_say Verbose Prefix verbose_lvl msg =
     (if Verbose \<ge> verbose_lvl then Prefix @ ''goldfinger: '' @ msg else [])"

text \<open>\<open>set_pa_size\<close>: the new value of \<open>Pa_size\<close>.\<close>

definition set_pa_size :: "int \<Rightarrow> int res" where
  "set_pa_size size' = errif (size' \<le> 0 \<or> size' > 64) M_GOLDFINGERPARSE (Inr size')"

section \<open>Powers of two and alignment\<close>

function log2_loop :: "u64 \<Rightarrow> u64 \<Rightarrow> u64" where
  "log2_loop num log' = (if num > 1 then log2_loop (drop_bit 1 num) (log' + 1) else log')"
  by pat_completeness auto
termination
proof (relation "measure (\<lambda>(num, log'). unat num)", goal_cases)
  case 1
  show ?case by simp
next
  case (2 num log')
  then have "1 < unat num"
    by (simp add: word_less_nat_alt)
  then show ?case
    by (simp add: unat_drop_bit)
qed

declare log2_loop.simps [simp del]

definition gf_log2 :: "u64 \<Rightarrow> u64" where
  "gf_log2 num = (if num < 2 then 0 else log2_loop num 0)"

text \<open>\<open>test = 1 << log\<close> is an \<open>int\<close> shift, converted to \<open>uint64_t\<close> afterwards.\<close>

definition is_pow2 :: "u64 \<Rightarrow> bool res" where
  "is_pow2 num = bindr (shl_int (unat (gf_log2 num))) (\<lambda>test. Inr (word_of_int test = num))"

definition is_aligned :: "u64 \<Rightarrow> u64 \<Rightarrow> bool res" where
  "is_aligned num alignment =
     bindr (is_pow2 alignment) (\<lambda>p.
       errif (\<not> p) M_CODE (Inr (num AND (alignment - 1) = 0)))"

section \<open>Properties of the utilities\<close>

text \<open>The number the loop computes, on \<open>nat\<close>.\<close>

fun floor_log2 :: "nat \<Rightarrow> nat" where
  "floor_log2 n = (if n < 2 then 0 else Suc (floor_log2 (n div 2)))"

declare floor_log2.simps [simp del]

lemma floor_log2_bounds: "n \<noteq> 0 \<Longrightarrow> 2 ^ floor_log2 n \<le> n \<and> n < 2 ^ Suc (floor_log2 n)"
proof (induction n rule: floor_log2.induct)
  case (1 n)
  show ?case
  proof (cases "n < 2")
    case True
    with "1.prems" show ?thesis by (subst (1 2) floor_log2.simps) simp
  next
    case False
    then have "2 ^ floor_log2 (n div 2) \<le> n div 2 \<and> n div 2 < 2 ^ Suc (floor_log2 (n div 2))"
      by (intro "1.IH") auto
    then have "2 * 2 ^ floor_log2 (n div 2) \<le> n \<and> n < 4 * 2 ^ floor_log2 (n div 2)"
      by (intro conjI; simp; linarith)
    with False show ?thesis by (subst (1 2) floor_log2.simps) simp
  qed
qed

lemma floor_log2_unique:
  assumes "2 ^ k \<le> n" and "n < 2 ^ Suc k"
  shows "floor_log2 n = k"
proof -
  have "n \<noteq> 0" using assms(1) by (metis not_less zero_less_numeral zero_less_power)
  then have b: "2 ^ floor_log2 n \<le> n" "n < 2 ^ Suc (floor_log2 n)"
    using floor_log2_bounds by auto
  have "k < Suc (floor_log2 n)" and "floor_log2 n < Suc k"
    using assms b by (blast intro: pow2_sandwich)+
  then show ?thesis by simp
qed

lemma floor_log2_less: "n < 2 ^ m \<Longrightarrow> 0 < m \<Longrightarrow> floor_log2 n < m"
proof (cases "n = 0")
  case False
  assume "n < 2 ^ m"
  with False show ?thesis
    using floor_log2_bounds [of n] by (blast intro: pow2_sandwich)
qed (simp add: floor_log2.simps)

lemma log2_loop_eq:
  "unat num < 2 ^ m \<Longrightarrow> unat log' + m < 2 ^ 64 \<Longrightarrow>
   unat (log2_loop num log') = unat log' + floor_log2 (unat num)"
proof (induction num log' arbitrary: m rule: log2_loop.induct)
  case (1 num log')
  show ?case
  proof (cases "num > 1")
    case True
    then have n: "1 < unat num" by (simp add: word_less_nat_alt)
    with "1.prems"(1) obtain m' where m: "m = Suc m'"
      by (cases m) auto
    have l: "unat (log' + 1) = unat log' + 1"
      using "1.prems"(2) m by (simp add: unat_word_ariths)
    have "unat (log2_loop (drop_bit 1 num) (log' + 1)) =
          unat (log' + 1) + floor_log2 (unat (drop_bit 1 num))"
      using "1.prems" m by (intro "1.IH" [OF True, of m']) (auto simp: unat_drop_bit l)
    with True n show ?thesis
      by (simp add: log2_loop.simps [of num] floor_log2.simps [of "unat num"] l unat_drop_bit)
  next
    case False
    then have "unat num < 2" by (simp add: word_less_nat_alt)
    with False show ?thesis by (simp add: log2_loop.simps [of num] floor_log2.simps [of "unat num"])
  qed
qed

lemma gf_log2_eq: "unat (gf_log2 num) = floor_log2 (unat num)"
proof (cases "num < 2")
  case True
  then have "unat num < 2" by (simp add: word_less_nat_alt)
  with True show ?thesis by (simp add: gf_log2_def floor_log2.simps)
next
  case False
  have "unat num < 2 ^ 64" using unat_less_pow2 [of num] by simp
  then have "unat (log2_loop num 0) = unat (0 :: u64) + floor_log2 (unat num)"
    by (intro log2_loop_eq [where m = 64]) auto
  with False show ?thesis by (simp add: gf_log2_def)
qed

lemma gf_log2_pow2: "k < 64 \<Longrightarrow> gf_log2 (2 ^ k) = of_nat k"
proof -
  assume k: "k < 64"
  then have u: "unat (2 ^ k :: u64) = 2 ^ k" by (simp add: unat_pow2)
  have "unat (gf_log2 (2 ^ k)) = k"
    unfolding gf_log2_eq u by (rule floor_log2_unique) auto
  then have "(of_nat (unat (gf_log2 (2 ^ k))) :: u64) = of_nat k" by simp
  then show ?thesis by simp
qed

text \<open>What \<open>is_pow2\<close> answers, for every argument: right below \<open>2^31\<close>, undefined from
  there on.\<close>

lemma is_pow2_eq:
  "is_pow2 num = (if unat num < 2 ^ 31 then Inr (\<exists>k. num = 2 ^ k \<and> k < 31) else Inl Undef)"
proof (cases "unat num < 2 ^ 31")
  case True
  then have l: "floor_log2 (unat num) < 31" by (rule floor_log2_less) simp
  let ?l = "floor_log2 (unat num)"
  have "(word_of_int (2 ^ ?l) = num) \<longleftrightarrow> (\<exists>k. num = 2 ^ k \<and> k < 31)"
  proof
    assume "word_of_int (2 ^ ?l) = num"
    with l show "\<exists>k. num = 2 ^ k \<and> k < 31" by (metis of_int_power of_int_numeral)
  next
    assume "\<exists>k. num = 2 ^ k \<and> k < 31"
    then obtain k where k: "num = 2 ^ k" "k < 31" by blast
    then have "?l = k" by (intro floor_log2_unique) (auto simp: unat_pow2)
    with k show "word_of_int (2 ^ ?l) = num" by simp
  qed
  with l True show ?thesis by (simp add: is_pow2_def shl_int_def gf_log2_eq)
next
  case False
  then have "2 ^ 31 \<le> unat num" by simp
  moreover have "unat num < 2 ^ Suc (floor_log2 (unat num))"
    using False floor_log2_bounds [of "unat num"] by (metis gr0I not_less zero_less_numeral zero_less_power)
  ultimately have "31 < Suc (floor_log2 (unat num))"
    by (blast intro: pow2_sandwich)
  with False show ?thesis by (simp add: is_pow2_def shl_int_def gf_log2_eq)
qed

lemma is_pow2_True_iff: "is_pow2 num = Inr True \<longleftrightarrow> (\<exists>k<31. num = 2 ^ k)"
proof -
  have "unat (2 ^ k :: u64) < 2 ^ 31" if "k < 31" for k
    using that power_strict_increasing [of k 31 "2 :: nat"] by (simp add: unat_pow2)
  then show ?thesis by (auto simp: is_pow2_eq)
qed

lemma is_aligned_pow2:
  assumes "k < 31"
  shows "is_aligned num (2 ^ k) = Inr (2 ^ k dvd unat num)"
proof -
  have "num AND (2 ^ k - 1) = take_bit k num"
    by (simp add: take_bit_eq_mask mask_eq_exp_minus_1)
  moreover have "take_bit k num = 0 \<longleftrightarrow> 2 ^ k dvd unat num"
    by (metis unat_take_bit dvd_eq_mod_eq_0 unat_eq_zero)
  moreover have "is_pow2 (2 ^ k) = Inr True" using assms by (auto simp: is_pow2_True_iff)
  ultimately show ?thesis by (simp add: is_aligned_def)
qed

text \<open>\<open>is_aligned\<close> either answers, stops with \<open>M_CODE\<close> on a size that is no power of
  two, or meets the over-wide shift.\<close>

lemma is_aligned_Inr_iff:
  "is_aligned num al = Inr b \<longleftrightarrow> (\<exists>k<31. al = 2 ^ k \<and> b = (2 ^ k dvd unat num))"
proof (cases "is_pow2 al")
  case (Inl e)
  then have "\<not> (\<exists>k<31. al = 2 ^ k)" by (metis is_pow2_True_iff sum.distinct(1))
  with Inl show ?thesis by (auto simp: is_aligned_def)
next
  case (Inr p)
  show ?thesis
  proof (cases p)
    case True
    with Inr obtain k where "k < 31" "al = 2 ^ k" by (auto simp: is_pow2_True_iff)
    then show ?thesis using is_aligned_pow2 [of k num] by (auto dest: pow2_inj_word)
  next
    case False
    with Inr have "\<not> (\<exists>k<31. al = 2 ^ k)" using is_pow2_True_iff by force
    with False Inr show ?thesis by (auto simp: is_aligned_def)
  qed
qed

lemma set_pa_size_bounds: "set_pa_size s = Inr p \<longleftrightarrow> p = s \<and> 1 \<le> p \<and> p \<le> 64"
  by (auto simp: set_pa_size_def)

lemma verbose_level_range:
  "VERBOSE_SILENT \<le> set_verbose_level l \<and> set_verbose_level l \<le> VERBOSE_DEBUG"
  by (simp add: set_verbose_level_def VERBOSE_SILENT_def VERBOSE_DEBUG_def)

lemma Errstrings_length: "length Errstrings = nat SENTINEL_ERROR + 1"
  by (simp add: Errstrings_def SENTINEL_ERROR_def)

lemma m_num_range: "int (m_num c) < SENTINEL_ERROR"
  by (cases c) (simp_all add: SENTINEL_ERROR_def)

lemma m_num_inj: "m_num c = m_num d \<Longrightarrow> c = d"
  by (cases c; cases d) simp_all

end
