(* ===== verification/GF_Chain.thy ===== *)
theory GF_Chain
  imports GF_Error
begin

text \<open>
  The linked lists of \<open>tsb_link.c\<close>, seen through their \<open>next\<close> pointers alone: \<open>ns ! i\<close> is
  the index of the entry that entry \<open>i\<close> points to. \<open>chase\<close> is the loop of the code; the
  rest is the structure the code keeps (pointers go forward, no entry has two predecessors) and
  what appending does to the chains. Both link areas of the program use these lemmas.

  The locale \<open>overflow_area\<close> is the contract between a TSB and its link area, and
  \<open>overflow_area.insert_spec\<close> what a TSB gets from it.
\<close>

section \<open>The loop\<close>

text \<open>\<open>while(link_entry->next) link_entry = link_entry->next;\<close> A walk of more steps than there
  are entries has met a cycle, so running out of \<open>Suc (length ns)\<close> steps is non-termination.\<close>

fun chase_fuel :: "nat \<Rightarrow> nat option list \<Rightarrow> nat \<Rightarrow> nat res" where
  "chase_fuel 0 ns k = Inl Diverge"
| "chase_fuel (Suc f) ns k =
     (if k < length ns then (case ns ! k of None \<Rightarrow> Inr k | Some j \<Rightarrow> chase_fuel f ns j)
      else Inl Undef)"

definition chase :: "nat option list \<Rightarrow> nat \<Rightarrow> nat res" where
  "chase ns k = chase_fuel (Suc (length ns)) ns k"

section \<open>Chains\<close>

definition ns_ok :: "nat option list \<Rightarrow> bool" where
  "ns_ok ns \<longleftrightarrow>
     (\<forall>i j. i < length ns \<longrightarrow> ns ! i = Some j \<longrightarrow> i < j \<and> j < length ns) \<and>
     (\<forall>i i' j. i < length ns \<longrightarrow> i' < length ns \<longrightarrow> ns ! i = Some j \<longrightarrow> ns ! i' = Some j \<longrightarrow> i = i')"

definition heads :: "nat option list \<Rightarrow> nat set" where
  "heads ns = {k. k < length ns \<and> Some k \<notin> set ns}"

function chain_idx :: "nat option list \<Rightarrow> nat \<Rightarrow> nat list" where
  "chain_idx ns k =
     (if k < length ns
      then k # (case ns ! k of None \<Rightarrow> [] | Some j \<Rightarrow> if k < j then chain_idx ns j else [])
      else [])"
  by pat_completeness auto
termination
  by (relation "measure (\<lambda>(ns, k). length ns - k)") auto

declare chain_idx.simps [simp del]

lemma ns_okI:
  assumes "\<And>i j. i < length ns \<Longrightarrow> ns ! i = Some j \<Longrightarrow> i < j \<and> j < length ns"
    and "\<And>i i' j. i < length ns \<Longrightarrow> i' < length ns \<Longrightarrow> ns ! i = Some j \<Longrightarrow> ns ! i' = Some j \<Longrightarrow> i = i'"
  shows "ns_ok ns"
  using assms unfolding ns_ok_def by blast

lemma ns_okD:
  assumes "ns_ok ns" and "i < length ns" and "ns ! i = Some j"
  shows "i < j" and "j < length ns"
  using assms unfolding ns_ok_def by blast+

lemma ns_ok_inj:
  "ns_ok ns \<Longrightarrow> i < length ns \<Longrightarrow> i' < length ns \<Longrightarrow> ns ! i = Some j \<Longrightarrow> ns ! i' = Some j \<Longrightarrow> i = i'"
  unfolding ns_ok_def by blast

lemma in_heads_iff: "k \<in> heads ns \<longleftrightarrow> k < length ns \<and> (\<forall>i < length ns. ns ! i \<noteq> Some k)"
  unfolding heads_def by (force simp: in_set_conv_nth)

lemma chain_idx_end: "k < length ns \<Longrightarrow> ns ! k = None \<Longrightarrow> chain_idx ns k = [k]"
  by (subst chain_idx.simps) simp

lemma chain_idx_step:
  "ns_ok ns \<Longrightarrow> k < length ns \<Longrightarrow> ns ! k = Some j \<Longrightarrow> chain_idx ns k = k # chain_idx ns j"
  using ns_okD [of ns k j] by (subst chain_idx.simps) simp

lemma chain_idx_ne: "k < length ns \<Longrightarrow> chain_idx ns k \<noteq> []"
  by (subst chain_idx.simps) simp

lemma chain_idx_range: "x \<in> set (chain_idx ns k) \<Longrightarrow> k \<le> x \<and> x < length ns"
proof (induction ns k rule: chain_idx.induct)
  case (1 ns k)
  have "k < length ns" using "1.prems" by (subst (asm) chain_idx.simps) (auto split: if_splits)
  moreover have "x = k \<or> (\<exists>j. ns ! k = Some j \<and> k < j \<and> x \<in> set (chain_idx ns j))"
    using "1.prems" by (subst (asm) chain_idx.simps) (auto split: if_splits option.splits)
  ultimately show ?case using "1.IH" by fastforce
qed

text \<open>Downwards induction along a chain.\<close>

lemma chain_induct [consumes 2, case_names last step]:
  assumes ok: "ns_ok ns" and k: "k < length ns"
    and last: "\<And>k. k < length ns \<Longrightarrow> ns ! k = None \<Longrightarrow> P k"
    and step: "\<And>k j. k < length ns \<Longrightarrow> ns ! k = Some j \<Longrightarrow> k < j \<Longrightarrow> j < length ns \<Longrightarrow> P j \<Longrightarrow> P k"
  shows "P k"
  using k
proof (induction "length ns - k" arbitrary: k rule: less_induct)
  case less
  show ?case
  proof (cases "ns ! k")
    case None
    with less.prems last show ?thesis by blast
  next
    case (Some j)
    with ns_okD [OF ok less.prems Some] less show ?thesis
      by (intro step [of k j]) auto
  qed
qed

lemma chain_last:
  assumes "ns_ok ns" and "k < length ns"
  shows "last (chain_idx ns k) < length ns \<and> ns ! last (chain_idx ns k) = None"
  using assms
proof (induction rule: chain_induct)
  case (last k)
  then show ?case by (simp add: chain_idx_end)
next
  case (step k j)
  with assms(1) show ?case by (simp add: chain_idx_step chain_idx_ne)
qed

lemma chase_fuel_last:
  assumes "ns_ok ns" and "k < length ns"
  shows "length ns - k \<le> f \<Longrightarrow> chase_fuel f ns k = Inr (last (chain_idx ns k))"
  using assms
proof (induction arbitrary: f rule: chain_induct)
  case (last k)
  then obtain g where "f = Suc g" by (cases f) auto
  with last show ?case by (simp add: chain_idx_end)
next
  case (step k j)
  then obtain g where g: "f = Suc g" by (cases f) auto
  with step have "chase_fuel g ns j = Inr (last (chain_idx ns j))" by (intro step.IH) simp
  with g step assms(1) show ?case by (simp add: chain_idx_step chain_idx_ne)
qed

lemma chase_last: "ns_ok ns \<Longrightarrow> k < length ns \<Longrightarrow> chase ns k = Inr (last (chain_idx ns k))"
  by (simp add: chase_def chase_fuel_last del: chase_fuel.simps)

text \<open>A node on the chain of \<open>k\<close> other than \<open>k\<close> has its predecessor on the chain.\<close>

lemma chain_pred:
  assumes "ns_ok ns" and "k < length ns"
  shows "x \<in> set (chain_idx ns k) \<Longrightarrow> x \<noteq> k \<Longrightarrow> \<exists>p \<in> set (chain_idx ns k). p < length ns \<and> ns ! p = Some x"
  using assms
proof (induction rule: chain_induct)
  case (last k)
  then show ?case by (simp add: chain_idx_end)
next
  case (step k j)
  then show ?case using assms(1) by (cases "x = j") (auto simp: chain_idx_step)
qed

text \<open>Two chains that start at different heads share no entry.\<close>

lemma chains_disjoint:
  assumes ok: "ns_ok ns" and g: "g \<in> heads ns" and h: "h \<in> heads ns" and ne: "g \<noteq> h"
  shows "x \<in> set (chain_idx ns g) \<Longrightarrow> x \<notin> set (chain_idx ns h)"
proof (induction x rule: less_induct)
  case (less x)
  have gl: "g < length ns" and hl: "h < length ns"
    and no: "\<And>i. i < length ns \<Longrightarrow> ns ! i \<noteq> Some g" "\<And>i. i < length ns \<Longrightarrow> ns ! i \<noteq> Some h"
    using g h by (auto simp: in_heads_iff)
  show ?case
  proof
    assume xh: "x \<in> set (chain_idx ns h)"
    have "x \<noteq> g" using xh ne chain_pred [OF ok hl, of g] no(1) by blast
    with less.prems obtain p where p: "p \<in> set (chain_idx ns g)" "p < length ns" "ns ! p = Some x"
      using chain_pred [OF ok gl] by blast
    have "x \<noteq> h" using less.prems ne chain_pred [OF ok gl, of h] no(2) by blast
    with xh obtain q where q: "q \<in> set (chain_idx ns h)" "q < length ns" "ns ! q = Some x"
      using chain_pred [OF ok hl] by blast
    have "p = q" using ns_ok_inj [OF ok p(2) q(2) p(3) q(3)] .
    with less.IH [OF ns_okD(1) [OF ok p(2,3)] p(1)] q(1) show False by blast
  qed
qed

section \<open>Growing the list\<close>

text \<open>A new entry that nothing points to.\<close>

lemma nth_snoc_Some: "(ns @ [None]) ! i = Some j \<Longrightarrow> i < Suc (length ns) \<Longrightarrow> i < length ns \<and> ns ! i = Some j"
  by (cases "i = length ns") (auto simp: nth_append)

lemma ns_ok_snoc:
  assumes "ns_ok ns"
  shows "ns_ok (ns @ [None])"
proof (rule ns_okI, goal_cases)
  case (1 i j)
  then show ?case using nth_snoc_Some [of ns i j] ns_okD [OF assms, of i j] by simp
next
  case (2 i i' j)
  then show ?case
    using nth_snoc_Some [of ns i j] nth_snoc_Some [of ns i' j] ns_ok_inj [OF assms, of i i' j] by simp
qed

lemma heads_snoc:
  assumes "ns_ok ns"
  shows "heads (ns @ [None]) = insert (length ns) (heads ns)"
proof -
  have "ns ! i \<noteq> Some (length ns)" if "i < length ns" for i
    using ns_okD(2) [OF assms that] by blast
  then have "Some (length ns) \<notin> set ns" by (auto simp: in_set_conv_nth)
  then show ?thesis by (auto simp: heads_def)
qed

lemma chain_idx_snoc:
  assumes "ns_ok ns" and "k < length ns"
  shows "chain_idx (ns @ [None]) k = chain_idx ns k"
  using assms
proof (induction rule: chain_induct)
  case (last k)
  then show ?case by (simp add: chain_idx_end nth_append)
next
  case (step k j)
  then show ?case
    using assms(1) by (simp add: chain_idx_step ns_ok_snoc nth_append)
qed

text \<open>A new entry hung behind entry \<open>e\<close>, the end of some chain.\<close>

definition link_new :: "nat option list \<Rightarrow> nat \<Rightarrow> nat option list" where
  "link_new ns e = (ns @ [None])[e := Some (length ns)]"

lemma link_new_length [simp]: "length (link_new ns e) = Suc (length ns)"
  by (simp add: link_new_def)

lemma link_new_nth:
  "e < length ns \<Longrightarrow> i < Suc (length ns) \<Longrightarrow>
   link_new ns e ! i = (if i = e then Some (length ns) else if i < length ns then ns ! i else None)"
  by (auto simp: link_new_def nth_append nth_list_update)

lemma link_new_nth_Some:
  assumes "ns_ok ns" and "e < length ns" and "i < Suc (length ns)" and "link_new ns e ! i = Some j"
  shows "i = e \<and> j = length ns \<or> i \<noteq> e \<and> i < length ns \<and> ns ! i = Some j \<and> i < j \<and> j < length ns"
  using assms(3,4) link_new_nth [OF assms(2,3)] ns_okD [OF assms(1), of i j]
  by (auto split: if_splits)

lemma ns_ok_link_new:
  assumes "ns_ok ns" and "e < length ns"
  shows "ns_ok (link_new ns e)"
proof (rule ns_okI, goal_cases)
  case (1 i j)
  then show ?case using link_new_nth_Some [OF assms, of i j] assms(2) by auto
next
  case (2 i i' j)
  then show ?case
    using link_new_nth_Some [OF assms, of i j] link_new_nth_Some [OF assms, of i' j]
      ns_ok_inj [OF assms(1), of i i' j] by auto
qed

lemma heads_link_new:
  assumes ok: "ns_ok ns" and e: "e < length ns" and n: "ns ! e = None"
  shows "heads (link_new ns e) = heads ns"
proof -
  have "Some k \<in> set (link_new ns e) \<longleftrightarrow> k = length ns \<or> Some k \<in> set ns" for k
  proof
    assume "Some k \<in> set (link_new ns e)"
    then show "k = length ns \<or> Some k \<in> set ns"
      using e by (auto simp: in_set_conv_nth link_new_nth split: if_splits)
  next
    assume "k = length ns \<or> Some k \<in> set ns"
    then show "Some k \<in> set (link_new ns e)"
    proof
      assume "k = length ns"
      with e show ?thesis
        by (auto simp: in_set_conv_nth link_new_nth intro!: exI [of _ e])
    next
      assume "Some k \<in> set ns"
      then obtain i where "i < length ns" "ns ! i = Some k" by (auto simp: in_set_conv_nth)
      with n e show ?thesis
        by (auto simp: in_set_conv_nth link_new_nth intro!: exI [of _ i])
    qed
  qed
  then show ?thesis by (auto simp: heads_def less_Suc_eq)
qed

lemma chain_idx_link_new_other:
  assumes "ns_ok ns" and "e < length ns" and "k < length ns"
  shows "e \<notin> set (chain_idx ns k) \<Longrightarrow> chain_idx (link_new ns e) k = chain_idx ns k"
  using assms(1,3)
proof (induction rule: chain_induct)
  case (last k)
  with assms(2) show ?case by (auto simp: chain_idx_end link_new_nth)
next
  case (step k j)
  then show ?case
    using assms(1,2) by (simp add: chain_idx_step ns_ok_link_new link_new_nth)
qed

lemma chain_idx_link_new:
  assumes "ns_ok ns" and "k < length ns"
  shows "e = last (chain_idx ns k) \<Longrightarrow> chain_idx (link_new ns e) k = chain_idx ns k @ [length ns]"
  using assms
proof (induction rule: chain_induct)
  case (last k)
  then have "e = k" by (simp add: chain_idx_end)
  with last assms(1) show ?case
    by (simp add: chain_idx_end chain_idx_step [of _ _ "length ns"] ns_ok_link_new link_new_nth)
next
  case (step k j)
  have e: "e < length ns" "e = last (chain_idx ns j)"
    using chain_last [OF assms(1) step.hyps(1)] step chain_idx_step [OF assms(1) step.hyps(1,2)]
      chain_idx_ne [OF step.hyps(4)] by auto
  moreover have "e \<noteq> k"
    using e(2) chain_idx_range [of e ns j] chain_idx_ne [OF step.hyps(4)] step.hyps(3)
      last_in_set by fastforce
  ultimately show ?case
    using assms(1) step by (simp add: chain_idx_step [of _ _ j] ns_ok_link_new link_new_nth)
qed

section \<open>The contract between a TSB and its link area\<close>

text \<open>A TSB slot as its owner sees it: free, one entry held in the slot itself, or a chain in the
  link area that starts at entry \<open>h\<close>.\<close>

datatype 'p slot = Free | Single 'p | Chained nat

text \<open>
  \<open>new_pair a q p\<close> starts a chain with the slot's old entry \<open>q\<close> and hangs \<open>p\<close> behind it;
  \<open>extend a h p\<close> appends \<open>p\<close> to the chain of \<open>h\<close>. Neither may touch the chains of
  other heads: a link area can serve several TSBs.
\<close>

locale overflow_area =
  fixes ainv :: "'ar \<Rightarrow> bool" and aheads :: "'ar \<Rightarrow> nat set"
    and achain :: "'ar \<Rightarrow> nat \<Rightarrow> 'p list"
    and new_pair :: "'ar \<Rightarrow> 'p \<Rightarrow> 'p \<Rightarrow> (nat \<times> 'ar) res"
    and extend :: "'ar \<Rightarrow> nat \<Rightarrow> 'p \<Rightarrow> 'ar res"
  assumes new_pair_law: "ainv a \<Longrightarrow> new_pair a q p = Inr (k, a') \<Longrightarrow>
      ainv a' \<and> k \<notin> aheads a \<and> aheads a' = insert k (aheads a) \<and> achain a' k = [q, p] \<and>
      (\<forall>g \<in> aheads a. achain a' g = achain a g)"
    and extend_law: "ainv a \<Longrightarrow> h \<in> aheads a \<Longrightarrow> extend a h p = Inr a' \<Longrightarrow>
      ainv a' \<and> aheads a' = aheads a \<and> achain a' h = achain a h @ [p] \<and>
      (\<forall>g \<in> aheads a. g \<noteq> h \<longrightarrow> achain a' g = achain a g)"
begin

definition slot_list :: "'ar \<Rightarrow> 'p slot \<Rightarrow> 'p list" where
  "slot_list a s = (case s of Free \<Rightarrow> [] | Single p \<Rightarrow> [p] | Chained h \<Rightarrow> achain a h)"

definition insert_slot :: "'ar \<Rightarrow> 'p slot \<Rightarrow> 'p \<Rightarrow> ('ar \<times> 'p slot) res" where
  "insert_slot a s p =
     (case s of
        Free \<Rightarrow> Inr (a, Single p)
      | Single q \<Rightarrow> bindr (new_pair a q p) (\<lambda>(k, a'). Inr (a', Chained k))
      | Chained h \<Rightarrow> bindr (extend a h p) (\<lambda>a'. Inr (a', Chained h)))"

text \<open>All slots that use the area: every chain starts at a head of its own.\<close>

definition table_ok :: "'ar \<Rightarrow> 'p slot list \<Rightarrow> bool" where
  "table_ok a ss \<longleftrightarrow> ainv a \<and>
     (\<forall>i h. i < length ss \<longrightarrow> ss ! i = Chained h \<longrightarrow> h \<in> aheads a) \<and>
     (\<forall>i j h. i < length ss \<longrightarrow> j < length ss \<longrightarrow> ss ! i = Chained h \<longrightarrow> ss ! j = Chained h \<longrightarrow> i = j)"

lemma table_okD:
  assumes "table_ok a ss"
  shows "ainv a"
    and "i < length ss \<Longrightarrow> ss ! i = Chained h \<Longrightarrow> h \<in> aheads a"
    and "i < length ss \<Longrightarrow> j < length ss \<Longrightarrow> ss ! i = Chained h \<Longrightarrow> ss ! j = Chained h \<Longrightarrow> i = j"
  using assms unfolding table_ok_def by blast+

lemma table_okI:
  assumes "ainv a"
    and "\<And>i h. i < length ss \<Longrightarrow> ss ! i = Chained h \<Longrightarrow> h \<in> aheads a"
    and "\<And>i j h. i < length ss \<Longrightarrow> j < length ss \<Longrightarrow> ss ! i = Chained h \<Longrightarrow> ss ! j = Chained h \<Longrightarrow> i = j"
  shows "table_ok a ss"
  using assms unfolding table_ok_def by blast

text \<open>What one insertion does: the chosen slot's list grows at its end, every other slot's list
  stays.\<close>

definition step_ok :: "'ar \<Rightarrow> 'p slot \<Rightarrow> 'p \<Rightarrow> 'ar \<Rightarrow> 'p slot \<Rightarrow> bool" where
  "step_ok a s p a' s' \<longleftrightarrow> ainv a' \<and> aheads a \<subseteq> aheads a' \<and>
     slot_list a' s' = slot_list a s @ [p] \<and>
     (\<forall>h. s' = Chained h \<longrightarrow> h \<in> aheads a' \<and> (h \<in> aheads a \<longrightarrow> s = Chained h)) \<and>
     (\<forall>g \<in> aheads a. s \<noteq> Chained g \<longrightarrow> achain a' g = achain a g)"

lemma step_okD:
  assumes "step_ok a s p a' s'"
  shows "ainv a'" and "h \<in> aheads a \<Longrightarrow> h \<in> aheads a'"
    and "slot_list a' s' = slot_list a s @ [p]"
    and "s' = Chained h \<Longrightarrow> h \<in> aheads a'"
    and "s' = Chained h \<Longrightarrow> h \<in> aheads a \<Longrightarrow> s = Chained h"
    and "h \<in> aheads a \<Longrightarrow> s \<noteq> Chained h \<Longrightarrow> achain a' h = achain a h"
  using assms unfolding step_ok_def by blast+

lemma insert_step:
  assumes inv: "ainv a" and h: "\<And>h. s = Chained h \<Longrightarrow> h \<in> aheads a"
    and ins: "insert_slot a s p = Inr (a', s')"
  shows "step_ok a s p a' s'"
proof (cases s)
  case Free
  with ins inv show ?thesis by (simp add: step_ok_def insert_slot_def slot_list_def) auto
next
  case (Single q)
  with ins obtain k where k: "new_pair a q p = Inr (k, a')" and s': "s' = Chained k"
    unfolding insert_slot_def by (cases "new_pair a q p") auto
  note law = new_pair_law [OF inv k]
  from law show ?thesis unfolding step_ok_def Single s' slot_list_def by simp blast
next
  case (Chained h)
  with ins have k: "extend a h p = Inr a'" and s': "s' = Chained h"
    unfolding insert_slot_def by (cases "extend a h p", auto)+
  note law = extend_law [OF inv assms(2) [OF Chained] k]
  from law assms(2) [OF Chained] show ?thesis
    unfolding step_ok_def Chained s' slot_list_def by simp
qed

lemma insert_spec:
  assumes ok: "table_ok a ss" and i: "i < length ss" and ins: "insert_slot a (ss ! i) p = Inr (a', s')"
  shows "table_ok a' (ss[i := s']) \<and>
         map (slot_list a') (ss[i := s']) = (map (slot_list a) ss)[i := slot_list a (ss ! i) @ [p]]"
proof
  have step: "step_ok a (ss ! i) p a' s'"
    by (rule insert_step [OF table_okD(1) [OF ok] table_okD(2) [OF ok i] ins])
  have old: "h \<in> aheads a" "ss ! i \<noteq> Chained h"
    if "j < length ss" "ss ! j = Chained h" "i \<noteq> j" for j h
    using table_okD(2) [OF ok that(1,2)] table_okD(3) [OF ok i that(1) _ that(2)] that(3) by blast+
  have apart: False if "j < length ss" "ss ! j = Chained h" "i \<noteq> j" "s' = Chained h" for j h
    using step_okD(5) [OF step that(4) old(1) [OF that(1-3)]] old(2) [OF that(1-3)] by contradiction
  show "table_ok a' (ss[i := s'])"
  proof (rule table_okI)
    show "ainv a'" by (rule step_okD(1) [OF step])
  next
    fix j h
    assume j: "j < length (ss[i := s'])" "ss[i := s'] ! j = Chained h"
    show "h \<in> aheads a'"
    proof (cases "i = j")
      case True
      with j step_okD(4) [OF step] show ?thesis by simp
    next
      case False
      with j old(1) [of j h] step_okD(2) [OF step] show ?thesis by simp
    qed
  next
    fix j k h
    assume jk: "j < length (ss[i := s'])" "k < length (ss[i := s'])"
      "ss[i := s'] ! j = Chained h" "ss[i := s'] ! k = Chained h"
    show "j = k"
    proof (rule ccontr)
      assume ne: "j \<noteq> k"
      consider "i = j" "i \<noteq> k" | "i = k" "i \<noteq> j" | "i \<noteq> j" "i \<noteq> k" using ne by blast
      then show False
      proof cases
        case 1
        then show False using jk apart [of k h] by simp
      next
        case 2
        then show False using jk apart [of j h] by simp
      next
        case 3
        then show False using jk ne table_okD(3) [OF ok, of j k h] by simp
      qed
    qed
  qed
  show "map (slot_list a') (ss[i := s']) = (map (slot_list a) ss)[i := slot_list a (ss ! i) @ [p]]"
  proof (rule nth_equalityI)
    fix j
    assume "j < length (map (slot_list a') (ss[i := s']))"
    then have j: "j < length ss" by simp
    show "map (slot_list a') (ss[i := s']) ! j
        = (map (slot_list a) ss)[i := slot_list a (ss ! i) @ [p]] ! j"
    proof (cases "i = j")
      case True
      with j step_okD(3) [OF step] show ?thesis by simp
    next
      case False
      have "slot_list a' (ss ! j) = slot_list a (ss ! j)"
      proof (cases "ss ! j")
        case (Chained h)
        with step_okD(6) [OF step old [OF j Chained False]] show ?thesis by (simp add: slot_list_def)
      qed (simp_all add: slot_list_def)
      with False j show ?thesis by simp
    qed
  qed simp
qed

end

end
