(* ===== verification/GF_Vector.thy ===== *)
theory GF_Vector
  imports GF_Error
begin

text \<open>
  \<open>vector.c\<close>: the growable array under every collection of goldfinger. The state keeps the
  allocated slots (\<open>None\<close> is a slot the code has not initialised), the logical and the
  allocated length as C \<open>int\<close>s, and the element initialiser (\<open>None\<close> is the null function
  pointer). \<open>mem n\<close> says whether the C library can allocate \<open>n\<close> bytes; it stands for
  \<open>malloc\<close> and \<open>realloc\<close>.

  The locale \<open>pushable\<close> is the contract the other components rely on when they add one
  element and then fill it in; it is interpreted on the model of this file, and it is why they
  may keep a vector as a HOL list.
\<close>

section \<open>The vector object\<close>

record 'a vector_t =
  elements :: "'a option list"
  len :: int
  alloc_len :: int
  elem_size :: int
  init_elem_func :: "'a option"
  vec_name :: string

definition DEFAULT_ALLOC_LEN :: int where
  "DEFAULT_ALLOC_LEN = 40"

definition gf_malloc :: "(int \<Rightarrow> bool) \<Rightarrow> int \<Rightarrow> unit res" where
  "gf_malloc mem size' = errif (\<not> mem size') M_MEMORY (Inr ())"

definition init_vector :: "(int \<Rightarrow> bool) \<Rightarrow> string option \<Rightarrow> int \<Rightarrow> 'a option \<Rightarrow> 'a vector_t res" where
  "init_vector mem vector_name elem_size' elem_init_func =
     bindr (gf_malloc mem (DEFAULT_ALLOC_LEN * elem_size')) (\<lambda>_.
       Inr \<lparr>elements = replicate (nat DEFAULT_ALLOC_LEN) None,
            len = 0,
            alloc_len = DEFAULT_ALLOC_LEN,
            elem_size = elem_size',
            init_elem_func = elem_init_func,
            vec_name = (case vector_name of None \<Rightarrow> ''<unnamed>'' | Some n \<Rightarrow> n)\<rparr>)"

text \<open>\<open>deallocate_vector\<close>: the destroyed elements (when there is a destroy function), and the
  zeroed object.\<close>

definition deallocate_vector :: "bool \<Rightarrow> 'a vector_t \<Rightarrow> ('a option list \<times> 'a vector_t)" where
  "deallocate_vector has_destroy v =
     (if has_destroy then take (nat (len v)) (elements v) else [],
      \<lparr>elements = [], len = 0, alloc_len = 0, elem_size = 0, init_elem_func = None,
       vec_name = []\<rparr>)"

text \<open>\<open>grow_vector\<close>: \<open>realloc\<close> keeps the old slots and adds fresh ones.\<close>

definition grow_vector :: "(int \<Rightarrow> bool) \<Rightarrow> 'a vector_t \<Rightarrow> int \<Rightarrow> 'a vector_t res" where
  "grow_vector mem v by' =
     (let a = alloc_len v + by' in
      if \<not> int_ok a then Inl Undef
      else errif (\<not> mem (a * elem_size v)) M_MEMORY
        (Inr (v\<lparr>alloc_len := a,
               elements := take (nat a) (elements v)
                           @ replicate (nat a - length (elements v)) None\<rparr>)))"

definition preallocate_vector :: "(int \<Rightarrow> bool) \<Rightarrow> 'a vector_t \<Rightarrow> int \<Rightarrow> 'a vector_t res" where
  "preallocate_vector mem v len' =
     (let by' = len' - alloc_len v in if by' > 0 then grow_vector mem v by' else Inr v)"

text \<open>The initialisation loop of \<open>add_vector_elements\<close>: slots \<open>i\<close>, \<open>i + 1\<close>, \dots.\<close>

fun init_slots :: "'a \<Rightarrow> nat \<Rightarrow> nat \<Rightarrow> 'a option list \<Rightarrow> 'a option list res" where
  "init_slots x i 0 es = Inr es"
| "init_slots x i (Suc n) es =
     (if i < length es then init_slots x (Suc i) n (es[i := Some x]) else Inl Undef)"

definition add_vector_elements :: "(int \<Rightarrow> bool) \<Rightarrow> 'a vector_t \<Rightarrow> int \<Rightarrow> (int \<times> 'a vector_t) res" where
  "add_vector_elements mem v num =
     (if \<not> int_ok (len v + num) then Inl Undef else
      let shortage = len v + num - alloc_len v in
      bindr (if shortage > 0
             then if int_ok ((len v + num + shortage) * 2)
                  then grow_vector mem v ((len v + num + shortage) * 2) else Inl Undef
             else Inr v) (\<lambda>v1.
      bindr (case init_elem_func v1 of
               None \<Rightarrow> Inr (elements v1)
             | Some x \<Rightarrow> init_slots x (nat (len v1)) (nat num) (elements v1)) (\<lambda>es.
      Inr (len v1, v1\<lparr>elements := es, len := len v1 + num\<rparr>))))"

text \<open>Access through a slot pointer, without the range check and with it.\<close>

definition vector_elem :: "'a vector_t \<Rightarrow> int \<Rightarrow> 'a res" where
  "vector_elem v i =
     (if 0 \<le> i \<and> i < int (length (elements v)) then the_res (elements v ! nat i) else Inl Undef)"

definition vector_elem_void_ptr_range_check :: "'a vector_t \<Rightarrow> int \<Rightarrow> int res" where
  "vector_elem_void_ptr_range_check v index =
     errif (index < 0) M_CODE
     (errif (index \<ge> len v) M_CODE
     (errif (elements v = []) M_CODE
     (errif (elem_size v = 0) M_CODE
       (Inr (index * elem_size v)))))"

text \<open>A write through the pointer \<open>VECTOR_ELEM\<close> gives.\<close>

definition set_vector_elem :: "'a vector_t \<Rightarrow> nat \<Rightarrow> 'a \<Rightarrow> 'a vector_t" where
  "set_vector_elem v i x = v\<lparr>elements := (elements v)[i := Some x]\<rparr>"

text \<open>The iterators. The element function gets a pointer to the slot and may change the element
  and the caller's state \<open>s\<close>.\<close>

fun iterate_slots :: "('a \<Rightarrow> 's \<Rightarrow> ('a \<times> 's) res) \<Rightarrow> 'a option list \<Rightarrow> 's \<Rightarrow> ('a option list \<times> 's) res" where
  "iterate_slots f [] s = Inr ([], s)"
| "iterate_slots f (e # es) s =
     bindr (the_res e) (\<lambda>x.
     bindr (f x s) (\<lambda>(x', s').
     bindr (iterate_slots f es s') (\<lambda>(es', s''). Inr (Some x' # es', s''))))"

definition iterate_vector :: "('a \<Rightarrow> 's \<Rightarrow> ('a \<times> 's) res) \<Rightarrow> 'a vector_t \<Rightarrow> 's \<Rightarrow> ('a vector_t \<times> 's) res" where
  "iterate_vector elemfunc v s =
     (let n = nat (len v) in
      bindr (iterate_slots elemfunc (take n (elements v)) s) (\<lambda>(es, s').
        Inr (v\<lparr>elements := es @ drop n (elements v)\<rparr>, s')))"

text \<open>\<open>iterate_vector2\<close> walks the length of the first vector only.\<close>

fun iterate_pairs :: "('a \<Rightarrow> 'b \<Rightarrow> 's \<Rightarrow> 's res) \<Rightarrow> 'a option list \<Rightarrow> 'b option list \<Rightarrow> 's \<Rightarrow> 's res" where
  "iterate_pairs f [] _ s = Inr s"
| "iterate_pairs f (e # es) [] s = Inl Undef"
| "iterate_pairs f (e # es) (d # ds) s =
     bindr (the_res e) (\<lambda>x. bindr (the_res d) (\<lambda>y.
     bindr (f x y s) (\<lambda>s'. iterate_pairs f es ds s')))"

definition iterate_vector2 :: "('a \<Rightarrow> 'b \<Rightarrow> 's \<Rightarrow> 's res) \<Rightarrow> 'a vector_t \<Rightarrow> 'b vector_t \<Rightarrow> 's \<Rightarrow> 's res" where
  "iterate_vector2 elemfunc v1 v2 s =
     iterate_pairs elemfunc (take (nat (len v1)) (elements v1)) (elements v2) s"

fun search_slots :: "('a \<Rightarrow> bool) \<Rightarrow> nat \<Rightarrow> 'a option list \<Rightarrow> nat option res" where
  "search_slots srch i [] = Inr None"
| "search_slots srch i (e # es) =
     bindr (the_res e) (\<lambda>x. if srch x then Inr (Some i) else search_slots srch (Suc i) es)"

definition search_vector :: "'a vector_t \<Rightarrow> ('a \<Rightarrow> bool) \<Rightarrow> nat option res" where
  "search_vector v srchfunc = search_slots srchfunc 0 (take (nat (len v)) (elements v))"

section \<open>Invariant and abstraction\<close>

definition vec_ok :: "'a vector_t \<Rightarrow> bool" where
  "vec_ok v \<longleftrightarrow> 0 \<le> len v \<and> len v \<le> alloc_len v \<and> int_ok (alloc_len v) \<and>
     length (elements v) = nat (alloc_len v) \<and>
     (\<forall>i < nat (len v). elements v ! i \<noteq> None)"

definition vec_list :: "'a vector_t \<Rightarrow> 'a list" where
  "vec_list v = map the (take (nat (len v)) (elements v))"

lemma vec_ok_length: "vec_ok v \<Longrightarrow> length (vec_list v) = nat (len v)"
  by (auto simp: vec_ok_def vec_list_def)

lemma vec_ok_slots:
  assumes "vec_ok v"
  shows "take (nat (len v)) (elements v) = map Some (vec_list v)"
  using assms by (intro nth_equalityI) (auto simp: vec_ok_def vec_list_def)

lemma init_vector_ok:
  "init_vector mem n sz ini = Inr v \<Longrightarrow> vec_ok v \<and> vec_list v = []"
  by (auto simp: init_vector_def vec_ok_def vec_list_def int_ok_def DEFAULT_ALLOC_LEN_def)

lemma init_slots_spec:
  assumes "i + n \<le> length es"
  shows "init_slots x i n es = Inr (take i es @ replicate n (Some x) @ drop (i + n) es)"
  using assms
proof (induction n arbitrary: i es)
  case 0
  then show ?case by simp
next
  case (Suc n)
  then have "init_slots x (Suc i) n (es[i := Some x]) =
      Inr (take (Suc i) (es[i := Some x]) @ replicate n (Some x) @ drop (Suc i + n) (es[i := Some x]))"
    by (intro Suc.IH) simp
  also have "take (Suc i) (es[i := Some x]) = take i es @ [Some x]"
    using Suc.prems by (simp add: take_Suc_conv_app_nth)
  finally show ?case using Suc.prems by simp
qed

section \<open>Adding elements\<close>

lemma grow_vector_ok:
  assumes "vec_ok v" and "grow_vector mem v by' = Inr w" and "0 \<le> by'"
  shows "vec_ok w" and "vec_list w = vec_list v" and "len w = len v"
    and "alloc_len w = alloc_len v + by'" and "init_elem_func w = init_elem_func v"
    and "elem_size w = elem_size v"
proof -
  have w: "w = v\<lparr>alloc_len := alloc_len v + by',
      elements := elements v @ replicate (nat (alloc_len v + by') - length (elements v)) None\<rparr>"
    and ok: "int_ok (alloc_len v + by')"
    using assms by (auto simp: grow_vector_def Let_def vec_ok_def split: if_splits)
  show "vec_ok w" using assms(1,3) ok
    by (auto simp: w vec_ok_def nth_append)
  have "nat (len v) \<le> length (elements v)" using assms(1) by (auto simp: vec_ok_def)
  then show "vec_list w = vec_list v" by (simp add: w vec_list_def)
  show "len w = len v" "alloc_len w = alloc_len v + by'" "init_elem_func w = init_elem_func v"
    "elem_size w = elem_size v"
    by (simp_all add: w)
qed

lemma vec_list_filled:
  assumes ok: "vec_ok v" and room: "nat (len v) + n \<le> length (elements v)"
  shows "let w = v\<lparr>elements := take (nat (len v)) (elements v) @ replicate n (Some x)
                     @ drop (nat (len v) + n) (elements v), len := len v + int n\<rparr>
         in vec_ok w \<and> vec_list w = vec_list v @ replicate n x"
proof -
  have l: "0 \<le> len v" and n: "nat (len v + int n) = nat (len v) + n"
    using ok by (auto simp: vec_ok_def)
  have "take (nat (len v)) (elements v) = map Some (vec_list v)"
    using ok by (rule vec_ok_slots)
  then show ?thesis
    using ok room l vec_ok_length [OF ok]
    by (auto simp: vec_ok_def vec_list_def n nth_append Let_def)
qed

theorem add_vector_elements_appends:
  assumes ok: "vec_ok v" and ini: "init_elem_func v = Some x" and num: "0 \<le> num"
    and add: "add_vector_elements mem v num = Inr (i, w)"
  shows "i = len v \<and> vec_ok w \<and> vec_list w = vec_list v @ replicate (nat num) x \<and>
         init_elem_func w = Some x"
proof -
  define shortage where "shortage = len v + num - alloc_len v"
  obtain v1 where v1: "(if shortage > 0
        then if int_ok ((len v + num + shortage) * 2)
             then grow_vector mem v ((len v + num + shortage) * 2) else Inl Undef
        else Inr v) = Inr v1"
    and rest: "bindr (init_slots x (nat (len v1)) (nat num) (elements v1)) (\<lambda>es.
        Inr (len v1, v1\<lparr>elements := es, len := len v1 + num\<rparr>)) = Inr (i, w)
        \<and> init_elem_func v1 = Some x"
    using add ini unfolding add_vector_elements_def Let_def shortage_def
    by (auto simp: grow_vector_def Let_def split: if_splits option.splits)
  have l: "0 \<le> len v" using ok by (simp add: vec_ok_def)
  have v1_ok: "vec_ok v1 \<and> vec_list v1 = vec_list v \<and> len v1 = len v \<and>
      init_elem_func v1 = Some x \<and> len v + num \<le> alloc_len v1"
  proof (cases "shortage > 0")
    case True
    then have by0: "0 \<le> (len v + num + shortage) * 2" and
      g: "grow_vector mem v ((len v + num + shortage) * 2) = Inr v1"
      using v1 l num by (auto split: if_splits)
    from grow_vector_ok [OF ok g by0] ini l num True show ?thesis
      by (auto simp: shortage_def)
  next
    case False
    with v1 ok ini show ?thesis by (auto simp: shortage_def)
  qed
  then have room: "nat (len v1) + nat num \<le> length (elements v1)"
    using l num by (auto simp: vec_ok_def)
  have w: "i = len v1 \<and> w = v1\<lparr>elements := take (nat (len v1)) (elements v1) @ replicate (nat num) (Some x)
                     @ drop (nat (len v1) + nat num) (elements v1), len := len v1 + int (nat num)\<rparr>"
    using rest room num by (auto simp: init_slots_spec)
  then show ?thesis
    using vec_list_filled [of v1 "nat num" x] v1_ok room by (simp add: Let_def)
qed

text \<open>With memory and below the \<open>int\<close> range the call succeeds.\<close>

theorem add_vector_elements_succeeds:
  assumes ok: "vec_ok v" and ini: "init_elem_func v = Some x" and num: "0 \<le> num"
    and room: "alloc_len v + 4 * (len v + num) < 2 ^ 31" and mem: "\<And>n. mem n"
  shows "\<exists>w. add_vector_elements mem v num = Inr (len v, w)"
proof -
  define shortage where "shortage = len v + num - alloc_len v"
  have l: "0 \<le> len v" "len v \<le> alloc_len v" and a: "int_ok (alloc_len v)"
    using ok by (auto simp: vec_ok_def)
  have sh: "shortage \<le> len v + num" using l by (simp add: shortage_def)
  show ?thesis
  proof (cases "shortage > 0")
    case True
    let ?b = "(len v + num + shortage) * 2"
    have b: "0 \<le> ?b" "alloc_len v + ?b < 2 ^ 31" using room sh l num True by auto
    then obtain v1 where g: "grow_vector mem v ?b = Inr v1"
      using mem l by (auto simp: grow_vector_def Let_def int_ok_def)
    note v1 = grow_vector_ok [OF ok g b(1)]
    have "nat (len v1) + nat num \<le> length (elements v1)"
      using v1 l num True by (auto simp: vec_ok_def shortage_def)
    moreover have "int_ok (len v + num)" "int_ok ?b" using l num room b by (auto simp: int_ok_def)
    ultimately show ?thesis
      using g v1 ini True by (auto simp: add_vector_elements_def Let_def shortage_def init_slots_spec)
  next
    case False
    then have "nat (len v) + nat num \<le> length (elements v)"
      using ok l num by (auto simp: vec_ok_def shortage_def)
    moreover have "int_ok (len v + num)" using l num room by (auto simp: int_ok_def)
    ultimately show ?thesis
      using ini False by (auto simp: add_vector_elements_def Let_def shortage_def init_slots_spec)
  qed
qed

text \<open>The only exit code of the vector operations is that of a failed allocation.\<close>

lemma add_vector_elements_no_exit:
  "add_vector_elements mem v num = Inl (Exit c) \<Longrightarrow> c = M_MEMORY"
proof -
  have g: "grow_vector mem v b = Inl (Exit c) \<Longrightarrow> c = M_MEMORY" for v :: "'a vector_t" and b
    by (auto simp: grow_vector_def errif_def Let_def split: if_splits)
  have i: "init_slots x k n es \<noteq> Inl (Exit c)" for x :: 'a and k n es
    by (induction x k n es rule: init_slots.induct) auto
  show "add_vector_elements mem v num = Inl (Exit c) \<Longrightarrow> c = M_MEMORY"
    using g i by (auto simp: add_vector_elements_def bindr_def Let_def
        split: if_splits sum.splits option.splits)
qed

lemma set_vector_elem_ok:
  assumes "vec_ok v" and "i < length (vec_list v)"
  shows "vec_ok (set_vector_elem v i x) \<and>
         vec_list (set_vector_elem v i x) = (vec_list v)[i := x]"
  using assms vec_ok_length [OF assms(1)]
  by (auto simp: vec_ok_def vec_list_def set_vector_elem_def nth_list_update take_update_swap
      map_update)

section \<open>The contract of the clients\<close>

text \<open>
  Every collection of goldfinger adds an object in two moves: \<open>add_vector_elements(v, 1)\<close>
  makes a default element, then the code fills it in through its pointer.
\<close>

locale pushable =
  fixes inv :: "'v \<Rightarrow> bool" and contents :: "'v \<Rightarrow> 'a list"
    and add_one :: "'v \<Rightarrow> (nat \<times> 'v) res" and put :: "'v \<Rightarrow> nat \<Rightarrow> 'a \<Rightarrow> 'v"
    and fresh :: 'a
  assumes add_one_law: "inv v \<Longrightarrow> add_one v = Inr (i, w) \<Longrightarrow>
      inv w \<and> i = length (contents v) \<and> contents w = contents v @ [fresh]"
    and put_law: "inv v \<Longrightarrow> j < length (contents v) \<Longrightarrow>
      inv (put v j x) \<and> contents (put v j x) = (contents v)[j := x]"
begin

definition push :: "'v \<Rightarrow> 'a \<Rightarrow> 'v res" where
  "push v x = bindr (add_one v) (\<lambda>(i, w). Inr (put w i x))"

lemma push_appends:
  assumes "inv v" and "push v x = Inr w"
  shows "inv w \<and> contents w = contents v @ [x]"
proof -
  obtain i u where a: "add_one v = Inr (i, u)" and w: "w = put u i x"
    using assms(2) by (auto simp: push_def)
  have u: "inv u" "i = length (contents v)" "contents u = contents v @ [fresh]"
    using add_one_law [OF assms(1) a] by auto
  then show ?thesis using put_law [of u i x] by (simp add: w)
qed

lemma push_all_appends:
  "inv v \<Longrightarrow> foldr_res push v xs = Inr w \<Longrightarrow> inv w \<and> contents w = contents v @ xs"
proof (induction xs arbitrary: v)
  case Nil
  then show ?case by simp
next
  case (Cons x xs)
  then obtain u where u: "push v x = Inr u" and r: "foldr_res push u xs = Inr w"
    by auto
  from push_appends [OF Cons.prems(1) u] Cons.IH [OF _ r] show ?case by simp
qed

end

definition vec_add_one :: "(int \<Rightarrow> bool) \<Rightarrow> 'a vector_t \<Rightarrow> (nat \<times> 'a vector_t) res" where
  "vec_add_one mem v = bindr (add_vector_elements mem v 1) (\<lambda>(i, w). Inr (nat i, w))"

interpretation vec: pushable
  "\<lambda>v. vec_ok v \<and> init_elem_func v = Some x0" vec_list "vec_add_one mem" set_vector_elem x0
  for x0 mem
proof (unfold_locales, goal_cases)
  case (1 v i w)
  then obtain k where a: "add_vector_elements mem v 1 = Inr (k, w)" and i: "i = nat k"
    by (auto simp: vec_add_one_def)
  have "k = len v \<and> vec_ok w \<and> vec_list w = vec_list v @ replicate (nat 1) x0 \<and>
      init_elem_func w = Some x0"
    by (rule add_vector_elements_appends [OF _ _ _ a]) (use 1 in auto)
  with i 1(1) vec_ok_length [of v] show ?case by auto
next
  case (2 v j x)
  then have "init_elem_func (set_vector_elem v j x) = Some x0"
    by (simp add: set_vector_elem_def)
  with set_vector_elem_ok [of v j x] 2 show ?case by auto
qed

section \<open>Iterating and searching\<close>

lemma iterate_slots_read_only:
  assumes "\<And>x s. f x s = bindr (g s x) (\<lambda>s'. Inr (x, s'))"
  shows "iterate_slots f (map Some xs) s =
         bindr (foldr_res g s xs) (\<lambda>s'. Inr (map Some xs, s'))"
proof (induction xs arbitrary: s)
  case Nil
  then show ?case by simp
next
  case (Cons x xs)
  show ?case
  proof (cases "g s x")
    case (Inr s')
    then show ?thesis by (cases "foldr_res g s' xs") (simp_all add: assms [of x s] Cons.IH)
  qed (simp add: assms [of x s])
qed

text \<open>An iteration that does not write to the elements is the list loop over the contents.\<close>

lemma iterate_vector_read_only:
  assumes "vec_ok v" and "\<And>x s. f x s = bindr (g s x) (\<lambda>s'. Inr (x, s'))"
  shows "iterate_vector f v s = bindr (foldr_res g s (vec_list v)) (\<lambda>s'. Inr (v, s'))"
proof -
  have "v\<lparr>elements := map Some (vec_list v) @ drop (nat (len v)) (elements v)\<rparr> = v"
    using vec_ok_slots [OF assms(1)] by (simp flip: vec_ok_slots [OF assms(1)])
  then show ?thesis
    using iterate_slots_read_only [of f g "vec_list v" s, OF assms(2)]
    by (cases "foldr_res g s (vec_list v)")
      (simp_all add: iterate_vector_def vec_ok_slots [OF assms(1)])
qed

lemma search_slots_found:
  "\<exists>r. search_slots p k (map Some xs) = Inr r \<and>
     (case r of None \<Rightarrow> find p xs = None
      | Some j \<Rightarrow> k \<le> j \<and> j - k < length xs \<and> find p xs = Some (xs ! (j - k)) \<and>
                   (\<forall>m < j - k. \<not> p (xs ! m)))"
proof (induction xs arbitrary: k)
  case Nil
  then show ?case by simp
next
  case (Cons x xs)
  show ?case
  proof (cases "p x")
    case False
    from Cons.IH [of "Suc k"] obtain r where r: "search_slots p (Suc k) (map Some xs) = Inr r"
      and c: "case r of None \<Rightarrow> find p xs = None
        | Some j \<Rightarrow> Suc k \<le> j \<and> j - Suc k < length xs \<and> find p xs = Some (xs ! (j - Suc k)) \<and>
                   (\<forall>m < j - Suc k. \<not> p (xs ! m))" by blast
    show ?thesis
    proof (cases r)
      case None
      with r c False show ?thesis by simp
    next
      case (Some j)
      with c have "Suc k \<le> j" by simp
      then have j: "j - k = Suc (j - Suc k)" by simp
      have "\<not> p ((x # xs) ! m)" if "m < j - k" for m
        using that c Some False j by (cases m) auto
      with r c Some False j show ?thesis by simp
    qed
  qed simp
qed

text \<open>\<open>search_vector\<close> returns the index of the first match, or nothing when there is none.\<close>

theorem search_vector_first:
  assumes "vec_ok v"
  shows "\<exists>r. search_vector v p = Inr r \<and>
     (case r of None \<Rightarrow> find p (vec_list v) = None
      | Some j \<Rightarrow> j < length (vec_list v) \<and> find p (vec_list v) = Some (vec_list v ! j) \<and>
                   (\<forall>m < j. \<not> p (vec_list v ! m)))"
  using search_slots_found [of p 0 "vec_list v", unfolded diff_zero]
  by (auto simp: search_vector_def vec_ok_slots [OF assms] split: option.splits)

lemma vector_elem_ok:
  assumes "vec_ok v" and "i < length (vec_list v)"
  shows "vector_elem v (int i) = Inr (vec_list v ! i)"
  using assms vec_ok_length [OF assms(1)] by (auto simp: vec_ok_def vec_list_def vector_elem_def)

text \<open>The checked access accepts exactly the indices below the logical length.\<close>

lemma range_check_Inr_iff:
  assumes "vec_ok v" and "elem_size v \<noteq> 0"
  shows "vector_elem_void_ptr_range_check v i = Inr off \<longleftrightarrow>
         0 \<le> i \<and> i < len v \<and> off = i * elem_size v"
  using assms by (auto simp: vector_elem_void_ptr_range_check_def vec_ok_def)

end
