(* ===== verification/GF_Physmap.thy ===== *)
theory GF_Physmap
  imports GF_Vector
begin

text \<open>
  \<open>physmap.c\<close>: the map of the physical address space. Its only purpose is to stop with
  \<open>M_PACOLLIDE\<close> when two regions of the memory image overlap. A region is a half-open
  interval of \<open>uint64_t\<close> addresses.
\<close>

datatype ent_names =
    None_names
  | Block_names string string      \<comment> \<open>section, segment\<close>
  | Object_names string string     \<comment> \<open>object type, object name\<close>

record physmap_ent =
  pm_start :: addr_t
  pm_stop :: addr_t
  pm_srcfile :: string
  pm_srcline :: int
  pm_lineno :: int
  pm_names :: ent_names

type_synonym physmap_t = "physmap_ent vector_t"

definition init_physmap_entry :: physmap_ent where
  "init_physmap_entry =
     \<lparr>pm_start = 0, pm_stop = 0, pm_srcfile = ''<unknown>'', pm_srcline = 0, pm_lineno = 0,
      pm_names = None_names\<rparr>"

definition init_physmap :: "(int \<Rightarrow> bool) \<Rightarrow> physmap_t res" where
  "init_physmap mem = init_vector mem (Some ''Physmap'') 8 (Some init_physmap_entry)"

definition destroy_physmap :: "physmap_t \<Rightarrow> physmap_ent option list \<times> physmap_t" where
  "destroy_physmap pm = deallocate_vector True pm"

text \<open>\<open>get_ent_descr_string\<close>: the second test assigns \<open>object_e\<close> instead of comparing, so
  an entry that is neither a block nor an object reads the names it never set.\<close>

definition STRBUF_SIZE :: nat where
  "STRBUF_SIZE = 2048"

definition get_ent_descr_string :: "physmap_ent \<Rightarrow> string res" where
  "get_ent_descr_string entry =
     (case pm_names entry of
        Block_names sec seg \<Rightarrow>
          Inr (take (STRBUF_SIZE - 1) (''SECTION '' @ quoted sec @ '', segment '' @ quoted seg))
      | Object_names ty nm \<Rightarrow>
          Inr (take (STRBUF_SIZE - 1) (ty @ '' '' @ quoted nm))
      | None_names \<Rightarrow> Inl Undef)"

definition collision_error :: "physmap_ent \<Rightarrow> physmap_ent \<Rightarrow> 'a res" where
  "collision_error check old =
     bindr (get_ent_descr_string old) (\<lambda>_. bindr (get_ent_descr_string check) (\<lambda>_.
       Inl (Exit M_PACOLLIDE)))"

definition check_vector_elem :: "physmap_ent \<Rightarrow> physmap_ent \<Rightarrow> unit res" where
  "check_vector_elem entry check =
     (if \<not> (pm_stop check \<le> pm_start entry \<or> pm_start check \<ge> pm_stop entry)
      then collision_error check entry else Inr ())"

definition check_entry_vs_vector :: "physmap_ent \<Rightarrow> physmap_t \<Rightarrow> unit res" where
  "check_entry_vs_vector entry pm =
     errif (pm_stop entry < pm_start entry) M_GOLDFINGERMISC
       (bindr (iterate_vector (\<lambda>x s. bindr (check_vector_elem x entry) (\<lambda>_. Inr (x, s))) pm ())
          (\<lambda>_. Inr ()))"

definition copy_physmap_entry :: "physmap_ent \<Rightarrow> physmap_ent \<Rightarrow> physmap_ent" where
  "copy_physmap_entry to from =
     (let t = to\<lparr>pm_start := pm_start from, pm_stop := pm_stop from,
                 pm_srcfile := pm_srcfile from, pm_srcline := pm_srcline from,
                 pm_lineno := pm_lineno from\<rparr>
      in case pm_names from of
           None_names \<Rightarrow> t\<lparr>pm_names := None_names\<rparr>
         | Block_names a b \<Rightarrow> t\<lparr>pm_names := Block_names a b\<rparr>
         | Object_names a b \<Rightarrow> t\<lparr>pm_names := Object_names a b\<rparr>)"

definition add_block_to_physmap ::
  "(int \<Rightarrow> bool) \<Rightarrow> physmap_t \<Rightarrow> string \<Rightarrow> int \<Rightarrow> int \<Rightarrow> addr_t \<Rightarrow> addr_t \<Rightarrow> string \<Rightarrow> string \<Rightarrow> physmap_t res"
where
  "add_block_to_physmap mem pm srcfile srcline lineno start stop section_name segment_name =
     (let local_entry = \<lparr>pm_start = start, pm_stop = stop, pm_srcfile = srcfile,
                         pm_srcline = srcline, pm_lineno = lineno,
                         pm_names = Block_names section_name segment_name\<rparr> in
      bindr (check_entry_vs_vector local_entry pm) (\<lambda>_.
      bindr (add_vector_elements mem pm 1) (\<lambda>(new_index, pm1).
      bindr (vector_elem pm1 new_index) (\<lambda>entry.
        Inr (set_vector_elem pm1 (nat new_index) (copy_physmap_entry entry local_entry))))))"

definition add_object_to_physmap ::
  "(int \<Rightarrow> bool) \<Rightarrow> physmap_t \<Rightarrow> string \<Rightarrow> int \<Rightarrow> int \<Rightarrow> addr_t \<Rightarrow> addr_t \<Rightarrow> string \<Rightarrow> string \<Rightarrow> physmap_t res"
where
  "add_object_to_physmap mem pm srcfile srcline lineno start stop object_type object_name =
     (let local_entry = \<lparr>pm_start = start, pm_stop = stop, pm_srcfile = srcfile,
                         pm_srcline = srcline, pm_lineno = lineno,
                         pm_names = Object_names object_type object_name\<rparr> in
      bindr (check_entry_vs_vector local_entry pm) (\<lambda>_.
      bindr (add_vector_elements mem pm 1) (\<lambda>(new_index, pm1).
      bindr (vector_elem pm1 new_index) (\<lambda>entry.
        Inr (set_vector_elem pm1 (nat new_index) (copy_physmap_entry entry local_entry))))))"

section \<open>What the map guarantees\<close>

text \<open>The bytes of a region.\<close>

definition region :: "physmap_ent \<Rightarrow> nat set" where
  "region e = {unat (pm_start e) ..< unat (pm_stop e)}"

text \<open>The invariant: every entry is named and non-reversed, and no two regions share a byte.\<close>

definition physmap_ok :: "physmap_t \<Rightarrow> bool" where
  "physmap_ok pm \<longleftrightarrow> vec_ok pm \<and> init_elem_func pm = Some init_physmap_entry \<and>
     (\<forall>e \<in> set (vec_list pm). pm_start e \<le> pm_stop e \<and> pm_names e \<noteq> None_names) \<and>
     (\<forall>i j. i < j \<longrightarrow> j < length (vec_list pm) \<longrightarrow>
        region (vec_list pm ! i) \<inter> region (vec_list pm ! j) = {})"

lemma init_physmap_ok: "init_physmap mem = Inr pm \<Longrightarrow> physmap_ok pm \<and> vec_list pm = []"
  using init_vector_ok [of mem "Some ''Physmap''" 8 "Some init_physmap_entry" pm]
  by (auto simp: init_physmap_def physmap_ok_def init_vector_def)

lemma copy_physmap_entry_eq [simp]: "copy_physmap_entry dst src = src"
  by (cases src; cases dst) (auto simp: copy_physmap_entry_def Let_def split: ent_names.splits)

text \<open>The overlap test of \<open>check_vector_elem\<close>.\<close>

definition overlaps :: "physmap_ent \<Rightarrow> physmap_ent \<Rightarrow> bool" where
  "overlaps a b \<longleftrightarrow> pm_start b < pm_stop a \<and> pm_start a < pm_stop b"

lemma overlaps_region:
  assumes "pm_start a < pm_stop a" and "pm_start b < pm_stop b"
  shows "overlaps a b \<longleftrightarrow> region a \<inter> region b \<noteq> {}"
proof -
  have "region a \<inter> region b =
      {max (unat (pm_start a)) (unat (pm_start b)) ..< min (unat (pm_stop a)) (unat (pm_stop b))}"
    by (auto simp: region_def)
  then show ?thesis
    using assms by (auto simp: overlaps_def word_less_nat_alt)
qed

lemma not_overlaps_disjoint: "\<not> overlaps a b \<Longrightarrow> region a \<inter> region b = {}"
  by (auto simp: overlaps_def region_def word_less_nat_alt)

lemma check_vector_elem_eq:
  assumes "pm_names e \<noteq> None_names" and "pm_names c \<noteq> None_names"
  shows "check_vector_elem e c = (if overlaps c e then Inl (Exit M_PACOLLIDE) else Inr ())"
  using assms
  by (auto simp: check_vector_elem_def collision_error_def get_ent_descr_string_def overlaps_def
      not_le split: ent_names.splits)

lemma check_all_eq:
  assumes "\<forall>e \<in> set es. pm_names e \<noteq> None_names" and "pm_names c \<noteq> None_names"
  shows "foldr_res (\<lambda>s x. bindr (check_vector_elem x c) (\<lambda>_. Inr s)) () es =
         (if \<exists>e \<in> set es. overlaps c e then Inl (Exit M_PACOLLIDE) else Inr ())"
  using assms by (induction es) (auto simp: check_vector_elem_eq)

lemma check_entry_vs_vector_eq:
  assumes "physmap_ok pm" and "pm_names c \<noteq> None_names"
  shows "check_entry_vs_vector c pm =
     (if pm_stop c < pm_start c then Inl (Exit M_GOLDFINGERMISC)
      else if \<exists>e \<in> set (vec_list pm). overlaps c e then Inl (Exit M_PACOLLIDE) else Inr ())"
proof -
  have "iterate_vector (\<lambda>x s. bindr (check_vector_elem x c) (\<lambda>_. Inr (x, s))) pm () =
      bindr (foldr_res (\<lambda>s x. bindr (check_vector_elem x c) (\<lambda>_. Inr s)) () (vec_list pm))
        (\<lambda>s'. Inr (pm, s'))"
    using assms(1)
    by (intro iterate_vector_read_only) (auto simp: physmap_ok_def bindr_def split: sum.splits)
  moreover have "foldr_res (\<lambda>s x. bindr (check_vector_elem x c) (\<lambda>_. Inr s)) () (vec_list pm) =
      (if \<exists>e \<in> set (vec_list pm). overlaps c e then Inl (Exit M_PACOLLIDE) else Inr ())"
    using assms by (intro check_all_eq) (auto simp: physmap_ok_def)
  ultimately show ?thesis by (auto simp: check_entry_vs_vector_def)
qed

text \<open>The common tail of the two \<open>add_*_to_physmap\<close> functions.\<close>

lemma physmap_push:
  assumes ok: "physmap_ok pm" and c: "pm_names c \<noteq> None_names"
    and check: "check_entry_vs_vector c pm = Inr ()"
    and add: "bindr (add_vector_elements mem pm 1) (\<lambda>(i, pm1). bindr (vector_elem pm1 i) (\<lambda>e.
        Inr (set_vector_elem pm1 (nat i) (copy_physmap_entry e c)))) = Inr pm'"
  shows "physmap_ok pm' \<and> vec_list pm' = vec_list pm @ [c] \<and>
         (\<forall>e \<in> set (vec_list pm). region e \<inter> region c = {})"
proof -
  have no: "pm_start c \<le> pm_stop c" "\<forall>e \<in> set (vec_list pm). \<not> overlaps c e"
    using check unfolding check_entry_vs_vector_eq [OF ok c] by (auto split: if_splits)
  from no(2) have dis: "\<forall>e \<in> set (vec_list pm). region e \<inter> region c = {}"
    using not_overlaps_disjoint by blast
  have "vec.push mem pm c = Inr pm'"
    using add by (auto simp: vec.push_def vec_add_one_def)
  moreover have v: "vec_ok pm \<and> init_elem_func pm = Some init_physmap_entry"
    using ok by (simp add: physmap_ok_def)
  ultimately have l: "vec_ok pm' \<and> init_elem_func pm' = Some init_physmap_entry"
      "vec_list pm' = vec_list pm @ [c]"
    using vec.push_appends [of pm init_physmap_entry mem c pm'] by auto
  moreover have "region ((vec_list pm @ [c]) ! i) \<inter> region ((vec_list pm @ [c]) ! j) = {}"
    if "i < j" "j < length (vec_list pm @ [c])" for i j
    using that ok dis by (cases "j = length (vec_list pm)") (auto simp: physmap_ok_def nth_append)
  ultimately show ?thesis
    using ok c no(1) dis by (auto simp: physmap_ok_def)
qed

lemma add_object_keeps:
  assumes "physmap_ok pm" and "add_object_to_physmap mem pm f l n start stop ty nm = Inr pm'"
  shows "physmap_ok pm' \<and> (\<exists>c. vec_list pm' = vec_list pm @ [c] \<and>
           pm_start c = start \<and> pm_stop c = stop \<and> pm_names c = Object_names ty nm \<and>
           (\<forall>e \<in> set (vec_list pm). region e \<inter> region c = {}))"
proof -
  let ?c = "\<lparr>pm_start = start, pm_stop = stop, pm_srcfile = f, pm_srcline = l, pm_lineno = n,
             pm_names = Object_names ty nm\<rparr>"
  have "check_entry_vs_vector ?c pm = Inr ()" and
    "bindr (add_vector_elements mem pm 1) (\<lambda>(i, pm1). bindr (vector_elem pm1 i) (\<lambda>e.
        Inr (set_vector_elem pm1 (nat i) (copy_physmap_entry e ?c)))) = Inr pm'"
    using assms(2) by (auto simp: add_object_to_physmap_def Let_def)
  from physmap_push [OF assms(1) _ this] show ?thesis
    by (intro conjI exI [of _ ?c]) auto
qed

lemma add_block_keeps:
  assumes "physmap_ok pm" and "add_block_to_physmap mem pm f l n start stop sec seg = Inr pm'"
  shows "physmap_ok pm' \<and> (\<exists>c. vec_list pm' = vec_list pm @ [c] \<and>
           pm_start c = start \<and> pm_stop c = stop \<and> pm_names c = Block_names sec seg \<and>
           (\<forall>e \<in> set (vec_list pm). region e \<inter> region c = {}))"
proof -
  let ?c = "\<lparr>pm_start = start, pm_stop = stop, pm_srcfile = f, pm_srcline = l, pm_lineno = n,
             pm_names = Block_names sec seg\<rparr>"
  have "check_entry_vs_vector ?c pm = Inr ()" and
    "bindr (add_vector_elements mem pm 1) (\<lambda>(i, pm1). bindr (vector_elem pm1 i) (\<lambda>e.
        Inr (set_vector_elem pm1 (nat i) (copy_physmap_entry e ?c)))) = Inr pm'"
    using assms(2) by (auto simp: add_block_to_physmap_def Let_def)
  from physmap_push [OF assms(1) _ this] show ?thesis
    by (intro conjI exI [of _ ?c]) auto
qed

text \<open>Exactly when an insertion is refused with a collision.\<close>

lemma add_block_collides_iff:
  assumes "physmap_ok pm"
  shows "add_block_to_physmap (\<lambda>_. True) pm f l n start stop sec seg = Inl (Exit M_PACOLLIDE) \<longleftrightarrow>
     start \<le> stop \<and> (\<exists>e \<in> set (vec_list pm). pm_start e < stop \<and> start < pm_stop e)"
proof -
  let ?c = "\<lparr>pm_start = start, pm_stop = stop, pm_srcfile = f, pm_srcline = l, pm_lineno = n,
             pm_names = Block_names sec seg\<rparr>"
  have tail: "add_vector_elements (\<lambda>_. True) pm 1 \<noteq> Inl (Exit M_PACOLLIDE)"
    using add_vector_elements_no_exit by blast
  have ve: "vector_elem v i \<noteq> Inl (Exit M_PACOLLIDE)" for v :: physmap_t and i
    by (auto simp: vector_elem_def the_res_def split: option.splits)
  have "add_block_to_physmap (\<lambda>_. True) pm f l n start stop sec seg = Inl (Exit M_PACOLLIDE) \<longleftrightarrow>
        check_entry_vs_vector ?c pm = Inl (Exit M_PACOLLIDE)"
    using tail ve by (auto simp: add_block_to_physmap_def Let_def bindr_def split: sum.splits)
  also have "\<dots> \<longleftrightarrow> start \<le> stop \<and> (\<exists>e \<in> set (vec_list pm). overlaps ?c e)"
    using check_entry_vs_vector_eq [OF assms, of ?c] by (auto split: if_splits)
  finally show ?thesis by (auto simp: overlaps_def)
qed

end
