(* ===== verification/GF_Image.thy ===== *)
theory GF_Image
  imports GF_Physmap
begin

text \<open>
  The image file goldfinger writes, as the sequence of pieces its \<open>fprintf\<close> calls emit:
  an address line, a line of 64-bit words, a comment, an empty line. \<open>render\<close> gives the
  characters; \<open>load_items\<close> is what the file means: the 64-bit words it places and their
  addresses, an address line moving the location and a data line advancing it.
\<close>

section \<open>Pieces of the file\<close>

datatype img_item =
    At addr_t string            \<comment> \<open>@address, tab, // text\<close>
  | Row64 "u64 list"            \<comment> \<open>%016lx separated by blanks\<close>
  | Row32 "(u32 \<times> u32) list"    \<comment> \<open>%08x%08x separated by blanks\<close>
  | Note string                 \<comment> \<open>// text\<close>
  | Blank

fun join :: "string \<Rightarrow> string list \<Rightarrow> string" where
  "join s [] = []"
| "join s [x] = x"
| "join s (x # xs) = x @ s @ join s xs"

fun render_item :: "img_item \<Rightarrow> string" where
  "render_item (At a txt) = ''@'' @ hex_digits 16 a @ TAB @ ''// '' @ txt @ NL"
| "render_item (Row64 ws) = join '' '' (map (hex_digits 16) ws) @ NL"
| "render_item (Row32 ps) = join '' '' (map (\<lambda>(a, b). hex_digits 8 a @ hex_digits 8 b) ps) @ NL"
| "render_item (Note txt) = ''// '' @ txt @ NL"
| "render_item Blank = NL"

definition render :: "img_item list \<Rightarrow> string" where
  "render items = concat (map render_item items)"

text \<open>\<open>%ld\<close> of an unsigned 64-bit value prints its signed reading.\<close>

definition from_compressed :: "addr_t \<Rightarrow> string" where
  "from_compressed start = ''from compressed 0x'' @ hex_digits 16 start"

definition zero_bytes :: "addr_t \<Rightarrow> string" where
  "zero_bytes n = ''zero_bytes '' @ dec_int (sint n)"

section \<open>What the file means\<close>

fun place :: "addr_t \<Rightarrow> u64 list \<Rightarrow> (addr_t \<times> u64) list" where
  "place a [] = []"
| "place a (w # ws) = (a, w) # place (a + 8) ws"

definition word_pair :: "u32 \<times> u32 \<Rightarrow> u64" where
  "word_pair p = push_bit 32 (ucast (fst p)) OR ucast (snd p)"

fun load_items :: "addr_t \<Rightarrow> img_item list \<Rightarrow> (addr_t \<times> u64) list" where
  "load_items a [] = []"
| "load_items a (At b txt # is) = load_items b is"
| "load_items a (Row64 ws # is) = place a ws @ load_items (a + of_nat (8 * length ws)) is"
| "load_items a (Row32 ps # is) =
     place a (map word_pair ps) @ load_items (a + of_nat (8 * length ps)) is"
| "load_items a (Note txt # is) = load_items a is"
| "load_items a (Blank # is) = load_items a is"

text \<open>The location after the pieces.\<close>

fun load_loc :: "addr_t \<Rightarrow> img_item list \<Rightarrow> addr_t" where
  "load_loc a [] = a"
| "load_loc a (At b txt # is) = load_loc b is"
| "load_loc a (Row64 ws # is) = load_loc (a + of_nat (8 * length ws)) is"
| "load_loc a (Row32 ps # is) = load_loc (a + of_nat (8 * length ps)) is"
| "load_loc a (Note txt # is) = load_loc a is"
| "load_loc a (Blank # is) = load_loc a is"

lemma load_items_append:
  "load_items a (xs @ ys) = load_items a xs @ load_items (load_loc a xs) ys"
  by (induction a xs rule: load_items.induct) simp_all

lemma load_loc_append: "load_loc a (xs @ ys) = load_loc (load_loc a xs) ys"
  by (induction a xs rule: load_loc.induct) simp_all

lemma place_append: "place a (xs @ ys) = place a xs @ place (a + of_nat (8 * length xs)) ys"
  by (induction xs arbitrary: a) (simp_all add: algebra_simps)

lemma render_append: "render (xs @ ys) = render xs @ render ys"
  by (simp add: render_def)

section \<open>Compressed runs\<close>

text \<open>The pieces that close a run of skipped zero lines, which starts at \<open>last_addr\<close> and ends
  at \<open>cur\<close>. \<open>env_zero\<close> is \<open>EnvZero\<close>.\<close>

definition end_of_run :: "bool \<Rightarrow> bool \<Rightarrow> addr_t \<Rightarrow> addr_t \<Rightarrow> addr_t \<Rightarrow> img_item list" where
  "end_of_run env_zero printed_data last_addr start cur =
     (if env_zero
      then (if printed_data then [Blank, At last_addr (from_compressed start)] else [])
           @ [Note (zero_bytes (cur - last_addr)), Blank]
      else [Blank])"

lemma end_of_run_no_data [simp]:
  "load_items a (end_of_run env_zero p l s c) = []"
  by (simp add: end_of_run_def)

section \<open>The memory an image sets up\<close>

text \<open>Memory that is zero before the image is loaded; a later word overwrites an earlier one.\<close>

definition memory_of :: "(addr_t \<times> u64) list \<Rightarrow> addr_t \<Rightarrow> u64" where
  "memory_of ws a = (case map_of (rev ws) a of None \<Rightarrow> 0 | Some w \<Rightarrow> w)"

lemma memory_of_append:
  "memory_of (xs @ ys) a = (if a \<in> fst ` set ys then memory_of ys a else memory_of xs a)"
proof -
  have "map_of (rev ys) a = None \<longleftrightarrow> a \<notin> fst ` set ys" by (simp add: map_of_eq_None_iff)
  then show ?thesis by (auto simp: memory_of_def map_of_append map_add_def split: option.splits)
qed

lemma memory_of_outside: "a \<notin> fst ` set ws \<Longrightarrow> memory_of ws a = 0"
  by (simp add: memory_of_def map_of_eq_None_iff [THEN iffD2])

lemma memory_of_in: "distinct (map fst ws) \<Longrightarrow> (a, w) \<in> set ws \<Longrightarrow> memory_of ws a = w"
proof -
  assume d: "distinct (map fst ws)" and w: "(a, w) \<in> set ws"
  have "map_of (rev ws) a = Some w"
    using d w by (subst map_of_eq_Some_iff) (auto simp: rev_map [symmetric])
  then show ?thesis by (simp add: memory_of_def)
qed

lemma place_conv: "place a ws = map (\<lambda>i. (a + of_nat (8 * i), ws ! i)) [0..<length ws]"
proof (induction ws rule: rev_induct)
  case (snoc w ws)
  then show ?case by (simp add: place_append nth_append)
qed simp

text \<open>Lines of four words, some of them left out.\<close>

lemma concat_lines:
  assumes "\<And>k. k < m \<Longrightarrow> line k = (if skip k then [] else place (start + of_nat (32 * k)) (map W [4 * k ..< 4 * k + 4]))"
  shows "concat (map line [0..<m]) =
     map (\<lambda>j. (start + of_nat (8 * j), W j)) (filter (\<lambda>j. \<not> skip (j div 4)) [0 ..< 4 * m])"
  using assms
proof (induction m)
  case (Suc m)
  have upt: "[4 * m ..< 4 * m + 4] = [4 * m, 4 * m + 1, 4 * m + 2, 4 * m + 3]"
    by (simp add: upt_rec)
  have split: "[0 ..< 4 * Suc m] = [0 ..< 4 * m] @ [4 * m ..< 4 * m + 4]"
    using upt_add_eq_append [of 0 "4 * m" 4] by (simp add: add.commute)
  have q: "4 * m div 4 = m" "(4 * m + 1) div 4 = m" "(4 * m + 2) div 4 = m" "(4 * m + 3) div 4 = m" by simp_all
  define f where "f = (\<lambda>j. (start + of_nat (8 * j), W j))"
  have "line m = map f (filter (\<lambda>j. \<not> skip (j div 4)) [4 * m ..< 4 * m + 4])"
  proof (cases "skip m")
    case True
    then show ?thesis using Suc.prems [of m] by (simp only: upt filter.simps q) simp
  next
    case False
    then show ?thesis
      using Suc.prems [of m] by (simp only: upt filter.simps q) (simp add: f_def algebra_simps)
  qed
  moreover have "concat (map line [0..<m]) = map f (filter (\<lambda>j. \<not> skip (j div 4)) [0 ..< 4 * m])"
    unfolding f_def by (rule Suc.IH) (simp add: Suc.prems)
  ultimately show ?case unfolding f_def [symmetric] split by simp
qed simp

lemma word_addr_inj:
  assumes "start + of_nat (8 * i) = start + (of_nat (8 * j) :: 64 word)" and "8 * i < 2 ^ 64" and "8 * j < 2 ^ 64"
  shows "i = j"
proof -
  from assms(1) have "unat (of_nat (8 * i) :: 64 word) = unat (of_nat (8 * j) :: 64 word)" by (simp del: of_nat_mult)
  with assms(2,3) show ?thesis by (simp add: unat_of_nat take_bit_eq_mod del: of_nat_mult)
qed

lemma memory_lines:
  assumes ws: "ws = map (\<lambda>j. (start + of_nat (8 * j), W j)) (filter (\<lambda>j. \<not> skip (j div 4)) [0 ..< 4 * m])"
    and small: "32 * m \<le> 2 ^ 64" and j: "j < 4 * m" and zero: "skip (j div 4) \<Longrightarrow> W j = 0"
  shows "memory_of ws (start + of_nat (8 * j)) = W j"
proof -
  have keys: "map fst ws = map (\<lambda>j. start + of_nat (8 * j)) (filter (\<lambda>j. \<not> skip (j div 4)) [0 ..< 4 * m])"
    by (simp add: ws comp_def)
  have lt: "8 * i < 2 ^ 64" if "i < 4 * m" for i using that small by simp
  have inj: "inj_on (\<lambda>j. start + of_nat (8 * j) :: 64 word) (set (filter (\<lambda>j. \<not> skip (j div 4)) [0 ..< 4 * m]))"
  proof (rule inj_onI)
    fix x y
    assume "x \<in> set (filter (\<lambda>j. \<not> skip (j div 4)) [0 ..< 4 * m])"
      "y \<in> set (filter (\<lambda>j. \<not> skip (j div 4)) [0 ..< 4 * m])"
      "start + of_nat (8 * x) = start + (of_nat (8 * y) :: 64 word)"
    then show "x = y" by (intro word_addr_inj [OF _ lt lt]) auto
  qed
  have d: "distinct (map fst ws)" unfolding keys by (simp only: distinct_map inj) simp
  show ?thesis
  proof (cases "skip (j div 4)")
    case False
    then have "(start + of_nat (8 * j), W j) \<in> set ws" using j by (auto simp: ws)
    then show ?thesis by (rule memory_of_in [OF d])
  next
    case True
    have "start + of_nat (8 * j) \<notin> fst ` set ws"
    proof
      assume "start + of_nat (8 * j) \<in> fst ` set ws"
      then obtain i where "i < 4 * m" "\<not> skip (i div 4)" "start + of_nat (8 * j) = start + (of_nat (8 * i) :: 64 word)"
        by (auto simp: ws)
      with word_addr_inj [OF this(3) lt [OF j] lt] True show False by simp
    qed
    with zero [OF True] show ?thesis by (simp add: memory_of_outside)
  qed
qed

text \<open>The addresses an item list writes to, when it fills \<open>m\<close> lines from \<open>start\<close>.\<close>

lemma lines_keys:
  fixes start :: addr_t
  assumes ws: "ws = map (\<lambda>j. (start + of_nat (8 * j), W j)) (filter P [0 ..< 4 * m])"
    and nowrap: "unat start + 32 * m \<le> 2 ^ 64" and a: "a \<in> fst ` set ws"
  shows "unat start \<le> unat a \<and> unat a < unat start + 32 * m"
proof -
  from a obtain j where j: "j < 4 * m" "a = start + of_nat (8 * j)" by (auto simp: ws)
  have "unat (of_nat (8 * j) :: 64 word) = 8 * j"
    using j nowrap by (subst unat_of_nat) (simp add: take_bit_eq_mod)
  moreover have "unat start + 8 * j < 2 ^ 64" using j nowrap by simp
  ultimately have "unat a = unat start + 8 * j"
    unfolding j(2) unat_word_ariths by (simp del: of_nat_mult)
  then show ?thesis using j by simp
qed

end
