(* ===== verification/GF_Tsb_Link.thy ===== *)
theory GF_Tsb_Link
  imports GF_Chain GF_Image
begin

text \<open>
  \<open>tsb_link.c\<close>: the overflow areas in which a TSB keeps the entries that collide. An area is
  an array of 32-byte nodes; a node carries a tag, a data word (for a \<open>tsbcsm\<close> area the clump
  number in the same place), the physical address of the next node (\<open>link\<close>) and of itself
  (\<open>my_link\<close>), and a C pointer \<open>next\<close> that the tool itself follows. \<open>next\<close> is
  an index here: nodes are allocated one by one and never move.

  The C code lays \<open>tsbcsm_link_entry_t\<close> over nodes made by \<open>init_entry\<close> of the other
  type and casts between the two pointer types, so both areas share one node record, in which
  \<open>le_data\<close> stands for \<open>data\<close> and \<open>clump_num\<close>.

  The vectors of areas and of nodes are lists whose growth is taken to succeed: the \<open>M_MEMORY\<close> exits
  of \<open>add_vector_elements\<close> on them are left out.

  Lemmas: the area invariant (\<open>area_ok\<close>) and what \<open>tsb_link_add_entry\<close> does to the
  chains, as an interpretation of \<open>overflow_area\<close>.
\<close>

section \<open>Nodes, areas and TSB entries\<close>

record tsb_entry =
  te_tag :: u64
  te_data :: u64
  te_block :: "block_ref option"
  te_block_tsb :: "block_tsb_ref option"

record tsbcsm_entry =
  ce_tag :: u64
  ce_data :: u64
  ce_clump_num :: u64
  ce_block :: "block_ref option"
  ce_block_tsb :: "block_tsb_ref option"

record tsb_link_entry =
  le_tag :: u64
  le_data :: u64
  le_link :: u64
  le_block :: "block_ref option"
  le_block_tsb :: "block_tsb_ref option"
  le_my_link :: u64
  le_next :: "nat option"

record tsb_link =
  tl_name :: string
  tl_start_addr :: addr_t
  tl_srcfile :: string
  tl_srcline :: int
  tl_entries :: "tsb_link_entry list"
  tl_lineno :: int

type_synonym tsbcsm_link_entry = tsb_link_entry
type_synonym tsbcsm_link = tsb_link

definition UNSPECIFIED_START :: u64 where "UNSPECIFIED_START = - 1"
definition EOL :: u64 where "EOL = - 1"
definition TSB_LINK_TAG :: u64 where "TSB_LINK_TAG = - 1"
definition LINK_SIZE :: int where "LINK_SIZE = 32"

text \<open>The pointers \<open>block\<close> and \<open>block_tsb\<close> are left uninitialised by \<open>init_entry\<close>
  and set by its callers.\<close>

definition init_entry :: tsb_link_entry where
  "init_entry = \<lparr>le_tag = 0, le_data = 0, le_link = EOL, le_block = None, le_block_tsb = None,
                 le_my_link = EOL, le_next = None\<rparr>"

definition init_tsb_link :: tsb_link where
  "init_tsb_link = \<lparr>tl_name = ''<no_name>'', tl_start_addr = UNSPECIFIED_START,
     tl_srcfile = ''<unknown>'', tl_srcline = 0, tl_entries = [], tl_lineno = 0\<rparr>"

definition init_tsbcsm_link :: tsbcsm_link where
  "init_tsbcsm_link = \<lparr>tl_name = ''<no_name>'', tl_start_addr = UNSPECIFIED_START,
     tl_srcfile = ''<unknown>'', tl_srcline = 0, tl_entries = [], tl_lineno = 0\<rparr>"

section \<open>The vector of areas, filled by the parser\<close>

text \<open>\<open>Tsb_link_vector\<close> with its open index (\<open>NO_OPEN_TSB_LINK\<close> is -1), and the same
  pair for \<open>Tsbcsm_link_vector\<close>.\<close>

record link_vector_st =
  lv_vector :: "tsb_link list"
  lv_open :: int

definition NO_OPEN_TSB_LINK :: int where "NO_OPEN_TSB_LINK = - 1"

definition clear_tsb_link_vector :: "link_vector_st \<Rightarrow> link_vector_st" where
  "clear_tsb_link_vector s = s\<lparr>lv_vector := []\<rparr>"

definition clear_tsbcsm_link_vector :: "link_vector_st \<Rightarrow> link_vector_st" where
  "clear_tsbcsm_link_vector s = s\<lparr>lv_vector := []\<rparr>"

fun find_index_from :: "('a \<Rightarrow> bool) \<Rightarrow> nat \<Rightarrow> 'a list \<Rightarrow> nat option" where
  "find_index_from p i [] = None"
| "find_index_from p i (x # xs) = (if p x then Some i else find_index_from p (Suc i) xs)"

definition get_tsb_link_ptr_by_name :: "link_vector_st \<Rightarrow> string \<Rightarrow> nat option" where
  "get_tsb_link_ptr_by_name s name = find_index_from (\<lambda>l. name = tl_name l) 0 (lv_vector s)"

definition get_tsbcsm_link_ptr_by_name :: "link_vector_st \<Rightarrow> string \<Rightarrow> nat option" where
  "get_tsbcsm_link_ptr_by_name s name = find_index_from (\<lambda>l. name = tl_name l) 0 (lv_vector s)"

definition open_new_tsb_link :: "link_vector_st \<Rightarrow> string \<Rightarrow> int \<Rightarrow> link_vector_st res" where
  "open_new_tsb_link s name lineno =
     (let exists_error = get_tsb_link_ptr_by_name s name \<noteq> None;
          new_index = length (lv_vector s);
          tsb_link = init_tsb_link\<lparr>tl_name := name, tl_lineno := lineno\<rparr>
      in errif exists_error M_BADTSB
           (Inr (s\<lparr>lv_vector := lv_vector s @ [tsb_link], lv_open := int new_index\<rparr>)))"

definition open_new_tsbcsm_link :: "link_vector_st \<Rightarrow> string \<Rightarrow> int \<Rightarrow> link_vector_st res" where
  "open_new_tsbcsm_link s name lineno =
     (let exists_error = get_tsbcsm_link_ptr_by_name s name \<noteq> None;
          new_index = length (lv_vector s);
          tsb_link = init_tsbcsm_link\<lparr>tl_name := name, tl_lineno := lineno\<rparr>
      in errif exists_error M_BADTSB
           (Inr (s\<lparr>lv_vector := lv_vector s @ [tsb_link], lv_open := int new_index\<rparr>)))"

definition sanity_check_tsb_link :: "tsb_link \<Rightarrow> unit res" where
  "sanity_check_tsb_link l = errif (tl_start_addr l = UNSPECIFIED_START) M_BADTSB (Inr ())"

definition sanity_check_tsbcsm_link :: "tsbcsm_link \<Rightarrow> unit res" where
  "sanity_check_tsbcsm_link l = errif (tl_start_addr l = UNSPECIFIED_START) M_BADTSB (Inr ())"

text \<open>\<open>VECTOR_ELEM(vector, open_index, ...)\<close>: index -1 is out of range.\<close>

definition open_elem :: "'a list \<Rightarrow> int \<Rightarrow> 'a res" where
  "open_elem xs i = (if 0 \<le> i then nth_res xs (nat i) else Inl Undef)"

definition update_open :: "('a \<Rightarrow> 'a) \<Rightarrow> 'a list \<Rightarrow> int \<Rightarrow> 'a list res" where
  "update_open f xs i = bindr (open_elem xs i) (\<lambda>x. Inr (xs[nat i := f x]))"

definition close_tsb_link :: "link_vector_st \<Rightarrow> link_vector_st res" where
  "close_tsb_link s = errif (lv_open s = NO_OPEN_TSB_LINK) M_GOLDFINGERPARSE
     (bindr (open_elem (lv_vector s) (lv_open s)) (\<lambda>l.
      bindr (sanity_check_tsb_link l) (\<lambda>_. Inr (s\<lparr>lv_open := NO_OPEN_TSB_LINK\<rparr>))))"

definition close_tsbcsm_link :: "link_vector_st \<Rightarrow> link_vector_st res" where
  "close_tsbcsm_link s = errif (lv_open s = NO_OPEN_TSB_LINK) M_GOLDFINGERPARSE
     (bindr (open_elem (lv_vector s) (lv_open s)) (\<lambda>l.
      bindr (sanity_check_tsbcsm_link l) (\<lambda>_. Inr (s\<lparr>lv_open := NO_OPEN_TSB_LINK\<rparr>))))"

text \<open>The setters that the macros \<open>SET_TSB_LINK\<close> and \<open>SET_TSBCSM_LINK\<close> generate.\<close>

definition set_tsb_link :: "(tsb_link \<Rightarrow> tsb_link) \<Rightarrow> link_vector_st \<Rightarrow> link_vector_st res" where
  "set_tsb_link f s = bindr (update_open f (lv_vector s) (lv_open s)) (\<lambda>v. Inr (s\<lparr>lv_vector := v\<rparr>))"

definition set_tsb_link_start_addr :: "addr_t \<Rightarrow> link_vector_st \<Rightarrow> link_vector_st res" where
  "set_tsb_link_start_addr a = set_tsb_link (\<lambda>l. l\<lparr>tl_start_addr := a\<rparr>)"

definition set_tsb_link_srcfile :: "string \<Rightarrow> link_vector_st \<Rightarrow> link_vector_st res" where
  "set_tsb_link_srcfile f = set_tsb_link (\<lambda>l. l\<lparr>tl_srcfile := f\<rparr>)"

definition set_tsb_link_srcline :: "int \<Rightarrow> link_vector_st \<Rightarrow> link_vector_st res" where
  "set_tsb_link_srcline n = set_tsb_link (\<lambda>l. l\<lparr>tl_srcline := n\<rparr>)"

section \<open>Chains\<close>

text \<open>\<open>start_addr + (new_index * LINK_SIZE)\<close>, the product in \<open>int\<close>.\<close>

definition link_addr :: "addr_t \<Rightarrow> nat \<Rightarrow> addr_t res" where
  "link_addr start i = (if int_ok (int i * LINK_SIZE) then Inr (start + of_int (int i * LINK_SIZE))
                        else Inl Undef)"

definition start_new_chain ::
  "tsb_link \<Rightarrow> u64 \<Rightarrow> u64 \<Rightarrow> block_ref option \<Rightarrow> block_tsb_ref option \<Rightarrow> (nat \<times> tsb_link) res"
where
  "start_new_chain l tag data block block_tsb =
     (let new_index = length (tl_entries l) in
      bindr (link_addr (tl_start_addr l) new_index) (\<lambda>my_link.
        Inr (new_index, l\<lparr>tl_entries := tl_entries l @
          [\<lparr>le_tag = tag, le_data = data, le_link = EOL, le_block = block,
            le_block_tsb = block_tsb, le_my_link = my_link, le_next = None\<rparr>]\<rparr>)))"

definition start_new_csm_chain ::
  "tsbcsm_link \<Rightarrow> u64 \<Rightarrow> u64 \<Rightarrow> block_ref option \<Rightarrow> block_tsb_ref option \<Rightarrow> (nat \<times> tsbcsm_link) res"
where
  "start_new_csm_chain l tag clump_num block block_tsb =
     (let new_index = length (tl_entries l) in
      bindr (link_addr (tl_start_addr l) new_index) (\<lambda>my_link.
        Inr (new_index, l\<lparr>tl_entries := tl_entries l @
          [\<lparr>le_tag = tag, le_data = clump_num, le_link = EOL, le_block = block,
            le_block_tsb = block_tsb, le_my_link = my_link, le_next = None\<rparr>]\<rparr>)))"

text \<open>Node \<open>k\<close> is the end of the chain the new node is hung on.\<close>

definition add_to_chain ::
  "tsb_link \<Rightarrow> nat \<Rightarrow> u64 \<Rightarrow> u64 \<Rightarrow> block_ref option \<Rightarrow> block_tsb_ref option \<Rightarrow> tsb_link res"
where
  "add_to_chain l k tag data block block_tsb =
     (let new_index = length (tl_entries l) in
      bindr (link_addr (tl_start_addr l) new_index) (\<lambda>my_link.
      let es = tl_entries l @
          [\<lparr>le_tag = tag, le_data = data, le_link = EOL, le_block = block,
            le_block_tsb = block_tsb, le_my_link = my_link, le_next = None\<rparr>] in
      bindr (nth_res es k) (\<lambda>link_entry.
        Inr (l\<lparr>tl_entries := es[k := link_entry\<lparr>le_link := my_link, le_next := Some new_index\<rparr>]\<rparr>))))"

definition add_csm_to_chain ::
  "tsbcsm_link \<Rightarrow> nat \<Rightarrow> u64 \<Rightarrow> u64 \<Rightarrow> block_ref option \<Rightarrow> block_tsb_ref option \<Rightarrow> tsbcsm_link res"
where
  "add_csm_to_chain l k tag clump_num block block_tsb =
     (let new_index = length (tl_entries l) in
      bindr (link_addr (tl_start_addr l) new_index) (\<lambda>my_link.
      let es = tl_entries l @
          [\<lparr>le_tag = tag, le_data = clump_num, le_link = EOL, le_block = block,
            le_block_tsb = block_tsb, le_my_link = my_link, le_next = None\<rparr>] in
      bindr (nth_res es k) (\<lambda>link_entry.
        Inr (l\<lparr>tl_entries := es[k := link_entry\<lparr>le_link := my_link, le_next := Some new_index\<rparr>]\<rparr>))))"

definition next_of :: "tsb_link \<Rightarrow> nat option list" where
  "next_of l = map le_next (tl_entries l)"

text \<open>\<open>tsb_link_add_entry\<close> returns the area and the TSB entry, which it may turn into a link.\<close>

definition tsb_link_add_entry ::
  "tsb_link \<Rightarrow> u64 \<Rightarrow> u64 \<Rightarrow> tsb_entry \<Rightarrow> block_ref option \<Rightarrow> block_tsb_ref option
   \<Rightarrow> (tsb_link \<times> tsb_entry) res"
where
  "tsb_link_add_entry l tag data e block block_tsb =
     (if te_tag e = TSB_LINK_TAG then
        let index = (te_data e - tl_start_addr l) div of_int LINK_SIZE in
        bindr (chase (next_of l) (unat index)) (\<lambda>k.
        bindr (add_to_chain l k tag data block block_tsb) (\<lambda>l'. Inr (l', e)))
      else
        bindr (start_new_chain l (te_tag e) (te_data e) block block_tsb) (\<lambda>(k, l1).
        bindr (add_to_chain l1 k tag data block block_tsb) (\<lambda>l2.
        bindr (nth_res (tl_entries l2) k) (\<lambda>link_entry.
          Inr (l2, e\<lparr>te_tag := TSB_LINK_TAG, te_data := le_my_link link_entry\<rparr>)))))"

text \<open>The \<open>tsbcsm\<close> variant moves the clump number to the new chain and stores the address of
  the chain in \<open>data\<close>.\<close>

definition tsbcsm_link_add_entry ::
  "tsbcsm_link \<Rightarrow> u64 \<Rightarrow> u64 \<Rightarrow> tsbcsm_entry \<Rightarrow> block_ref option \<Rightarrow> block_tsb_ref option
   \<Rightarrow> (tsbcsm_link \<times> tsbcsm_entry) res"
where
  "tsbcsm_link_add_entry l tag clump_num e block block_tsb =
     (if ce_tag e = TSB_LINK_TAG then
        let index = (ce_data e - tl_start_addr l) div of_int LINK_SIZE in
        bindr (chase (next_of l) (unat index)) (\<lambda>k.
        bindr (add_csm_to_chain l k tag clump_num block block_tsb) (\<lambda>l'. Inr (l', e)))
      else
        bindr (start_new_csm_chain l (ce_tag e) (ce_clump_num e) block block_tsb) (\<lambda>(k, l1).
        bindr (add_csm_to_chain l1 k tag clump_num block block_tsb) (\<lambda>l2.
        bindr (nth_res (tl_entries l2) k) (\<lambda>link_entry.
          Inr (l2, e\<lparr>ce_tag := TSB_LINK_TAG, ce_data := le_my_link link_entry\<rparr>)))))"

section \<open>Output\<close>

definition write_tsb_link_entry :: "tsb_link_entry \<Rightarrow> img_item list" where
  "write_tsb_link_entry e = [Row64 [le_tag e, le_data e, le_link e, le_link e]]"

definition write_tsbcsm_link_entry :: "tsbcsm_link_entry \<Rightarrow> img_item list" where
  "write_tsbcsm_link_entry e = [Row64 [le_tag e, le_data e, le_link e, le_link e]]"

definition write_tsb_link ::
  "(int \<Rightarrow> bool) \<Rightarrow> physmap_t \<Rightarrow> tsb_link \<Rightarrow> (physmap_t \<times> img_item list) res" where
  "write_tsb_link mem pm l =
     bindr (link_addr (tl_start_addr l) (length (tl_entries l))) (\<lambda>stop.
     bindr (add_object_to_physmap mem pm (tl_srcfile l) (tl_srcline l) (tl_lineno l) (tl_start_addr l)
              stop ''TSB_LINK'' (tl_name l)) (\<lambda>pm'.
       Inr (pm', At (tl_start_addr l) (''TSB_LINK '' @ quoted (tl_name l)) #
                 concat (map write_tsb_link_entry (tl_entries l)))))"

definition write_tsbcsm_link ::
  "(int \<Rightarrow> bool) \<Rightarrow> physmap_t \<Rightarrow> tsbcsm_link \<Rightarrow> (physmap_t \<times> img_item list) res" where
  "write_tsbcsm_link mem pm l =
     bindr (link_addr (tl_start_addr l) (length (tl_entries l))) (\<lambda>stop.
     bindr (add_object_to_physmap mem pm (tl_srcfile l) (tl_srcline l) (tl_lineno l) (tl_start_addr l)
              stop ''TSBCSM_LINK'' (tl_name l)) (\<lambda>pm'.
       Inr (pm', At (tl_start_addr l) (''TSBCSM_LINK '' @ quoted (tl_name l)) #
                 concat (map write_tsbcsm_link_entry (tl_entries l)))))"

text \<open>The writers of all objects of a vector: the physical map is threaded through, the pieces
  are appended to the file.\<close>

definition write_all ::
  "(physmap_t \<Rightarrow> 'a \<Rightarrow> (physmap_t \<times> img_item list) res) \<Rightarrow> physmap_t \<Rightarrow> 'a list
   \<Rightarrow> (physmap_t \<times> img_item list) res"
where
  "write_all w pm xs =
     foldr_res (\<lambda>(pm, out) x. bindr (w pm x) (\<lambda>(pm', txt). Inr (pm', out @ txt))) (pm, []) xs"

definition write_tsb_links ::
  "(int \<Rightarrow> bool) \<Rightarrow> physmap_t \<Rightarrow> tsb_link list \<Rightarrow> (physmap_t \<times> img_item list) res" where
  "write_tsb_links mem = write_all (write_tsb_link mem)"

definition write_tsbcsm_links ::
  "(int \<Rightarrow> bool) \<Rightarrow> physmap_t \<Rightarrow> tsbcsm_link list \<Rightarrow> (physmap_t \<times> img_item list) res" where
  "write_tsbcsm_links mem = write_all (write_tsbcsm_link mem)"

section \<open>The area invariant\<close>

definition node_addr :: "addr_t \<Rightarrow> nat \<Rightarrow> addr_t" where
  "node_addr start i = start + of_nat (32 * i)"

text \<open>Every node knows its own address, and its \<open>link\<close> is the address of the node that its
  \<open>next\<close> pointer names.\<close>

definition area_ok :: "tsb_link \<Rightarrow> bool" where
  "area_ok l \<longleftrightarrow> ns_ok (next_of l) \<and> length (tl_entries l) \<le> 2 ^ 26 \<and>
     (\<forall>e \<in> set (tl_entries l). le_link e =
        (case le_next e of None \<Rightarrow> EOL | Some j \<Rightarrow> node_addr (tl_start_addr l) j)) \<and>
     map le_my_link (tl_entries l) = map (node_addr (tl_start_addr l)) [0..<length (tl_entries l)]"

definition payload :: "tsb_link_entry \<Rightarrow> u64 \<times> u64" where
  "payload e = (le_tag e, le_data e)"

definition area_chain :: "tsb_link \<Rightarrow> nat \<Rightarrow> (u64 \<times> u64) list" where
  "area_chain l h = map (\<lambda>i. payload (tl_entries l ! i)) (chain_idx (next_of l) h)"

definition area_heads :: "tsb_link \<Rightarrow> nat set" where
  "area_heads l = heads (next_of l)"

lemma next_of_length [simp]: "length (next_of l) = length (tl_entries l)"
  by (simp add: next_of_def)

lemma link_addr_Inr_iff: "link_addr start i = Inr a \<longleftrightarrow> i < 2 ^ 26 \<and> a = node_addr start i"
proof -
  have "int_ok (int i * LINK_SIZE) \<longleftrightarrow> i < 2 ^ 26" by (auto simp: int_ok_def LINK_SIZE_def)
  moreover have "start + of_int (int i * LINK_SIZE) = node_addr start i"
    by (simp add: node_addr_def LINK_SIZE_def mult.commute)
  ultimately show ?thesis by (auto simp: link_addr_def)
qed

lemma init_area_ok: "tl_entries l = [] \<Longrightarrow> area_ok l"
  by (simp add: area_ok_def next_of_def ns_ok_def)

text \<open>The appended node; the two ways it is put into the area.\<close>

definition new_node :: "u64 \<Rightarrow> u64 \<Rightarrow> block_ref option \<Rightarrow> block_tsb_ref option \<Rightarrow> u64 \<Rightarrow> tsb_link_entry" where
  "new_node tag data block block_tsb a =
     \<lparr>le_tag = tag, le_data = data, le_link = EOL, le_block = block,
      le_block_tsb = block_tsb, le_my_link = a, le_next = None\<rparr>"

lemma start_new_chain_Inr_iff:
  "start_new_chain l t d b bt = Inr (k, l') \<longleftrightarrow>
     length (tl_entries l) < 2 ^ 26 \<and> k = length (tl_entries l) \<and>
     l' = l\<lparr>tl_entries := tl_entries l @ [new_node t d b bt (node_addr (tl_start_addr l) k)]\<rparr>"
  by (auto simp: start_new_chain_def Let_def bindr_Inr_iff link_addr_Inr_iff new_node_def)

lemma add_to_chain_Inr_iff:
  assumes "k < length (tl_entries l)"
  shows "add_to_chain l k t d b bt = Inr l' \<longleftrightarrow>
     length (tl_entries l) < 2 ^ 26 \<and>
     l' = l\<lparr>tl_entries :=
       (tl_entries l)[k := (tl_entries l ! k)\<lparr>le_link := node_addr (tl_start_addr l) (length (tl_entries l)),
                                             le_next := Some (length (tl_entries l))\<rparr>]
       @ [new_node t d b bt (node_addr (tl_start_addr l) (length (tl_entries l)))]\<rparr>"
  using assms
  by (auto simp: add_to_chain_def Let_def bindr_Inr_iff link_addr_Inr_iff new_node_def nth_append
      list_update_append)

lemma area_ok_start:
  assumes ok: "area_ok l" and st: "start_new_chain l t d b bt = Inr (k, l')"
  shows "area_ok l'" and "next_of l' = next_of l @ [None]"
    and "map payload (tl_entries l') = map payload (tl_entries l) @ [(t, d)]"
    and "k = length (tl_entries l)" and "tl_start_addr l' = tl_start_addr l"
proof -
  note st' = st [unfolded start_new_chain_Inr_iff]
  show n: "next_of l' = next_of l @ [None]" using st' by (simp add: next_of_def new_node_def)
  show "area_ok l'"
    using ok st' ns_ok_snoc [of "next_of l"] n
    by (auto simp: area_ok_def new_node_def split: option.splits)
  show "map payload (tl_entries l') = map payload (tl_entries l) @ [(t, d)]"
    using st' by (simp add: payload_def new_node_def)
  show "k = length (tl_entries l)" "tl_start_addr l' = tl_start_addr l" using st' by simp_all
qed

lemma area_ok_add:
  assumes ok: "area_ok l" and k: "k < length (tl_entries l)"
    and add: "add_to_chain l k t d b bt = Inr l'"
  shows "area_ok l'" and "next_of l' = link_new (next_of l) k"
    and "map payload (tl_entries l') = map payload (tl_entries l) @ [(t, d)]"
    and "tl_start_addr l' = tl_start_addr l"
    and "map le_my_link (tl_entries l') =
         map le_my_link (tl_entries l) @ [node_addr (tl_start_addr l) (length (tl_entries l))]"
proof -
  note add' = add [unfolded add_to_chain_Inr_iff [OF k]]
  have upd: "map f ((tl_entries l)[k := e]) = map f (tl_entries l)" if "f e = f (tl_entries l ! k)"
    for f :: "tsb_link_entry \<Rightarrow> 'b" and e
    using k that by (metis list_update_id map_update nth_map length_map)
  show n: "next_of l' = link_new (next_of l) k"
    using add' k by (simp add: next_of_def link_new_def map_update list_update_append new_node_def)
  show p: "map payload (tl_entries l') = map payload (tl_entries l) @ [(t, d)]"
    using add' by (simp add: upd payload_def new_node_def)
  show m: "map le_my_link (tl_entries l') =
         map le_my_link (tl_entries l) @ [node_addr (tl_start_addr l) (length (tl_entries l))]"
    using add' by (simp add: upd new_node_def)
  show s: "tl_start_addr l' = tl_start_addr l" using add' by simp
  have len: "length (tl_entries l') = Suc (length (tl_entries l))" using add' by simp
  have "le_link e = (case le_next e of None \<Rightarrow> EOL | Some j \<Rightarrow> node_addr (tl_start_addr l) j)"
    if "e \<in> set (tl_entries l')" for e
  proof -
    have "e \<in> set ((tl_entries l)[k := y]) \<Longrightarrow> e = y \<or> e \<in> set (tl_entries l)" for y
      using set_update_subset_insert [of "tl_entries l" k y] by blast
    with that add' consider "e \<in> set (tl_entries l)"
      | "le_link e = node_addr (tl_start_addr l) (length (tl_entries l))" "le_next e = Some (length (tl_entries l))"
      | "le_link e = EOL" "le_next e = None"
      by (fastforce simp: new_node_def)
    then show ?thesis using ok by cases (auto simp: area_ok_def)
  qed
  with s len m n add' ok ns_ok_link_new [of "next_of l" k] k show "area_ok l'"
    unfolding area_ok_def [of l'] by (simp only: s n m len) (simp add: area_ok_def)
qed

section \<open>The two moves of \<open>tsb_link_add_entry\<close>, and the contract\<close>

definition tsb_new_pair ::
  "block_ref option \<Rightarrow> block_tsb_ref option \<Rightarrow> tsb_link \<Rightarrow> u64 \<times> u64 \<Rightarrow> u64 \<times> u64 \<Rightarrow> (nat \<times> tsb_link) res"
where
  "tsb_new_pair b bt l q p =
     bindr (start_new_chain l (fst q) (snd q) b bt) (\<lambda>(k, l1).
     bindr (add_to_chain l1 k (fst p) (snd p) b bt) (\<lambda>l2. Inr (k, l2)))"

definition tsb_extend ::
  "block_ref option \<Rightarrow> block_tsb_ref option \<Rightarrow> tsb_link \<Rightarrow> nat \<Rightarrow> u64 \<times> u64 \<Rightarrow> tsb_link res"
where
  "tsb_extend b bt l h p =
     bindr (chase (next_of l) h) (\<lambda>k. add_to_chain l k (fst p) (snd p) b bt)"

lemma area_chain_eq:
  "area_chain l h = map (nth (map payload (tl_entries l))) (chain_idx (next_of l) h)"
  by (auto simp: area_chain_def dest: chain_idx_range)

lemma area_chain_cong:
  assumes "map payload (tl_entries l') = map payload (tl_entries l) @ ps"
    and "chain_idx (next_of l') h = chain_idx (next_of l) h @ is"
  shows "area_chain l' h = area_chain l h @ map (nth (map payload (tl_entries l) @ ps)) is"
  unfolding area_chain_eq assms map_append
  by (auto simp: nth_append dest: chain_idx_range)

lemma area_headsD: "h \<in> area_heads l \<Longrightarrow> h < length (tl_entries l)"
  by (simp add: area_heads_def heads_def)

lemma tsb_new_pair_law:
  assumes ok: "area_ok l" and np: "tsb_new_pair b bt l q p = Inr (k, l')"
  shows "area_ok l' \<and> k \<notin> area_heads l \<and> area_heads l' = insert k (area_heads l) \<and>
    area_chain l' k = [q, p] \<and> (\<forall>g \<in> area_heads l. area_chain l' g = area_chain l g)"
proof -
  from np obtain l1 where st: "start_new_chain l (fst q) (snd q) b bt = Inr (k, l1)"
    and ad: "add_to_chain l1 k (fst p) (snd p) b bt = Inr l'"
    unfolding tsb_new_pair_def by (auto simp: bindr_Inr_iff)
  note S = area_ok_start [OF ok st]
  have len1: "length (tl_entries l1) = Suc (length (tl_entries l))"
    using arg_cong [OF S(3), of length] by simp
  have k1: "k < length (tl_entries l1)" using S(4) len1 by simp
  note A = area_ok_add [OF S(1) k1 ad]
  have ok0: "ns_ok (next_of l)" and ok1: "ns_ok (next_of l @ [None])"
    using ok S(1,2) by (simp_all add: area_ok_def)
  define ns where "ns = next_of l @ [None]"
  have n': "next_of l' = link_new ns k" and okn: "ns_ok ns" and lenn: "length ns = Suc k"
    using A(2) S(2,4) ok1 by (simp_all add: ns_def)
  have pay: "map payload (tl_entries l') = map payload (tl_entries l) @ [q, p]"
    using A(3) S(3) by simp
  have hd: "area_heads l' = insert k (area_heads l)"
    using heads_link_new [of ns k] okn lenn heads_snoc [OF ok0] S(4)
    by (simp add: area_heads_def n' ns_def nth_append)
  have ck: "chain_idx ns k = [k]" using lenn S(4) by (simp add: chain_idx_end ns_def nth_append)
  have "chain_idx (next_of l') k = [k, Suc k]"
    using chain_idx_link_new [of ns k k] okn lenn ck by (simp add: n')
  then have pk: "area_chain l' k = [q, p]"
    by (simp add: area_chain_eq pay S(4) nth_append)
  have other: "area_chain l' g = area_chain l g" if g: "g \<in> area_heads l" for g
  proof -
    have gl: "g < length (next_of l)" using area_headsD [OF g] by simp
    then have c: "chain_idx ns g = chain_idx (next_of l) g"
      unfolding ns_def by (rule chain_idx_snoc [OF ok0])
    then have "k \<notin> set (chain_idx ns g)"
      using chain_idx_range [of k "next_of l" g] S(4) by auto
    then have "chain_idx (next_of l') g = chain_idx (next_of l) g"
      using chain_idx_link_new_other [OF okn _ _, of k g] lenn gl S(4) c n' by simp
    with area_chain_cong [OF pay, of g "[]"] show ?thesis by simp
  qed
  show ?thesis using A(1) hd pk other area_headsD [of k l] S(4) by auto
qed

lemma tsb_extend_law:
  assumes ok: "area_ok l" and h: "h \<in> area_heads l" and ex: "tsb_extend b bt l h p = Inr l'"
  shows "area_ok l' \<and> area_heads l' = area_heads l \<and> area_chain l' h = area_chain l h @ [p] \<and>
    (\<forall>g \<in> area_heads l. g \<noteq> h \<longrightarrow> area_chain l' g = area_chain l g)"
proof -
  define ns where "ns = next_of l"
  have hl: "h < length ns" and hh: "h \<in> heads ns" using h by (auto simp: area_heads_def heads_def ns_def)
  have okn: "ns_ok ns" using ok by (simp add: area_ok_def ns_def)
  define e where "e = last (chain_idx ns h)"
  note cl = chain_last [OF okn hl, folded e_def]
  from ex have ad: "add_to_chain l e (fst p) (snd p) b bt = Inr l'"
    unfolding tsb_extend_def by (simp add: chase_last [OF okn hl] flip: ns_def e_def)
  have el: "e < length (tl_entries l)" using cl by (simp add: ns_def)
  note A = area_ok_add [OF ok el ad]
  have n': "next_of l' = link_new ns e" using A(2) by (simp add: ns_def)
  have hd: "area_heads l' = area_heads l"
    using heads_link_new [of ns e] okn cl by (simp add: area_heads_def n' flip: ns_def)
  have ch: "chain_idx (next_of l') h = chain_idx (next_of l) h @ [length ns]"
    using chain_idx_link_new [OF okn hl e_def] by (simp add: n' flip: ns_def)
  have "area_chain l' h = area_chain l h @ [p]"
    using area_chain_cong [OF A(3) ch] by (simp add: ns_def nth_append)
  moreover have "area_chain l' g = area_chain l g" if g: "g \<in> area_heads l" "g \<noteq> h" for g
  proof -
    have gh: "g \<in> heads ns" "g < length ns" using g(1) by (auto simp: area_heads_def heads_def ns_def)
    have "e \<in> set (chain_idx ns h)" using chain_idx_ne [OF hl] by (simp add: e_def)
    with chains_disjoint [OF okn hh gh(1)] g(2) have "e \<notin> set (chain_idx ns g)" by blast
    then have "chain_idx (next_of l') g = chain_idx (next_of l) g @ []"
      using chain_idx_link_new_other [OF okn _ gh(2)] cl by (simp add: n' flip: ns_def)
    with area_chain_cong [OF A(3)] show ?thesis by fastforce
  qed
  ultimately show ?thesis using A(1) hd by blast
qed

interpretation tsb_area: overflow_area area_ok area_heads area_chain "tsb_new_pair b bt" "tsb_extend b bt"
  for b bt
  by unfold_locales (rule tsb_new_pair_law tsb_extend_law; assumption)+

text \<open>The \<open>csm\<close> routines are the same routines on the shared node layout.\<close>

lemma csm_routines_eq:
  "start_new_csm_chain = start_new_chain"
  "add_csm_to_chain = add_to_chain"
  by (simp_all add: fun_eq_iff start_new_csm_chain_def start_new_chain_def
      add_csm_to_chain_def add_to_chain_def)

text \<open>\<open>tsb_link_add_entry\<close> in terms of the two moves.\<close>

lemma tsb_link_add_entry_chained:
  assumes "te_tag e = TSB_LINK_TAG"
  shows "tsb_link_add_entry l t d e b bt =
     bindr (tsb_extend b bt l (unat ((te_data e - tl_start_addr l) div 32)) (t, d)) (\<lambda>l'. Inr (l', e))"
  using assms
  by (cases "chase (next_of l) (unat ((te_data e - tl_start_addr l) div 32))")
    (simp_all add: tsb_link_add_entry_def tsb_extend_def LINK_SIZE_def Let_def)

lemma tsb_link_add_entry_single:
  assumes ok: "area_ok l" and ne: "te_tag e \<noteq> TSB_LINK_TAG"
    and add: "tsb_link_add_entry l t d e b bt = Inr (l', e')"
  shows "\<exists>k. tsb_new_pair b bt l (te_tag e, te_data e) (t, d) = Inr (k, l') \<and>
     e' = e\<lparr>te_tag := TSB_LINK_TAG, te_data := node_addr (tl_start_addr l) k\<rparr> \<and> k < 2 ^ 26 \<and>
     tl_start_addr l' = tl_start_addr l"
proof -
  from add ne obtain k l1 le where st: "start_new_chain l (te_tag e) (te_data e) b bt = Inr (k, l1)"
    and ad: "add_to_chain l1 k t d b bt = Inr l'" and kl: "k < length (tl_entries l')"
    and e': "e' = e\<lparr>te_tag := TSB_LINK_TAG, te_data := le_my_link (tl_entries l' ! k)\<rparr>"
    unfolding tsb_link_add_entry_def by (auto simp: bindr_Inr_iff)
  note S = area_ok_start [OF ok st]
  have k1: "k < length (tl_entries l1)" using st [unfolded start_new_chain_Inr_iff] by simp
  note A = area_ok_add [OF S(1) k1 ad]
  have "map le_my_link (tl_entries l') ! k = node_addr (tl_start_addr l') k"
    using A(1) kl by (simp add: area_ok_def)
  with kl A(4) S(5) have "le_my_link (tl_entries l' ! k) = node_addr (tl_start_addr l) k" by simp
  with st ad e' A(4) S(5) show ?thesis
    by (auto simp: tsb_new_pair_def start_new_chain_Inr_iff bindr_Inr_iff)
qed

section \<open>What the hardware reads\<close>

text \<open>The node at a physical address, as the image file lays the area out, and the walk along the
  \<open>link\<close> words until \<open>EOL\<close>.\<close>

definition node_at :: "tsb_link \<Rightarrow> addr_t \<Rightarrow> tsb_link_entry option" where
  "node_at l a =
     (let i = unat ((a - tl_start_addr l) div 32) in
      if (a - tl_start_addr l) mod 32 = 0 \<and> i < length (tl_entries l) then Some (tl_entries l ! i) else None)"

fun hw_walk :: "nat \<Rightarrow> tsb_link \<Rightarrow> addr_t \<Rightarrow> (u64 \<times> u64) list option" where
  "hw_walk 0 l a = None"
| "hw_walk (Suc f) l a =
     (if a = EOL then Some []
      else case node_at l a of None \<Rightarrow> None
           | Some e \<Rightarrow> map_option (\<lambda>ps. payload e # ps) (hw_walk f l (le_link e)))"

lemma node_index:
  assumes "i < 2 ^ 26"
  shows "unat ((node_addr start i - start) div 32) = i" and "(node_addr start i - start) mod 32 = 0"
proof -
  have u: "unat (of_nat (32 * i) :: 64 word) = 32 * i"
    unfolding unat_of_nat using assms by (simp add: take_bit_eq_mod)
  have e: "node_addr start i - start = of_nat (32 * i)" by (simp add: node_addr_def)
  show "unat ((node_addr start i - start) div 32) = i"
    unfolding e unat_div u by simp
  show "(node_addr start i - start) mod 32 = 0"
    unfolding e word_unat_eq_iff unat_mod u by simp
qed

lemma node_at_node_addr:
  assumes "length (tl_entries l) \<le> 2 ^ 26" and "i < length (tl_entries l)"
  shows "node_at l (node_addr (tl_start_addr l) i) = Some (tl_entries l ! i)"
  using assms node_index [of i] by (simp add: node_at_def Let_def)

lemma hw_walk_chain_fuel:
  assumes ok: "area_ok l" and eol: "\<And>i. i < length (tl_entries l) \<Longrightarrow> node_addr (tl_start_addr l) i \<noteq> EOL"
    and h: "h < length (next_of l)"
  shows "length (tl_entries l) - h < f \<Longrightarrow>
     hw_walk f l (node_addr (tl_start_addr l) h) = Some (area_chain l h)"
proof -
  have ns: "ns_ok (next_of l)" and len: "length (tl_entries l) \<le> 2 ^ 26" using ok by (auto simp: area_ok_def)
  have lk: "le_link (tl_entries l ! i) = (case next_of l ! i of None \<Rightarrow> EOL | Some j \<Rightarrow> node_addr (tl_start_addr l) j)"
    if "i < length (tl_entries l)" for i
    using ok that by (simp add: area_ok_def next_of_def)
  show "length (tl_entries l) - h < f \<Longrightarrow>
     hw_walk f l (node_addr (tl_start_addr l) h) = Some (area_chain l h)"
    using ns h
  proof (induction arbitrary: f rule: chain_induct)
    case (last k)
    then obtain g where f: "f = Suc (Suc g)" by (cases f; cases "f - 1") auto
    from last eol [of k] lk [of k] show ?case
      by (simp add: f node_at_node_addr [OF len] area_chain_def chain_idx_end)
  next
    case (step k j)
    then obtain g where f: "f = Suc g" by (cases f) auto
    have "hw_walk g l (node_addr (tl_start_addr l) j) = Some (area_chain l j)"
      using step f by (intro step.IH) simp
    with step eol [of k] lk [of k] ns show ?case
      by (simp add: f node_at_node_addr [OF len] area_chain_def chain_idx_step)
  qed
qed

text \<open>A 32-byte aligned area never has a node at the end-of-list address.\<close>

lemma aligned_not_EOL:
  assumes "start AND 31 = 0" and i: "i < 2 ^ 26"
  shows "node_addr start i \<noteq> EOL"
proof
  have "(31 :: u64) = mask 5" by (simp add: mask_eq_exp_minus_1)
  then have "take_bit 5 start = 0" using assms(1) by (simp add: take_bit_eq_mask)
  then have "unat start mod 2 ^ 5 = 0" using unat_take_bit [of 5 start] by simp
  moreover have "unat (of_nat (32 * i) :: 64 word) = 32 * i"
    unfolding unat_of_nat using i by (simp add: take_bit_eq_mod)
  moreover have "unat (node_addr start i) mod 2 ^ 5 = (unat start + unat (of_nat (32 * i) :: u64)) mod 2 ^ 5"
    unfolding node_addr_def by (rule unat_plus_mod_pow2) simp
  ultimately have "unat (node_addr start i) mod 2 ^ 5 = 0" by (simp del: of_nat_mult) presburger?
  moreover assume "node_addr start i = EOL"
  ultimately show False by (simp add: EOL_def unsigned_minus_1_eq_mask mask_eq_exp_minus_1)
qed

end
