(* ===== verification/GF_Tsb.thy ===== *)
theory GF_Tsb
  imports GF_Tsb_Link
begin

text \<open>
  \<open>tsb.c\<close>: the translation storage buffers. A TSB is an array of (tag, data) entries; an
  entry that collides with an occupied slot goes to the TSB's link area (\<open>GF_Tsb_Link\<close>), and
  the slot becomes a link to the chain. The \<open>tsbcsm\<close> variant also carries a clump number. The
  two C structs differ in their entries only, so one record \<open>tsb_obj\<close> serves both.

  \<open>link_ptr\<close> is the index of the area in \<open>Tsb_link_vector\<close> (\<open>Tsbcsm_link_vector\<close>).
  The arguments of error messages are not modelled.
\<close>

section \<open>State\<close>

record 'e tsb_obj =
  t_name :: string
  t_num_entries :: u64
  t_size_bits :: u64
  t_split :: u64
  t_start_addr :: addr_t
  t_link_area :: "string option"
  t_link_ptr :: "nat option"
  t_srcfile :: string
  t_srcline :: int
  t_entries :: "'e list"     \<comment> \<open>empty: the null pointer before \<open>finish\<close>\<close>
  t_lineno :: int

type_synonym tsb = "tsb_entry tsb_obj"
type_synonym tsbcsm = "tsbcsm_entry tsb_obj"

record 'e tsb_vector_st =
  tv_vector :: "'e tsb_obj list"
  tv_open :: int

definition NO_OPEN_TSB :: int where "NO_OPEN_TSB = - 1"
definition TSB_SIZE_MAX :: u64 where "TSB_SIZE_MAX = 15"
definition BYTES_PER_ENTRY :: u64 where "BYTES_PER_ENTRY = 16"

definition init_tsb :: tsb where
  "init_tsb = \<lparr>t_name = ''<no_name>'', t_num_entries = 0, t_size_bits = 0, t_split = 0,
     t_start_addr = NO_ADDR, t_link_area = None, t_link_ptr = None, t_srcfile = ''<unknown>'',
     t_srcline = 0, t_entries = [], t_lineno = 0\<rparr>"

definition init_tsbcsm :: tsbcsm where
  "init_tsbcsm = \<lparr>t_name = ''<no_name>'', t_num_entries = 0, t_size_bits = 0, t_split = 0,
     t_start_addr = NO_ADDR, t_link_area = None, t_link_ptr = None, t_srcfile = ''<unknown>'',
     t_srcline = 0, t_entries = [], t_lineno = 0\<rparr>"

section \<open>Parsing: open, set, close\<close>

definition clear_tsb_vector :: "tsb_entry tsb_vector_st \<Rightarrow> tsb_entry tsb_vector_st" where
  "clear_tsb_vector s = s\<lparr>tv_vector := []\<rparr>"

definition clear_tsbcsm_vector :: "tsbcsm_entry tsb_vector_st \<Rightarrow> tsbcsm_entry tsb_vector_st" where
  "clear_tsbcsm_vector s = s\<lparr>tv_vector := []\<rparr>"

definition tsb_name_compare :: "string \<Rightarrow> tsb \<Rightarrow> bool" where
  "tsb_name_compare name t \<longleftrightarrow> name = t_name t"

definition tsbcsm_name_compare :: "string \<Rightarrow> tsbcsm \<Rightarrow> bool" where
  "tsbcsm_name_compare name t \<longleftrightarrow> name = t_name t"

definition get_tsb_ptr_by_name :: "tsb_entry tsb_vector_st \<Rightarrow> string \<Rightarrow> nat option" where
  "get_tsb_ptr_by_name s name = find_index_from (tsb_name_compare name) 0 (tv_vector s)"

definition get_tsbcsm_ptr_by_name :: "tsbcsm_entry tsb_vector_st \<Rightarrow> string \<Rightarrow> nat option" where
  "get_tsbcsm_ptr_by_name s name = find_index_from (tsbcsm_name_compare name) 0 (tv_vector s)"

definition open_new_tsb :: "tsb_entry tsb_vector_st \<Rightarrow> string \<Rightarrow> int \<Rightarrow> tsb_entry tsb_vector_st res" where
  "open_new_tsb s name lineno =
     (let exists_error = get_tsb_ptr_by_name s name \<noteq> None;
          new_index = length (tv_vector s);
          tsb = init_tsb\<lparr>t_name := name, t_lineno := lineno\<rparr>
      in errif exists_error M_BADTSB
           (Inr (s\<lparr>tv_vector := tv_vector s @ [tsb], tv_open := int new_index\<rparr>)))"

definition open_new_tsbcsm ::
  "tsbcsm_entry tsb_vector_st \<Rightarrow> string \<Rightarrow> int \<Rightarrow> tsbcsm_entry tsb_vector_st res" where
  "open_new_tsbcsm s name lineno =
     (let exists_error = get_tsbcsm_ptr_by_name s name \<noteq> None;
          new_index = length (tv_vector s);
          tsb = init_tsbcsm\<lparr>t_name := name, t_lineno := lineno\<rparr>
      in errif exists_error M_BADTSB
           (Inr (s\<lparr>tv_vector := tv_vector s @ [tsb], tv_open := int new_index\<rparr>)))"

definition sanity_check_tsb :: "tsb \<Rightarrow> unit res" where
  "sanity_check_tsb t =
     errif (t_size_bits t > TSB_SIZE_MAX) M_BADTSB
     (errif (t_split t > 1) M_BADTSB
     (errif (t_num_entries t = 0) M_BADTSB
     (errif (t_start_addr t = NO_ADDR) M_BADTSB (Inr ()))))"

definition sanity_check_tsbcsm :: "tsbcsm \<Rightarrow> unit res" where
  "sanity_check_tsbcsm t =
     errif (t_size_bits t > TSB_SIZE_MAX) M_BADTSB
     (errif (t_split t > 1) M_BADTSB
     (errif (t_num_entries t = 0) M_BADTSB
     (errif (t_start_addr t = NO_ADDR) M_BADTSB (Inr ()))))"

definition close_tsb :: "tsb_entry tsb_vector_st \<Rightarrow> tsb_entry tsb_vector_st res" where
  "close_tsb s = errif (tv_open s = NO_OPEN_TSB) M_GOLDFINGERPARSE
     (bindr (open_elem (tv_vector s) (tv_open s)) (\<lambda>t.
      bindr (sanity_check_tsb t) (\<lambda>_. Inr (s\<lparr>tv_open := NO_OPEN_TSB\<rparr>))))"

definition close_tsbcsm :: "tsbcsm_entry tsb_vector_st \<Rightarrow> tsbcsm_entry tsb_vector_st res" where
  "close_tsbcsm s = errif (tv_open s = NO_OPEN_TSB) M_GOLDFINGERPARSE
     (bindr (open_elem (tv_vector s) (tv_open s)) (\<lambda>t.
      bindr (sanity_check_tsbcsm t) (\<lambda>_. Inr (s\<lparr>tv_open := NO_OPEN_TSB\<rparr>))))"

text \<open>The setters of the macros \<open>SET_TSB\<close>, \<open>SET_TSB_STRING\<close> and their csm forms, for
  every member they are instantiated with.\<close>

datatype 'e tsb_attr =
    Num_entries u64 | Size_bits u64 | Split u64 | Srcfile string | Srcline int
  | Start_addr addr_t | Link_area string

fun set_attr :: "'e tsb_attr \<Rightarrow> 'e tsb_obj \<Rightarrow> 'e tsb_obj" where
  "set_attr (Num_entries v) t = t\<lparr>t_num_entries := v\<rparr>"
| "set_attr (Size_bits v) t = t\<lparr>t_size_bits := v\<rparr>"
| "set_attr (Split v) t = t\<lparr>t_split := v\<rparr>"
| "set_attr (Srcfile v) t = t\<lparr>t_srcfile := v\<rparr>"
| "set_attr (Srcline v) t = t\<lparr>t_srcline := v\<rparr>"
| "set_attr (Start_addr v) t = t\<lparr>t_start_addr := v\<rparr>"
| "set_attr (Link_area v) t = t\<lparr>t_link_area := Some v\<rparr>"

definition set_tsb :: "tsb_entry tsb_attr \<Rightarrow> tsb_entry tsb_vector_st \<Rightarrow> tsb_entry tsb_vector_st res" where
  "set_tsb a s = bindr (update_open (set_attr a) (tv_vector s) (tv_open s)) (\<lambda>v. Inr (s\<lparr>tv_vector := v\<rparr>))"

definition set_tsbcsm ::
  "tsbcsm_entry tsb_attr \<Rightarrow> tsbcsm_entry tsb_vector_st \<Rightarrow> tsbcsm_entry tsb_vector_st res" where
  "set_tsbcsm a s = bindr (update_open (set_attr a) (tv_vector s) (tv_open s)) (\<lambda>v. Inr (s\<lparr>tv_vector := v\<rparr>))"

section \<open>Resolving the link area and allocating the entries\<close>

definition zero_tsb_entry :: tsb_entry where
  "zero_tsb_entry = \<lparr>te_tag = 0, te_data = 0, te_block = None, te_block_tsb = None\<rparr>"

definition zero_tsbcsm_entry :: tsbcsm_entry where
  "zero_tsbcsm_entry = \<lparr>ce_tag = 0, ce_data = 0, ce_clump_num = 0, ce_block = None, ce_block_tsb = None\<rparr>"

text \<open>\<open>num_entries * sizeof(entry)\<close> wraps in \<open>uint64_t\<close>; the array has as many elements as
  the allocated bytes hold. An entry takes 32 bytes, a csm entry 40.\<close>

definition alloc_entries :: "(int \<Rightarrow> bool) \<Rightarrow> u64 \<Rightarrow> u64 \<Rightarrow> 'e \<Rightarrow> 'e list res" where
  "alloc_entries mem num size' zero =
     (let entries_bytes = num * size' in
      bindr (gf_malloc mem (uint entries_bytes)) (\<lambda>_.
        Inr (replicate (unat entries_bytes div unat size') zero)))"

definition finish_single_tsb_init :: "(int \<Rightarrow> bool) \<Rightarrow> link_vector_st \<Rightarrow> tsb \<Rightarrow> tsb res" where
  "finish_single_tsb_init mem links t =
     bindr (case t_link_area t of
              None \<Rightarrow> Inr t
            | Some name \<Rightarrow>
                (case get_tsb_link_ptr_by_name links name of
                   None \<Rightarrow> Inl (Exit M_BADTSB)
                 | Some p \<Rightarrow> Inr (t\<lparr>t_link_ptr := Some p\<rparr>))) (\<lambda>t1.
     bindr (alloc_entries mem (t_num_entries t1) 32 zero_tsb_entry) (\<lambda>es.
       Inr (t1\<lparr>t_entries := es\<rparr>)))"

definition finish_single_tsbcsm_init :: "(int \<Rightarrow> bool) \<Rightarrow> link_vector_st \<Rightarrow> tsbcsm \<Rightarrow> tsbcsm res" where
  "finish_single_tsbcsm_init mem links t =
     bindr (case t_link_area t of
              None \<Rightarrow> Inr t
            | Some name \<Rightarrow>
                (case get_tsbcsm_link_ptr_by_name links name of
                   None \<Rightarrow> Inl (Exit M_BADTSB)
                 | Some p \<Rightarrow> Inr (t\<lparr>t_link_ptr := Some p\<rparr>))) (\<lambda>t1.
     bindr (alloc_entries mem (t_num_entries t1) 40 zero_tsbcsm_entry) (\<lambda>es.
       Inr (t1\<lparr>t_entries := es\<rparr>)))"

definition finish_tsb_init ::
  "(int \<Rightarrow> bool) \<Rightarrow> link_vector_st \<Rightarrow> tsb_entry tsb_vector_st \<Rightarrow> tsb_entry tsb_vector_st res" where
  "finish_tsb_init mem links s =
     bindr (map_res (finish_single_tsb_init mem links) (tv_vector s)) (\<lambda>v. Inr (s\<lparr>tv_vector := v\<rparr>))"

definition finish_tsbcsm_init ::
  "(int \<Rightarrow> bool) \<Rightarrow> link_vector_st \<Rightarrow> tsbcsm_entry tsb_vector_st \<Rightarrow> tsbcsm_entry tsb_vector_st res" where
  "finish_tsbcsm_init mem links s =
     bindr (map_res (finish_single_tsbcsm_init mem links) (tv_vector s)) (\<lambda>v. Inr (s\<lparr>tv_vector := v\<rparr>))"

section \<open>Adding an entry\<close>

definition get_tsb_size_bits :: "tsb \<Rightarrow> u64" where
  "get_tsb_size_bits t = t_size_bits t"

definition get_tsbcsm_size_bits :: "tsbcsm \<Rightarrow> u64" where
  "get_tsbcsm_size_bits t = t_size_bits t"

text \<open>\<open>allow\<close> is \<open>Allow_tsb_conflicts\<close>, \<open>ls\<close> the link areas.\<close>

definition add_entry ::
  "bool \<Rightarrow> tsb_link list \<Rightarrow> tsb \<Rightarrow> u64 \<Rightarrow> u64 \<Rightarrow> u64 \<Rightarrow> block_ref \<Rightarrow> block_tsb_ref \<Rightarrow> (tsb_link list \<times> tsb) res"
where
  "add_entry allow ls t index tag data block block_tsb =
     errif (index \<ge> t_num_entries t) M_BADTSB
     (bindr (nth_res (t_entries t) (unat index)) (\<lambda>e.
      if te_tag e = 0 \<and> te_data e = 0
      then Inr (ls, t\<lparr>t_entries := (t_entries t)[unat index :=
                  \<lparr>te_tag = tag, te_data = data, te_block = Some block, te_block_tsb = Some block_tsb\<rparr>]\<rparr>)
      else errif (\<not> allow) M_VACOLLIDE
        (case t_link_ptr t of
           None \<Rightarrow> Inl (Exit M_BADTSB)
         | Some li \<Rightarrow>
             bindr (nth_res ls li) (\<lambda>l.
             bindr (tsb_link_add_entry l tag data e (Some block) (Some block_tsb)) (\<lambda>(l', e').
               Inr (ls[li := l'], t\<lparr>t_entries := (t_entries t)[unat index := e']\<rparr>))))))"

definition add_entry_csm ::
  "bool \<Rightarrow> tsbcsm_link list \<Rightarrow> tsbcsm \<Rightarrow> u64 \<Rightarrow> u64 \<Rightarrow> u64 \<Rightarrow> u64 \<Rightarrow> block_ref \<Rightarrow> block_tsb_ref
   \<Rightarrow> (tsbcsm_link list \<times> tsbcsm) res"
where
  "add_entry_csm allow ls t index tag data clump_num block block_tsb =
     errif (index \<ge> t_num_entries t) M_BADTSB
     (bindr (nth_res (t_entries t) (unat index)) (\<lambda>e.
      if ce_tag e = 0 \<and> ce_data e = 0
      then Inr (ls, t\<lparr>t_entries := (t_entries t)[unat index :=
                  \<lparr>ce_tag = tag, ce_data = data, ce_clump_num = clump_num, ce_block = Some block,
                   ce_block_tsb = Some block_tsb\<rparr>]\<rparr>)
      else errif (\<not> allow) M_VACOLLIDE
        (case t_link_ptr t of
           None \<Rightarrow> Inl (Exit M_BADTSB)
         | Some li \<Rightarrow>
             bindr (nth_res ls li) (\<lambda>l.
             bindr (tsbcsm_link_add_entry l tag clump_num e (Some block) (Some block_tsb)) (\<lambda>(l', e').
               Inr (ls[li := l'], t\<lparr>t_entries := (t_entries t)[unat index := e']\<rparr>))))))"

section \<open>Writing a TSB to the image\<close>

text \<open>
  The loop of \<open>write_tsb\<close> and \<open>write_tsbcsm\<close>: two entries per line, runs of zero pairs
  skipped. \<open>zero e\<close> is the zero test of an entry and \<open>row e\<close> its two printed words. The
  index stays below the number of allocated entries, so it cannot wrap.
\<close>

function write_pairs ::
  "bool \<Rightarrow> bool \<Rightarrow> ('e \<Rightarrow> bool) \<Rightarrow> ('e \<Rightarrow> u64 list) \<Rightarrow> addr_t \<Rightarrow> 'e list \<Rightarrow> nat \<Rightarrow> nat
   \<Rightarrow> bool \<Rightarrow> addr_t \<Rightarrow> bool \<Rightarrow> img_item list res"
where
  "write_pairs suppress env zero row start es n i skip last_addr printed =
     (let cur = start + of_nat i * BYTES_PER_ENTRY in
      if i < n then
        bindr (nth_res es i) (\<lambda>e0. bindr (nth_res es (i + 1)) (\<lambda>e1.
          if suppress \<and> zero e0 \<and> zero e1
          then write_pairs suppress env zero row start es n (i + 2) True
                 (if skip then last_addr else cur) printed
          else bindr (write_pairs suppress env zero row start es n (i + 2) False last_addr True) (\<lambda>rest.
                 Inr ((if skip then end_of_run env printed last_addr start cur
                                    @ [At cur (from_compressed start)] else [])
                      @ Row64 (row e0 @ row e1) # rest))))
      else Inr ((if skip then end_of_run env printed last_addr start cur else []) @ [Blank]))"
  by pat_completeness auto
termination
  by (relation "measure (\<lambda>(_, _, _, _, _, _, n, i, _). n - i)") auto

declare write_pairs.simps [simp del]

definition write_tsb ::
  "(int \<Rightarrow> bool) \<Rightarrow> bool \<Rightarrow> bool \<Rightarrow> physmap_t \<Rightarrow> tsb \<Rightarrow> (physmap_t \<times> img_item list) res" where
  "write_tsb mem suppress env pm t =
     bindr (add_object_to_physmap mem pm (t_srcfile t) (t_srcline t) (t_lineno t) (t_start_addr t)
              (t_start_addr t + t_num_entries t * BYTES_PER_ENTRY) ''TSB'' (t_name t)) (\<lambda>pm'.
     bindr (write_pairs suppress env (\<lambda>e. te_tag e = 0 \<and> te_data e = 0) (\<lambda>e. [te_tag e, te_data e])
              (t_start_addr t) (t_entries t) (unat (t_num_entries t)) 0 False (t_start_addr t) False) (\<lambda>body.
       Inr (pm', At (t_start_addr t) (''TSB '' @ quoted (t_name t)) # body)))"

definition write_tsbcsm ::
  "(int \<Rightarrow> bool) \<Rightarrow> bool \<Rightarrow> bool \<Rightarrow> physmap_t \<Rightarrow> tsbcsm \<Rightarrow> (physmap_t \<times> img_item list) res" where
  "write_tsbcsm mem suppress env pm t =
     bindr (add_object_to_physmap mem pm (t_srcfile t) (t_srcline t) (t_lineno t) (t_start_addr t)
              (t_start_addr t + t_num_entries t * BYTES_PER_ENTRY) ''TSB'' (t_name t)) (\<lambda>pm'.
     bindr (write_pairs suppress env (\<lambda>e. ce_tag e = 0 \<and> ce_data e = 0) (\<lambda>e. [ce_tag e, ce_clump_num e])
              (t_start_addr t) (t_entries t) (unat (t_num_entries t)) 0 False (t_start_addr t) False) (\<lambda>body.
       Inr (pm', At (t_start_addr t) (''TSBCSM '' @ quoted (t_name t)) # body)))"

definition write_tsbs ::
  "(int \<Rightarrow> bool) \<Rightarrow> bool \<Rightarrow> bool \<Rightarrow> physmap_t \<Rightarrow> tsb list \<Rightarrow> (physmap_t \<times> img_item list) res" where
  "write_tsbs mem suppress env = write_all (write_tsb mem suppress env)"

definition write_tsbcsms ::
  "(int \<Rightarrow> bool) \<Rightarrow> bool \<Rightarrow> bool \<Rightarrow> physmap_t \<Rightarrow> tsbcsm list \<Rightarrow> (physmap_t \<times> img_item list) res" where
  "write_tsbcsms mem suppress env = write_all (write_tsbcsm mem suppress env)"

section \<open>What the written TSB says\<close>

text \<open>The words the file should place for pair \<open>k\<close>: both entries at their addresses, or nothing
  when the pair is suppressed.\<close>

definition pair_words ::
  "bool \<Rightarrow> ('e \<Rightarrow> bool) \<Rightarrow> ('e \<Rightarrow> u64 list) \<Rightarrow> addr_t \<Rightarrow> 'e list \<Rightarrow> nat \<Rightarrow> (addr_t \<times> u64) list" where
  "pair_words suppress zero row start es k =
     (if suppress \<and> zero (es ! (2 * k)) \<and> zero (es ! (2 * k + 1)) then []
      else place (start + of_nat (32 * k)) (row (es ! (2 * k)) @ row (es ! (2 * k + 1))))"

lemma write_pairs_loads:
  assumes len: "2 * m \<le> length es" and row: "\<And>e. length (row e) = 2"
  shows "k \<le> m \<Longrightarrow> (\<not> skip \<longrightarrow> a = start + of_nat (32 * k)) \<Longrightarrow>
     \<exists>out. write_pairs suppress env zero row start es (2 * m) (2 * k) skip la printed = Inr out \<and>
           load_items a out = concat (map (pair_words suppress zero row start es) [k..<m])"
proof (induction "m - k" arbitrary: k skip a la printed)
  case 0
  then have "k = m" by simp
  then show ?case by (subst write_pairs.simps) (simp add: Let_def load_items_append)
next
  case (Suc d)
  then have km: "k < m" and d: "d = m - Suc k" "Suc k \<le> m" by auto
  define cur where "cur = start + of_nat (2 * k) * BYTES_PER_ENTRY"
  have cur: "cur = start + of_nat (32 * k)" by (simp add: cur_def BYTES_PER_ENTRY_def)
  have i: "2 * k < length es" "2 * k + 1 < length es" using km len by auto
  have upt: "[k..<m] = k # [Suc k..<m]" using km by (simp add: upt_conv_Cons)
  show ?case
  proof (cases "suppress \<and> zero (es ! (2 * k)) \<and> zero (es ! (2 * k + 1))")
    case True
    from Suc.hyps(1) [OF d, of True a "if skip then la else cur" printed]
    show ?thesis
      using True i km
      by (subst write_pairs.simps) (auto simp: upt pair_words_def cur_def BYTES_PER_ENTRY_def Let_def)
  next
    case False
    define a' where "a' = start + of_nat (32 * Suc k)"
    from Suc.hyps(1) [OF d, of False a' la True]
    obtain out where out: "write_pairs suppress env zero row start es (2 * m) (2 * Suc k) False la True = Inr out"
      and load: "load_items a' out = concat (map (pair_words suppress zero row start es) [Suc k..<m])"
      by (auto simp: a'_def)
    define pre where "pre = (if skip then end_of_run env printed la start cur
                                 @ [At cur (from_compressed start)] else [])"
    have w: "write_pairs suppress env zero row start es (2 * m) (2 * k) skip la printed =
        Inr (pre @ Row64 (row (es ! (2 * k)) @ row (es ! (2 * k + 1))) # out)"
      using False i km out
      by (subst write_pairs.simps) (auto simp: pre_def cur_def Let_def)
    have pre: "load_items a pre = []" "load_loc a pre = cur"
      using Suc.prems(2) by (auto simp: pre_def load_items_append load_loc_append cur)
    have "cur + 32 = a'" by (simp add: cur a'_def algebra_simps)
    moreover have "pair_words suppress zero row start es k = place cur (row (es ! (2 * k)) @ row (es ! (2 * k + 1)))"
      using False by (auto simp: pair_words_def cur)
    ultimately show ?thesis
      using w pre load by (simp add: load_items_append upt row)
  qed
qed

section \<open>What a TSB holds\<close>

definition link_index :: "tsb_link \<Rightarrow> u64 \<Rightarrow> nat" where
  "link_index l a = unat ((a - tl_start_addr l) div 32)"

text \<open>The (tag, data) pairs a slot stands for: none, its own, or those of its chain.\<close>

definition tsb_bucket :: "tsb_link \<Rightarrow> tsb_entry \<Rightarrow> (u64 \<times> u64) list" where
  "tsb_bucket l e =
     (if te_tag e = 0 \<and> te_data e = 0 then []
      else if te_tag e = TSB_LINK_TAG then area_chain l (link_index l (te_data e))
      else [(te_tag e, te_data e)])"

definition tsb_buckets :: "tsb_link \<Rightarrow> tsb \<Rightarrow> (u64 \<times> u64) list list" where
  "tsb_buckets l t = map (tsb_bucket l) (t_entries t)"

text \<open>The invariant of a TSB with its link area: every link slot points to the head of a chain of
  its own.\<close>

definition tsb_ok :: "tsb_link \<Rightarrow> tsb \<Rightarrow> bool" where
  "tsb_ok l t \<longleftrightarrow> area_ok l \<and>
     (\<forall>e \<in> set (t_entries t). te_tag e = TSB_LINK_TAG \<longrightarrow> link_index l (te_data e) \<in> area_heads l) \<and>
     (\<forall>i < length (t_entries t). \<forall>j < length (t_entries t).
        te_tag (t_entries t ! i) = TSB_LINK_TAG \<longrightarrow> te_tag (t_entries t ! j) = TSB_LINK_TAG \<longrightarrow>
        link_index l (te_data (t_entries t ! i)) = link_index l (te_data (t_entries t ! j)) \<longrightarrow> i = j)"

text \<open>A pair an entry can carry: neither the mark of a free slot nor that of a link.\<close>

definition plain_pair :: "u64 \<Rightarrow> u64 \<Rightarrow> bool" where
  "plain_pair tag data \<longleftrightarrow> tag \<noteq> TSB_LINK_TAG \<and> \<not> (tag = 0 \<and> data = 0)"

definition slot_of :: "tsb_link \<Rightarrow> tsb_entry \<Rightarrow> (u64 \<times> u64) slot" where
  "slot_of l e =
     (if te_tag e = 0 \<and> te_data e = 0 then Free
      else if te_tag e = TSB_LINK_TAG then Chained (link_index l (te_data e))
      else Single (te_tag e, te_data e))"

lemma link_tag_nonzero [simp]: "TSB_LINK_TAG \<noteq> 0" "0 \<noteq> TSB_LINK_TAG"
  by (simp_all add: TSB_LINK_TAG_def)

lemma slot_of_Chained_iff: "slot_of l e = Chained h \<longleftrightarrow> te_tag e = TSB_LINK_TAG \<and> h = link_index l (te_data e)"
  by (auto simp: slot_of_def)

lemma tsb_bucket_slot: "tsb_bucket l e = tsb_area.slot_list l (slot_of l e)"
  by (simp add: tsb_bucket_def tsb_area.slot_list_def slot_of_def)

lemma tsb_ok_table: "tsb_ok l t \<longleftrightarrow> tsb_area.table_ok l (map (slot_of l) (t_entries t))"
  by (simp add: tsb_ok_def tsb_area.table_ok_def slot_of_Chained_iff all_set_conv_all_nth) blast

lemma slot_of_cong: "tl_start_addr l' = tl_start_addr l \<Longrightarrow> slot_of l' = slot_of l"
  by (simp add: slot_of_def link_index_def fun_eq_iff)

lemma tsb_extend_start: "tsb_extend b bt l h p = Inr l' \<Longrightarrow> tl_start_addr l' = tl_start_addr l"
  by (auto simp: tsb_extend_def add_to_chain_def Let_def bindr_Inr_iff)

text \<open>\<open>tsb_link_add_entry\<close> is the insertion of the contract.\<close>

lemma tsb_link_add_entry_insert:
  assumes ok: "area_ok l" and nf: "\<not> (te_tag e = 0 \<and> te_data e = 0)"
    and add: "tsb_link_add_entry l t d e b bt = Inr (l', e')"
  shows "tsb_area.insert_slot b bt l (slot_of l e) (t, d) = Inr (l', slot_of l' e') \<and>
         tl_start_addr l' = tl_start_addr l"
proof (cases "te_tag e = TSB_LINK_TAG")
  case True
  with add have ex: "tsb_extend b bt l (link_index l (te_data e)) (t, d) = Inr l'" and e': "e' = e"
    unfolding tsb_link_add_entry_chained [OF True] link_index_def by auto
  have st: "tl_start_addr l' = tl_start_addr l" by (rule tsb_extend_start [OF ex])
  have "slot_of l e = Chained (link_index l (te_data e))" using True by (simp add: slot_of_Chained_iff)
  with ex e' st show ?thesis
    by (simp add: tsb_area.insert_slot_def slot_of_cong [OF st])
next
  case False
  from tsb_link_add_entry_single [OF ok False add]
  obtain k where np: "tsb_new_pair b bt l (te_tag e, te_data e) (t, d) = Inr (k, l')"
    and e': "e' = e\<lparr>te_tag := TSB_LINK_TAG, te_data := node_addr (tl_start_addr l) k\<rparr>"
    and k: "k < 2 ^ 26" and st: "tl_start_addr l' = tl_start_addr l" by blast
  have "link_index l' (node_addr (tl_start_addr l) k) = k"
    using node_index(1) [OF k] by (simp add: link_index_def st)
  then have "slot_of l' e' = Chained k" by (simp add: e' slot_of_def)
  moreover have "slot_of l e = Single (te_tag e, te_data e)" using False nf by (auto simp: slot_of_def)
  ultimately show ?thesis using np st by (simp add: tsb_area.insert_slot_def)
qed

lemma add_entry_cases:
  assumes "add_entry allow ls t index tag data b bt = Inr (ls', t')"
  obtains (free) "index < t_num_entries t" "unat index < length (t_entries t)"
      "te_tag (t_entries t ! unat index) = 0" "te_data (t_entries t ! unat index) = 0" "ls' = ls"
      "t' = t\<lparr>t_entries := (t_entries t)[unat index :=
                  \<lparr>te_tag = tag, te_data = data, te_block = Some b, te_block_tsb = Some bt\<rparr>]\<rparr>"
  | (link) li l' e' where "index < t_num_entries t" "unat index < length (t_entries t)"
      "\<not> (te_tag (t_entries t ! unat index) = 0 \<and> te_data (t_entries t ! unat index) = 0)"
      "allow" "t_link_ptr t = Some li" "li < length ls"
      "tsb_link_add_entry (ls ! li) tag data (t_entries t ! unat index) (Some b) (Some bt) = Inr (l', e')"
      "ls' = ls[li := l']" "t' = t\<lparr>t_entries := (t_entries t)[unat index := e']\<rparr>"
proof (cases "te_tag (t_entries t ! unat index) = 0 \<and> te_data (t_entries t ! unat index) = 0")
  case True
  with assms show thesis
    by (intro free) (auto simp: add_entry_def bindr_Inr_iff not_le)
next
  case False
  with assms obtain li where li: "t_link_ptr t = Some li"
    by (cases "t_link_ptr t") (auto simp: add_entry_def bindr_Inr_iff)
  with False assms obtain l' e' where "index < t_num_entries t" "unat index < length (t_entries t)" "allow" "li < length ls"
      "tsb_link_add_entry (ls ! li) tag data (t_entries t ! unat index) (Some b) (Some bt) = Inr (l', e')"
      "ls' = ls[li := l']" "t' = t\<lparr>t_entries := (t_entries t)[unat index := e']\<rparr>"
    by (auto simp: add_entry_def bindr_Inr_iff not_le)
  with False li show thesis by (intro link) 
qed

lemma add_entry_fields:
  "add_entry allow ls t index tag data b bt = Inr (ls', t') \<Longrightarrow>
     length (t_entries t') = length (t_entries t) \<and> length ls' = length ls \<and>
     unat index < length (t_entries t)"
  by (erule add_entry_cases) auto

lemma slot_step:
  assumes ok: "tsb_ok l t" and i: "i < length (t_entries t)" and st: "tl_start_addr l' = tl_start_addr l"
    and ins: "tsb_area.insert_slot b bt l (slot_of l (t_entries t ! i)) p = Inr (l', slot_of l' e')"
  shows "tsb_ok l' (t\<lparr>t_entries := (t_entries t)[i := e']\<rparr>) \<and>
    tsb_buckets l' (t\<lparr>t_entries := (t_entries t)[i := e']\<rparr>) =
      (tsb_buckets l t)[i := tsb_buckets l t ! i @ [p]]"
proof -
  define ss where "ss = map (slot_of l) (t_entries t)"
  have sl: "ss ! i = slot_of l (t_entries t ! i)" "i < length ss" using i by (simp_all add: ss_def)
  have s': "ss[i := slot_of l' e'] = map (slot_of l') ((t_entries t)[i := e'])"
    by (simp add: ss_def slot_of_cong [OF st] map_update)
  have bk: "tsb_bucket m = (\<lambda>x. tsb_area.slot_list m (slot_of m x))" for m
    by (rule ext) (rule tsb_bucket_slot)
  from ok have "tsb_area.table_ok l ss" by (simp add: tsb_ok_table ss_def)
  from tsb_area.insert_spec [OF this sl(2) ins [folded sl(1)], unfolded s'] sl i
  show ?thesis
    by (simp add: tsb_ok_table tsb_buckets_def bk ss_def comp_def)
qed

text \<open>Adding a pair appends it to the bucket of its index and to no other; chains that belong to
  other TSBs of the same area stay.\<close>

lemma add_entry_spec:
  assumes li: "t_link_ptr t = Some li" "li < length ls" and ok: "tsb_ok (ls ! li) t"
    and pl: "plain_pair tag data" and add: "add_entry allow ls t index tag data b bt = Inr (ls', t')"
  shows "tsb_ok (ls' ! li) t' \<and> ls' = ls[li := ls' ! li] \<and>
    tsb_buckets (ls' ! li) t' = (tsb_buckets (ls ! li) t)
      [unat index := tsb_buckets (ls ! li) t ! unat index @ [(tag, data)]] \<and>
    t_link_ptr t' = Some li"
  using add
proof (cases rule: add_entry_cases)
  case free
  define e where "e = \<lparr>te_tag = tag, te_data = data, te_block = Some b, te_block_tsb = Some bt\<rparr>"
  have "slot_of (ls ! li) (t_entries t ! unat index) = Free" using free by (simp add: slot_of_def)
  moreover have "slot_of (ls ! li) e = Single (tag, data)" using pl by (auto simp: e_def slot_of_def plain_pair_def)
  ultimately have "tsb_area.insert_slot (Some b) (Some bt) (ls ! li)
      (slot_of (ls ! li) (t_entries t ! unat index)) (tag, data) = Inr (ls ! li, slot_of (ls ! li) e)"
    by (simp add: tsb_area.insert_slot_def)
  from slot_step [OF ok free(2) refl this] show ?thesis using free li by (simp add: e_def)
next
  case (link li' l' e')
  with li have eq: "li' = li" by simp
  from ok have okl: "area_ok (ls ! li)" by (simp add: tsb_ok_def)
  note ins = tsb_link_add_entry_insert [OF okl link(3) link(7) [unfolded eq]]
  from slot_step [OF ok link(2) conjunct2 [OF ins] conjunct1 [OF ins]] link li
  show ?thesis by (simp add: eq)
qed

text \<open>With conflicts allowed and room in the area an in-range pair is always accepted.\<close>

lemma add_entry_accepts:
  assumes li: "t_link_ptr t = Some li" "li < length ls" and ok: "tsb_ok (ls ! li) t"
    and index: "index < t_num_entries t" "unat index < length (t_entries t)"
    and room: "length (tl_entries (ls ! li)) + 2 \<le> 2 ^ 26"
  shows "\<exists>r. add_entry True ls t index tag data b bt = Inr r"
proof -
  define l e where "l = ls ! li" and "e = t_entries t ! unat index"
  have okl: "area_ok l" using ok by (simp add: tsb_ok_def l_def)
  have add1: "\<exists>r. add_to_chain m k t d x y = Inr r"
    if "k < length (tl_entries m)" "length (tl_entries m) < 2 ^ 26" for m k t d x y
    using that add_to_chain_Inr_iff [of k m t d x y] by blast
  have "\<exists>l' e'. tsb_link_add_entry l tag data e (Some b) (Some bt) = Inr (l', e')"
  proof (cases "te_tag e = TSB_LINK_TAG")
    case True
    define h where "h = link_index l (te_data e)"
    have h: "h < length (next_of l)"
      using ok True index area_headsD [of h l] by (auto simp: tsb_ok_def h_def l_def e_def)
    have ns: "ns_ok (next_of l)" using okl by (simp add: area_ok_def)
    obtain l' where "add_to_chain l (last (chain_idx (next_of l) h)) tag data (Some b) (Some bt) = Inr l'"
      using chain_last [OF ns h] add1 [of "last (chain_idx (next_of l) h)" l tag data "Some b" "Some bt"] room
      by (auto simp: l_def)
    then have "tsb_extend (Some b) (Some bt) l h (tag, data) = Inr l'"
      using chase_last [OF ns h] by (simp add: tsb_extend_def)
    then show ?thesis
      using tsb_link_add_entry_chained [OF True, of l tag data] by (simp add: h_def link_index_def)
  next
    case False
    define k l1 where "k = length (tl_entries l)"
      and "l1 = l\<lparr>tl_entries := tl_entries l @ [new_node (te_tag e) (te_data e) (Some b) (Some bt)
                                                 (node_addr (tl_start_addr l) k)]\<rparr>"
    have st: "start_new_chain l (te_tag e) (te_data e) (Some b) (Some bt) = Inr (k, l1)"
      using room by (simp add: start_new_chain_Inr_iff k_def l1_def l_def)
    obtain l2 where l2: "add_to_chain l1 k tag data (Some b) (Some bt) = Inr l2"
      using add1 [of k l1 tag data "Some b" "Some bt"] room by (auto simp: k_def l1_def l_def)
    moreover have "k < length (tl_entries l2)"
      using l2 add_to_chain_Inr_iff [of k l1] by (auto simp: k_def l1_def)
    ultimately show ?thesis using st False by (simp add: tsb_link_add_entry_def)
  qed
  then obtain l' e' where "tsb_link_add_entry l tag data e (Some b) (Some bt) = Inr (l', e')" by blast
  then show ?thesis
    using li index by (simp add: add_entry_def not_le l_def e_def)
qed

section \<open>Sequences of additions, and what the hardware finds\<close>

text \<open>A link slot holds the exact address of the first node of its chain.\<close>

definition link_exact :: "tsb_link \<Rightarrow> tsb \<Rightarrow> bool" where
  "link_exact l t \<longleftrightarrow> (\<forall>e \<in> set (t_entries t). te_tag e = TSB_LINK_TAG \<longrightarrow>
     te_data e = node_addr (tl_start_addr l) (link_index l (te_data e)))"

text \<open>A hardware table walk of one slot: a link slot is followed through memory.\<close>

definition hw_slot :: "nat \<Rightarrow> tsb_link \<Rightarrow> tsb_entry \<Rightarrow> (u64 \<times> u64) list option" where
  "hw_slot fuel l e =
     (if te_tag e = 0 \<and> te_data e = 0 then Some []
      else if te_tag e = TSB_LINK_TAG then hw_walk fuel l (te_data e)
      else Some [(te_tag e, te_data e)])"

lemma hw_slot_bucket:
  assumes ok: "tsb_ok l t" and ex: "link_exact l t" and al: "tl_start_addr l AND 31 = 0"
    and e: "e \<in> set (t_entries t)"
  shows "hw_slot (Suc (length (tl_entries l))) l e = Some (tsb_bucket l e)"
proof (cases "te_tag e = TSB_LINK_TAG")
  case True
  have h: "link_index l (te_data e) \<in> area_heads l" and a: "area_ok l"
    using ok e True by (auto simp: tsb_ok_def)
  have "node_addr (tl_start_addr l) i \<noteq> EOL" if "i < length (tl_entries l)" for i
    using a that by (intro aligned_not_EOL [OF al]) (simp add: area_ok_def)
  from hw_walk_chain_fuel [OF a this, of "link_index l (te_data e)" "Suc (length (tl_entries l))"]
  have "hw_walk (Suc (length (tl_entries l))) l (node_addr (tl_start_addr l) (link_index l (te_data e))) =
      Some (area_chain l (link_index l (te_data e)))"
    using area_headsD [OF h] by simp
  moreover have "te_data e = node_addr (tl_start_addr l) (link_index l (te_data e))"
    using ex e True by (simp add: link_exact_def)
  ultimately show ?thesis using True by (simp add: hw_slot_def tsb_bucket_def del: hw_walk.simps)
qed (simp add: hw_slot_def tsb_bucket_def)

lemma set_update_cases: "x \<in> set (xs[i := y]) \<Longrightarrow> x = y \<or> x \<in> set xs"
  using set_update_subset_insert [of xs i y] by blast

lemma add_entry_exact:
  assumes li: "t_link_ptr t = Some li" "li < length ls" and ok: "tsb_ok (ls ! li) t" and ex: "link_exact (ls ! li) t"
    and pl: "plain_pair tag data" and add: "add_entry allow ls t index tag data b bt = Inr (ls', t')"
  shows "link_exact (ls' ! li) t' \<and> tl_start_addr (ls' ! li) = tl_start_addr (ls ! li)"
  using add
proof (cases rule: add_entry_cases)
  case free
  with ex pl show ?thesis
    by (auto simp: link_exact_def plain_pair_def dest!: set_update_cases)
next
  case (link li' l' e')
  with li have eq: "li' = li" "ls' ! li = l'" by simp_all
  define e where "e = t_entries t ! unat index"
  have okl: "area_ok (ls ! li)" using ok by (simp add: tsb_ok_def)
  have add: "tsb_link_add_entry (ls ! li) tag data e (Some b) (Some bt) = Inr (l', e')"
    using link(7) by (simp add: eq e_def)
  have st: "tl_start_addr l' = tl_start_addr (ls ! li)"
    using tsb_link_add_entry_insert [OF okl link(3) link(7) [unfolded eq(1)]] by simp
  have li': "link_index l' = link_index (ls ! li)" by (simp add: link_index_def st fun_eq_iff)
  have "te_data e' = node_addr (tl_start_addr l') (link_index l' (te_data e'))" if "te_tag e' = TSB_LINK_TAG"
  proof (cases "te_tag e = TSB_LINK_TAG")
    case True
    with add have "e' = e" unfolding tsb_link_add_entry_chained [OF True] by auto
    with ex True link(2) show ?thesis by (simp add: link_exact_def li' st e_def)
  next
    case False
    from tsb_link_add_entry_single [OF okl False add] obtain k
      where "e' = e\<lparr>te_tag := TSB_LINK_TAG, te_data := node_addr (tl_start_addr (ls ! li)) k\<rparr>" "k < 2 ^ 26"
      by blast
    then show ?thesis using node_index(1) [of k] by (simp add: link_index_def st)
  qed
  with ex st show ?thesis
    by (auto simp: link_exact_def eq link(9) li' dest!: set_update_cases)
qed

type_synonym addition = "u64 \<times> u64 \<times> u64 \<times> block_ref \<times> block_tsb_ref"

definition add_entries :: "bool \<Rightarrow> tsb_link list \<Rightarrow> tsb \<Rightarrow> addition list \<Rightarrow> (tsb_link list \<times> tsb) res" where
  "add_entries allow ls t ps =
     foldr_res (\<lambda>(ls, t) (index, tag, data, b, bt). add_entry allow ls t index tag data b bt) (ls, t) ps"

text \<open>The multimap a sequence of additions describes.\<close>

definition added_at :: "addition list \<Rightarrow> nat \<Rightarrow> (u64 \<times> u64) list" where
  "added_at ps i = map (\<lambda>(_, tag, data, _). (tag, data)) (filter (\<lambda>(index, _). unat index = i) ps)"

lemma add_entries_spec:
  assumes "t_link_ptr t = Some li" and "li < length ls" and "tsb_ok (ls ! li) t" and "link_exact (ls ! li) t"
    and "\<And>ix tg d b bt. (ix, tg, d, b, bt) \<in> set ps \<Longrightarrow> plain_pair tg d"
    and "add_entries allow ls t ps = Inr (ls', t')"
  shows "tsb_ok (ls' ! li) t' \<and> link_exact (ls' ! li) t' \<and> length (t_entries t') = length (t_entries t) \<and>
    tl_start_addr (ls' ! li) = tl_start_addr (ls ! li) \<and>
    (\<forall>i < length (t_entries t). tsb_buckets (ls' ! li) t' ! i = tsb_buckets (ls ! li) t ! i @ added_at ps i)"
  using assms
proof (induction ps arbitrary: ls t)
  case Nil
  then show ?case by (simp add: add_entries_def added_at_def)
next
  case (Cons p ps)
  obtain ix tg d b bt where p: "p = (ix, tg, d, b, bt)" by (cases p)
  from Cons.prems(6) obtain ls1 t1 where ad: "add_entry allow ls t ix tg d b bt = Inr (ls1, t1)"
    and rest: "add_entries allow ls1 t1 ps = Inr (ls', t')"
    by (auto simp: add_entries_def p bindr_Inr_iff)
  have pl: "plain_pair tg d" using Cons.prems(5) [of ix tg d b bt] by (simp add: p)
  note step = add_entry_spec [OF Cons.prems(1-3) pl ad] and len = add_entry_fields [OF ad]
    and ex = add_entry_exact [OF Cons.prems(1-4) pl ad]
  have l1: "li < length ls1" using len Cons.prems(2) by simp
  have pls: "plain_pair tg' d'" if "(ix', tg', d', b', bt') \<in> set ps" for ix' tg' d' b' bt'
    using Cons.prems(5) [of ix' tg' d' b' bt'] that by simp
  have 1: "t_link_ptr t1 = Some li" "tsb_ok (ls1 ! li) t1" "link_exact (ls1 ! li) t1"
    using step ex by auto
  note IH = Cons.IH [OF 1(1) l1 1(2,3) pls rest]
  have bk: "tsb_buckets (ls1 ! li) t1 ! i = tsb_buckets (ls ! li) t ! i @ (if unat ix = i then [(tg, d)] else [])"
    if "i < length (t_entries t)" for i
    using step that by (simp add: tsb_buckets_def nth_list_update)
  have "added_at (p # ps) i = (if unat ix = i then [(tg, d)] else []) @ added_at ps i" for i
    by (simp add: added_at_def p)
  with IH len bk ex show ?case by simp
qed

text \<open>A TSB as \<open>finish_single_tsb_init\<close> leaves it.\<close>

lemma fresh_tsb:
  assumes "set (t_entries t) \<subseteq> {zero_tsb_entry}" and "area_ok l"
  shows "tsb_ok l t" and "link_exact l t" and "tsb_buckets l t = replicate (length (t_entries t)) []"
proof -
  have z: "te_tag e = 0 \<and> te_data e = 0" if "e \<in> set (t_entries t)" for e
    using assms(1) that by (auto simp: zero_tsb_entry_def)
  have n: "te_tag (t_entries t ! i) = 0" if "i < length (t_entries t)" for i
    using z [of "t_entries t ! i"] that by simp
  show "tsb_ok l t" using assms(2) z n by (auto simp: tsb_ok_def)
  show "link_exact l t" using z by (auto simp: link_exact_def)
  show "tsb_buckets l t = replicate (length (t_entries t)) []"
    using z by (intro nth_equalityI) (auto simp: tsb_buckets_def tsb_bucket_def)
qed

lemma finish_single_tsb_init_fields:
  assumes "finish_single_tsb_init mem links t = Inr t0"
  shows "set (t_entries t0) \<subseteq> {zero_tsb_entry}"
    and "length (t_entries t0) = unat (t_num_entries t * 32) div 32"
    and "t_num_entries t0 = t_num_entries t" and "t_start_addr t0 = t_start_addr t"
    and "t_link_area t = Some name \<Longrightarrow> get_tsb_link_ptr_by_name links name = t_link_ptr t0 \<and> t_link_ptr t0 \<noteq> None"
proof -
  have u: "unat (32 :: u64) = 32" by simp
  have "t_num_entries t0 = t_num_entries t \<and> t_start_addr t0 = t_start_addr t \<and>
    t_entries t0 = replicate (unat (t_num_entries t * 32) div 32) zero_tsb_entry \<and>
    (t_link_area t = Some name \<longrightarrow> get_tsb_link_ptr_by_name links name = t_link_ptr t0 \<and> t_link_ptr t0 \<noteq> None)"
    using assms
    by (auto simp: finish_single_tsb_init_def alloc_entries_def bindr_Inr_iff Let_def u
        split: option.splits)
  then show "set (t_entries t0) \<subseteq> {zero_tsb_entry}"
    "length (t_entries t0) = unat (t_num_entries t * 32) div 32"
    "t_num_entries t0 = t_num_entries t" "t_start_addr t0 = t_start_addr t"
    "t_link_area t = Some name \<Longrightarrow> get_tsb_link_ptr_by_name links name = t_link_ptr t0 \<and> t_link_ptr t0 \<noteq> None"
    by auto
qed

end
