(* ===== verification/GF_Symtab.thy ===== *)
theory GF_Symtab
  imports GF_Vector
begin

text \<open>
  \<open>symtab.c\<close>: a symbol table is a vector of (name, value, size) entries; look-up is a linear
  search, so the first entry added under a name is the one found. Vectors hold pointers, whose
  size is 8 bytes.
\<close>

record symtab_ent =
  sym_name :: string
  sym_value :: addr_t
  sym_size :: u64

type_synonym symtab_t = "symtab_ent vector_t"

definition POINTER_SIZE :: int where
  "POINTER_SIZE = 8"

definition init_symtab_entry :: symtab_ent where
  "init_symtab_entry = \<lparr>sym_name = ''<unnamed>'', sym_value = 0, sym_size = 0\<rparr>"

definition init_symtab :: "(int \<Rightarrow> bool) \<Rightarrow> symtab_t res" where
  "init_symtab mem = init_vector mem (Some ''Symbol table'') POINTER_SIZE (Some init_symtab_entry)"

definition destroy_symtab :: "symtab_t \<Rightarrow> symtab_ent option list \<times> symtab_t" where
  "destroy_symtab st = deallocate_vector True st"

definition symtab_ent_lookup_compare :: "string \<Rightarrow> symtab_ent \<Rightarrow> bool" where
  "symtab_ent_lookup_compare name e = (name = sym_name e)"

definition lookup_symtab :: "symtab_t \<Rightarrow> string \<Rightarrow> symtab_ent option res" where
  "lookup_symtab st lookname =
     bindr (search_vector st (symtab_ent_lookup_compare lookname)) (\<lambda>entp.
       case entp of None \<Rightarrow> Inr None
       | Some i \<Rightarrow> bindr (vector_elem st (int i)) (\<lambda>e. Inr (Some e)))"

definition add_to_symtab :: "(int \<Rightarrow> bool) \<Rightarrow> symtab_t \<Rightarrow> string \<Rightarrow> addr_t \<Rightarrow> u64 \<Rightarrow> symtab_t res" where
  "add_to_symtab mem st name val size' =
     bindr (add_vector_elements mem st 1) (\<lambda>(new_index, st1).
     bindr (vector_elem st1 new_index) (\<lambda>entry.
       Inr (set_vector_elem st1 (nat new_index)
              (entry\<lparr>sym_name := name, sym_value := val, sym_size := size'\<rparr>))))"

definition symtab_ok :: "symtab_t \<Rightarrow> bool" where
  "symtab_ok st \<longleftrightarrow> vec_ok st \<and> init_elem_func st = Some init_symtab_entry"

lemma init_symtab_ok: "init_symtab mem = Inr st \<Longrightarrow> symtab_ok st \<and> vec_list st = []"
  using init_vector_ok [of mem "Some ''Symbol table''" POINTER_SIZE "Some init_symtab_entry" st]
  by (auto simp: init_symtab_def symtab_ok_def init_vector_def)

text \<open>Adding a symbol is the two-move push of the vector contract.\<close>

lemma add_to_symtab_push:
  assumes "symtab_ok st" and "add_to_symtab mem st n v s = Inr st'"
  shows "pushable.push (vec_add_one mem) set_vector_elem st
           \<lparr>sym_name = n, sym_value = v, sym_size = s\<rparr> = Inr st'"
proof -
  from assms(2) obtain i st1 e where a: "add_vector_elements mem st 1 = Inr (i, st1)"
    and e: "vector_elem st1 i = Inr e"
    and st': "st' = set_vector_elem st1 (nat i) (e\<lparr>sym_name := n, sym_value := v, sym_size := s\<rparr>)"
    by (auto simp: add_to_symtab_def)
  have "e\<lparr>sym_name := n, sym_value := v, sym_size := s\<rparr> = \<lparr>sym_name = n, sym_value = v, sym_size = s\<rparr>"
    by simp
  with a st' show ?thesis by (simp add: vec.push_def vec_add_one_def)
qed

lemma add_to_symtab_appends:
  assumes "symtab_ok st" and "add_to_symtab mem st n v s = Inr st'"
  shows "symtab_ok st' \<and>
         vec_list st' = vec_list st @ [\<lparr>sym_name = n, sym_value = v, sym_size = s\<rparr>]"
proof -
  have "vec_ok st \<and> init_elem_func st = Some init_symtab_entry"
    using assms(1) by (simp add: symtab_ok_def)
  from vec.push_appends [OF this add_to_symtab_push [OF assms]] show ?thesis
    by (simp add: symtab_ok_def)
qed

lemma lookup_symtab_eq:
  assumes "symtab_ok st"
  shows "lookup_symtab st n = Inr (find (symtab_ent_lookup_compare n) (vec_list st))"
proof -
  let ?p = "symtab_ent_lookup_compare n"
  have ok: "vec_ok st" using assms by (simp add: symtab_ok_def)
  from search_vector_first [OF ok, of ?p] obtain r where r: "search_vector st ?p = Inr r"
    and c: "case r of None \<Rightarrow> find ?p (vec_list st) = None
      | Some j \<Rightarrow> j < length (vec_list st) \<and> find ?p (vec_list st) = Some (vec_list st ! j) \<and>
                   (\<forall>m < j. \<not> ?p (vec_list st ! m))" by blast
  show ?thesis
  proof (cases r)
    case None
    with r c show ?thesis by (simp add: lookup_symtab_def)
  next
    case (Some j)
    with c have "vector_elem st (int j) = Inr (vec_list st ! j)"
      by (intro vector_elem_ok [OF ok]) simp
    with r c Some show ?thesis by (simp add: lookup_symtab_def)
  qed
qed

text \<open>After an insertion a name that was bound keeps its old entry; a fresh name finds the new
  one.\<close>

lemma lookup_after_add:
  assumes "symtab_ok st" and "add_to_symtab mem st n v s = Inr st'"
    and "lookup_symtab st m = Inr r"
  shows "lookup_symtab st' m =
         Inr (if r \<noteq> None then r
              else if m = n then Some \<lparr>sym_name = n, sym_value = v, sym_size = s\<rparr> else None)"
proof -
  have find_app: "find p (xs @ [y]) = (case find p xs of None \<Rightarrow> if p y then Some y else None | Some z \<Rightarrow> Some z)"
    for p :: "symtab_ent \<Rightarrow> bool" and xs y by (induction xs) auto
  have r: "r = find (symtab_ent_lookup_compare m) (vec_list st)"
    using assms(3) lookup_symtab_eq [OF assms(1)] by simp
  from add_to_symtab_appends [OF assms(1,2)] lookup_symtab_eq [of st' m] r show ?thesis
    by (auto simp: find_app symtab_ent_lookup_compare_def split: option.splits)
qed

end
