(* ===== verification/GF_Block_Tsb.thy ===== *)
theory GF_Block_Tsb
  imports GF_Tsb GF_Symtab
begin

text \<open>
  \<open>block_tsb.c\<close>: how a block of an application is entered into a TSB. A \<open>block_tsb\<close> names
  the TSB and says which address bits make the index, the tag and the data of an entry; the pages
  of the block are then added one by one. The records of \<open>block.h\<close> are here too, since the two
  headers refer to each other; a \<open>block_tsb\<close>'s pointer to its block is the \<open>block\<close> argument of
  the routines.

  Lemmas: what the sanity check guarantees, the address arithmetic of one page on
  mathematical integers, and that adding a block appends exactly its pages to the TSB.
\<close>

section \<open>Data\<close>

record bit_range =
  br_hi :: int
  br_lo :: int

definition NO_BITS :: int where "NO_BITS = - 1"

text \<open>\<open>(1 << (hi - lo + 1)) - 1\<close>, and the same shifted to its place.\<close>

definition bit_range_to_shifted_mask_64 :: "bit_range \<Rightarrow> u64 res" where
  "bit_range_to_shifted_mask_64 r = bindr (shl64 1 (br_hi r - br_lo r + 1)) (\<lambda>w. Inr (w - 1))"

definition bit_range_to_mask_64 :: "bit_range \<Rightarrow> u64 res" where
  "bit_range_to_mask_64 r = bindr (bit_range_to_shifted_mask_64 r) (\<lambda>w. shl64 w (br_lo r))"

record block_tsb =
  bt_name :: string
  bt_tsb :: "nat option"
  bt_va_index_bits :: bit_range
  bt_tag_addr_bits :: bit_range
  bt_tte_tag_addr_bits :: bit_range
  bt_data_addr_bits :: bit_range
  bt_page_size :: u64
  bt_tag_base :: addr_t
  bt_data_base :: addr_t
  bt_srcfile :: string
  bt_srcline :: int

text \<open>Of a \<open>block_tsbcsm\<close> the program initialises and sets these members only.\<close>

record block_tsbcsm =
  bc_name :: string
  bc_tsbcsm :: "nat option"
  bc_clump_num :: u64
  bc_srcfile :: string
  bc_srcline :: int

record block =
  b_name :: string
  b_section_name :: string
  b_segment_name :: string
  b_link_section :: "string option"
  b_compress :: int
  b_va :: addr_t
  b_ra :: addr_t
  b_pa :: addr_t
  b_in_image :: int
  b_end_va :: addr_t
  b_start_label :: "string option"
  b_end_label :: "string option"
  b_tsbs :: "block_tsb list"
  b_tsbcsms :: "block_tsbcsm list"
  b_no_end_range_check :: int
  b_ra_eq_va :: int
  b_pa_eq_va :: int
  b_linked_section_obj :: "nat option"
  b_srcfile :: string
  b_srcline :: int
  b_lineno :: int
  b_d_offset :: addr_t
  b_d_length :: addr_t
  b_open_block_tsb_index :: int
  b_open_block_tsbcsm_index :: int

definition no_bits :: bit_range where
  "no_bits = \<lparr>br_hi = NO_BITS, br_lo = NO_BITS\<rparr>"

definition init_block_tsb :: block_tsb where
  "init_block_tsb = \<lparr>bt_name = ''<no_name>'', bt_tsb = None, bt_va_index_bits = no_bits,
     bt_tag_addr_bits = no_bits, bt_tte_tag_addr_bits = no_bits, bt_data_addr_bits = no_bits,
     bt_page_size = 0, bt_tag_base = NO_ADDR, bt_data_base = NO_ADDR,
     bt_srcfile = ''<unknown>'', bt_srcline = 0\<rparr>"

definition init_block_tsbcsm :: block_tsbcsm where
  "init_block_tsbcsm = \<lparr>bc_name = ''<no_name>'', bc_tsbcsm = None, bc_clump_num = 0,
     bc_srcfile = ''<unknown>'', bc_srcline = 0\<rparr>"

text \<open>The setters of \<open>BLK_TSB_SET\<close>, \<open>BLK_TSB_SET_BITS\<close> and \<open>BLK_TSBCSM_SET\<close>.\<close>

datatype block_tsb_attr =
    BT_name string | BT_tag_base addr_t | BT_data_base addr_t | BT_page_size u64
  | BT_srcfile string | BT_srcline int | BT_va_index_bits int int | BT_tag_addr_bits int int
  | BT_tte_tag_addr_bits int int | BT_data_addr_bits int int

fun blk_tsb_set :: "block_tsb_attr \<Rightarrow> block_tsb \<Rightarrow> block_tsb" where
  "blk_tsb_set (BT_name v) t = t\<lparr>bt_name := v\<rparr>"
| "blk_tsb_set (BT_tag_base v) t = t\<lparr>bt_tag_base := v\<rparr>"
| "blk_tsb_set (BT_data_base v) t = t\<lparr>bt_data_base := v\<rparr>"
| "blk_tsb_set (BT_page_size v) t = t\<lparr>bt_page_size := v\<rparr>"
| "blk_tsb_set (BT_srcfile v) t = t\<lparr>bt_srcfile := v\<rparr>"
| "blk_tsb_set (BT_srcline v) t = t\<lparr>bt_srcline := v\<rparr>"
| "blk_tsb_set (BT_va_index_bits hi lo) t = t\<lparr>bt_va_index_bits := \<lparr>br_hi = hi, br_lo = lo\<rparr>\<rparr>"
| "blk_tsb_set (BT_tag_addr_bits hi lo) t = t\<lparr>bt_tag_addr_bits := \<lparr>br_hi = hi, br_lo = lo\<rparr>\<rparr>"
| "blk_tsb_set (BT_tte_tag_addr_bits hi lo) t = t\<lparr>bt_tte_tag_addr_bits := \<lparr>br_hi = hi, br_lo = lo\<rparr>\<rparr>"
| "blk_tsb_set (BT_data_addr_bits hi lo) t = t\<lparr>bt_data_addr_bits := \<lparr>br_hi = hi, br_lo = lo\<rparr>\<rparr>"

definition blk_tsbcsm_set_clump_num :: "u64 \<Rightarrow> block_tsbcsm \<Rightarrow> block_tsbcsm" where
  "blk_tsbcsm_set_clump_num v t = t\<lparr>bc_clump_num := v\<rparr>"

section \<open>Initialisation and checks\<close>

definition finish_single_block_tsb_init :: "tsb_entry tsb_vector_st \<Rightarrow> block_tsb \<Rightarrow> block_tsb res" where
  "finish_single_block_tsb_init tsbs bt =
     (case get_tsb_ptr_by_name tsbs (bt_name bt) of
        None \<Rightarrow> Inl (Exit M_BADTSB) | Some p \<Rightarrow> Inr (bt\<lparr>bt_tsb := Some p\<rparr>))"

definition finish_single_block_tsbcsm_init ::
  "tsbcsm_entry tsb_vector_st \<Rightarrow> block_tsbcsm \<Rightarrow> block_tsbcsm res" where
  "finish_single_block_tsbcsm_init tsbcsms bt =
     (case get_tsbcsm_ptr_by_name tsbcsms (bc_name bt) of
        None \<Rightarrow> Inl (Exit M_BADTSB) | Some p \<Rightarrow> Inr (bt\<lparr>bc_tsbcsm := Some p\<rparr>))"

definition block_tsb_name_compare :: "string \<Rightarrow> block_tsb \<Rightarrow> bool" where
  "block_tsb_name_compare name bt \<longleftrightarrow> name = bt_name bt"

text \<open>One bit range: both ends set and within 0 to 63, in the order of the code.\<close>

definition check_bits :: "bit_range \<Rightarrow> unit res \<Rightarrow> unit res" where
  "check_bits r rest =
     errif (br_hi r = NO_BITS) M_BLOCKSYNTAX
     (errif (br_hi r < 0 \<or> br_hi r > 63) M_BLOCKSYNTAX
     (errif (br_lo r = NO_BITS) M_BLOCKSYNTAX
     (errif (br_lo r < 0 \<or> br_lo r > 63) M_BLOCKSYNTAX rest)))"

definition check_aligned :: "addr_t \<Rightarrow> u64 \<Rightarrow> unit res \<Rightarrow> unit res" where
  "check_aligned a page_size rest =
     (if a \<noteq> NO_ADDR
      then bindr (is_aligned a page_size) (\<lambda>al. errif (\<not> al) M_BADALIGN rest)
      else rest)"

definition sanity_check_block_tsb :: "block \<Rightarrow> block_tsb \<Rightarrow> unit res" where
  "sanity_check_block_tsb block bt =
     errif (b_ra block = NO_ADDR \<and> b_ra_eq_va block = 0) M_BLOCKSYNTAX
     (errif (bt_tag_base bt = NO_ADDR) M_BLOCKSYNTAX
     (errif (bt_data_base bt = NO_ADDR) M_BLOCKSYNTAX
     (errif (br_lo (bt_va_index_bits bt) = NO_BITS) M_BLOCKSYNTAX
     (errif (br_hi (bt_va_index_bits bt) < 0 \<or> br_hi (bt_va_index_bits bt) > 63) M_BLOCKSYNTAX
     (errif (br_lo (bt_va_index_bits bt) = NO_BITS) M_BLOCKSYNTAX
     (errif (br_lo (bt_va_index_bits bt) < 0 \<or> br_lo (bt_va_index_bits bt) > 63) M_BLOCKSYNTAX
     (check_bits (bt_tag_addr_bits bt)
     (check_bits (bt_tte_tag_addr_bits bt)
     (check_bits (bt_data_addr_bits bt)
     (errif (bt_page_size bt = 0) M_BLOCKSYNTAX
     (bindr (is_pow2 (bt_page_size bt)) (\<lambda>p2.
      errif (\<not> p2) M_BLOCKSYNTAX
     (check_aligned (b_ra block) (bt_page_size bt)
     (check_aligned (b_va block) (bt_page_size bt)
     (check_aligned (b_pa block) (bt_page_size bt) (Inr ()))))))))))))))))"

section \<open>The pages of a block\<close>

text \<open>What \<open>add_block_tsb_to_tsb\<close> computes before its loop.\<close>

record page_ctx =
  pc_index_mask :: addr_t
  pc_index_shift :: int
  pc_tag_mask :: addr_t
  pc_tte_tag_mask :: addr_t
  pc_data_mask :: addr_t
  pc_page_size_log :: addr_t
  pc_num_pages :: addr_t
  pc_aligned_start :: addr_t
  pc_aligned_start_ra :: addr_t

definition page_context :: "block \<Rightarrow> block_tsb \<Rightarrow> u64 \<Rightarrow> page_ctx res" where
  "page_context block bt tsb_size_bits =
     bindr (bit_range_to_mask_64 (bt_tag_addr_bits bt)) (\<lambda>tag_mask.
     bindr (bit_range_to_mask_64 (bt_tte_tag_addr_bits bt)) (\<lambda>tte_tag_mask.
     bindr (bit_range_to_mask_64 (bt_data_addr_bits bt)) (\<lambda>data_mask.
     let page_size_log = gf_log2 (bt_page_size bt) in
     bindr (if b_d_length block = 0 then Inr 0
            else bindr (shr64 (b_d_length block - 1) (uint page_size_log)) (\<lambda>n. Inr (n + 1))) (\<lambda>num_pages.
     let page_mask = NOT (bt_page_size bt - 1);
         range = (bt_va_index_bits bt)\<lparr>br_hi := br_hi (bt_va_index_bits bt) + uint tsb_size_bits\<rparr> in
     bindr (bit_range_to_shifted_mask_64 range) (\<lambda>index_mask.
       Inr \<lparr>pc_index_mask = index_mask, pc_index_shift = br_lo range, pc_tag_mask = tag_mask,
            pc_tte_tag_mask = tte_tag_mask, pc_data_mask = data_mask,
            pc_page_size_log = page_size_log, pc_num_pages = num_pages,
            pc_aligned_start = b_va block AND page_mask,
            pc_aligned_start_ra = b_ra block AND page_mask\<rparr>)))))"

text \<open>The loop body: index, tag and data of page \<open>page_num\<close>.\<close>

definition page_entry :: "block_tsb \<Rightarrow> page_ctx \<Rightarrow> u64 \<Rightarrow> (u64 \<times> u64 \<times> u64) res" where
  "page_entry bt c page_num =
     bindr (shl64 page_num (uint (pc_page_size_log c))) (\<lambda>off.
     let page_va = pc_aligned_start c + off;
         page_ra = pc_aligned_start_ra c + off in
     bindr (shr64 page_va (pc_index_shift c)) (\<lambda>shifted.
     let index = shifted AND pc_index_mask c in
     bindr (shr64 (page_va AND pc_tte_tag_mask c) (br_lo (bt_tte_tag_addr_bits bt))) (\<lambda>tagaddr0.
     bindr (shl64 tagaddr0 (br_lo (bt_tag_addr_bits bt))) (\<lambda>tagaddr.
     let tag = (tagaddr AND pc_tag_mask c) OR (bt_tag_base bt AND NOT (pc_tag_mask c));
         data = (page_ra AND pc_data_mask c) OR (bt_data_base bt AND NOT (pc_data_mask c)) in
     Inr (index, tag, data)))))"

definition add_block_tsb_to_tsb ::
  "bool \<Rightarrow> block_ref \<Rightarrow> block_tsb_ref \<Rightarrow> block \<Rightarrow> block_tsb \<Rightarrow> tsb_link list \<Rightarrow> tsb \<Rightarrow> (tsb_link list \<times> tsb) res"
where
  "add_block_tsb_to_tsb allow bref btref block bt ls tsb =
     bindr (page_context block bt (get_tsb_size_bits tsb)) (\<lambda>c.
     foldr_res (\<lambda>(ls, tsb) page_num.
         bindr (page_entry bt c (of_nat page_num)) (\<lambda>(index, tag, data).
           add_entry allow ls tsb index tag data bref btref))
       (ls, tsb) [0..<unat (pc_num_pages c)])"

text \<open>The csm routine takes the bit ranges and the size of the \<open>block_tsb\<close> at the same position
  and adds the clump number instead.\<close>

definition add_block_tsbcsm_to_tsbcsm ::
  "bool \<Rightarrow> block_ref \<Rightarrow> block_tsb_ref \<Rightarrow> block \<Rightarrow> block_tsbcsm \<Rightarrow> block_tsb \<Rightarrow> tsb
   \<Rightarrow> tsbcsm_link list \<Rightarrow> tsbcsm \<Rightarrow> (tsbcsm_link list \<times> tsbcsm) res"
where
  "add_block_tsbcsm_to_tsbcsm allow bref btref block bc bt tsb ls tsbcsm =
     bindr (page_context block bt (get_tsb_size_bits tsb)) (\<lambda>c.
     foldr_res (\<lambda>(ls, tsbcsm) page_num.
         bindr (page_entry bt c (of_nat page_num)) (\<lambda>(index, tag, data).
           add_entry_csm allow ls tsbcsm index tag data (bc_clump_num bc) bref btref))
       (ls, tsbcsm) [0..<unat (pc_num_pages c)])"

text \<open>Back from a tag to a virtual address, for messages.\<close>

definition tag2va :: "block_tsb \<Rightarrow> u64 \<Rightarrow> u64 \<Rightarrow> addr_t res" where
  "tag2va bt tag index =
     bindr (bit_range_to_mask_64 (bt_tag_addr_bits bt)) (\<lambda>tag_mask.
     bindr (shl64 (tag AND tag_mask) (br_lo (bt_tte_tag_addr_bits bt))) (\<lambda>va.
     bindr (shl64 index (br_lo (bt_va_index_bits bt))) (\<lambda>ix. Inr (va OR ix))))"

section \<open>What the checks guarantee\<close>

definition bits_ok :: "bit_range \<Rightarrow> bool" where
  "bits_ok r \<longleftrightarrow> 0 \<le> br_hi r \<and> br_hi r \<le> 63 \<and> 0 \<le> br_lo r \<and> br_lo r \<le> 63"

lemma check_bits_Inr_iff: "check_bits r rest = Inr () \<longleftrightarrow> bits_ok r \<and> rest = Inr ()"
  by (auto simp: check_bits_def bits_ok_def NO_BITS_def)

lemma check_aligned_Inr_iff:
  "k < 31 \<Longrightarrow> check_aligned a (2 ^ k) rest = Inr () \<longleftrightarrow>
     (a \<noteq> NO_ADDR \<longrightarrow> 2 ^ k dvd unat a) \<and> rest = Inr ()"
  by (auto simp: check_aligned_def is_aligned_pow2)

lemma sanity_check_block_tsb_ok:
  assumes "sanity_check_block_tsb block bt = Inr ()"
  shows "bits_ok (bt_va_index_bits bt) \<and> bits_ok (bt_tag_addr_bits bt) \<and>
    bits_ok (bt_tte_tag_addr_bits bt) \<and> bits_ok (bt_data_addr_bits bt) \<and>
    bt_tag_base bt \<noteq> NO_ADDR \<and> bt_data_base bt \<noteq> NO_ADDR \<and>
    (\<exists>k<31. bt_page_size bt = 2 ^ k \<and>
       (\<forall>a \<in> {b_ra block, b_va block, b_pa block}. a \<noteq> NO_ADDR \<longrightarrow> 2 ^ k dvd unat a))"
proof -
  from assms have p2: "is_pow2 (bt_page_size bt) = Inr True"
    and al: "check_aligned (b_ra block) (bt_page_size bt)
       (check_aligned (b_va block) (bt_page_size bt)
         (check_aligned (b_pa block) (bt_page_size bt) (Inr ()))) = Inr ()"
    and bits: "bits_ok (bt_va_index_bits bt)" "bits_ok (bt_tag_addr_bits bt)"
      "bits_ok (bt_tte_tag_addr_bits bt)" "bits_ok (bt_data_addr_bits bt)"
      "bt_tag_base bt \<noteq> NO_ADDR" "bt_data_base bt \<noteq> NO_ADDR"
    by (auto simp: sanity_check_block_tsb_def check_bits_Inr_iff bits_ok_def bindr_Inr_iff not_less)
  from p2 obtain k where k: "k < 31" "bt_page_size bt = 2 ^ k" by (auto simp: is_pow2_True_iff)
  with al have "\<forall>a \<in> {b_ra block, b_va block, b_pa block}. a \<noteq> NO_ADDR \<longrightarrow> 2 ^ k dvd unat a"
    by (simp add: check_aligned_Inr_iff)
  with k bits show ?thesis by blast
qed

section \<open>Masks and fields\<close>

definition in_range :: "bit_range \<Rightarrow> nat \<Rightarrow> bool" where
  "in_range r n \<longleftrightarrow> br_lo r \<le> int n \<and> int n \<le> br_hi r"

lemma shifted_mask_Inr_iff:
  "bit_range_to_shifted_mask_64 r = Inr m \<longleftrightarrow>
     (let n = br_hi r - br_lo r + 1 in 0 \<le> n \<and> n < 64 \<and> m = mask (nat n))"
  by (auto simp: bit_range_to_shifted_mask_64_def bindr_Inr_iff shl64_Inr_iff Let_def
      mask_eq_exp_minus_1 push_bit_eq_mult)

lemma mask_64_bit:
  assumes "bit_range_to_mask_64 r = Inr m"
  shows "bit m n \<longleftrightarrow> n < 64 \<and> in_range r n" and "0 \<le> br_lo r"
proof -
  from assms have lo: "0 \<le> br_lo r" "br_lo r < 64"
    and w: "0 \<le> br_hi r - br_lo r + 1"
    and m: "m = push_bit (nat (br_lo r)) (mask (nat (br_hi r - br_lo r + 1)))"
    by (auto simp: bit_range_to_mask_64_def bindr_Inr_iff shl64_Inr_iff shifted_mask_Inr_iff Let_def)
  show "0 \<le> br_lo r" by (rule lo)
  have "nat (br_lo r) \<le> n \<and> n - nat (br_lo r) < nat (br_hi r - br_lo r + 1) \<longleftrightarrow> in_range r n"
    using lo w by (auto simp: in_range_def)
  then show "bit m n \<longleftrightarrow> n < 64 \<and> in_range r n"
    by (auto simp: m bit_simps)
qed

text \<open>\<open>(x & mask) | (base & ~mask)\<close> takes the field from \<open>x\<close> and the rest from
  \<open>base\<close>.\<close>

lemma merge_bits:
  assumes "bit_range_to_mask_64 r = Inr m" and "n < 64"
  shows "bit ((x AND m) OR (base AND NOT m)) n \<longleftrightarrow> (if in_range r n then bit x n else bit base n)"
  using mask_64_bit(1) [OF assms(1)] assms(2) by (auto simp: bit_simps)

section \<open>One page\<close>

lemma page_context_parts:
  assumes "page_context block bt size' = Inr c"
  shows "bit_range_to_mask_64 (bt_tag_addr_bits bt) = Inr (pc_tag_mask c)"
    and "bit_range_to_mask_64 (bt_tte_tag_addr_bits bt) = Inr (pc_tte_tag_mask c)"
    and "bit_range_to_mask_64 (bt_data_addr_bits bt) = Inr (pc_data_mask c)"
    and "bit_range_to_shifted_mask_64 ((bt_va_index_bits bt)\<lparr>br_hi := br_hi (bt_va_index_bits bt) + uint size'\<rparr>)
         = Inr (pc_index_mask c)"
    and "pc_index_shift c = br_lo (bt_va_index_bits bt)"
    and "pc_page_size_log c = gf_log2 (bt_page_size bt)"
    and "pc_aligned_start c = b_va block AND NOT (bt_page_size bt - 1)"
    and "pc_aligned_start_ra c = b_ra block AND NOT (bt_page_size bt - 1)"
    and "pc_num_pages c = (if b_d_length block = 0 then 0
           else drop_bit (unat (gf_log2 (bt_page_size bt))) (b_d_length block - 1) + 1)"
  using assms
  by (auto simp: page_context_def bindr_Inr_iff Let_def shr64_Inr_iff split: if_splits)

lemma align_down:
  fixes a :: u64
  assumes "k < 64"
  shows "unat (a AND NOT (2 ^ k - 1)) = unat a div 2 ^ k * 2 ^ k"
proof -
  have "a AND NOT (2 ^ k - 1) = push_bit k (drop_bit k a)"
    unfolding mask_eq_exp_minus_1 [symmetric] by (rule bit_word_eqI) (auto simp: bit_simps)
  moreover have "unat (push_bit k (drop_bit k a)) = unat (drop_bit k a) * 2 ^ k mod 2 ^ 64"
    by (subst unsigned_push_bit_eq) (simp add: push_bit_eq_mult take_bit_eq_mod)
  moreover have "unat (drop_bit k a) * 2 ^ k < 2 ^ 64"
    unfolding unat_drop_bit
    by (rule le_less_trans [OF div_times_less_eq_dividend]) (use unat_less_pow2 [of a] in simp)
  ultimately show ?thesis by (simp only: mod_less) (simp only: unat_drop_bit)
qed

lemma aligned_id:
  fixes a :: u64
  assumes "k < 64" and "2 ^ k dvd unat a"
  shows "a AND NOT (2 ^ k - 1) = a"
  unfolding word_unat_eq_iff align_down [OF assms(1)] using assms(2) by simp

text \<open>The pages cover the block: their number is the length over the page size, rounded up.\<close>

lemma num_pages_eq:
  assumes "page_context block bt size' = Inr c" and ps: "bt_page_size bt = 2 ^ k" and k: "k < 64"
    and len: "unat (b_d_length block) \<le> 2 ^ 64 - 2 ^ k"
  shows "unat (pc_num_pages c) = (unat (b_d_length block) + 2 ^ k - 1) div 2 ^ k"
proof (cases "b_d_length block = 0")
  case True
  then show ?thesis using page_context_parts(9) [OF assms(1)] by simp
next
  case False
  let ?d = "unat (b_d_length block)"
  have d: "0 < ?d" using False by (simp add: unat_gt_0)
  have l: "unat (gf_log2 (bt_page_size bt)) = k"
    using k by (simp add: ps gf_log2_pow2 unat_of_nat take_bit_eq_mod)
  have m1: "unat (b_d_length block - 1) = ?d - 1"
    using False by (simp add: unat_minus_one)
  have q: "(?d - 1) div 2 ^ k + 1 = (?d + 2 ^ k - 1) div 2 ^ k"
    using d div_add_self2 [of "2 ^ k" "?d - 1"] by simp
  have "(?d - 1) div 2 ^ k + 1 < 2 ^ 64"
  proof (cases k)
    case 0
    with len d show ?thesis by simp
  next
    case (Suc j)
    have "(?d - 1) div 2 ^ k \<le> (?d - 1) div 2" using Suc by (simp add: div_le_mono2)
    with unat_less_pow2 [of "b_d_length block"] show ?thesis by simp
  qed
  then have "unat (drop_bit k (b_d_length block - 1) + 1) = (?d - 1) div 2 ^ k + 1"
    by (simp add: unat_word_ariths unat_drop_bit m1)
  with page_context_parts(9) [OF assms(1)] False l q show ?thesis by simp
qed

text \<open>The three words of a page, bit by bit. \<open>va\<close> and \<open>ra\<close> are the addresses of the
  page.\<close>

lemma page_entry_bits:
  assumes ctx: "page_context block bt size' = Inr c" and pe: "page_entry bt c p = Inr (index, tag, data)"
  shows "unat index = unat (pc_aligned_start c + push_bit (unat (pc_page_size_log c)) p)
            div 2 ^ nat (br_lo (bt_va_index_bits bt))
            mod 2 ^ nat (br_hi (bt_va_index_bits bt) + uint size' - br_lo (bt_va_index_bits bt) + 1)"
    and "n < 64 \<Longrightarrow> bit data n =
      (if in_range (bt_data_addr_bits bt) n
       then bit (pc_aligned_start_ra c + push_bit (unat (pc_page_size_log c)) p) n
       else bit (bt_data_base bt) n)"
    and "n < 64 \<Longrightarrow> bit tag n =
      (if in_range (bt_tag_addr_bits bt) n
       then in_range (bt_tte_tag_addr_bits bt)
              (n - nat (br_lo (bt_tag_addr_bits bt)) + nat (br_lo (bt_tte_tag_addr_bits bt))) \<and>
            bit (pc_aligned_start c + push_bit (unat (pc_page_size_log c)) p)
              (n - nat (br_lo (bt_tag_addr_bits bt)) + nat (br_lo (bt_tte_tag_addr_bits bt)))
       else bit (bt_tag_base bt) n)"
proof -
  note P = page_context_parts [OF ctx]
  let ?va = "pc_aligned_start c + push_bit (unat (pc_page_size_log c)) p"
  let ?ra = "pc_aligned_start_ra c + push_bit (unat (pc_page_size_log c)) p"
  let ?tte = "nat (br_lo (bt_tte_tag_addr_bits bt))" and ?tl = "nat (br_lo (bt_tag_addr_bits bt))"
  from pe have ix: "index = drop_bit (nat (pc_index_shift c)) ?va AND pc_index_mask c"
    and dt: "data = (?ra AND pc_data_mask c) OR (bt_data_base bt AND NOT (pc_data_mask c))"
    and tg: "tag = (push_bit ?tl (drop_bit ?tte (?va AND pc_tte_tag_mask c)) AND pc_tag_mask c)
                   OR (bt_tag_base bt AND NOT (pc_tag_mask c))"
    and lo: "0 \<le> br_lo (bt_tag_addr_bits bt)" "0 \<le> br_lo (bt_tte_tag_addr_bits bt)"
    by (auto simp: page_entry_def bindr_Inr_iff Let_def shl64_Inr_iff shr64_Inr_iff)
  have "index = take_bit (nat (br_hi (bt_va_index_bits bt) + uint size' - br_lo (bt_va_index_bits bt) + 1))
      (drop_bit (nat (br_lo (bt_va_index_bits bt))) ?va)"
    using P(4,5) ix by (auto simp: shifted_mask_Inr_iff Let_def take_bit_eq_mask)
  then show "unat index = unat ?va div 2 ^ nat (br_lo (bt_va_index_bits bt))
            mod 2 ^ nat (br_hi (bt_va_index_bits bt) + uint size' - br_lo (bt_va_index_bits bt) + 1)"
    by (simp add: unat_take_bit unat_drop_bit)
  show "n < 64 \<Longrightarrow> bit data n =
      (if in_range (bt_data_addr_bits bt) n then bit ?ra n else bit (bt_data_base bt) n)"
    unfolding dt by (rule merge_bits [OF P(3)])
  assume n: "n < 64"
  have "bit (push_bit ?tl (drop_bit ?tte (?va AND pc_tte_tag_mask c))) n \<longleftrightarrow>
      in_range (bt_tte_tag_addr_bits bt) (n - ?tl + ?tte) \<and> bit ?va (n - ?tl + ?tte)"
    if "in_range (bt_tag_addr_bits bt) n"
  proof -
    have "?tl \<le> n" using that by (auto simp: in_range_def)
    then have "bit (push_bit ?tl (drop_bit ?tte (?va AND pc_tte_tag_mask c))) n \<longleftrightarrow>
        bit ?va (n - ?tl + ?tte) \<and> bit (pc_tte_tag_mask c) (n - ?tl + ?tte)"
      using n by (simp add: bit_push_bit_iff bit_drop_bit_eq bit_and_iff add.commute)
    then show ?thesis
      using mask_64_bit(1) [OF P(2), of "n - ?tl + ?tte"] bit_imp_le_length [of ?va] by auto
  qed
  then show "bit tag n =
      (if in_range (bt_tag_addr_bits bt) n
       then in_range (bt_tte_tag_addr_bits bt) (n - ?tl + ?tte) \<and> bit ?va (n - ?tl + ?tte)
       else bit (bt_tag_base bt) n)"
    unfolding tg using merge_bits [OF P(1) n] by auto
qed

section \<open>All pages\<close>

text \<open>The pairs of the pages \<open>ps\<close> whose index is \<open>i\<close>, in page order.\<close>

definition pairs_at :: "block_tsb \<Rightarrow> page_ctx \<Rightarrow> nat list \<Rightarrow> nat \<Rightarrow> (u64 \<times> u64) list" where
  "pairs_at bt c ps i = concat (map (\<lambda>p.
     case page_entry bt c (of_nat p) of
       Inl _ \<Rightarrow> []
     | Inr (index, tag, data) \<Rightarrow> if unat index = i then [(tag, data)] else []) ps)"

definition page_plain :: "block_tsb \<Rightarrow> page_ctx \<Rightarrow> nat \<Rightarrow> bool" where
  "page_plain bt c p =
     (case page_entry bt c (of_nat p) of
        Inl _ \<Rightarrow> True | Inr (index, tag, data) \<Rightarrow> plain_pair tag data)"

lemma add_pages_spec:
  assumes "t_link_ptr tsb = Some li" "li < length ls" "tsb_ok (ls ! li) tsb"
    and "\<And>p. p \<in> set ps \<Longrightarrow> page_plain bt c p"
    and "foldr_res (\<lambda>(ls, tsb) page_num.
         bindr (page_entry bt c (of_nat page_num)) (\<lambda>(index, tag, data).
           add_entry allow ls tsb index tag data bref btref)) (ls, tsb) ps = Inr (ls', tsb')"
  shows "tsb_ok (ls' ! li) tsb' \<and> length (t_entries tsb') = length (t_entries tsb) \<and>
    (\<forall>i < length (t_entries tsb).
       tsb_buckets (ls' ! li) tsb' ! i = tsb_buckets (ls ! li) tsb ! i @ pairs_at bt c ps i)"
  using assms
proof (induction ps arbitrary: ls tsb)
  case Nil
  then show ?case by (simp add: pairs_at_def)
next
  case (Cons p ps)
  from Cons.prems(5) obtain ix tg dt ls1 tsb1
    where pe: "page_entry bt c (of_nat p) = Inr (ix, tg, dt)"
      and ad: "add_entry allow ls tsb ix tg dt bref btref = Inr (ls1, tsb1)"
      and rest: "foldr_res (\<lambda>(ls, tsb) page_num.
         bindr (page_entry bt c (of_nat page_num)) (\<lambda>(index, tag, data).
           add_entry allow ls tsb index tag data bref btref)) (ls1, tsb1) ps = Inr (ls', tsb')"
    by (auto simp: bindr_Inr_iff)
  have pl: "plain_pair tg dt" using Cons.prems(4) [of p] pe by (simp add: page_plain_def)
  note step = add_entry_spec [OF Cons.prems(1-3) pl ad] and len = add_entry_fields [OF ad]
  from step len Cons.prems(2)
  have 1: "t_link_ptr tsb1 = Some li" "li < length ls1" "tsb_ok (ls1 ! li) tsb1" by simp_all
  note IH = Cons.IH [OF 1 Cons.prems(4) rest]
  have b: "tsb_buckets (ls1 ! li) tsb1 ! i =
      tsb_buckets (ls ! li) tsb ! i @ (if unat ix = i then [(tg, dt)] else [])"
    if "i < length (t_entries tsb)" for i
    using step that by (simp add: tsb_buckets_def nth_list_update)
  have p: "pairs_at bt c (p # ps) i = (if unat ix = i then [(tg, dt)] else []) @ pairs_at bt c ps i" for i
    by (simp add: pairs_at_def pe)
  from IH len b p show ?case by simp
qed

end
