(* ===== verification/GF_Linked_Section.thy ===== *)
theory GF_Linked_Section
  imports GF_Symtab
begin

text \<open>
  \<open>linked_section.c\<close>: one section of a linked ELF file, with the symbols defined in it. What
  libelf answers about a file is input data: a section header with its buffer, and the symbols
  of a symbol-table section in file order. \<open>sc_name\<close> and \<open>es_name\<close> are what
  \<open>elf_strptr\<close> returns (\<open>None\<close> is the null pointer).

  Lemmas: the table built for a section holds exactly the named, defined symbols of the file
  whose section index is the section's.
\<close>

record elf_sym =
  es_name :: "string option"
  es_shndx :: nat
  es_value :: u64
  es_size :: u64

record elf_scn =
  sc_ndx :: nat
  sc_type :: nat
  sc_name :: "string option"
  sc_addr :: u64
  sc_size :: u64
  sc_entsize :: u64
  sc_buf :: "u8 list"
  sc_syms :: "elf_sym list"

definition SHT_PROGBITS :: nat where "SHT_PROGBITS = 1"
definition SHT_SYMTAB :: nat where "SHT_SYMTAB = 2"
definition SHT_NOBITS :: nat where "SHT_NOBITS = 8"

record linked_section =
  sec_name :: string
  sec_section_name :: "string option"
  sec_segment_name :: "string option"
  sec_symtab :: symtab_t
  sec_shndx :: nat
  sec_start_va :: addr_t
  sec_length :: u64

definition init_linked_section :: "(int \<Rightarrow> bool) \<Rightarrow> linked_section res" where
  "init_linked_section mem =
     bindr (init_symtab mem) (\<lambda>st.
       Inr \<lparr>sec_name = ''<no_name>'', sec_section_name = None, sec_segment_name = None,
            sec_symtab = st, sec_shndx = 0, sec_start_va = NO_ADDR, sec_length = 0\<rparr>)"

definition linked_section_name_compare :: "string \<Rightarrow> linked_section \<Rightarrow> bool" where
  "linked_section_name_compare name s \<longleftrightarrow> name = sec_name s"

text \<open>The loop body for symbol \<open>i\<close>.\<close>

definition add_section_symbol ::
  "(int \<Rightarrow> bool) \<Rightarrow> elf_scn \<Rightarrow> linked_section \<Rightarrow> nat \<Rightarrow> linked_section res" where
  "add_section_symbol mem scn s i =
     bindr (nth_res (sc_syms scn) i) (\<lambda>sym.
     bindr (the_res (es_name sym)) (\<lambda>symname.
       if symname = [] \<or> es_shndx sym = 0 then Inr s
       else if es_shndx sym = sec_shndx s
       then bindr (add_to_symtab mem (sec_symtab s) symname (es_value sym) (es_size sym)) (\<lambda>st.
              Inr (s\<lparr>sec_symtab := st\<rparr>))
       else Inr s))"

text \<open>\<open>count = sh_size / sh_entsize\<close>: a zero entry size is a division by zero.\<close>

definition build_linked_section_symbol_table ::
  "(int \<Rightarrow> bool) \<Rightarrow> linked_section \<Rightarrow> elf_scn \<Rightarrow> linked_section res" where
  "build_linked_section_symbol_table mem s scn =
     (if sc_entsize scn = 0 then Inl Undef
      else foldr_res (add_section_symbol mem scn) s [0..<unat (sc_size scn div sc_entsize scn)])"

section \<open>What the table holds\<close>

text \<open>The symbols that belong to section \<open>ndx\<close>.\<close>

definition section_symbols :: "nat \<Rightarrow> elf_sym list \<Rightarrow> symtab_ent list" where
  "section_symbols ndx syms = concat (map (\<lambda>y. case es_name y of
       None \<Rightarrow> []
     | Some n \<Rightarrow> if n \<noteq> [] \<and> es_shndx y \<noteq> 0 \<and> es_shndx y = ndx
                 then [\<lparr>sym_name = n, sym_value = es_value y, sym_size = es_size y\<rparr>] else []) syms)"

lemma add_section_symbol_spec:
  assumes ok: "symtab_ok (sec_symtab s)" and add: "add_section_symbol mem scn s i = Inr s'"
  shows "i < length (sc_syms scn)" and "symtab_ok (sec_symtab s')" and "sec_shndx s' = sec_shndx s"
    and "vec_list (sec_symtab s') = vec_list (sec_symtab s) @ section_symbols (sec_shndx s) [sc_syms scn ! i]"
proof -
  from add obtain n where i: "i < length (sc_syms scn)" and n: "es_name (sc_syms scn ! i) = Some n"
    and r: "(if n = [] \<or> es_shndx (sc_syms scn ! i) = 0 then Inr s
       else if es_shndx (sc_syms scn ! i) = sec_shndx s
       then bindr (add_to_symtab mem (sec_symtab s) n (es_value (sc_syms scn ! i)) (es_size (sc_syms scn ! i)))
              (\<lambda>st. Inr (s\<lparr>sec_symtab := st\<rparr>))
       else Inr s) = Inr s'"
    by (auto simp: add_section_symbol_def bindr_Inr_iff)
  show "i < length (sc_syms scn)" by (rule i)
  have "symtab_ok (sec_symtab s') \<and> sec_shndx s' = sec_shndx s \<and>
    vec_list (sec_symtab s') = vec_list (sec_symtab s) @ section_symbols (sec_shndx s) [sc_syms scn ! i]"
    using r ok n by (auto simp: section_symbols_def bindr_Inr_iff dest!: add_to_symtab_appends [OF ok]
        split: if_splits)
  then show "symtab_ok (sec_symtab s')" "sec_shndx s' = sec_shndx s"
    "vec_list (sec_symtab s') = vec_list (sec_symtab s) @ section_symbols (sec_shndx s) [sc_syms scn ! i]"
    by auto
qed

lemma add_section_symbols_spec:
  assumes "symtab_ok (sec_symtab s)" and "foldr_res (add_section_symbol mem scn) s is = Inr s'"
  shows "symtab_ok (sec_symtab s') \<and> sec_shndx s' = sec_shndx s \<and>
    (\<forall>i \<in> set is. i < length (sc_syms scn)) \<and>
    vec_list (sec_symtab s') = vec_list (sec_symtab s) @
      section_symbols (sec_shndx s) (map (nth (sc_syms scn)) is)"
  using assms
proof (induction "is" arbitrary: s)
  case Nil
  then show ?case by (simp add: section_symbols_def)
next
  case (Cons i "is")
  then obtain u where u: "add_section_symbol mem scn s i = Inr u"
    and r: "foldr_res (add_section_symbol mem scn) u is = Inr s'" by auto
  note step = add_section_symbol_spec [OF Cons.prems(1) u]
  from Cons.IH [OF step(2) r] step show ?case by (simp add: section_symbols_def)
qed

lemma build_symbol_table_spec:
  assumes ok: "symtab_ok (sec_symtab s)" and b: "build_linked_section_symbol_table mem s scn = Inr s'"
  shows "symtab_ok (sec_symtab s') \<and> unat (sc_size scn div sc_entsize scn) \<le> length (sc_syms scn) \<and>
    vec_list (sec_symtab s') = vec_list (sec_symtab s) @
      section_symbols (sec_shndx s) (take (unat (sc_size scn div sc_entsize scn)) (sc_syms scn))"
proof -
  let ?n = "unat (sc_size scn div sc_entsize scn)"
  from b have f: "foldr_res (add_section_symbol mem scn) s [0..<?n] = Inr s'"
    by (auto simp: build_linked_section_symbol_table_def split: if_splits)
  note spec = add_section_symbols_spec [OF ok f]
  have n: "?n \<le> length (sc_syms scn)"
  proof (cases "?n = 0")
    case False
    then have "?n - 1 \<in> set [0..<?n]" by simp
    with spec have "?n - 1 < length (sc_syms scn)" by blast
    then show ?thesis by simp
  qed simp
  moreover have "map (nth (sc_syms scn)) [0..<?n] = take ?n (sc_syms scn)"
    using n by (simp add: take_map [symmetric] map_nth list_eq_iff_nth_eq)
  ultimately show ?thesis using spec by simp
qed

end
