(* ===== verification/GF_Block.thy ===== *)
theory GF_Block
  imports GF_Block_Tsb GF_Linked_Section
begin

text \<open>
  \<open>block.c\<close>: a block is the part of a linked section that goes to the memory image, to the
  symbol table and into TSBs. Here are its checks, the computation of its address range, its
  entry into the TSBs, its image and its symbol lines.

  \<open>pa_size\<close> is \<open>get_pa_size()\<close>, \<open>compress_on\<close> is \<open>Compress\<close> and \<open>env_zero\<close> is
  \<open>EnvZero\<close>. The image routine is modelled for a host of either byte order, with
  \<open>LITTLE_ENDIAN\<close> defined exactly on a little-endian host.

  Lemmas: a computed block lies in its section; a block whose length is a multiple of a line is
  written to the image exactly, compressed or not, and independently of the host byte order.
\<close>

section \<open>Creation and checks\<close>

text \<open>\<open>no_end_range_check\<close> is the one member \<open>init_block\<close> leaves as \<open>malloc\<close> returned
  it; that value is the argument.\<close>

definition init_block :: "int \<Rightarrow> block" where
  "init_block garbage = \<lparr>b_name = ''<no_name>'', b_section_name = ''<unknown>'', b_segment_name = ''<unknown>'',
     b_link_section = None, b_compress = 0, b_va = NO_ADDR, b_ra = NO_ADDR, b_pa = NO_ADDR,
     b_in_image = 1, b_end_va = NO_ADDR, b_start_label = None, b_end_label = None, b_tsbs = [],
     b_tsbcsms = [], b_no_end_range_check = garbage, b_ra_eq_va = 0, b_pa_eq_va = 0,
     b_linked_section_obj = None, b_srcfile = ''<unknown>'', b_srcline = 0, b_lineno = 0,
     b_d_offset = 0, b_d_length = 0, b_open_block_tsb_index = 0, b_open_block_tsbcsm_index = 0\<rparr>"

definition finish_single_block_init ::
  "tsb_entry tsb_vector_st \<Rightarrow> tsbcsm_entry tsb_vector_st \<Rightarrow> block \<Rightarrow> block res" where
  "finish_single_block_init tsbs tsbcsms b =
     bindr (map_res (finish_single_block_tsb_init tsbs) (b_tsbs b)) (\<lambda>bts.
     bindr (map_res (finish_single_block_tsbcsm_init tsbcsms) (b_tsbcsms b)) (\<lambda>bcs.
       Inr (b\<lparr>b_tsbs := bts, b_tsbcsms := bcs\<rparr>)))"

definition block_name_compare :: "string \<Rightarrow> block \<Rightarrow> bool" where
  "block_name_compare name b \<longleftrightarrow> name = b_name b"

text \<open>\<open>strcmp\<close> on a null \<open>link_section\<close> is undefined.\<close>

definition block_link_section_compare :: "string \<Rightarrow> block \<Rightarrow> bool res" where
  "block_link_section_compare name b = bindr (the_res (b_link_section b)) (\<lambda>l. Inr (name = l))"

definition check_all_block_tsbs :: "block \<Rightarrow> unit res" where
  "check_all_block_tsbs b = foldr_res (\<lambda>_ bt. sanity_check_block_tsb b bt) () (b_tsbs b)"

definition sanity_check_block :: "block \<Rightarrow> unit res" where
  "sanity_check_block b =
     bindr (check_all_block_tsbs b) (\<lambda>_.
     errif (b_va b \<noteq> NO_ADDR \<and> b_start_label b \<noteq> None) M_BLOCKSYNTAX
     (errif (b_end_va b \<noteq> NO_ADDR \<and> b_end_label b \<noteq> None) M_BLOCKSYNTAX
     (errif (b_pa b = NO_ADDR \<and> b_pa_eq_va b = 0 \<and> b_in_image b \<noteq> 0) M_BLOCKSYNTAX
     (errif (b_pa b \<noteq> NO_ADDR \<and> b_pa_eq_va b \<noteq> 0) M_BLOCKSYNTAX
     (errif (b_ra b = NO_ADDR \<and> b_ra_eq_va b = 0 \<and> b_tsbs b \<noteq> []) M_BLOCKSYNTAX
     (errif (b_ra b \<noteq> NO_ADDR \<and> b_ra_eq_va b \<noteq> 0) M_BLOCKSYNTAX (Inr ())))))))"

definition block_check_link_section_exists :: "linked_section list \<Rightarrow> block \<Rightarrow> unit res" where
  "block_check_link_section_exists secs b =
     bindr (the_res (b_linked_section_obj b)) (\<lambda>i.
     bindr (nth_res secs i) (\<lambda>s. errif (sec_shndx s = 0) M_BLOCKSYNTAX (Inr ())))"

section \<open>The address range\<close>

definition block_start_va :: "linked_section \<Rightarrow> block \<Rightarrow> addr_t res" where
  "block_start_va s b =
     bindr (case b_start_label b of
              None \<Rightarrow> Inr (b_va b)
            | Some lbl \<Rightarrow> bindr (lookup_symtab (sec_symtab s) lbl) (\<lambda>e.
                (case e of None \<Rightarrow> Inl (Exit M_BADLABEL) | Some y \<Rightarrow> Inr (sym_value y)))) (\<lambda>va.
       Inr (if va = NO_ADDR then sec_start_va s else va))"

definition block_length ::
  "linked_section \<Rightarrow> addr_t \<Rightarrow> addr_t \<Rightarrow> block \<Rightarrow> addr_t \<Rightarrow> addr_t res" where
  "block_length s seg_start seg_end b va =
     (case b_end_label b of
        Some lbl \<Rightarrow> bindr (lookup_symtab (sec_symtab s) lbl) (\<lambda>e.
          (case e of None \<Rightarrow> Inl (Exit M_BADLABEL) | Some y \<Rightarrow> Inr (sym_value y - va)))
      | None \<Rightarrow>
          if b_end_va b \<noteq> NO_ADDR
          then errif (b_end_va b < seg_start) M_OUTOFRANGE
               (errif (b_no_end_range_check b = 0 \<and> b_end_va b > seg_end) M_OUTOFRANGE
               (errif (b_end_va b < va) M_OUTOFRANGE (Inr (b_end_va b - va))))
          else Inr (seg_end - va))"

text \<open>\<open>(1ULL << get_pa_size()) - 1\<close>.\<close>

definition pa_mask :: "int \<Rightarrow> addr_t res" where
  "pa_mask pa_size = bindr (shl64 1 pa_size) (\<lambda>w. Inr (w - 1))"

definition block_calculate_size :: "int \<Rightarrow> linked_section \<Rightarrow> block \<Rightarrow> block res" where
  "block_calculate_size pa_size s b =
     (let seg_start = sec_start_va s; seg_end = seg_start + sec_length s in
      bindr (block_start_va s b) (\<lambda>va.
      errif (va < seg_start) M_OUTOFRANGE
      (errif (va > seg_end) M_OUTOFRANGE
      (bindr (block_length s seg_start seg_end b va) (\<lambda>d_length.
       bindr (if b_ra_eq_va b \<noteq> 0 then bindr (pa_mask pa_size) (\<lambda>m. Inr (va AND m)) else Inr (b_ra b)) (\<lambda>ra.
       bindr (if b_pa_eq_va b \<noteq> 0 then bindr (pa_mask pa_size) (\<lambda>m. Inr (va AND m)) else Inr (b_pa b)) (\<lambda>pa.
       let b' = b\<lparr>b_va := va, b_d_offset := va - seg_start, b_d_length := d_length, b_ra := ra, b_pa := pa\<rparr> in
       bindr (check_all_block_tsbs b') (\<lambda>_. Inr b'))))))))"

section \<open>Into the TSBs\<close>

text \<open>The TSBs and link areas of the program, as the block routines update them.\<close>

record mmu_st =
  m_links :: "tsb_link list"
  m_tsbs :: "tsb list"
  m_clinks :: "tsbcsm_link list"
  m_tsbcsms :: "tsbcsm list"

definition add_one_block_tsb :: "bool \<Rightarrow> block_ref \<Rightarrow> block \<Rightarrow> mmu_st \<Rightarrow> nat \<times> block_tsb \<Rightarrow> mmu_st res" where
  "add_one_block_tsb allow bref b m p =
     bindr (the_res (bt_tsb (snd p))) (\<lambda>ti.
     bindr (nth_res (m_tsbs m) ti) (\<lambda>t.
     bindr (add_block_tsb_to_tsb allow bref (fst bref, snd bref, fst p) b (snd p) (m_links m) t) (\<lambda>(ls, t').
       Inr (m\<lparr>m_links := ls, m_tsbs := (m_tsbs m)[ti := t']\<rparr>))))"

definition block_add_to_tsbs :: "bool \<Rightarrow> block_ref \<Rightarrow> mmu_st \<Rightarrow> block \<Rightarrow> mmu_st res" where
  "block_add_to_tsbs allow bref m b = foldr_res (add_one_block_tsb allow bref b) m (enumerate 0 (b_tsbs b))"

text \<open>\<open>iterate_vector2\<close> pairs each \<open>tsbcsm\<close> with the \<open>tsb\<close> at the same position.\<close>

definition add_one_block_tsbcsm ::
  "bool \<Rightarrow> block_ref \<Rightarrow> block \<Rightarrow> mmu_st \<Rightarrow> nat \<times> block_tsbcsm \<Rightarrow> mmu_st res" where
  "add_one_block_tsbcsm allow bref b m p =
     bindr (nth_res (b_tsbs b) (fst p)) (\<lambda>bt.
     bindr (the_res (bc_tsbcsm (snd p))) (\<lambda>ci.
     bindr (nth_res (m_tsbcsms m) ci) (\<lambda>tc.
     bindr (the_res (bt_tsb bt)) (\<lambda>ti.
     bindr (nth_res (m_tsbs m) ti) (\<lambda>t.
     bindr (add_block_tsbcsm_to_tsbcsm allow bref (fst bref, snd bref, fst p) b (snd p) bt t (m_clinks m) tc)
       (\<lambda>(ls, tc'). Inr (m\<lparr>m_clinks := ls, m_tsbcsms := (m_tsbcsms m)[ci := tc']\<rparr>)))))))"

definition block_add_to_tsbcsms :: "bool \<Rightarrow> block_ref \<Rightarrow> mmu_st \<Rightarrow> block \<Rightarrow> mmu_st res" where
  "block_add_to_tsbcsms allow bref m b =
     foldr_res (add_one_block_tsbcsm allow bref b) m (enumerate 0 (b_tsbcsms b))"

section \<open>The image\<close>

text \<open>A \<open>uint32_t\<close> read of the data buffer in host order, and \<open>SWAP\<close>.\<close>

definition bytes32 :: "u8 \<Rightarrow> u8 \<Rightarrow> u8 \<Rightarrow> u8 \<Rightarrow> u32" where
  "bytes32 b3 b2 b1 b0 = push_bit 24 (ucast b3) OR push_bit 16 (ucast b2) OR push_bit 8 (ucast b1) OR ucast b0"

definition load32 :: "bool \<Rightarrow> u8 list \<Rightarrow> nat \<Rightarrow> u32 res" where
  "load32 little buf j =
     (if 4 * j + 3 < length buf
      then Inr (if little then bytes32 (buf ! (4 * j + 3)) (buf ! (4 * j + 2)) (buf ! (4 * j + 1)) (buf ! (4 * j))
                else bytes32 (buf ! (4 * j)) (buf ! (4 * j + 1)) (buf ! (4 * j + 2)) (buf ! (4 * j + 3)))
      else Inl Undef)"

definition swap32 :: "u32 \<Rightarrow> u32" where
  "swap32 w = bytes32 (ucast w) (ucast (drop_bit 8 w)) (ucast (drop_bit 16 w)) (ucast (drop_bit 24 w))"

text \<open>\<open>wl.w32 = i < words ? wdata[i] : 0\<close> with the swap.\<close>

definition image_word :: "bool \<Rightarrow> u8 list \<Rightarrow> nat \<Rightarrow> nat \<Rightarrow> nat \<Rightarrow> u32 res" where
  "image_word little buf base words i =
     bindr (if i < words then load32 little buf (base + i) else Inr 0) (\<lambda>w.
       Inr (if little then swap32 w else w))"

text \<open>The conjunction of \<open>n\<close> zero tests from word \<open>i\<close>, evaluated from the left.\<close>

fun zero_words :: "bool \<Rightarrow> u8 list \<Rightarrow> nat \<Rightarrow> nat \<Rightarrow> nat \<Rightarrow> bool res" where
  "zero_words little buf base i 0 = Inr True"
| "zero_words little buf base i (Suc n) =
     bindr (load32 little buf (base + i)) (\<lambda>w.
       if w = 0 then zero_words little buf base (Suc i) n else Inr False)"

text \<open>The pairs of one line from word \<open>i\<close>: at most \<open>n\<close>, stopping when the words are used up;
  the flag says that the loop breaks after the line.\<close>

fun line_pairs :: "bool \<Rightarrow> u8 list \<Rightarrow> nat \<Rightarrow> nat \<Rightarrow> nat \<Rightarrow> nat \<Rightarrow> ((u32 \<times> u32) list \<times> bool) res" where
  "line_pairs little buf base words i 0 = Inr ([], False)"
| "line_pairs little buf base words i (Suc n) =
     bindr (image_word little buf base words i) (\<lambda>w0.
     bindr (image_word little buf base words (i + 1)) (\<lambda>w1.
       if n > 0 \<and> i + 2 \<ge> words then Inr ([(w0, w1)], True)
       else bindr (line_pairs little buf base words (i + 2) n) (\<lambda>(ps, brk). Inr ((w0, w1) # ps, brk))))"

record gen_ctx =
  g_little :: bool
  g_buf :: "u8 list"
  g_base :: nat
  g_words :: nat
  g_compress :: bool
  g_env_zero :: bool
  g_start_pa :: addr_t

text \<open>The flags the loop carries.\<close>

record gen_st =
  zero_line :: bool
  doing_compress :: bool
  line_pa :: addr_t
  last_addr :: addr_t
  printed_data :: bool

function gen_lines :: "gen_ctx \<Rightarrow> nat \<Rightarrow> gen_st \<Rightarrow> (img_item list \<times> gen_st) res" where
  "gen_lines c i s =
     (if \<not> int_ok (int i) then Inl Undef
      else if i \<ge> g_words c then Inr ([], s)
      else if \<not> int_ok (int i + 7) then Inl Undef
      else
        bindr (if i + 7 < g_words c then zero_words (g_little c) (g_buf c) (g_base c) i 8
               else Inr (zero_line s)) (\<lambda>z.
        let pre = (if doing_compress s \<and> \<not> z
                   then end_of_run (g_env_zero c) (printed_data s) (last_addr s) (g_start_pa c) (line_pa s)
                        @ [At (line_pa s) (from_compressed (g_start_pa c))]
                   else []);
            s1 = s\<lparr>zero_line := z, doing_compress := doing_compress s \<and> z\<rparr> in
        if g_compress c \<and> i + 7 < g_words c \<and> z
        then bindr (gen_lines c (i + 8)
                     (s1\<lparr>last_addr := (if doing_compress s1 then last_addr s1 else line_pa s1),
                         doing_compress := True, line_pa := line_pa s1 + 32\<rparr>)) (\<lambda>(rest, s').
             Inr (pre @ rest, s'))
        else
          bindr (line_pairs (g_little c) (g_buf c) (g_base c) (g_words c) i 4) (\<lambda>(ps, brk).
          let s2 = s1\<lparr>printed_data := True\<rparr> in
          if brk then Inr (pre @ [Row32 ps], s2)
          else bindr (gen_lines c (i + 8) (s2\<lparr>line_pa := line_pa s2 + 32\<rparr>)) (\<lambda>(rest, s').
                 Inr (pre @ Row32 ps # rest, s')))))"
  by pat_completeness auto
termination
  by (relation "measure (\<lambda>(c, i, s). g_words c - i)") auto

declare gen_lines.simps [simp del]

definition block_generate_image ::
  "(int \<Rightarrow> bool) \<Rightarrow> bool \<Rightarrow> int \<Rightarrow> bool \<Rightarrow> bool \<Rightarrow> physmap_t \<Rightarrow> block \<Rightarrow> elf_scn \<Rightarrow> (physmap_t \<times> img_item list) res"
where
  "block_generate_image mem little pa_size compress_on env_zero pm b scn =
     (if b_in_image b = 0 then Inr (pm, [])
      else
        let start_pa = b_pa b in
        bindr (pa_mask pa_size) (\<lambda>m.
        let adjusted_pa = start_pa AND m;
            hdr = [Blank, At adjusted_pa (''Section '' @ quoted (b_section_name b) @
                     '', segment '' @ quoted (b_segment_name b))] in
        bindr (if sc_type scn = SHT_NOBITS
               then let total_bytes = max (sc_size scn) (b_d_length b) in
                    bindr (gf_malloc mem (uint total_bytes)) (\<lambda>_. Inr (replicate (unat total_bytes) 0))
               else Inr (sc_buf scn)) (\<lambda>buf.
        let bytes = b_d_length b in
        bindr (add_block_to_physmap mem pm (b_srcfile b) (b_srcline b) (b_lineno b) start_pa (start_pa + bytes)
                 (b_section_name b) (b_segment_name b)) (\<lambda>pm'.
        bindr (gen_lines
                 \<lparr>g_little = little, g_buf = buf, g_base = unat (b_d_offset b div 4), g_words = unat (bytes div 4),
                  g_compress = (b_compress b \<noteq> 0 \<and> compress_on), g_env_zero = env_zero, g_start_pa = start_pa\<rparr>
                 0 \<lparr>zero_line = False, doing_compress = False, line_pa = start_pa, last_addr = start_pa,
                    printed_data = False\<rparr>) (\<lambda>(lines, s).
          Inr (pm', hdr @ lines @
            (if doing_compress s \<and> env_zero then [Note (zero_bytes (line_pa s - last_addr s)), Blank] else [])))))))"

section \<open>Symbol lines\<close>

definition pa_digits :: "int \<Rightarrow> addr_t \<Rightarrow> string" where
  "pa_digits pa_size a = (if pa_size = 40 then hex_digits 10 a else hex_digits 16 a)"

definition print_symtab_ent_if_in_range ::
  "int \<Rightarrow> addr_t \<Rightarrow> addr_t \<Rightarrow> addr_t \<Rightarrow> addr_t \<Rightarrow> string \<Rightarrow> symtab_ent \<Rightarrow> string res"
where
  "print_symtab_ent_if_in_range pa_size start_va stop_va start_ra start_pa prefix e =
     bindr (pa_mask pa_size) (\<lambda>m.
       if \<not> (sym_value e \<ge> start_va \<and> sym_value e \<le> stop_va) then Inr []
       else let offset = sym_value e - start_va in
         Inr (prefix @ ''.'' @ sym_name e @ TAB @ hex_digits 16 (sym_value e) @ '' '' @
              (if start_ra = NO_ADDR then ''X '' else pa_digits pa_size ((start_ra + offset) AND m) @ '' '') @
              (if start_pa = NO_ADDR then ''X'' else pa_digits pa_size ((start_pa + offset) AND m)) @ NL))"

definition block_print_symtab :: "int \<Rightarrow> linked_section list \<Rightarrow> block \<Rightarrow> string res" where
  "block_print_symtab pa_size secs b =
     bindr (the_res (b_linked_section_obj b)) (\<lambda>i.
     bindr (nth_res secs i) (\<lambda>s.
     let start_pa = (if b_pa b = NO_ADDR \<and> b_in_image b \<noteq> 0 then b_va b else b_pa b) in
     bindr (iterate_vector (\<lambda>e out. bindr (print_symtab_ent_if_in_range pa_size (b_va b)
              (b_va b + b_d_length b) (b_ra b) start_pa (b_section_name b) e) (\<lambda>t. Inr (e, out @ t)))
              (sec_symtab s) []) (\<lambda>(_, out). Inr out)))"

section \<open>Setters\<close>

text \<open>The members set by \<open>BLK_SET\<close> and \<open>BLK_SET_STRING\<close>.\<close>

datatype block_attr =
    B_section_name string | B_segment_name string | B_link_section string | B_srcfile string
  | B_srcline int | B_compress int | B_in_image int | B_va addr_t | B_ra addr_t | B_pa addr_t
  | B_no_end_range_check int | B_ra_eq_va int | B_pa_eq_va int | B_start_label string
  | B_end_label string | B_end_va addr_t

fun blk_set :: "block_attr \<Rightarrow> block \<Rightarrow> block" where
  "blk_set (B_section_name v) b = b\<lparr>b_section_name := v\<rparr>"
| "blk_set (B_segment_name v) b = b\<lparr>b_segment_name := v\<rparr>"
| "blk_set (B_link_section v) b = b\<lparr>b_link_section := Some v\<rparr>"
| "blk_set (B_srcfile v) b = b\<lparr>b_srcfile := v\<rparr>"
| "blk_set (B_srcline v) b = b\<lparr>b_srcline := v\<rparr>"
| "blk_set (B_compress v) b = b\<lparr>b_compress := v\<rparr>"
| "blk_set (B_in_image v) b = b\<lparr>b_in_image := v\<rparr>"
| "blk_set (B_va v) b = b\<lparr>b_va := v\<rparr>"
| "blk_set (B_ra v) b = b\<lparr>b_ra := v\<rparr>"
| "blk_set (B_pa v) b = b\<lparr>b_pa := v\<rparr>"
| "blk_set (B_no_end_range_check v) b = b\<lparr>b_no_end_range_check := v\<rparr>"
| "blk_set (B_ra_eq_va v) b = b\<lparr>b_ra_eq_va := v\<rparr>"
| "blk_set (B_pa_eq_va v) b = b\<lparr>b_pa_eq_va := v\<rparr>"
| "blk_set (B_start_label v) b = b\<lparr>b_start_label := Some v\<rparr>"
| "blk_set (B_end_label v) b = b\<lparr>b_end_label := Some v\<rparr>"
| "blk_set (B_end_va v) b = b\<lparr>b_end_va := v\<rparr>"

text \<open>The setters that reach through to the open \<open>block_tsb\<close> of the block.\<close>

definition blk_set_blk_tsb :: "block_tsb_attr \<Rightarrow> block \<Rightarrow> block res" where
  "blk_set_blk_tsb a b =
     bindr (update_open (blk_tsb_set a) (b_tsbs b) (b_open_block_tsb_index b)) (\<lambda>v. Inr (b\<lparr>b_tsbs := v\<rparr>))"

definition blk_set_blk_tsbcsm_clump_num :: "u64 \<Rightarrow> block \<Rightarrow> block res" where
  "blk_set_blk_tsbcsm_clump_num n b =
     bindr (update_open (blk_tsbcsm_set_clump_num n) (b_tsbcsms b) (b_open_block_tsbcsm_index b)) (\<lambda>v.
       Inr (b\<lparr>b_tsbcsms := v\<rparr>))"

section \<open>The image is exact\<close>

lemma bit_bytes32:
  "bit (bytes32 b3 b2 b1 b0) n \<longleftrightarrow>
     (if n < 8 then bit b0 n else if n < 16 then bit b1 (n - 8)
      else if n < 24 then bit b2 (n - 16) else n < 32 \<and> bit b3 (n - 24))"
  by (auto simp: bytes32_def bit_simps dest: bit_imp_le_length)

lemma bytes32_byte:
  "ucast (bytes32 b3 b2 b1 b0) = b0"
  "ucast (drop_bit 8 (bytes32 b3 b2 b1 b0)) = b1"
  "ucast (drop_bit 16 (bytes32 b3 b2 b1 b0)) = b2"
  "ucast (drop_bit 24 (bytes32 b3 b2 b1 b0)) = b3"
  by (rule bit_word_eqI; auto simp: bit_simps bit_bytes32)+

lemma swap32_bytes32: "swap32 (bytes32 b3 b2 b1 b0) = bytes32 b0 b1 b2 b3"
  by (simp add: swap32_def bytes32_byte)

lemma bytes32_zero_iff: "bytes32 b3 b2 b1 b0 = 0 \<longleftrightarrow> b3 = 0 \<and> b2 = 0 \<and> b1 = 0 \<and> b0 = 0"
proof
  assume "bytes32 b3 b2 b1 b0 = 0"
  then show "b3 = 0 \<and> b2 = 0 \<and> b1 = 0 \<and> b0 = 0"
    using bytes32_byte [of b3 b2 b1 b0] by simp
qed (simp add: bytes32_def)

text \<open>The big-endian word at word position \<open>j\<close> of the buffer, and line \<open>k\<close> of a block.\<close>

definition be32 :: "u8 list \<Rightarrow> nat \<Rightarrow> u32" where
  "be32 buf j = bytes32 (buf ! (4 * j)) (buf ! (4 * j + 1)) (buf ! (4 * j + 2)) (buf ! (4 * j + 3))"

definition be_pairs :: "u8 list \<Rightarrow> nat \<Rightarrow> nat \<Rightarrow> (u32 \<times> u32) list" where
  "be_pairs buf j n = map (\<lambda>t. (be32 buf (j + 2 * t), be32 buf (j + 2 * t + 1))) [0..<n]"

definition zero_run :: "u8 list \<Rightarrow> nat \<Rightarrow> nat \<Rightarrow> bool" where
  "zero_run buf j n \<longleftrightarrow> (\<forall>t < n. be32 buf (j + t) = 0)"

lemma load32_ok:
  assumes "4 * j + 3 < length buf"
  obtains w where "load32 little buf j = Inr w" and "(if little then swap32 w else w) = be32 buf j"
    and "w = 0 \<longleftrightarrow> be32 buf j = 0"
  using assms
  by (cases little) (auto simp: load32_def be32_def swap32_bytes32 bytes32_zero_iff)

lemma image_word_ok:
  assumes "i < words" and "4 * (base + i) + 3 < length buf"
  shows "image_word little buf base words i = Inr (be32 buf (base + i))"
  using assms(1) by (rule_tac load32_ok [OF assms(2), of little]) (simp add: image_word_def)

lemma zero_run_Suc: "zero_run buf j (Suc n) \<longleftrightarrow> be32 buf j = 0 \<and> zero_run buf (Suc j) n"
  by (auto simp: zero_run_def less_Suc_eq_0_disj)

lemma zero_words_ok:
  "4 * (base + i + n) \<le> length buf \<Longrightarrow> zero_words little buf base i n = Inr (zero_run buf (base + i) n)"
proof (induction n arbitrary: i)
  case 0
  then show ?case by (simp add: zero_run_def)
next
  case (Suc n)
  from Suc.prems have "4 * (base + i) + 3 < length buf" by simp
  then obtain w where "load32 little buf (base + i) = Inr w" "w = 0 \<longleftrightarrow> be32 buf (base + i) = 0"
    by (rule load32_ok [of _ _ little])
  with Suc show ?case by (simp add: zero_run_Suc)
qed

lemma line_pairs_ok:
  "i + 2 * n \<le> words \<Longrightarrow> 4 * (base + words) \<le> length buf \<Longrightarrow>
   line_pairs little buf base words i n = Inr (be_pairs buf (base + i) n, False)"
proof (induction n arbitrary: i)
  case 0
  then show ?case by (simp add: be_pairs_def)
next
  case (Suc n)
  have u: "[0..<Suc n] = 0 # map Suc [0..<n]" by (simp add: upt_conv_Cons map_Suc_upt del: upt_Suc)
  have "be_pairs buf (base + i) (Suc n) =
      (be32 buf (base + i), be32 buf (base + (i + 1))) # be_pairs buf (base + (i + 2)) n"
    by (simp add: be_pairs_def u comp_def del: upt_Suc)
  with Suc show ?case by (auto simp: image_word_ok)
qed

text \<open>The words line \<open>k\<close> of a block should place: none when it is all zero and compressed.\<close>

definition line_words :: "gen_ctx \<Rightarrow> nat \<Rightarrow> (addr_t \<times> u64) list" where
  "line_words c k =
     (if g_compress c \<and> zero_run (g_buf c) (g_base c + 8 * k) 8 then []
      else place (g_start_pa c + of_nat (32 * k)) (map word_pair (be_pairs (g_buf c) (g_base c + 8 * k) 4)))"

text \<open>The loop from line \<open>k\<close>, for a block of \<open>m\<close> full lines. Where the loop is inside a
  compressed run the location \<open>a\<close> of the reader is irrelevant.\<close>

lemma gen_lines_loads:
  assumes words: "g_words c = 8 * m" and len: "4 * (g_base c + g_words c) \<le> length (g_buf c)"
    and small: "8 * m < 2 ^ 31"
  shows "k \<le> m \<Longrightarrow> line_pa s = g_start_pa c + of_nat (32 * k) \<Longrightarrow>
     (doing_compress s \<longrightarrow> g_compress c) \<Longrightarrow> (\<not> doing_compress s \<longrightarrow> a = line_pa s) \<Longrightarrow>
     \<exists>out s'. gen_lines c (8 * k) s = Inr (out, s') \<and>
       load_items a out = concat (map (line_words c) [k..<m])"
proof (induction "m - k" arbitrary: k s a)
  case 0
  then have "k = m" by simp
  then show ?case using words small by (subst gen_lines.simps) (simp add: int_ok_def)
next
  case (Suc d)
  then have km: "k < m" and d: "d = m - Suc k" "Suc k \<le> m" by auto
  have upt: "[k..<m] = k # [Suc k..<m]" using km by (simp add: upt_conv_Cons)
  have guards: "int_ok (int (8 * k))" "\<not> 8 * k \<ge> g_words c" "int_ok (int (8 * k) + 7)" "8 * k + 7 < g_words c"
    using km words small by (auto simp: int_ok_def)
  define z where "z = zero_run (g_buf c) (g_base c + 8 * k) 8"
  have room: "4 * (g_base c + 8 * k + 8) \<le> length (g_buf c)" using len words km by simp
  have zw: "zero_words (g_little c) (g_buf c) (g_base c) (8 * k) 8 = Inr z"
    unfolding z_def by (rule zero_words_ok) (use room in simp)
  define ps where "ps = be_pairs (g_buf c) (g_base c + 8 * k) 4"
  have lp: "line_pairs (g_little c) (g_buf c) (g_base c) (g_words c) (8 * k) 4 = Inr (ps, False)"
    unfolding ps_def by (rule line_pairs_ok) (use km words len in auto)
  have lps: "length ps = 4" by (simp add: ps_def be_pairs_def)
  define pre where "pre = (if doing_compress s \<and> \<not> z
      then end_of_run (g_env_zero c) (printed_data s) (last_addr s) (g_start_pa c) (line_pa s)
           @ [At (line_pa s) (from_compressed (g_start_pa c))] else [])"
  define s1 where "s1 = s\<lparr>zero_line := z, doing_compress := doing_compress s \<and> z\<rparr>"
  have next_i: "8 * k + 8 = 8 * Suc k" by simp
  note unfold_once = gen_lines.simps [of c "8 * k" s]
  have pa: "line_pa s + 32 = g_start_pa c + of_nat (32 * Suc k)" using Suc.prems(2) by simp
  show ?case
  proof (cases "g_compress c \<and> z")
    case True
    define s2 where "s2 = s1\<lparr>last_addr := (if doing_compress s1 then last_addr s1 else line_pa s1),
                         doing_compress := True, line_pa := line_pa s1 + 32\<rparr>"
    from Suc.hyps(1) [OF d, of s2 a] True pa
    obtain out s' where out: "gen_lines c (8 * Suc k) s2 = Inr (out, s')"
      and load: "load_items a out = concat (map (line_words c) [Suc k..<m])"
      by (auto simp: s2_def s1_def)
    have "gen_lines c (8 * k) s = Inr (out, s')"
      using True guards zw unfold_once out
      by (cases "doing_compress s") (simp_all add: next_i s1_def s2_def Let_def)
    moreover have "line_words c k = []" using True by (simp add: line_words_def z_def)
    ultimately show ?thesis using load by (simp add: upt)
  next
    case False
    define s2 where "s2 = s1\<lparr>printed_data := True, line_pa := line_pa s1 + 32\<rparr>"
    have nd: "\<not> (doing_compress s \<and> z)" using False Suc.prems(3) by auto
    from Suc.hyps(1) [OF d, of s2 "line_pa s + 32"] False pa nd
    obtain out s' where out: "gen_lines c (8 * Suc k) s2 = Inr (out, s')"
      and load: "load_items (line_pa s + 32) out = concat (map (line_words c) [Suc k..<m])"
      by (auto simp: s2_def s1_def)
    have eq: "gen_lines c (8 * k) s = Inr (pre @ Row32 ps # out, s')"
      using False guards zw lp unfold_once out
      by (auto simp: next_i s1_def s2_def pre_def Let_def)
    have pre: "load_items a pre = []" "load_loc a pre = line_pa s"
      using Suc.prems(4) nd by (auto simp: pre_def load_items_append load_loc_append)
    have "line_words c k = place (line_pa s) (map word_pair ps)"
      using False Suc.prems(2) by (auto simp: line_words_def z_def ps_def)
    with eq pre load lps show ?thesis
      by (simp add: load_items_append upt)
  qed
qed

section \<open>The computed range\<close>

lemma block_calculate_size_cases:
  assumes "block_calculate_size pa_size s b = Inr b'"
  obtains va d where "block_start_va s b = Inr va" and "sec_start_va s \<le> va"
    and "va \<le> sec_start_va s + sec_length s"
    and "block_length s (sec_start_va s) (sec_start_va s + sec_length s) b va = Inr d"
    and "b_va b' = va" and "b_d_offset b' = va - sec_start_va s" and "b_d_length b' = d"
    and "check_all_block_tsbs b' = Inr ()" and "b_tsbs b' = b_tsbs b"
proof -
  from assms obtain va d ra pa where "block_start_va s b = Inr va" "\<not> va < sec_start_va s"
    "\<not> sec_start_va s + sec_length s < va"
    "block_length s (sec_start_va s) (sec_start_va s + sec_length s) b va = Inr d"
    and ck: "bindr (check_all_block_tsbs (b\<lparr>b_va := va, b_d_offset := va - sec_start_va s, b_d_length := d,
                                    b_ra := ra, b_pa := pa\<rparr>))
       (\<lambda>_. Inr (b\<lparr>b_va := va, b_d_offset := va - sec_start_va s, b_d_length := d,
                   b_ra := ra, b_pa := pa\<rparr>)) = Inr b'"
    unfolding block_calculate_size_def Let_def bindr_Inr_iff errif_Inr_iff by blast
  moreover from ck have "b' = b\<lparr>b_va := va, b_d_offset := va - sec_start_va s, b_d_length := d,
                                    b_ra := ra, b_pa := pa\<rparr>" "check_all_block_tsbs b' = Inr ()"
    by auto
  ultimately show thesis by (intro that) (simp_all add: not_less)
qed

text \<open>A block that ends at a checked address or at the end of its section stays inside the
  section.\<close>

lemma block_inside_section:
  assumes calc: "block_calculate_size pa_size s b = Inr b'" and el: "b_end_label b = None"
    and ck: "b_end_va b = NO_ADDR \<or> b_no_end_range_check b = 0"
    and nowrap: "unat (sec_start_va s) + unat (sec_length s) < 2 ^ 64"
  shows "unat (b_d_offset b') + unat (b_d_length b') \<le> unat (sec_length s) \<and>
         unat (b_va b') = unat (sec_start_va s) + unat (b_d_offset b')"
proof -
  obtain va d where a: "sec_start_va s \<le> va" "va \<le> sec_start_va s + sec_length s"
    and d: "block_length s (sec_start_va s) (sec_start_va s + sec_length s) b va = Inr d"
    and b': "b_va b' = va" "b_d_offset b' = va - sec_start_va s" "b_d_length b' = d"
    by (rule block_calculate_size_cases [OF calc])
  define st en where "st = sec_start_va s" and "en = sec_start_va s + sec_length s"
  have en: "unat en = unat st + unat (sec_length s)"
    using nowrap by (simp add: en_def st_def unat_word_ariths)
  have sub: "y \<le> x \<Longrightarrow> unat (x - y) = unat x - unat y" for x y :: u64
    by (rule unat_sub)
  obtain e where e: "d = e - va" "va \<le> e" "e \<le> en"
  proof (cases "b_end_va b = NO_ADDR")
    case True
    with d el have "d = en - va" by (simp add: block_length_def en_def)
    then show thesis using that [of en] a by (simp add: en_def)
  next
    case False
    with d el ck have "d = b_end_va b - va" "va \<le> b_end_va b" "b_end_va b \<le> en"
      by (simp_all add: block_length_def en_def not_less)
    then show thesis by (rule that)
  qed
  have "unat d = unat e - unat va" "unat (va - st) = unat va - unat st"
    using sub [OF e(2)] sub [OF a(1)] e(1) by (simp_all add: st_def)
  moreover have "unat st \<le> unat va" "unat va \<le> unat e" "unat e \<le> unat en"
    using a e by (simp_all add: st_def word_le_nat_alt)
  ultimately show ?thesis unfolding b' st_def [symmetric] using en by (simp add: st_def)
qed

section \<open>The byte order of the host\<close>

lemma swap32_zero [simp]: "swap32 0 = 0"
  by (simp add: swap32_def bytes32_def)

lemma image_word_endian: "image_word little buf base words i = image_word False buf base words i"
  by (cases little) (simp_all add: image_word_def load32_def swap32_bytes32)

lemma zero_words_endian: "zero_words little buf base i n = zero_words False buf base i n"
proof (induction n arbitrary: i)
  case (Suc n)
  then show ?case
    by (cases little; cases "4 * (base + i) + 3 < length buf") (auto simp: load32_def bytes32_zero_iff)
qed simp

lemma line_pairs_endian: "line_pairs little buf base words i n = line_pairs False buf base words i n"
  by (induction n arbitrary: i) (simp_all add: image_word_endian [of little] cong: if_cong)

lemma gen_lines_endian: "gen_lines (c\<lparr>g_little := b\<rparr>) i s = gen_lines (c\<lparr>g_little := b'\<rparr>) i s"
proof (induction "g_words c - i" arbitrary: i s rule: less_induct)
  case less
  have z: "zero_words b (g_buf c) (g_base c) i 8 = zero_words b' (g_buf c) (g_base c) i 8"
    by (metis zero_words_endian)
  have l: "line_pairs b (g_buf c) (g_base c) (g_words c) i 4 = line_pairs b' (g_buf c) (g_base c) (g_words c) i 4"
    by (metis line_pairs_endian)
  show ?case
  proof (cases "g_words c \<le> i")
    case True
    then show ?thesis by (subst (1 2) gen_lines.simps) simp
  next
    case False
    then have rec: "gen_lines (c\<lparr>g_little := b\<rparr>) (i + 8) u = gen_lines (c\<lparr>g_little := b'\<rparr>) (i + 8) u" for u
      by (intro less.hyps) simp
    show ?thesis by (subst (1 2) gen_lines.simps) (simp add: z l rec Let_def cong: if_cong)
  qed
qed

section \<open>The memory image of a block\<close>

text \<open>The eight bytes from position \<open>k\<close>, most significant first.\<close>

definition be64 :: "u8 list \<Rightarrow> nat \<Rightarrow> u64" where
  "be64 buf k = word_pair (bytes32 (buf ! k) (buf ! (k + 1)) (buf ! (k + 2)) (buf ! (k + 3)),
                           bytes32 (buf ! (k + 4)) (buf ! (k + 5)) (buf ! (k + 6)) (buf ! (k + 7)))"

lemma be64_pair: "be64 buf (8 * j) = word_pair (be32 buf (2 * j), be32 buf (2 * j + 1))"
  by (simp add: be64_def be32_def add.commute)

lemma word_pair_zero: "word_pair (0, 0) = 0"
  by (simp add: word_pair_def)

text \<open>The words of one line, at word position \<open>base + 8 k\<close> of the buffer.\<close>

lemma be_pairs_line:
  assumes base: "4 * base = off"
  shows "map word_pair (be_pairs buf (base + 8 * k) 4) = map (\<lambda>j. be64 buf (off + 8 * j)) [4 * k ..< 4 * k + 4]"
proof -
  have upt: "[4 * k ..< 4 * k + 4] = map (\<lambda>t. 4 * k + t) [0..<4]"
    by (simp add: upt_rec)
  have "word_pair (be32 buf (base + 8 * k + 2 * t), be32 buf (base + 8 * k + 2 * t + 1)) = be64 buf (off + 8 * (4 * k + t))" for t
    by (simp add: be64_def be32_def base [symmetric] algebra_simps)
  then show ?thesis by (simp add: be_pairs_def upt comp_def)
qed

lemma zero_run_words:
  assumes base: "4 * base = off" and z: "zero_run buf (base + 8 * (j div 4)) 8"
  shows "be64 buf (off + 8 * j) = 0"
proof -
  define t where "t = j mod 4"
  have j: "j = 4 * (j div 4) + t" "t < 4" by (simp_all add: t_def)
  have "be64 buf (off + 8 * j) = word_pair (be32 buf (base + 8 * (j div 4) + 2 * t), be32 buf (base + 8 * (j div 4) + (2 * t + 1)))"
    by (subst j(1)) (simp add: be64_def be32_def base [symmetric] algebra_simps)
  moreover have "be32 buf (base + 8 * (j div 4) + 2 * t) = 0" "be32 buf (base + 8 * (j div 4) + (2 * t + 1)) = 0"
    using z [unfolded zero_run_def, rule_format, of "2 * t"] z [unfolded zero_run_def, rule_format, of "2 * t + 1"] j(2)
    by simp_all
  ultimately show ?thesis by (simp add: word_pair_zero)
qed

text \<open>The buffer \<open>block_generate_image\<close> reads: the section's data, or zeroes.\<close>

definition image_buf :: "elf_scn \<Rightarrow> block \<Rightarrow> u8 list" where
  "image_buf scn b = (if sc_type scn = SHT_NOBITS then replicate (unat (max (sc_size scn) (b_d_length b))) 0
                      else sc_buf scn)"

lemma block_image_loads:
  assumes gen: "block_generate_image mem little pa_size compress_on env_zero pm b scn = Inr (pm', out)"
    and img: "b_in_image b \<noteq> 0" and pa: "pa_mask pa_size = Inr mk" "b_pa b AND mk = b_pa b"
    and off: "unat (b_d_offset b) = 4 * base" and len: "unat (b_d_length b) = 32 * m"
    and inside: "unat (b_d_offset b) + unat (b_d_length b) \<le> length (image_buf scn b)"
    and small: "unat (b_d_length b) < 2 ^ 33"
  shows "load_items a out = map (\<lambda>j. (b_pa b + of_nat (8 * j), be64 (image_buf scn b) (4 * base + 8 * j)))
     (filter (\<lambda>j. \<not> ((b_compress b \<noteq> 0 \<and> compress_on) \<and> zero_run (image_buf scn b) (base + 8 * (j div 4)) 8))
        [0 ..< 4 * m])"
proof -
  define c where "c = \<lparr>g_little = little, g_buf = image_buf scn b, g_base = base, g_words = 8 * m,
      g_compress = (b_compress b \<noteq> 0 \<and> compress_on), g_env_zero = env_zero, g_start_pa = b_pa b\<rparr>"
  define s0 where "s0 = \<lparr>zero_line = False, doing_compress = False, line_pa = b_pa b, last_addr = b_pa b,
                    printed_data = False\<rparr>"
  have w: "unat (b_d_offset b div 4) = base" "unat (b_d_length b div 4) = 8 * m"
    by (simp_all add: unat_div off len)
  have buf: "(if sc_type scn = SHT_NOBITS
               then let total_bytes = max (sc_size scn) (b_d_length b) in
                    bindr (gf_malloc mem (uint total_bytes)) (\<lambda>_. Inr (replicate (unat total_bytes) 0))
               else Inr (sc_buf scn)) = Inr buf \<Longrightarrow> buf = image_buf scn b" for buf
    by (auto simp: image_buf_def Let_def bindr_Inr_iff split: if_splits)
  from gen img obtain lines s where gl: "gen_lines c 0 s0 = Inr (lines, s)"
    and out: "out = [Blank, At (b_pa b) (''Section '' @ quoted (b_section_name b) @
                     '', segment '' @ quoted (b_segment_name b))] @ lines @
            (if doing_compress s \<and> env_zero then [Note (zero_bytes (line_pa s - last_addr s)), Blank] else [])"
    unfolding block_generate_image_def Let_def pa bindr_Inr_iff
    by (auto simp: bindr_Inr_iff w c_def s0_def pa(2) dest!: buf [unfolded Let_def] simp del: quoted_def)
  have "\<exists>out' s'. gen_lines c (8 * 0) s0 = Inr (out', s') \<and>
       load_items (b_pa b) out' = concat (map (line_words c) [0..<m])"
    using small len inside off by (intro gen_lines_loads) (simp_all add: c_def s0_def)
  with gl have "load_items (b_pa b) lines = concat (map (line_words c) [0..<m])" by simp
  also have "\<dots> = map (\<lambda>j. (b_pa b + of_nat (8 * j), be64 (image_buf scn b) (4 * base + 8 * j)))
     (filter (\<lambda>j. \<not> ((b_compress b \<noteq> 0 \<and> compress_on) \<and> zero_run (image_buf scn b) (base + 8 * (j div 4)) 8))
        [0 ..< 4 * m])"
    by (rule concat_lines) (simp add: line_words_def c_def be_pairs_line [OF refl])
  finally show ?thesis by (simp add: out load_items_append)
qed

lemma block_image_memory:
  assumes gen: "block_generate_image mem little pa_size compress_on env_zero pm b scn = Inr (pm', out)"
    and img: "b_in_image b \<noteq> 0" and pa: "pa_mask pa_size = Inr mk" "b_pa b AND mk = b_pa b"
    and off: "unat (b_d_offset b) = 4 * base" and len: "unat (b_d_length b) = 32 * m"
    and inside: "unat (b_d_offset b) + unat (b_d_length b) \<le> length (image_buf scn b)"
    and small: "unat (b_d_length b) < 2 ^ 33" and j: "8 * j < unat (b_d_length b)"
  shows "memory_of (load_items a out) (b_pa b + of_nat (8 * j)) =
    be64 (image_buf scn b) (unat (b_d_offset b) + 8 * j)"
  unfolding off
proof (rule memory_lines [OF block_image_loads [OF gen img pa off len inside small]])
  show "32 * m \<le> 2 ^ 64" "j < 4 * m" using small len j by simp_all
  show "be64 (image_buf scn b) (4 * base + 8 * j) = 0"
    if "(b_compress b \<noteq> 0 \<and> compress_on) \<and> zero_run (image_buf scn b) (base + 8 * (j div 4)) 8"
    using zero_run_words [OF refl conjunct2 [OF that]] .
qed

end
