(* ===== verification/GF_App.thy ===== *)
theory GF_App
  imports GF_Block
begin

text \<open>
  \<open>app.c\<close>: applications. An application is an ELF file with the blocks the user defined on
  it; the linked sections its blocks refer to are shared between them. The parser opens, fills and
  closes applications, blocks and \<open>block_tsb\<close>s; \<open>process_elf_file\<close> then binds the
  sections, builds the symbol tables, computes every block's range and writes its image.

  An ELF file is the list of its sections in file order (\<open>GF_Linked_Section\<close>). A file whose
  header libelf cannot read is \<open>None\<close>.

  The operations the parser can call, in any order, are the step relation \<open>app_step\<close>.

  Lemmas: in every reachable state application names and section names are unique, and every
  closed block passed its checks and is bound to the section of its name.
\<close>

section \<open>State\<close>

record app =
  a_name :: string
  a_elf_file :: "string option"
  a_blocks :: "block list"
  a_linked_sections :: "linked_section list"
  a_srcfile :: "string option"
  a_srcline :: int
  a_lineno :: int
  a_open_block_index :: int

record app_vector_st =
  av_vector :: "app list"
  av_open :: int

definition NO_OPEN_APP :: int where "NO_OPEN_APP = - 1"
definition NO_OPEN_BLOCK :: int where "NO_OPEN_BLOCK = - 1"
definition NO_OPEN_BLOCK_TSB :: int where "NO_OPEN_BLOCK_TSB = - 1"

definition init_app :: app where
  "init_app = \<lparr>a_name = ''<no_name>'', a_elf_file = Some ''<unknown>'', a_blocks = [],
     a_linked_sections = [], a_srcfile = None, a_srcline = 0, a_lineno = 0,
     a_open_block_index = NO_OPEN_BLOCK\<rparr>"

section \<open>Applications\<close>

definition clear_app_vector :: "app_vector_st \<Rightarrow> app_vector_st" where
  "clear_app_vector s = s\<lparr>av_vector := []\<rparr>"

definition app_name_compare :: "string \<Rightarrow> app \<Rightarrow> bool" where
  "app_name_compare name a \<longleftrightarrow> name = a_name a"

definition get_app_ptr_by_name :: "app_vector_st \<Rightarrow> string \<Rightarrow> nat option" where
  "get_app_ptr_by_name s name = find_index_from (app_name_compare name) 0 (av_vector s)"

definition open_new_app :: "app_vector_st \<Rightarrow> string \<Rightarrow> int \<Rightarrow> app_vector_st res" where
  "open_new_app s name lineno =
     (let app_exists_error = get_app_ptr_by_name s name \<noteq> None;
          new_index = length (av_vector s);
          app = init_app\<lparr>a_name := name, a_lineno := lineno\<rparr>
      in errif app_exists_error M_APPSYNTAX
           (Inr (s\<lparr>av_vector := av_vector s @ [app], av_open := int new_index\<rparr>)))"

definition sanity_check_app :: "app \<Rightarrow> unit res" where
  "sanity_check_app a = errif (a_elf_file a = None) M_APPSYNTAX (Inr ())"

definition close_app :: "app_vector_st \<Rightarrow> app_vector_st res" where
  "close_app s = errif (av_open s = NO_OPEN_APP) M_GOLDFINGERPARSE
     (bindr (open_elem (av_vector s) (av_open s)) (\<lambda>a.
      bindr (sanity_check_app a) (\<lambda>_. Inr (s\<lparr>av_open := NO_OPEN_APP\<rparr>))))"

definition finish_single_app_init ::
  "tsb_entry tsb_vector_st \<Rightarrow> tsbcsm_entry tsb_vector_st \<Rightarrow> app \<Rightarrow> app res" where
  "finish_single_app_init tsbs csms a =
     bindr (map_res (finish_single_block_init tsbs csms) (a_blocks a)) (\<lambda>bs. Inr (a\<lparr>a_blocks := bs\<rparr>))"

definition finish_app_init ::
  "tsb_entry tsb_vector_st \<Rightarrow> tsbcsm_entry tsb_vector_st \<Rightarrow> app_vector_st \<Rightarrow> app_vector_st res" where
  "finish_app_init tsbs csms s =
     bindr (map_res (finish_single_app_init tsbs csms) (av_vector s)) (\<lambda>v. Inr (s\<lparr>av_vector := v\<rparr>))"

text \<open>An operation on the open application: \<open>VECTOR_ELEM(App_vector, Open_app_index, ...)\<close>
  and a change through that pointer.\<close>

definition on_open_app :: "(app \<Rightarrow> app res) \<Rightarrow> app_vector_st \<Rightarrow> app_vector_st res" where
  "on_open_app f s =
     bindr (open_elem (av_vector s) (av_open s)) (\<lambda>a.
     bindr (f a) (\<lambda>a'. Inr (s\<lparr>av_vector := (av_vector s)[nat (av_open s) := a']\<rparr>)))"

definition on_open_block :: "(block \<Rightarrow> block res) \<Rightarrow> app \<Rightarrow> app res" where
  "on_open_block f a =
     bindr (open_elem (a_blocks a) (a_open_block_index a)) (\<lambda>b.
     bindr (f b) (\<lambda>b'. Inr (a\<lparr>a_blocks := (a_blocks a)[nat (a_open_block_index a) := b']\<rparr>)))"

definition set_app_elf_file :: "string \<Rightarrow> app_vector_st \<Rightarrow> app_vector_st res" where
  "set_app_elf_file f = on_open_app (\<lambda>a. Inr (a\<lparr>a_elf_file := Some f\<rparr>))"

definition set_app_srcfile :: "string \<Rightarrow> app_vector_st \<Rightarrow> app_vector_st res" where
  "set_app_srcfile f = on_open_app (\<lambda>a. Inr (a\<lparr>a_srcfile := Some f\<rparr>))"

definition set_app_srcline :: "int \<Rightarrow> app_vector_st \<Rightarrow> app_vector_st res" where
  "set_app_srcline n = on_open_app (\<lambda>a. Inr (a\<lparr>a_srcline := n\<rparr>))"

section \<open>Blocks of the open application\<close>

text \<open>\<open>garbage\<close> is the value \<open>malloc\<close> leaves in \<open>no_end_range_check\<close>.\<close>

definition open_new_block :: "int \<Rightarrow> string \<Rightarrow> int \<Rightarrow> app_vector_st \<Rightarrow> app_vector_st res" where
  "open_new_block garbage name lineno =
     on_open_app (\<lambda>a.
       Inr (a\<lparr>a_blocks := a_blocks a @ [(init_block garbage)\<lparr>b_name := name, b_lineno := lineno\<rparr>],
              a_open_block_index := int (length (a_blocks a))\<rparr>))"

definition get_linked_section_by_name :: "app \<Rightarrow> string \<Rightarrow> nat option" where
  "get_linked_section_by_name a name = find_index_from (linked_section_name_compare name) 0 (a_linked_sections a)"

text \<open>Find the block's section, or add it.\<close>

definition bind_linked_section :: "(int \<Rightarrow> bool) \<Rightarrow> app \<Rightarrow> block \<Rightarrow> (nat \<times> linked_section list) res" where
  "bind_linked_section mem a b =
     bindr (the_res (b_link_section b)) (\<lambda>name.
       case get_linked_section_by_name a name of
         Some i \<Rightarrow> Inr (i, a_linked_sections a)
       | None \<Rightarrow>
           bindr (init_linked_section mem) (\<lambda>s.
             Inr (length (a_linked_sections a), a_linked_sections a @
               [s\<lparr>sec_name := name, sec_section_name := Some (b_section_name b),
                  sec_segment_name := Some (b_segment_name b)\<rparr>])))"

definition close_block_app :: "(int \<Rightarrow> bool) \<Rightarrow> app \<Rightarrow> app res" where
  "close_block_app mem a =
     errif (a_open_block_index a = NO_OPEN_BLOCK) M_GOLDFINGERPARSE
     (bindr (open_elem (a_blocks a) (a_open_block_index a)) (\<lambda>b.
      bindr (sanity_check_block b) (\<lambda>_.
      bindr (bind_linked_section mem a b) (\<lambda>(i, secs).
        Inr (a\<lparr>a_linked_sections := secs,
               a_blocks := (a_blocks a)[nat (a_open_block_index a) := b\<lparr>b_linked_section_obj := Some i\<rparr>],
               a_open_block_index := NO_OPEN_BLOCK\<rparr>)))))"

definition close_block :: "(int \<Rightarrow> bool) \<Rightarrow> app_vector_st \<Rightarrow> app_vector_st res" where
  "close_block mem = on_open_app (close_block_app mem)"

text \<open>The \<open>lineno\<close> of a \<open>block_tsb\<close>, used in debug output only, is not kept.\<close>

definition open_new_block_tsb :: "string \<Rightarrow> app_vector_st \<Rightarrow> app_vector_st res" where
  "open_new_block_tsb name =
     on_open_app (on_open_block (\<lambda>b.
       Inr (b\<lparr>b_tsbs := b_tsbs b @ [init_block_tsb\<lparr>bt_name := name\<rparr>],
              b_open_block_tsb_index := int (length (b_tsbs b))\<rparr>)))"

definition open_new_block_tsbcsm :: "string \<Rightarrow> app_vector_st \<Rightarrow> app_vector_st res" where
  "open_new_block_tsbcsm name =
     on_open_app (on_open_block (\<lambda>b.
       Inr (b\<lparr>b_tsbcsms := b_tsbcsms b @ [init_block_tsbcsm\<lparr>bc_name := name\<rparr>],
              b_open_block_tsbcsm_index := int (length (b_tsbcsms b))\<rparr>)))"

definition close_block_tsb :: "app_vector_st \<Rightarrow> app_vector_st res" where
  "close_block_tsb =
     on_open_app (\<lambda>a. errif (a_open_block_index a = NO_OPEN_BLOCK) M_GOLDFINGERPARSE
       (on_open_block (\<lambda>b. errif (b_open_block_tsb_index b = NO_OPEN_BLOCK_TSB) M_GOLDFINGERPARSE
          (bindr (open_elem (b_tsbs b) (b_open_block_tsb_index b)) (\<lambda>_.
             Inr (b\<lparr>b_open_block_tsb_index := NO_OPEN_BLOCK_TSB\<rparr>)))) a))"

definition close_block_tsbcsm :: "app_vector_st \<Rightarrow> app_vector_st res" where
  "close_block_tsbcsm =
     on_open_app (\<lambda>a. errif (a_open_block_index a = NO_OPEN_BLOCK) M_GOLDFINGERPARSE
       (on_open_block (\<lambda>b. errif (b_open_block_tsbcsm_index b = NO_OPEN_BLOCK_TSB) M_GOLDFINGERPARSE
          (bindr (open_elem (b_tsbcsms b) (b_open_block_tsbcsm_index b)) (\<lambda>_.
             Inr (b\<lparr>b_open_block_tsbcsm_index := NO_OPEN_BLOCK_TSB\<rparr>)))) a))"

text \<open>The setters of \<open>SET_BLOCK\<close>, \<open>SET_BLOCK_TSB\<close>, \<open>SET_BLOCK_TSB_BITS\<close> and
  \<open>SET_BLOCK_TSBCSM\<close>.\<close>

definition set_block :: "block_attr \<Rightarrow> app_vector_st \<Rightarrow> app_vector_st res" where
  "set_block at = on_open_app (on_open_block (\<lambda>b. Inr (blk_set at b)))"

definition set_block_tsb :: "block_tsb_attr \<Rightarrow> app_vector_st \<Rightarrow> app_vector_st res" where
  "set_block_tsb at = on_open_app (on_open_block (blk_set_blk_tsb at))"

definition set_block_tsbcsm_clump_num :: "u64 \<Rightarrow> app_vector_st \<Rightarrow> app_vector_st res" where
  "set_block_tsbcsm_clump_num n = on_open_app (on_open_block (blk_set_blk_tsbcsm_clump_num n))"

section \<open>Processing an ELF file\<close>

definition is_loadable :: "elf_scn \<Rightarrow> bool" where
  "is_loadable scn \<longleftrightarrow> sc_type scn = SHT_PROGBITS \<or> sc_type scn = SHT_NOBITS"

text \<open>The first pass: bind a section of the file to the linked section of its name.\<close>

definition bind_section :: "app \<Rightarrow> elf_scn \<Rightarrow> app" where
  "bind_section a scn =
     (if \<not> is_loadable scn then a
      else case sc_name scn of
             None \<Rightarrow> a
           | Some name \<Rightarrow>
               (case get_linked_section_by_name a name of
                  None \<Rightarrow> a
                | Some i \<Rightarrow> a\<lparr>a_linked_sections := (a_linked_sections a)
                    [i := (a_linked_sections a ! i)\<lparr>sec_shndx := sc_ndx scn, sec_start_va := sc_addr scn,
                                                     sec_length := sc_size scn\<rparr>]\<rparr>))"

text \<open>The last symbol table section of the file.\<close>

definition symtab_section :: "elf_scn list \<Rightarrow> elf_scn option" where
  "symtab_section scns = find (\<lambda>s. sc_type s = SHT_SYMTAB) (rev scns)"

definition blk_matches :: "string \<Rightarrow> block \<Rightarrow> bool res" where
  "blk_matches name b = block_link_section_compare name b"

definition blk_calculate_size_if_match ::
  "int \<Rightarrow> linked_section list \<Rightarrow> string \<Rightarrow> block \<Rightarrow> block res" where
  "blk_calculate_size_if_match pa_size secs name b =
     bindr (blk_matches name b) (\<lambda>m.
       if m then bindr (the_res (b_linked_section_obj b)) (\<lambda>i.
                 bindr (nth_res secs i) (\<lambda>s. block_calculate_size pa_size s b))
       else Inr b)"

text \<open>The settings of a run that the image depends on.\<close>

record gf_opts =
  o_little :: bool
  o_pa_size :: int
  o_compress :: bool
  o_suppress_zero :: bool
  o_env_zero :: bool
  o_allow_conflicts :: bool

definition blk_gen_image_if_match ::
  "(int \<Rightarrow> bool) \<Rightarrow> gf_opts \<Rightarrow> string \<Rightarrow> elf_scn \<Rightarrow> physmap_t \<times> img_item list \<Rightarrow> block
   \<Rightarrow> (physmap_t \<times> img_item list) res"
where
  "blk_gen_image_if_match mem opts name scn st b =
     bindr (blk_matches name b) (\<lambda>m.
       if m then bindr (block_generate_image mem (o_little opts) (o_pa_size opts) (o_compress opts)
                          (o_env_zero opts) (fst st) b scn) (\<lambda>(pm, out). Inr (pm, snd st @ out))
       else Inr st)"

text \<open>The second pass, for one section of the file.\<close>

definition process_section ::
  "(int \<Rightarrow> bool) \<Rightarrow> gf_opts \<Rightarrow> bool \<Rightarrow> app \<times> physmap_t \<times> img_item list \<Rightarrow> elf_scn
   \<Rightarrow> (app \<times> physmap_t \<times> img_item list) res"
where
  "process_section mem opts genimage st scn =
     (case st of (a, pm, out) \<Rightarrow>
      if \<not> is_loadable scn then Inr st
      else case sc_name scn of
             None \<Rightarrow> Inr st
           | Some name \<Rightarrow>
               bindr (map_res (blk_calculate_size_if_match (o_pa_size opts) (a_linked_sections a) name) (a_blocks a)) (\<lambda>bs.
               bindr (if genimage
                      then foldr_res (blk_gen_image_if_match mem opts name scn) (pm, out) bs
                      else Inr (pm, out)) (\<lambda>(pm', out').
                 Inr (a\<lparr>a_blocks := bs\<rparr>, pm', out'))))"

definition process_elf_file ::
  "(int \<Rightarrow> bool) \<Rightarrow> gf_opts \<Rightarrow> (string \<Rightarrow> elf_scn list option) \<Rightarrow> bool \<Rightarrow> app \<Rightarrow> physmap_t \<times> img_item list
   \<Rightarrow> (app \<times> physmap_t \<times> img_item list) res"
where
  "process_elf_file mem opts elf_file genimage a st =
     bindr (the_res (a_elf_file a)) (\<lambda>fname.
     case elf_file fname of
       None \<Rightarrow> Inl (Exit M_ELF)
     | Some scns \<Rightarrow>
         let a1 = foldl bind_section a scns in
         bindr (foldr_res (\<lambda>_ b. block_check_link_section_exists (a_linked_sections a1) b) () (a_blocks a1)) (\<lambda>_.
         bindr (case symtab_section scns of
                  None \<Rightarrow> Inr a1
                | Some scn \<Rightarrow>
                    bindr (map_res (\<lambda>s. build_linked_section_symbol_table mem s scn) (a_linked_sections a1)) (\<lambda>secs.
                      Inr (a1\<lparr>a_linked_sections := secs\<rparr>))) (\<lambda>a2.
           foldr_res (process_section mem opts genimage) (a2, st) scns)))"

definition process_app_elf_files ::
  "(int \<Rightarrow> bool) \<Rightarrow> gf_opts \<Rightarrow> (string \<Rightarrow> elf_scn list option) \<Rightarrow> bool \<Rightarrow> app list \<Rightarrow> physmap_t
   \<Rightarrow> (app list \<times> physmap_t \<times> img_item list) res"
where
  "process_app_elf_files mem opts elf_file genimage apps pm =
     foldr_res (\<lambda>(done, pm, out) a.
         bindr (process_elf_file mem opts elf_file genimage a (pm, out)) (\<lambda>(a', pm', out').
           Inr (done @ [a'], pm', out')))
       ([], pm, []) apps"

section \<open>TSBs and symbols of all applications\<close>

definition app_add_to_tsbs :: "bool \<Rightarrow> mmu_st \<Rightarrow> nat \<times> app \<Rightarrow> mmu_st res" where
  "app_add_to_tsbs allow m p =
     foldr_res (\<lambda>m (bi, b). block_add_to_tsbs allow (fst p, bi) m b) m (enumerate 0 (a_blocks (snd p)))"

definition app_add_to_tsbcsms :: "bool \<Rightarrow> mmu_st \<Rightarrow> nat \<times> app \<Rightarrow> mmu_st res" where
  "app_add_to_tsbcsms allow m p =
     foldr_res (\<lambda>m (bi, b). block_add_to_tsbcsms allow (fst p, bi) m b) m (enumerate 0 (a_blocks (snd p)))"

definition add_apps_to_tsbs :: "bool \<Rightarrow> app list \<Rightarrow> mmu_st \<Rightarrow> mmu_st res" where
  "add_apps_to_tsbs allow apps m = foldr_res (app_add_to_tsbs allow) m (enumerate 0 apps)"

definition add_apps_to_tsbcsms :: "bool \<Rightarrow> app list \<Rightarrow> mmu_st \<Rightarrow> mmu_st res" where
  "add_apps_to_tsbcsms allow apps m = foldr_res (app_add_to_tsbcsms allow) m (enumerate 0 apps)"

definition print_app_symtab :: "int \<Rightarrow> string \<Rightarrow> app \<Rightarrow> string res" where
  "print_app_symtab pa_size out a =
     foldr_res (\<lambda>out b. bindr (block_print_symtab pa_size (a_linked_sections a) b) (\<lambda>t. Inr (out @ t)))
       out (a_blocks a)"

definition print_symtab :: "int \<Rightarrow> app list \<Rightarrow> string res" where
  "print_symtab pa_size apps = foldr_res (print_app_symtab pa_size) [] apps"

section \<open>What the parser can reach\<close>

text \<open>One call of the parser. A call that stops the program is no step.\<close>

inductive app_step :: "(int \<Rightarrow> bool) \<Rightarrow> app_vector_st \<Rightarrow> app_vector_st \<Rightarrow> bool" for mem where
  step_open_app: "open_new_app s name lineno = Inr s' \<Longrightarrow> app_step mem s s'"
| step_close_app: "close_app s = Inr s' \<Longrightarrow> app_step mem s s'"
| step_elf_file: "set_app_elf_file f s = Inr s' \<Longrightarrow> app_step mem s s'"
| step_srcfile: "set_app_srcfile f s = Inr s' \<Longrightarrow> app_step mem s s'"
| step_srcline: "set_app_srcline n s = Inr s' \<Longrightarrow> app_step mem s s'"
| step_open_block: "open_new_block garbage name lineno s = Inr s' \<Longrightarrow> app_step mem s s'"
| step_close_block: "close_block mem s = Inr s' \<Longrightarrow> app_step mem s s'"
| step_open_block_tsb: "open_new_block_tsb name s = Inr s' \<Longrightarrow> app_step mem s s'"
| step_open_block_tsbcsm: "open_new_block_tsbcsm name s = Inr s' \<Longrightarrow> app_step mem s s'"
| step_close_block_tsb: "close_block_tsb s = Inr s' \<Longrightarrow> app_step mem s s'"
| step_close_block_tsbcsm: "close_block_tsbcsm s = Inr s' \<Longrightarrow> app_step mem s s'"
| step_set_block: "set_block at s = Inr s' \<Longrightarrow> app_step mem s s'"
| step_set_block_tsb: "set_block_tsb bat s = Inr s' \<Longrightarrow> app_step mem s s'"
| step_set_clump_num: "set_block_tsbcsm_clump_num v s = Inr s' \<Longrightarrow> app_step mem s s'"

inductive app_reach :: "(int \<Rightarrow> bool) \<Rightarrow> app_vector_st \<Rightarrow> bool" for mem where
  reach_init: "app_reach mem (clear_app_vector \<lparr>av_vector = [], av_open = NO_OPEN_APP\<rparr>)"
| reach_step: "app_reach mem s \<Longrightarrow> app_step mem s s' \<Longrightarrow> app_reach mem s'"

text \<open>A closed block is one that has its section; the open block has none yet.\<close>

definition block_closed_ok :: "app \<Rightarrow> nat \<Rightarrow> bool" where
  "block_closed_ok a k \<longleftrightarrow>
     (case b_linked_section_obj (a_blocks a ! k) of
        None \<Rightarrow> True
      | Some i \<Rightarrow> int k \<noteq> a_open_block_index a \<and> i < length (a_linked_sections a) \<and>
          b_link_section (a_blocks a ! k) = Some (sec_name (a_linked_sections a ! i)) \<and>
          sanity_check_block (a_blocks a ! k) = Inr ())"

definition app_inv :: "app \<Rightarrow> bool" where
  "app_inv a \<longleftrightarrow> distinct (map sec_name (a_linked_sections a)) \<and>
     (\<forall>k < length (a_blocks a). block_closed_ok a k) \<and> a_open_block_index a < int (length (a_blocks a))"

definition parser_inv :: "app_vector_st \<Rightarrow> bool" where
  "parser_inv s \<longleftrightarrow> distinct (map a_name (av_vector s)) \<and> (\<forall>a \<in> set (av_vector s). app_inv a)"

lemma app_inv_cong:
  "app_inv a \<Longrightarrow> a_blocks a' = a_blocks a \<Longrightarrow> a_linked_sections a' = a_linked_sections a \<Longrightarrow>
   a_open_block_index a' = a_open_block_index a \<Longrightarrow> app_inv a'"
  unfolding app_inv_def block_closed_ok_def by (simp cong: option.case_cong)

lemma open_elem_Inr_iff: "open_elem xs i = Inr x \<longleftrightarrow> 0 \<le> i \<and> nat i < length xs \<and> x = xs ! nat i"
  by (auto simp: open_elem_def)

lemma find_index_from_Some:
  "find_index_from p i xs = Some j \<Longrightarrow> i \<le> j \<and> j - i < length xs \<and> p (xs ! (j - i))"
proof (induction p i xs rule: find_index_from.induct)
  case (2 p i x xs)
  show ?case
  proof (cases "p x")
    case True
    with 2 show ?thesis by simp
  next
    case False
    with 2 have IH: "Suc i \<le> j" "j - Suc i < length xs" "p (xs ! (j - Suc i))" by auto
    then have "j - i = Suc (j - Suc i)" by simp
    with IH show ?thesis by simp
  qed
qed simp

lemma find_index_from_None: "find_index_from p i xs = None \<longleftrightarrow> (\<forall>x \<in> set xs. \<not> p x)"
  by (induction p i xs rule: find_index_from.induct) auto

lemma on_open_app_inv:
  assumes step: "on_open_app f s = Inr s'" and inv: "parser_inv s"
    and f: "\<And>a a'. app_inv a \<Longrightarrow> f a = Inr a' \<Longrightarrow> app_inv a' \<and> a_name a' = a_name a"
  shows "parser_inv s'"
proof -
  from step obtain a' where i: "nat (av_open s) < length (av_vector s)"
    and a': "f (av_vector s ! nat (av_open s)) = Inr a'"
    and s': "s' = s\<lparr>av_vector := (av_vector s)[nat (av_open s) := a']\<rparr>"
    by (auto simp: on_open_app_def bindr_Inr_iff open_elem_Inr_iff)
  have "app_inv (av_vector s ! nat (av_open s))" using inv i by (simp add: parser_inv_def)
  from f [OF this a'] have ok: "app_inv a'" "a_name a' = a_name (av_vector s ! nat (av_open s))" by auto
  have "map a_name (av_vector s') = map a_name (av_vector s)"
    using i by (simp add: s' map_update ok(2)) (metis length_map list_update_id nth_map)
  moreover have "\<forall>a \<in> set (av_vector s'). app_inv a"
    using inv ok(1) set_update_subset_insert [of "av_vector s" "nat (av_open s)" a']
    by (auto simp: s' parser_inv_def)
  ultimately show ?thesis using inv by (simp add: parser_inv_def)
qed

lemma on_open_block_inv:
  assumes step: "on_open_block f a = Inr a'" and inv: "app_inv a"
    and f: "\<And>b b'. f b = Inr b' \<Longrightarrow> b_linked_section_obj b' = b_linked_section_obj b"
  shows "app_inv a' \<and> a_name a' = a_name a"
proof -
  define k where "k = nat (a_open_block_index a)"
  from step obtain b' where o: "0 \<le> a_open_block_index a" and k: "k < length (a_blocks a)"
    and b': "f (a_blocks a ! k) = Inr b'" and a': "a' = a\<lparr>a_blocks := (a_blocks a)[k := b']\<rparr>"
    by (auto simp: on_open_block_def bindr_Inr_iff open_elem_Inr_iff k_def)
  have "block_closed_ok a k" using inv k by (simp add: app_inv_def)
  then have "b_linked_section_obj (a_blocks a ! k) = None"
    using o by (auto simp: block_closed_ok_def k_def split: option.splits)
  with f [OF b'] have none: "b_linked_section_obj b' = None" by simp
  have "block_closed_ok a' j" if "j < length (a_blocks a)" for j
  proof (cases "j = k")
    case True
    with k none show ?thesis by (simp add: block_closed_ok_def a')
  next
    case False
    have "block_closed_ok a j" using inv that by (simp add: app_inv_def)
    with False show ?thesis by (auto simp: block_closed_ok_def a' split: option.splits)
  qed
  with inv show ?thesis by (simp add: app_inv_def a')
qed

lemma close_block_app_inv:
  assumes step: "close_block_app mem a = Inr a'" and inv: "app_inv a"
  shows "app_inv a' \<and> a_name a' = a_name a"
proof -
  define k where "k = nat (a_open_block_index a)"
  define b where "b = a_blocks a ! k"
  from step obtain i secs where k: "k < length (a_blocks a)" and sane: "sanity_check_block b = Inr ()"
    and bind: "bind_linked_section mem a b = Inr (i, secs)"
    and a': "a' = a\<lparr>a_linked_sections := secs, a_blocks := (a_blocks a)[k := b\<lparr>b_linked_section_obj := Some i\<rparr>],
               a_open_block_index := NO_OPEN_BLOCK\<rparr>"
    by (auto simp: close_block_app_def bindr_Inr_iff open_elem_Inr_iff k_def b_def)
  from bind obtain name where name: "b_link_section b = Some name"
    by (auto simp: bind_linked_section_def bindr_Inr_iff)
  have secs: "distinct (map sec_name secs) \<and> i < length secs \<and> sec_name (secs ! i) = name \<and>
      (\<exists>ext. secs = a_linked_sections a @ ext)"
  proof (cases "get_linked_section_by_name a name")
    case None
    with bind name obtain s where s: "secs = a_linked_sections a @ [s]" "i = length (a_linked_sections a)"
      "sec_name s = name"
      by (auto simp: bind_linked_section_def bindr_Inr_iff)
    moreover have "name \<notin> set (map sec_name (a_linked_sections a))"
      using None by (auto simp: get_linked_section_by_name_def find_index_from_None linked_section_name_compare_def)
    ultimately show ?thesis using inv by (auto simp: app_inv_def)
  next
    case (Some j)
    with bind name have "secs = a_linked_sections a" "i = j" by (auto simp: bind_linked_section_def)
    with Some find_index_from_Some [of "linked_section_name_compare name" 0 "a_linked_sections a" j] inv
    show ?thesis by (auto simp: get_linked_section_by_name_def linked_section_name_compare_def app_inv_def)
  qed
  have sane': "sanity_check_block (b\<lparr>b_linked_section_obj := x\<rparr>) = sanity_check_block b" for x
    by (simp add: sanity_check_block_def check_all_block_tsbs_def sanity_check_block_tsb_def)
  have "block_closed_ok a' j" if j: "j < length (a_blocks a)" for j
  proof (cases "j = k")
    case True
    with k secs sane name show ?thesis
      by (simp add: block_closed_ok_def a' sane' NO_OPEN_BLOCK_def)
  next
    case False
    then have bj: "a_blocks a' ! j = a_blocks a ! j" by (simp add: a')
    have "block_closed_ok a j" using inv j by (simp add: app_inv_def)
    with bj secs show ?thesis
      by (auto simp: block_closed_ok_def a' NO_OPEN_BLOCK_def nth_append split: option.splits)
  qed
  with secs show ?thesis by (simp add: app_inv_def a' NO_OPEN_BLOCK_def)
qed

lemma new_app_inv: "app_inv (init_app\<lparr>a_name := name, a_lineno := lineno\<rparr>)"
  by (simp add: app_inv_def init_app_def NO_OPEN_BLOCK_def)

lemma open_new_block_inv:
  assumes inv: "app_inv a"
  shows "app_inv (a\<lparr>a_blocks := a_blocks a @ [(init_block g)\<lparr>b_name := n, b_lineno := l\<rparr>],
                    a_open_block_index := int (length (a_blocks a))\<rparr>)"
  using inv by (auto simp: app_inv_def block_closed_ok_def nth_append init_block_def split: option.splits)

lemma app_step_inv: "app_step mem s s' \<Longrightarrow> parser_inv s \<Longrightarrow> parser_inv s'"
proof (induction rule: app_step.induct)
  case (step_open_app s name lineno s')
  then have none: "get_app_ptr_by_name s name = None"
    and s': "av_vector s' = av_vector s @ [init_app\<lparr>a_name := name, a_lineno := lineno\<rparr>]"
    by (auto simp: open_new_app_def Let_def)
  from none have "name \<notin> set (map a_name (av_vector s))"
    by (auto simp: get_app_ptr_by_name_def find_index_from_None app_name_compare_def)
  with s' step_open_app.prems show ?case by (auto simp: parser_inv_def new_app_inv)
next
  case (step_close_app s s')
  then have "av_vector s' = av_vector s" by (auto simp: close_app_def bindr_Inr_iff)
  with step_close_app show ?case by (simp add: parser_inv_def)
next
  case (step_close_block s s')
  then show ?case
    unfolding close_block_def by (rule on_open_app_inv) (rule close_block_app_inv)
next
  case (step_open_block garbage name lineno s s')
  then show ?case
    unfolding open_new_block_def by (rule on_open_app_inv) (auto intro: open_new_block_inv)
next
  case (step_close_block_tsb s s')
  then show ?case
    unfolding close_block_tsb_def
    by (rule on_open_app_inv) (auto simp: bindr_Inr_iff elim!: on_open_block_inv)
next
  case (step_close_block_tsbcsm s s')
  then show ?case
    unfolding close_block_tsbcsm_def
    by (rule on_open_app_inv) (auto simp: bindr_Inr_iff elim!: on_open_block_inv)
next
  case (step_set_block "at" s s')
  have "b_linked_section_obj (blk_set at b) = b_linked_section_obj b" for b by (cases "at") simp_all
  with step_set_block show ?case
    unfolding set_block_def by (elim on_open_app_inv) (auto elim!: on_open_block_inv)
next
  case (step_set_block_tsb bat s s')
  then show ?case
    unfolding set_block_tsb_def
    by (elim on_open_app_inv) (auto simp: blk_set_blk_tsb_def bindr_Inr_iff elim!: on_open_block_inv)
next
  case (step_set_clump_num v s s')
  then show ?case
    unfolding set_block_tsbcsm_clump_num_def
    by (elim on_open_app_inv) (auto simp: blk_set_blk_tsbcsm_clump_num_def bindr_Inr_iff elim!: on_open_block_inv)
next
  case (step_open_block_tsb name s s')
  then show ?case
    unfolding open_new_block_tsb_def by (elim on_open_app_inv) (auto elim!: on_open_block_inv)
next
  case (step_open_block_tsbcsm name s s')
  then show ?case
    unfolding open_new_block_tsbcsm_def by (elim on_open_app_inv) (auto elim!: on_open_block_inv)
qed (auto simp: set_app_elf_file_def set_app_srcfile_def set_app_srcline_def
      elim!: on_open_app_inv intro: app_inv_cong)

lemma app_reach_inv: "app_reach mem s \<Longrightarrow> parser_inv s"
proof (induction rule: app_reach.induct)
  case reach_init
  show ?case by (simp add: parser_inv_def clear_app_vector_def)
next
  case (reach_step s s')
  then show ?case by (simp add: app_step_inv)
qed

end
