(* ===== verification/C_Stdio.thy ===== *)
theory C_Stdio
  imports GF_Prelude
begin

text \<open>
  The pieces of the C library on text that several programs share: reading a file with \<open>fgets\<close>,
  comparing prefixes, and reading back the hexadecimal digits that \<open>printf\<close> writes.
\<close>

section \<open>Reading with a buffer\<close>

text \<open>One \<open>fgets\<close>: up to \<open>n\<close> characters, ending after a newline. The rest is returned
  too.\<close>

fun fgets :: "nat \<Rightarrow> string \<Rightarrow> string \<times> string" where
  "fgets 0 s = ([], s)"
| "fgets (Suc n) [] = ([], [])"
| "fgets (Suc n) (c # s) =
     (if c = CHR 0x0A then ([c], s) else (let (l, r) = fgets n s in (c # l, r)))"

lemma fgets_append: "fgets n s = (l, r) \<Longrightarrow> l @ r = s"
  by (induction n s arbitrary: l r rule: fgets.induct) (auto split: if_splits prod.splits)

lemma fgets_nonempty: "s \<noteq> [] \<Longrightarrow> fgets (Suc n) s = (l, r) \<Longrightarrow> l \<noteq> []"
  by (cases s) (auto split: if_splits prod.splits)

lemma fgets_line: "CHR 0x0A \<notin> set l \<Longrightarrow> length l < n \<Longrightarrow> fgets n (l @ CHR 0x0A # r) = (l @ [CHR 0x0A], r)"
proof (induction l arbitrary: n)
  case Nil
  then show ?case by (cases n) auto
next
  case (Cons c l)
  then show ?case by (cases n) auto
qed

text \<open>The pieces of a file that a loop over \<open>fgets\<close> with a buffer of \<open>n + 2\<close> characters gets.\<close>

function fgets_pieces :: "nat \<Rightarrow> string \<Rightarrow> string list" where
  "fgets_pieces n s = (if s = [] then [] else let (l, r) = fgets (Suc n) s in l # fgets_pieces n r)"
  by pat_completeness auto
termination
proof (relation "measure (length \<circ> snd)")
  fix n and s :: string and p :: "string \<times> string" and l r
  assume s: "s \<noteq> []" and "p = fgets (Suc n) s" and "(l, r) = p"
  then have lr: "fgets (Suc n) s = (l, r)" by simp
  from fgets_append [OF lr] fgets_nonempty [OF s lr]
  have "length r < length s" by (cases l) auto
  then show "((n, r), n, s) \<in> measure (length \<circ> snd)" by simp
qed simp

declare fgets_pieces.simps [simp del]

lemma fgets_pieces_Nil [simp]: "fgets_pieces n [] = []"
  by (simp add: fgets_pieces.simps)

lemma fgets_pieces_concat: "concat (fgets_pieces n s) = s"
proof (induction n s rule: fgets_pieces.induct)
  case (1 n s)
  show ?case
  proof (cases "s = []")
    case False
    obtain l r where lr: "fgets (Suc n) s = (l, r)" by (cases "fgets (Suc n) s")
    with False have "fgets_pieces n s = l # fgets_pieces n r" by (subst fgets_pieces.simps) simp
    with 1 [OF False lr [symmetric] refl] fgets_append [OF lr] show ?thesis by simp
  qed simp
qed

text \<open>A file of lines that all fit into the buffer is read line by line.\<close>

lemma fgets_pieces_lines:
  "(\<And>l. l \<in> set ls \<Longrightarrow> CHR 0x0A \<notin> set l \<and> length l \<le> n) \<Longrightarrow>
   fgets_pieces n (concat (map (\<lambda>l. l @ [CHR 0x0A]) ls)) = map (\<lambda>l. l @ [CHR 0x0A]) ls"
proof (induction ls)
  case (Cons l ls)
  then have "fgets (Suc n) (l @ CHR 0x0A # concat (map (\<lambda>l. l @ [CHR 0x0A]) ls)) =
      (l @ [CHR 0x0A], concat (map (\<lambda>l. l @ [CHR 0x0A]) ls))"
    by (intro fgets_line) (auto simp: le_imp_less_Suc)
  with Cons show ?case by (subst fgets_pieces.simps) auto
qed simp

section \<open>Characters\<close>

definition isspace :: "char \<Rightarrow> bool" where
  "isspace c \<longleftrightarrow> c = CHR '' '' \<or> (9 \<le> (of_char c :: nat) \<and> (of_char c :: nat) \<le> 13)"

text \<open>\<open>strncmp(s, p, strlen(p)) == 0\<close>.\<close>

definition starts_with :: "string \<Rightarrow> string \<Rightarrow> bool" where
  "starts_with p s \<longleftrightarrow> take (length p) s = p"

section \<open>Hexadecimal text\<close>

text \<open>The bytes of a word of \<open>k\<close> bytes, high byte first, and their text.\<close>

definition be_bytes :: "nat \<Rightarrow> 'a :: len word \<Rightarrow> u8 list" where
  "be_bytes k w = map (\<lambda>i. ucast (drop_bit (8 * i) w)) (rev [0..<k])"

definition hex_byte :: "u8 \<Rightarrow> string" where
  "hex_byte b = [hexdigit (unat b div 16), hexdigit (unat b mod 16)]"

definition hex_text :: "u8 list \<Rightarrow> string" where
  "hex_text bs = concat (map hex_byte bs)"

lemma length_be_bytes [simp]: "length (be_bytes k w) = k"
  by (simp add: be_bytes_def)

lemma hex_text_simps [simp]: "hex_text [] = []" "hex_text (b # bs) = hex_byte b @ hex_text bs"
  "hex_text (bs @ cs) = hex_text bs @ hex_text cs" "length (hex_text bs) = 2 * length bs"
  by (simp_all add: hex_text_def) (induction bs; simp add: hex_byte_def)

lemma hex_digits_Suc: "hex_digits (Suc k) w = hexdigit (unat (take_bit 4 (drop_bit (4 * k) w))) # hex_digits k w"
  by (simp add: hex_digits_def)

lemma be_bytes_Suc: "be_bytes (Suc k) w = ucast (drop_bit (8 * k) w) # be_bytes k w"
  by (simp add: be_bytes_def)

lemma mod_256: "x mod 256 div 16 = x div 16 mod 16" "x mod 256 mod 16 = x mod 16" for x :: nat
proof -
  have "x mod 256 = 16 * (x div 16 mod 16) + x mod 16" using mod_mult2_eq [of x 16 16] by simp
  then show "x mod 256 div 16 = x div 16 mod 16" "x mod 256 mod 16 = x mod 16" by simp_all
qed

lemma byte_nibbles:
  fixes w :: "'a :: len word"
  shows "unat (ucast w :: u8) div 16 = unat (take_bit 4 (drop_bit 4 w))" and "unat (ucast w :: u8) mod 16 = unat (take_bit 4 w)"
proof -
  have "unat (ucast w :: u8) = unat w mod 256"
    by (simp add: unsigned_ucast_eq take_bit_eq_mod)
  moreover have "unat (take_bit 4 (drop_bit 4 w)) = (unat w div 16) mod 16" "unat (take_bit 4 w) = unat w mod 16"
    by (simp_all only: unsigned_take_bit_eq unat_drop_bit_eq) (simp_all add: take_bit_eq_mod drop_bit_eq_div)
  ultimately show "unat (ucast w :: u8) div 16 = unat (take_bit 4 (drop_bit 4 w))"
    "unat (ucast w :: u8) mod 16 = unat (take_bit 4 w)"
    by (simp_all only: mod_256)
qed

lemma hex_digits_text: "hex_digits (2 * k) w = hex_text (be_bytes k w)"
proof (induction k)
  case (Suc k)
  have "hex_digits (2 * Suc k) w = hexdigit (unat (take_bit 4 (drop_bit (4 * (2 * k + 1)) w)))
      # hexdigit (unat (take_bit 4 (drop_bit (4 * (2 * k)) w))) # hex_digits (2 * k) w"
    by (simp add: hex_digits_Suc)
  moreover have "hex_byte (ucast (drop_bit (8 * k) w)) =
      [hexdigit (unat (take_bit 4 (drop_bit (4 * (2 * k + 1)) w))), hexdigit (unat (take_bit 4 (drop_bit (4 * (2 * k)) w)))]"
    by (simp add: hex_byte_def byte_nibbles algebra_simps)
  ultimately show ?case by (simp add: be_bytes_Suc Suc)
qed (simp add: hex_digits_def be_bytes_def)

end
