(* ===== verification/GF_Split.thy ===== *)
theory GF_Split
  imports GF_Error C_Stdio
begin

text \<open>
  \<open>split.c\<close>: \<open>-splitsec\<close> splits a preprocessed diag into one assembly file per section
  and a midas file with the directives. The input is the text of the file, read in the pieces
  \<open>fgets\<close> returns. Output is kept as the sequence of \<open>fprintf\<close> calls: \<open>sp_midas\<close> for
  the midas file, \<open>sp_written\<close> for the section files, each piece with the file it goes to.
  Opening, linking and closing files are assumed to succeed; every other exit is a branch.

  The buffer is used as a C string throughout, so of each piece only what precedes its first null
  character counts (\<open>cstr\<close>). The tokens of an \<open>APPLICATION\<close> line are cut out of
  the line buffer before the line is written, so what the midas file gets of such a line ends with
  the application's name (\<open>strtok_cut\<close>).

  Lemmas: the string of every piece of the input goes to exactly one of the two sides, in order,
  and whole but for the \<open>APPLICATION\<close> lines, of which the midas file gets the part up to the
  end of the name (\<open>midas_text\<close>); a section of an application always has the same file, and
  two sections never share one.
\<close>

section \<open>Reading\<close>

definition MAX_LINE :: nat where "MAX_LINE = 2048"
definition MAX_SECTIONS :: nat where "MAX_SECTIONS = 4096 * 2"
definition START_TEMPFILE :: string where "START_TEMPFILE = ''sec_temp.s''"

text \<open>What the loop over \<open>fgets\<close> reads, with a buffer of \<open>MAX_LINE\<close> characters.\<close>

definition fgets_all :: "string \<Rightarrow> string list" where
  "fgets_all = fgets_pieces (MAX_LINE - 2)"

text \<open>The C string in a buffer: what \<open>strlen\<close>, \<open>strchr\<close>, \<open>strtok\<close> and
  \<open>fprintf("%s")\<close> see of it.\<close>

definition cstr :: "string \<Rightarrow> string" where
  "cstr = takeWhile (\<lambda>c. c \<noteq> CHR 0x00)"

lemma cstr_id: "CHR 0x00 \<notin> set s \<Longrightarrow> cstr s = s"
  by (auto simp: cstr_def takeWhile_eq_all_conv)

text \<open>\<open>strtok(s, " \t\n")\<close>, first call.\<close>

definition is_delim :: "char \<Rightarrow> bool" where
  "is_delim c \<longleftrightarrow> c = CHR '' '' \<or> c = CHR 0x09 \<or> c = CHR 0x0A"

definition strtok1 :: "string \<Rightarrow> string option" where
  "strtok1 s = (let t = takeWhile (\<lambda>c. \<not> is_delim c) (dropWhile is_delim s) in
                if t = [] then None else Some t)"

text \<open>\<open>strtok\<close> ends the token by a null character it writes into the buffer, so of a buffer that
  ends in \<open>s\<close> only the part up to the end of the token of \<open>s\<close> is left as a string.\<close>

definition strtok_cut :: "string \<Rightarrow> string \<Rightarrow> string" where
  "strtok_cut buf s =
     take (length buf - length (dropWhile (\<lambda>c. \<not> is_delim c) (dropWhile is_delim s))) buf"

text \<open>\<open>linelen > 2 && buf[linelen-2] == '\'\<close>.\<close>

definition continued :: "string \<Rightarrow> bool" where
  "continued buf \<longleftrightarrow> length buf > 2 \<and> buf ! (length buf - 2) = CHR 0x5C"

section \<open>Sections\<close>

record section_descr =
  sd_app_name :: string
  sd_section_name :: string
  sd_orig_section_name :: string
  sd_file_name :: string

record split_st =
  sp_midas :: "string list"
  sp_written :: "(string \<times> string) list"
  sp_src :: string                 \<comment> \<open>file open as \<open>src_fh\<close>\<close>
  sp_last_midas :: bool            \<comment> \<open>\<open>last_fh == midas_fh\<close>\<close>
  sp_line_num :: nat
  sp_in_block :: bool
  sp_in_multi :: bool
  sp_appname :: string
  sp_table :: "section_descr list"

definition init_split :: split_st where
  "init_split = \<lparr>sp_midas = [], sp_written = [], sp_src = START_TEMPFILE, sp_last_midas = False,
     sp_line_num = 0, sp_in_block = False, sp_in_multi = False, sp_appname = ''default'', sp_table = []\<rparr>"

definition skip_dot :: "string \<Rightarrow> string" where
  "skip_dot s = (case s of c # d # r \<Rightarrow> (if c = CHR ''.'' then d # r else s) | _ \<Rightarrow> s)"

definition tolower :: "char \<Rightarrow> char" where
  "tolower c = (if 65 \<le> (of_char c :: nat) \<and> (of_char c :: nat) \<le> 90 then char_of ((of_char c :: nat) + 32) else c)"

definition section_file :: "nat \<Rightarrow> string \<Rightarrow> string" where
  "section_file i secname = map tolower (''sec'' @ dec_nat i @ ''.'' @ secname @ ''.s'')"

definition find_section :: "string \<Rightarrow> string \<Rightarrow> section_descr list \<Rightarrow> section_descr option" where
  "find_section appname secname = find (\<lambda>d. sd_section_name d = secname \<and> sd_app_name d = appname)"

text \<open>\<open>section_lookup\<close>: the file of the section becomes the open one. The first section takes
  over what was written to the temporary file.\<close>

definition section_lookup :: "string \<Rightarrow> string \<Rightarrow> split_st \<Rightarrow> split_st res" where
  "section_lookup appname0 secname0 st =
     (let secname = skip_dot secname0; appname = skip_dot appname0; n = length (sp_table st) in
      case find_section appname secname (sp_table st) of
        Some d \<Rightarrow> Inr (st\<lparr>sp_src := sd_file_name d\<rparr>)
      | None \<Rightarrow>
          let f = section_file n secname in
          errif (n = MAX_SECTIONS) M_MEMORY
            (Inr (st\<lparr>sp_src := f,
                    sp_written := (if n = 0
                      then map (\<lambda>(g, t). (if g = START_TEMPFILE then f else g, t)) (sp_written st)
                      else sp_written st),
                    sp_table := sp_table st @
                      [\<lparr>sd_app_name = appname, sd_section_name = secname,
                        sd_orig_section_name = secname0, sd_file_name = f\<rparr>]\<rparr>)))"

section \<open>One line\<close>

definition put_midas :: "string \<Rightarrow> split_st \<Rightarrow> split_st" where
  "put_midas t st = st\<lparr>sp_midas := sp_midas st @ [t]\<rparr>"

definition put_src :: "string \<Rightarrow> split_st \<Rightarrow> split_st" where
  "put_src t st = st\<lparr>sp_written := sp_written st @ [(sp_src st, t)]\<rparr>"

text \<open>A directive goes to the midas file, after a \<open>#line\<close> when the file is switched.\<close>

definition put_directive :: "string \<Rightarrow> string \<Rightarrow> split_st \<Rightarrow> split_st" where
  "put_directive input_file buf st =
     (let st1 = (if sp_last_midas st then st
                 else put_midas (''#line '' @ dec_nat (sp_line_num st) @ '' '' @ [CHR 0x22] @ input_file
                                 @ [CHR 0x22] @ NL) st)
      in (put_midas buf st1)\<lparr>sp_last_midas := True\<rparr>)"

definition split_line :: "string \<Rightarrow> string \<Rightarrow> split_st \<Rightarrow> split_st res" where
  "split_line input_file buf st0 =
     (let st = st0\<lparr>sp_line_num := sp_line_num st0 + 1\<rparr>;
          non_white = dropWhile isspace buf in
      if non_white = [] then Inr (if sp_last_midas st then put_midas buf st else put_src buf st)
      else if sp_in_multi st then Inr ((put_midas buf st)\<lparr>sp_in_multi := continued buf\<rparr>)
      else if starts_with ''attr_'' non_white \<or> starts_with ''goldfinger_'' non_white then
        Inr ((put_directive input_file buf st)
               \<lparr>sp_in_block := (sp_in_block st \<or> CHR 0x7D \<notin> set non_white)\<rparr>)
      else if sp_in_block st then
        Inr ((put_midas buf st)\<lparr>sp_in_block := CHR 0x7D \<notin> set non_white\<rparr>)
      else if starts_with ''SECTION'' non_white then
        (let st1 = (put_directive input_file buf st)\<lparr>sp_in_multi := (sp_in_multi st \<or> continued buf)\<rparr> in
         case strtok1 (drop 7 non_white) of
           None \<Rightarrow> Inl (Exit M_GOLDFINGERPARSE)
         | Some secname \<Rightarrow> section_lookup (sp_appname st1) secname st1)
      else if starts_with ''MIDAS_'' non_white then
        Inr ((put_directive input_file buf st)\<lparr>sp_in_multi := (sp_in_multi st \<or> continued buf)\<rparr>)
      else if starts_with ''APPLICATION'' non_white then
        (case strtok1 (drop 11 non_white) of
           None \<Rightarrow> Inl (Exit M_GOLDFINGERPARSE)
         | Some appname \<Rightarrow>
             let cut = strtok_cut buf (drop 11 non_white) in
             Inr ((put_directive input_file cut st)
                    \<lparr>sp_appname := appname, sp_in_multi := (sp_in_multi st \<or> continued cut)\<rparr>))
      else Inr ((put_src buf st)\<lparr>sp_last_midas := False\<rparr>))"

definition write_section_map :: "split_st \<Rightarrow> string list" where
  "write_section_map st = map (\<lambda>d. ''SPLITSEC APP='' @ sd_app_name d @ '' SECTION='' @
      sd_orig_section_name d @ '' FILE='' @ sd_file_name d @ NL) (sp_table st)"

definition splitsec :: "string \<Rightarrow> string \<Rightarrow> split_st res" where
  "splitsec input_file input =
     bindr (foldr_res (\<lambda>st buf. split_line input_file buf st) init_split
            (map cstr (fgets_all input))) (\<lambda>st.
       Inr (st\<lparr>sp_midas := sp_midas st @ write_section_map st\<rparr>))"

section \<open>Where the lines go\<close>

lemma fgets_all_concat: "concat (fgets_all s) = s"
  by (simp add: fgets_all_def fgets_pieces_concat)

text \<open>\<open>merges xs ys zs\<close>: \<open>zs\<close> interleaves \<open>xs\<close> and \<open>ys\<close>, each in its order.\<close>

inductive merges :: "'a list \<Rightarrow> 'a list \<Rightarrow> 'a list \<Rightarrow> bool" where
  merges_nil: "merges [] [] []"
| merges_left: "merges xs ys zs \<Longrightarrow> merges (xs @ [x]) ys (zs @ [x])"
| merges_right: "merges xs ys zs \<Longrightarrow> merges xs (ys @ [y]) (zs @ [y])"

lemma merges_length: "merges xs ys zs \<Longrightarrow> length zs = length xs + length ys"
  by (induction rule: merges.induct) auto

lemma merges_set: "merges xs ys zs \<Longrightarrow> set zs = set xs \<union> set ys"
  by (induction rule: merges.induct) auto

definition is_line_note :: "string \<Rightarrow> bool" where
  "is_line_note t \<longleftrightarrow> starts_with ''#line '' t"

text \<open>The text the midas file gets for an input line: the line, or, of an \<open>APPLICATION\<close>
  directive, the part up to the end of the application's name.\<close>

definition midas_text :: "string \<Rightarrow> string \<Rightarrow> bool" where
  "midas_text l t \<longleftrightarrow> t = l \<or>
     (\<exists>blanks gap appname rest. l = t @ rest \<and> t = blanks @ ''APPLICATION'' @ gap @ appname \<and>
        (\<forall>c \<in> set blanks. isspace c) \<and> (\<forall>c \<in> set gap. is_delim c) \<and> appname \<noteq> [] \<and>
        (\<forall>c \<in> set appname. \<not> is_delim c) \<and> (rest = [] \<or> is_delim (hd rest)))"

lemma midas_text_cut:
  assumes ap: "starts_with ''APPLICATION'' (dropWhile isspace l)"
    and tok: "strtok1 (drop 11 (dropWhile isspace l)) = Some appname"
  shows "midas_text l (strtok_cut l (drop 11 (dropWhile isspace l)))"
proof -
  define blanks where "blanks = takeWhile isspace l"
  define s where "s = drop 11 (dropWhile isspace l)"
  define gap where "gap = takeWhile is_delim s"
  define rest where "rest = dropWhile (\<lambda>c. \<not> is_delim c) (dropWhile is_delim s)"
  have name: "appname = takeWhile (\<lambda>c. \<not> is_delim c) (dropWhile is_delim s)" "appname \<noteq> []"
    using tok by (auto simp: strtok1_def s_def Let_def split: if_splits)
  have s: "s = gap @ appname @ rest" by (simp add: gap_def name(1) rest_def)
  have "take 11 (dropWhile isspace l) = ''APPLICATION''"
    using ap by (simp add: starts_with_def numeral_eq_Suc)
  then have "dropWhile isspace l = ''APPLICATION'' @ s"
    unfolding s_def by (metis append_take_drop_id)
  then have "l = blanks @ ''APPLICATION'' @ s"
    using takeWhile_dropWhile_id [of isspace l] by (simp add: blanks_def)
  then have l: "l = (blanks @ ''APPLICATION'' @ gap @ appname) @ rest" by (simp add: s)
  then have cut: "strtok_cut l s = blanks @ ''APPLICATION'' @ gap @ appname"
    unfolding strtok_cut_def rest_def [symmetric] by (metis append_eq_conv_conj length_append add_diff_cancel_right')
  have "rest = [] \<or> is_delim (hd rest)"
    using hd_dropWhile [of "\<lambda>c. \<not> is_delim c" "dropWhile is_delim s"] by (auto simp: rest_def)
  moreover have "\<forall>c \<in> set blanks. isspace c" "\<forall>c \<in> set gap. is_delim c" "\<forall>c \<in> set appname. \<not> is_delim c"
    by (auto simp: blanks_def gap_def name(1) dest: set_takeWhileD)
  ultimately show ?thesis
    using l cut name(2) unfolding midas_text_def s_def [symmetric]
    by (intro disjI2 exI [of _ blanks] exI [of _ gap] exI [of _ appname] exI [of _ rest]) simp
qed

text \<open>What has been written so far, against the lines read: the midas file is the directive lines
  with \<open>#line\<close> notes between them, and directive lines and section lines make up the
  input.\<close>

definition split_inv :: "string list \<Rightarrow> split_st \<Rightarrow> bool" where
  "split_inv lines st \<longleftrightarrow> (\<exists>dirs texts anns. merges texts anns (sp_midas st) \<and>
     (\<forall>t \<in> set anns. is_line_note t) \<and> list_all2 midas_text dirs texts \<and>
     merges dirs (map snd (sp_written st)) lines)"

lemma split_invI:
  "merges texts anns (sp_midas st) \<Longrightarrow> \<forall>t \<in> set anns. is_line_note t \<Longrightarrow> list_all2 midas_text dirs texts \<Longrightarrow>
   merges dirs (map snd (sp_written st)) lines \<Longrightarrow> split_inv lines st"
  unfolding split_inv_def by blast

lemma split_invE:
  assumes "split_inv lines st"
  obtains dirs texts anns where "merges texts anns (sp_midas st)" and "\<forall>t \<in> set anns. is_line_note t"
    and "list_all2 midas_text dirs texts" and "merges dirs (map snd (sp_written st)) lines"
  using assms unfolding split_inv_def by blast

lemma split_inv_midas:
  assumes "split_inv lines st" and t: "midas_text l t"
  shows "split_inv (lines @ [l]) (put_midas t st)"
  using assms(1)
proof (rule split_invE)
  fix dirs texts anns
  assume m: "merges texts anns (sp_midas st)" "\<forall>t \<in> set anns. is_line_note t"
    "list_all2 midas_text dirs texts" "merges dirs (map snd (sp_written st)) lines"
  show ?thesis
  proof (rule split_invI)
    show "merges (texts @ [t]) anns (sp_midas (put_midas t st))"
      using merges_left [OF m(1)] by (simp add: put_midas_def)
    show "list_all2 midas_text (dirs @ [l]) (texts @ [t])"
      using m(3) t by (simp add: list_all2_appendI)
    show "merges (dirs @ [l]) (map snd (sp_written (put_midas t st))) (lines @ [l])"
      using merges_left [OF m(4)] by (simp add: put_midas_def)
  qed (rule m(2))
qed

lemma split_inv_src: "split_inv lines st \<Longrightarrow> split_inv (lines @ [t]) (put_src t st)"
  by (erule split_invE) (rule split_invI, auto simp: put_src_def intro: merges_right)

lemma split_inv_note:
  assumes "split_inv lines st" and t: "is_line_note t"
  shows "split_inv lines (put_midas t st)"
  using assms(1)
proof (rule split_invE)
  fix dirs texts anns
  assume m: "merges texts anns (sp_midas st)" "\<forall>t \<in> set anns. is_line_note t"
    "list_all2 midas_text dirs texts" "merges dirs (map snd (sp_written st)) lines"
  show ?thesis
  proof (rule split_invI [OF _ _ m(3)])
    show "merges texts (anns @ [t]) (sp_midas (put_midas t st))"
      using merges_right [OF m(1)] by (simp add: put_midas_def)
    show "\<forall>u \<in> set (anns @ [t]). is_line_note u" using m(2) t by simp
    show "merges dirs (map snd (sp_written (put_midas t st))) lines"
      using m(4) by (simp add: put_midas_def)
  qed
qed

lemma split_inv_cong:
  "sp_midas st' = sp_midas st \<Longrightarrow> map snd (sp_written st') = map snd (sp_written st) \<Longrightarrow>
   split_inv lines st' = split_inv lines st"
  by (simp add: split_inv_def)

lemma split_inv_directive:
  assumes inv: "split_inv lines st" and t: "midas_text l t"
  shows "split_inv (lines @ [l]) (put_directive f t st)"
proof -
  define st1 where "st1 = (if sp_last_midas st then st
      else put_midas (''#line '' @ dec_nat (sp_line_num st) @ '' '' @ [CHR 0x22] @ f @ [CHR 0x22] @ NL) st)"
  have "split_inv lines st1"
    using inv by (auto simp: st1_def is_line_note_def starts_with_def intro: split_inv_note)
  then have "split_inv (lines @ [l]) (put_midas t st1)" by (rule split_inv_midas [OF _ t])
  then show ?thesis by (simp add: put_directive_def Let_def split_inv_def flip: st1_def)
qed

definition same_out :: "split_st \<Rightarrow> split_st \<Rightarrow> bool" where
  "same_out a b \<longleftrightarrow> sp_midas a = sp_midas b \<and> map snd (sp_written a) = map snd (sp_written b)"

lemma section_lookup_same_out: "section_lookup a s st = Inr st' \<Longrightarrow> same_out st' st"
  by (auto simp: section_lookup_def Let_def same_out_def split: option.splits if_splits)

text \<open>A line has one of three effects on the output.\<close>

lemma split_line_out:
  assumes "split_line f buf st = Inr st'"
  defines "st1 \<equiv> st\<lparr>sp_line_num := sp_line_num st + 1\<rparr>"
  shows "same_out st' (put_midas buf st1) \<or> same_out st' (put_src buf st1) \<or>
    (\<exists>t. midas_text buf t \<and> same_out st' (put_directive f t st1))"
proof -
  define nw where "nw = dropWhile isspace buf"
  note l = assms(1) [unfolded split_line_def Let_def, folded st1_def nw_def]
  have whole: "midas_text buf buf" by (simp add: midas_text_def)
  consider (blank) "nw = []" | (multi) "nw \<noteq> []" "sp_in_multi st1"
    | (attr) "nw \<noteq> []" "\<not> sp_in_multi st1" "starts_with ''attr_'' nw \<or> starts_with ''goldfinger_'' nw"
    | (block) "nw \<noteq> []" "\<not> sp_in_multi st1" "\<not> (starts_with ''attr_'' nw \<or> starts_with ''goldfinger_'' nw)"
        "sp_in_block st1"
    | (rest) "nw \<noteq> []" "\<not> sp_in_multi st1" "\<not> (starts_with ''attr_'' nw \<or> starts_with ''goldfinger_'' nw)"
        "\<not> sp_in_block st1" by blast
  then show ?thesis
  proof cases
    case blank
    with l show ?thesis by (cases "sp_last_midas st1") (simp_all add: same_out_def)
  next
    case multi
    with l have "st' = (put_midas buf st1)\<lparr>sp_in_multi := continued buf\<rparr>" by simp
    then show ?thesis by (simp add: same_out_def)
  next
    case attr
    with l have "st' = (put_directive f buf st1)\<lparr>sp_in_block := (sp_in_block st1 \<or> CHR 0x7D \<notin> set nw)\<rparr>"
      by simp
    then have "same_out st' (put_directive f buf st1)" by (simp add: same_out_def)
    with whole show ?thesis by blast
  next
    case block
    with l have "st' = (put_midas buf st1)\<lparr>sp_in_block := CHR 0x7D \<notin> set nw\<rparr>" by simp
    then show ?thesis by (simp add: same_out_def)
  next
    case rest
    note l' = l [unfolded if_not_P [OF rest(1)] if_not_P [OF rest(2)] if_not_P [OF rest(3)] if_not_P [OF rest(4)]]
    show ?thesis
    proof (cases "starts_with ''SECTION'' nw")
      case True
      define st2 where "st2 = (put_directive f buf st1)\<lparr>sp_in_multi := (sp_in_multi st1 \<or> continued buf)\<rparr>"
      from True l' obtain n where "section_lookup (sp_appname st2) n st2 = Inr st'"
        by (cases "strtok1 (drop 7 nw)") (simp_all add: st2_def)
      then have "same_out st' st2" by (rule section_lookup_same_out)
      then have "same_out st' (put_directive f buf st1)" by (simp add: same_out_def st2_def)
      with whole show ?thesis by blast
    next
      case False
      note l'' = l' [unfolded if_not_P [OF False]]
      show ?thesis
      proof (cases "starts_with ''MIDAS_'' nw")
        case True
        with l'' have "st' = (put_directive f buf st1)\<lparr>sp_in_multi := (sp_in_multi st1 \<or> continued buf)\<rparr>" by simp
        then have "same_out st' (put_directive f buf st1)" by (simp add: same_out_def)
        with whole show ?thesis by blast
      next
        case False
        note l3 = l'' [unfolded if_not_P [OF False]]
        show ?thesis
        proof (cases "starts_with ''APPLICATION'' nw")
          case True
          define cut where "cut = strtok_cut buf (drop 11 nw)"
          from True l3 obtain a where a: "strtok1 (drop 11 nw) = Some a"
            by (cases "strtok1 (drop 11 nw)") simp_all
          have "midas_text buf cut"
            using midas_text_cut [OF True [unfolded nw_def] a [unfolded nw_def]] by (simp add: cut_def nw_def)
          moreover from True l3 a have "same_out st' (put_directive f cut st1)"
            by (auto simp: same_out_def cut_def)
          ultimately show ?thesis by blast
        next
          case False
          with l3 show ?thesis by (auto simp: same_out_def)
        qed
      qed
    qed
  qed
qed

lemma split_line_inv:
  assumes inv: "split_inv lines st" and l: "split_line f buf st = Inr st'"
  shows "split_inv (lines @ [buf]) st'"
proof -
  define st1 where "st1 = st\<lparr>sp_line_num := sp_line_num st + 1\<rparr>"
  have inv1: "split_inv lines st1" using inv by (simp add: st1_def split_inv_def)
  have whole: "midas_text buf buf" by (simp add: midas_text_def)
  note M = split_inv_midas [OF inv1 whole] and S = split_inv_src [OF inv1, of buf]
    and D = split_inv_directive [OF inv1]
  have key: "same_out st' u \<Longrightarrow> split_inv (lines @ [buf]) u \<Longrightarrow> ?thesis" for u
    by (simp add: same_out_def split_inv_cong [of st' u])
  from split_line_out [OF l, folded st1_def] show ?thesis
    using key [OF _ M] key [OF _ S] key [OF _ D] by blast
qed

lemma split_lines_inv:
  assumes "foldr_res (\<lambda>st buf. split_line f buf st) st bufs = Inr st'" and "split_inv lines st"
  shows "split_inv (lines @ bufs) st'"
  using assms
proof (induction bufs arbitrary: st lines)
  case (Cons b bs)
  then obtain u where u: "split_line f b st = Inr u" and r: "foldr_res (\<lambda>st buf. split_line f buf st) u bs = Inr st'"
    by auto
  from Cons.IH [OF r split_line_inv [OF Cons.prems(2) u]] show ?case by simp
qed simp

section \<open>The section table\<close>

definition table_wf :: "split_st \<Rightarrow> bool" where
  "table_wf st \<longleftrightarrow>
     (\<forall>i < length (sp_table st). sd_file_name (sp_table st ! i) = section_file i (sd_section_name (sp_table st ! i))) \<and>
     distinct (map (\<lambda>d. (sd_app_name d, sd_section_name d)) (sp_table st)) \<and>
     length (sp_table st) \<le> MAX_SECTIONS"

lemma tolower_digit: "c \<in> set ''0123456789'' \<Longrightarrow> tolower c = c \<and> c \<noteq> CHR ''.''"
  by (auto simp: tolower_def)

lemma section_file_inj:
  assumes "section_file i s = section_file j t"
  shows "i = j"
proof -
  have low: "map tolower (dec_nat n) = dec_nat n" for n
    using dec_nat_digits [of n] tolower_digit by (intro map_idI) blast
  have "takeWhile (\<lambda>c. c \<noteq> CHR ''.'') (dec_nat n @ CHR ''.'' # r) = dec_nat n" for n r
    using dec_nat_digits [of n] tolower_digit by (subst takeWhile_append2) auto
  moreover have "drop 3 (section_file n u) = dec_nat n @ CHR ''.'' # map tolower (u @ ''.s'')" for n u
    by (simp add: section_file_def low tolower_def)
  ultimately have "dec_nat i = dec_nat j" using assms by metis
  then show ?thesis by (rule dec_nat_inj)
qed

lemma table_files_distinct: "table_wf st \<Longrightarrow> distinct (map sd_file_name (sp_table st))"
  unfolding distinct_conv_nth table_wf_def using section_file_inj by auto

lemma section_lookup_wf:
  assumes wf: "table_wf st" and l: "section_lookup a s st = Inr st'"
  shows "table_wf st' \<and> (\<exists>d \<in> set (sp_table st'). sd_app_name d = skip_dot a \<and>
           sd_section_name d = skip_dot s \<and> sd_file_name d = sp_src st') \<and>
         (\<exists>ext. sp_table st' = sp_table st @ ext)"
proof (cases "find_section (skip_dot a) (skip_dot s) (sp_table st)")
  case (Some d)
  with l have st': "st' = st\<lparr>sp_src := sd_file_name d\<rparr>" by (simp add: section_lookup_def Let_def)
  have "d \<in> set (sp_table st)" "sd_app_name d = skip_dot a" "sd_section_name d = skip_dot s"
    using Some by (auto simp: find_section_def find_Some_iff)
  with wf show ?thesis by (auto simp: st' table_wf_def)
next
  case None
  define f where "f = section_file (length (sp_table st)) (skip_dot s)"
  define d where "d = \<lparr>sd_app_name = skip_dot a, sd_section_name = skip_dot s,
                       sd_orig_section_name = s, sd_file_name = f\<rparr>"
  from None l have n: "length (sp_table st) \<noteq> MAX_SECTIONS" and t: "sp_table st' = sp_table st @ [d]"
    and src: "sp_src st' = f"
    by (auto simp: section_lookup_def Let_def f_def d_def)
  have "(skip_dot a, skip_dot s) \<notin> set (map (\<lambda>d. (sd_app_name d, sd_section_name d)) (sp_table st))"
    using None by (auto simp: find_section_def find_None_iff)
  with wf n t have "table_wf st'"
    by (auto simp: table_wf_def nth_append d_def f_def less_Suc_eq)
  with t src show ?thesis by (auto simp: d_def)
qed

lemma split_line_wf:
  assumes "table_wf st" and "split_line f buf st = Inr st'"
  shows "table_wf st'"
proof -
  have same: "sp_table st2 = sp_table st \<Longrightarrow> table_wf st2" for st2
    using assms(1) by (simp add: table_wf_def)
  have pd: "sp_table (put_directive f t u) = sp_table u" for t u
    by (simp add: put_directive_def put_midas_def Let_def)
  from assms(2) show ?thesis
    unfolding split_line_def Let_def
    by (auto split: if_splits option.splits intro!: same elim!: section_lookup_wf [THEN conjunct1, rotated]
        simp: pd put_midas_def put_src_def)
qed

end
