(* ===== verification/GF_Goldfinger.thy ===== *)
theory GF_Goldfinger
  imports GF_App GF_Split
begin

text \<open>
  \<open>goldfinger.c\<close>: the command line and the run of the program on a .goldfinger file. The
  generated parser (\<open>parser.y\<close>, \<open>lexer.l\<close>) is not modelled: its result, the objects it built
  with the open, set and close operations of the other theories and the PA size it set, is the
  result of a function argument. The file system is an argument too (\<open>gf_env\<close>): which files can
  be read and with what text, which can be created, which directories can be entered. Debug
  printing is not modelled; a run gives the texts it writes.

  Lemmas: every region a successful run enters in the physical map is disjoint from the others.
\<close>

section \<open>The command line\<close>

record cmdline =
  c_in :: "string option"
  c_splitsec :: "string option"
  c_destdir :: "string option"
  c_srcdir :: "string option"
  c_imagefile :: "string option"
  c_symtabfile :: "string option"
  c_midasfile :: "string option"
  c_genimage :: bool
  c_gensymtab :: bool
  c_gentsbs :: bool
  c_debug :: bool
  c_nooutput :: bool
  \<comment> \<open>the global switches the options set\<close>
  c_prefix :: "string option"
  c_no_error_print :: bool
  c_suppress_dup_tags :: bool
  c_verbose :: int
  c_suppress_zero :: bool
  c_compress :: bool
  c_env_zero :: bool
  c_allow_tsb_conflicts :: bool

text \<open>The members cleared at entry, with the initial values of the globals. \<open>verbose\<close> is the
  level the program starts with.\<close>

definition init_cmdline :: "int \<Rightarrow> cmdline" where
  "init_cmdline verbose = \<lparr>c_in = None, c_splitsec = None, c_destdir = None, c_srcdir = None,
     c_imagefile = None, c_symtabfile = None, c_midasfile = None, c_genimage = False,
     c_gensymtab = False, c_gentsbs = False, c_debug = False, c_nooutput = False,
     c_prefix = None, c_no_error_print = False, c_suppress_dup_tags = False, c_verbose = verbose,
     c_suppress_zero = True, c_compress = True, c_env_zero = True, c_allow_tsb_conflicts = False\<rparr>"

text \<open>The options that take an argument.\<close>

fun set_arg_option :: "string \<Rightarrow> string \<Rightarrow> cmdline \<Rightarrow> cmdline" where
  "set_arg_option opt v c =
     (if opt = ''-destdir'' then c\<lparr>c_destdir := Some v\<rparr>
      else if opt = ''-srcdir'' then c\<lparr>c_srcdir := Some v\<rparr>
      else if opt = ''-in'' then c\<lparr>c_in := Some v\<rparr>
      else if opt = ''-imagefile'' then c\<lparr>c_imagefile := Some v\<rparr>
      else if opt = ''-symtabfile'' then c\<lparr>c_symtabfile := Some v\<rparr>
      else if opt = ''-prefix'' then c\<lparr>c_prefix := Some v\<rparr>
      else if opt = ''-splitsec'' then c\<lparr>c_splitsec := Some v\<rparr>
      else c\<lparr>c_midasfile := Some v\<rparr>)"

definition arg_options :: "string list" where
  "arg_options = [''-destdir'', ''-srcdir'', ''-in'', ''-imagefile'', ''-symtabfile'', ''-prefix'',
                  ''-splitsec'', ''-midasfile'']"

text \<open>The options without argument; \<open>-version\<close> and \<open>-help\<close> end the program with status 0.\<close>

definition set_flag_option :: "string \<Rightarrow> cmdline \<Rightarrow> cmdline res" where
  "set_flag_option opt c =
     (if opt = ''-noprint_errors'' \<or> opt = ''-NOPRINT_ERRORS'' then Inr (c\<lparr>c_no_error_print := True\<rparr>)
      else if opt = ''-allow_duplicate_tags'' then Inr (c\<lparr>c_suppress_dup_tags := True\<rparr>)
      else if opt = ''-gentsbs'' then Inr (c\<lparr>c_gentsbs := True\<rparr>)
      else if opt = ''-genimage'' then Inr (c\<lparr>c_genimage := True\<rparr>)
      else if opt = ''-gensymtab'' then Inr (c\<lparr>c_gensymtab := True\<rparr>)
      else if opt = ''-debug'' \<or> opt = ''-d''
           then Inr (c\<lparr>c_debug := True, c_verbose := set_verbose_level VERBOSE_DEBUG\<rparr>)
      else if opt = ''-verbose'' \<or> opt = ''-v'' then Inr (c\<lparr>c_verbose := set_verbose_level VERBOSE_CHATTY\<rparr>)
      else if opt = ''-silent'' then Inr (c\<lparr>c_verbose := set_verbose_level VERBOSE_SILENT\<rparr>)
      else if opt = ''-version'' then Inl (Exit M_NOERROR)
      else if opt = ''-nocompress'' then Inr (c\<lparr>c_suppress_zero := False, c_compress := False\<rparr>)
      else if opt = ''-noenvzero'' then Inr (c\<lparr>c_env_zero := False\<rparr>)
      else if opt = ''-allow_tsb_conflicts'' then Inr (c\<lparr>c_allow_tsb_conflicts := True\<rparr>)
      else if opt = ''-nooutput'' \<or> opt = ''-n'' then Inr (c\<lparr>c_nooutput := True\<rparr>)
      else if opt = ''-help'' \<or> opt = ''-h'' then Inl (Exit M_NOERROR)
      else Inl (Exit M_GOLDFINGERARG))"

fun process_cmdline :: "string list \<Rightarrow> cmdline \<Rightarrow> cmdline res" where
  "process_cmdline [] c = Inr c"
| "process_cmdline (opt # argv) c =
     (if opt \<in> set arg_options
      then (case argv of
              [] \<Rightarrow> Inl (Exit M_GOLDFINGERARG)
            | v # rest \<Rightarrow> process_cmdline rest (set_arg_option opt v c))
      else bindr (set_flag_option opt c) (process_cmdline argv))"

section \<open>A run\<close>

record parse_result =
  p_apps :: app_vector_st
  p_tsbs :: "tsb_entry tsb_vector_st"
  p_tsb_links :: link_vector_st
  p_tsbcsms :: "tsbcsm_entry tsb_vector_st"
  p_tsbcsm_links :: link_vector_st

definition empty_objects :: parse_result where
  "empty_objects = \<lparr>p_apps = \<lparr>av_vector = [], av_open = NO_OPEN_APP\<rparr>,
     p_tsbs = \<lparr>tv_vector = [], tv_open = NO_OPEN_TSB\<rparr>,
     p_tsb_links = \<lparr>lv_vector = [], lv_open = NO_OPEN_TSB_LINK\<rparr>,
     p_tsbcsms = \<lparr>tv_vector = [], tv_open = NO_OPEN_TSB\<rparr>,
     p_tsbcsm_links = \<lparr>lv_vector = [], lv_open = NO_OPEN_TSB_LINK\<rparr>\<rparr>"

definition init_image_file_data_structures ::
  "(int \<Rightarrow> bool) \<Rightarrow> parse_result \<Rightarrow> (physmap_t \<times> parse_result) res" where
  "init_image_file_data_structures mem p =
     bindr (init_physmap mem) (\<lambda>pm.
       Inr (pm, p\<lparr>p_apps := clear_app_vector (p_apps p), p_tsbs := clear_tsb_vector (p_tsbs p),
                  p_tsb_links := clear_tsb_link_vector (p_tsb_links p),
                  p_tsbcsms := clear_tsbcsm_vector (p_tsbcsms p),
                  p_tsbcsm_links := clear_tsbcsm_link_vector (p_tsbcsm_links p)\<rparr>))"

definition finish_image_file_init :: "(int \<Rightarrow> bool) \<Rightarrow> parse_result \<Rightarrow> parse_result res" where
  "finish_image_file_init mem p =
     bindr (finish_app_init (p_tsbs p) (p_tsbcsms p) (p_apps p)) (\<lambda>apps.
     bindr (finish_tsb_init mem (p_tsb_links p) (p_tsbs p)) (\<lambda>tsbs.
     bindr (finish_tsbcsm_init mem (p_tsbcsm_links p) (p_tsbcsms p)) (\<lambda>csms.
       Inr (p\<lparr>p_apps := apps, p_tsbs := tsbs, p_tsbcsms := csms\<rparr>))))"

definition mmu_of :: "parse_result \<Rightarrow> mmu_st" where
  "mmu_of p = \<lparr>m_links = lv_vector (p_tsb_links p), m_tsbs = tv_vector (p_tsbs p),
     m_clinks = lv_vector (p_tsbcsm_links p), m_tsbcsms = tv_vector (p_tsbcsms p)\<rparr>"

definition opts_of :: "bool \<Rightarrow> int \<Rightarrow> cmdline \<Rightarrow> gf_opts" where
  "opts_of little pa_size c = \<lparr>o_little = little, o_pa_size = pa_size, o_compress = c_compress c,
     o_suppress_zero = c_suppress_zero c, o_env_zero = c_env_zero c,
     o_allow_conflicts = c_allow_tsb_conflicts c\<rparr>"

text \<open>The MMU part of the image: fill the TSBs, then write TSBs, link areas and their csm
  forms.\<close>

definition write_mmu ::
  "(int \<Rightarrow> bool) \<Rightarrow> gf_opts \<Rightarrow> app list \<Rightarrow> mmu_st \<Rightarrow> physmap_t \<Rightarrow> (mmu_st \<times> physmap_t \<times> img_item list) res"
where
  "write_mmu mem opts apps m pm =
     bindr (add_apps_to_tsbs (o_allow_conflicts opts) apps m) (\<lambda>m1.
     bindr (add_apps_to_tsbcsms (o_allow_conflicts opts) apps m1) (\<lambda>m2.
     bindr (write_tsbs mem (o_suppress_zero opts) (o_env_zero opts) pm (m_tsbs m2)) (\<lambda>(pm1, out1).
     bindr (write_tsb_links mem pm1 (m_links m2)) (\<lambda>(pm2, out2).
     bindr (write_tsbcsms mem (o_suppress_zero opts) (o_env_zero opts) pm2 (m_tsbcsms m2)) (\<lambda>(pm3, out3).
     bindr (write_tsbcsm_links mem pm3 (m_clinks m2)) (\<lambda>(pm4, out4).
       Inr (m2, pm4, [Blank, Blank, Note ''MMU IMAGE'', Blank] @ out1 @ out2 @ out3 @ out4)))))))"

record run_result =
  r_apps :: "app list"
  r_physmap :: physmap_t
  r_image :: "img_item list"
  r_symtab :: string

text \<open>\<open>fopen\<close> of an output file the user may have named.\<close>

definition open_output :: "(string \<Rightarrow> bool) \<Rightarrow> string option \<Rightarrow> 'a res \<Rightarrow> 'a res" where
  "open_output creat file rest =
     errif (case file of None \<Rightarrow> False | Some f \<Rightarrow> \<not> creat f) M_FILE rest"

text \<open>\<open>process_goldfinger_file\<close> from the end of the parser on.\<close>

definition process_goldfinger_objects ::
  "(int \<Rightarrow> bool) \<Rightarrow> gf_opts \<Rightarrow> (string \<Rightarrow> bool) \<Rightarrow> (string \<Rightarrow> elf_scn list option) \<Rightarrow> cmdline \<Rightarrow> physmap_t
   \<Rightarrow> parse_result \<Rightarrow> run_result res"
where
  "process_goldfinger_objects mem opts creat elf_file c pm parsed =
     bindr (finish_image_file_init mem parsed) (\<lambda>p.
     open_output creat (c_imagefile c) (
     bindr (process_app_elf_files mem opts elf_file (c_genimage c) (av_vector (p_apps p)) pm) (\<lambda>(apps, pm1, img).
     bindr (if c_gentsbs c
            then bindr (write_mmu mem opts apps (mmu_of p) pm1) (\<lambda>(_, pm2, out). Inr (pm2, img @ out))
            else Inr (pm1, img)) (\<lambda>(pm2, img2).
     bindr (if c_gensymtab c
            then open_output creat (c_symtabfile c) (print_symtab (o_pa_size opts) apps)
            else Inr []) (\<lambda>sym.
       Inr \<lparr>r_apps = apps, r_physmap = pm2, r_image = img2, r_symtab = sym\<rparr>)))))"

section \<open>The main routine\<close>

text \<open>What the process finds outside of itself.\<close>

record gf_env =
  e_mem :: "int \<Rightarrow> bool"
  e_little :: bool
  e_getcwd :: bool
  e_chdir :: "string \<Rightarrow> bool"
  e_text :: "string \<Rightarrow> string option"
  e_stdin :: string
  e_creat :: "string \<Rightarrow> bool"
  e_elf :: "string \<Rightarrow> elf_scn list option"
  e_yyparse :: "string \<Rightarrow> parse_result \<Rightarrow> (parse_result \<times> int) res"

definition enter_dir :: "gf_env \<Rightarrow> string option \<Rightarrow> 'a res \<Rightarrow> 'a res" where
  "enter_dir env dir rest = errif (case dir of None \<Rightarrow> False | Some d \<Rightarrow> \<not> e_chdir env d) M_FILE rest"

definition process_goldfinger_file :: "gf_env \<Rightarrow> cmdline \<Rightarrow> run_result res" where
  "process_goldfinger_file env c =
     bindr (case c_in c of
              None \<Rightarrow> Inr (e_stdin env)
            | Some f \<Rightarrow> if f = ''-'' then Inr (e_stdin env)
                else (case e_text env f of None \<Rightarrow> Inl (Exit M_FILE) | Some t \<Rightarrow> Inr t)) (\<lambda>yyin.
     enter_dir env (c_srcdir c) (
     bindr (init_image_file_data_structures (e_mem env) empty_objects) (\<lambda>(pm, p0).
     bindr (e_yyparse env yyin p0) (\<lambda>(parsed, pa_size).
       process_goldfinger_objects (e_mem env) (opts_of (e_little env) pa_size c) (e_creat env) (e_elf env)
         c pm parsed))))"

text \<open>The opening part of \<open>splitsec\<close>; \<open>fopen\<close> of a null name is undefined.\<close>

definition run_splitsec :: "gf_env \<Rightarrow> cmdline \<Rightarrow> string \<Rightarrow> split_st res" where
  "run_splitsec env c input_file =
     (case e_text env input_file of
        None \<Rightarrow> Inl (Exit M_FILE)
      | Some text \<Rightarrow>
          enter_dir env (c_destdir c) (
          bindr (the_res (c_midasfile c)) (\<lambda>midas_file.
          errif (\<not> e_creat env midas_file) M_FILE
         (errif (\<not> e_creat env START_TEMPFILE) M_FILE (splitsec input_file text)))))"

definition gf_main :: "gf_env \<Rightarrow> string list \<Rightarrow> (split_st option \<times> run_result option) res" where
  "gf_main env argv =
     errif (\<not> e_getcwd env) M_FILE
     (bindr (process_cmdline argv (init_cmdline VERBOSE_NORMAL)) (\<lambda>c.
      bindr (case c_splitsec c of
               None \<Rightarrow> Inr None | Some f \<Rightarrow> bindr (run_splitsec env c f) (\<lambda>s. Inr (Some s))) (\<lambda>sp.
      bindr (case c_in c of
               None \<Rightarrow> Inr None | Some f \<Rightarrow> bindr (process_goldfinger_file env c) (\<lambda>r. Inr (Some r))) (\<lambda>r.
        Inr (sp, r)))))"

section \<open>Nothing overlaps\<close>

text \<open>Every writer keeps the invariant of the physical map and only adds regions.\<close>

definition grows :: "physmap_t \<Rightarrow> physmap_t \<Rightarrow> bool" where
  "grows pm pm' \<longleftrightarrow> physmap_ok pm' \<and> (\<exists>ext. vec_list pm' = vec_list pm @ ext)"

lemma grows_refl: "physmap_ok pm \<Longrightarrow> grows pm pm"
  by (simp add: grows_def)

lemma grows_trans: "grows a b \<Longrightarrow> grows b c \<Longrightarrow> grows a c"
  by (auto simp: grows_def)

lemma add_object_grows:
  "physmap_ok pm \<Longrightarrow> add_object_to_physmap mem pm f l n st sp ty nm = Inr pm' \<Longrightarrow> grows pm pm'"
  by (drule (1) add_object_keeps) (auto simp: grows_def)

lemma add_block_grows:
  "physmap_ok pm \<Longrightarrow> add_block_to_physmap mem pm f l n st sp ty nm = Inr pm' \<Longrightarrow> grows pm pm'"
  by (drule (1) add_block_keeps) (auto simp: grows_def)

lemma foldr_res_grows:
  assumes "foldr_res f s xs = Inr t" and "physmap_ok (g s)"
    and "\<And>s x s'. physmap_ok (g s) \<Longrightarrow> f s x = Inr s' \<Longrightarrow> grows (g s) (g s')"
  shows "grows (g s) (g t)"
proof -
  from assms(2) have "grows (g s) (g s)" by (rule grows_refl)
  with assms(1) show ?thesis
  proof (rule foldr_res_invariant [where P = "\<lambda>u. grows (g s) (g u)"])
    fix u x v
    assume "grows (g s) (g u)" and "f u x = Inr v"
    with assms(3) show "grows (g s) (g v)" by (meson grows_def grows_trans)
  qed
qed

lemma write_all_grows:
  assumes "write_all w pm xs = Inr (pm', out)" and "physmap_ok pm"
    and "\<And>pm x pm' out. physmap_ok pm \<Longrightarrow> w pm x = Inr (pm', out) \<Longrightarrow> grows pm pm'"
  shows "grows pm pm'"
  using foldr_res_grows [of _ "(pm, [])" xs "(pm', out)" fst] assms
  by (fastforce simp: write_all_def bindr_Inr_iff split: prod.splits)

lemma block_image_grows:
  assumes "physmap_ok pm" and "block_generate_image mem le pa co ez pm b scn = Inr (pm', out)"
  shows "grows pm pm'"
proof (cases "b_in_image b = 0")
  case True
  with assms show ?thesis by (simp add: block_generate_image_def grows_refl)
next
  case False
  with assms(2) have "add_block_to_physmap mem pm (b_srcfile b) (b_srcline b) (b_lineno b)
      (b_pa b) (b_pa b + b_d_length b) (b_section_name b) (b_segment_name b) = Inr pm'"
    unfolding block_generate_image_def Let_def by (auto simp: bindr_Inr_iff)
  with assms(1) show ?thesis by (rule add_block_grows)
qed

lemma process_section_grows:
  assumes "physmap_ok (fst (snd st))" and "process_section mem opts gi st scn = Inr st'"
  shows "grows (fst (snd st)) (fst (snd st'))"
proof -
  obtain a pm out where st: "st = (a, pm, out)" by (cases st)
  have gen: "grows (fst x) (fst y)"
    if "physmap_ok (fst x)" "blk_gen_image_if_match mem opts nm scn x b = Inr y" for x y nm b
    using that block_image_grows
    by (fastforce simp: blk_gen_image_if_match_def bindr_Inr_iff grows_refl split: if_splits)
  have gens: "grows pm (fst y)" if "foldr_res (blk_gen_image_if_match mem opts nm scn) (pm, out) bs = Inr y"
    for nm bs y
    using foldr_res_grows [OF that, of fst] gen assms(1) by (simp add: st)
  show ?thesis
    using assms gens
    by (fastforce simp: st process_section_def bindr_Inr_iff grows_refl split: if_splits option.splits)
qed

lemma process_elf_grows:
  assumes "physmap_ok (fst st)" and "process_elf_file mem opts ef gi a st = Inr (a', st')"
  shows "grows (fst st) (fst st')"
proof -
  obtain fname scns where "a_elf_file a = Some fname" "ef fname = Some scns"
    using assms(2) by (cases "a_elf_file a"; cases "ef (the (a_elf_file a))")
      (auto simp: process_elf_file_def)
  with assms(2) obtain a2 where "foldr_res (process_section mem opts gi) (a2, st) scns = Inr (a', st')"
    by (auto simp: process_elf_file_def bindr_Inr_iff Let_def)
  from foldr_res_grows [OF this, of "fst \<circ> snd"] process_section_grows assms(1) show ?thesis by simp
qed

lemma process_apps_grows:
  assumes "process_app_elf_files mem opts ef gi apps pm = Inr (apps', pm', out)" and "physmap_ok pm"
  shows "grows pm pm'"
  using foldr_res_grows [OF assms(1) [unfolded process_app_elf_files_def], of "fst \<circ> snd"]
    process_elf_grows assms(2)
  by (fastforce simp: bindr_Inr_iff split: prod.splits)

lemma write_tsb_grows:
  "physmap_ok pm \<Longrightarrow> write_tsb mem su ez pm t = Inr (pm', out) \<Longrightarrow> grows pm pm'"
  "physmap_ok pm \<Longrightarrow> write_tsbcsm mem su ez pm c = Inr (pm', out) \<Longrightarrow> grows pm pm'"
  "physmap_ok pm \<Longrightarrow> write_tsb_link mem pm l = Inr (pm', out) \<Longrightarrow> grows pm pm'"
  "physmap_ok pm \<Longrightarrow> write_tsbcsm_link mem pm l = Inr (pm', out) \<Longrightarrow> grows pm pm'"
  by (auto simp: write_tsb_def write_tsbcsm_def write_tsb_link_def write_tsbcsm_link_def bindr_Inr_iff
      elim: add_object_grows)

lemma write_mmu_grows:
  assumes w: "write_mmu mem opts apps m pm = Inr (m', pm', out)" and ok: "physmap_ok pm"
  shows "grows pm pm'"
proof -
  from w obtain pm1 pm2 pm3 o1 o2 o3 o4 where
    1: "write_tsbs mem (o_suppress_zero opts) (o_env_zero opts) pm (m_tsbs m') = Inr (pm1, o1)" and
    2: "write_tsb_links mem pm1 (m_links m') = Inr (pm2, o2)" and
    3: "write_tsbcsms mem (o_suppress_zero opts) (o_env_zero opts) pm2 (m_tsbcsms m') = Inr (pm3, o3)" and
    4: "write_tsbcsm_links mem pm3 (m_clinks m') = Inr (pm', o4)"
    by (auto simp: write_mmu_def bindr_Inr_iff)
  have g1: "grows pm pm1" by (rule write_all_grows [OF 1 [unfolded write_tsbs_def] ok write_tsb_grows(1)])
  then have ok1: "physmap_ok pm1" by (simp add: grows_def)
  have g2: "grows pm1 pm2" by (rule write_all_grows [OF 2 [unfolded write_tsb_links_def] ok1 write_tsb_grows(3)])
  then have ok2: "physmap_ok pm2" by (simp add: grows_def)
  have g3: "grows pm2 pm3" by (rule write_all_grows [OF 3 [unfolded write_tsbcsms_def] ok2 write_tsb_grows(2)])
  then have ok3: "physmap_ok pm3" by (simp add: grows_def)
  have "grows pm3 pm'" by (rule write_all_grows [OF 4 [unfolded write_tsbcsm_links_def] ok3 write_tsb_grows(4)])
  with g1 g2 g3 show ?thesis by (blast intro: grows_trans)
qed

lemma run_grows:
  assumes run: "process_goldfinger_objects mem opts cr ef c pm parsed = Inr r" and ok: "physmap_ok pm"
  shows "grows pm (r_physmap r)"
proof -
  from run obtain p apps pm1 img pm2 img2 where
    a: "process_app_elf_files mem opts ef (c_genimage c) (av_vector (p_apps p)) pm = Inr (apps, pm1, img)" and
    b: "(if c_gentsbs c
            then bindr (write_mmu mem opts apps (mmu_of p) pm1) (\<lambda>(_, pm2, out). Inr (pm2, img @ out))
            else Inr (pm1, img)) = Inr (pm2, img2)" and
    r: "r_physmap r = pm2"
    by (auto simp: process_goldfinger_objects_def open_output_def bindr_Inr_iff)
  have g: "grows pm pm1" by (rule process_apps_grows [OF a ok])
  then have ok1: "physmap_ok pm1" by (simp add: grows_def)
  have "grows pm1 pm2"
  proof (cases "c_gentsbs c")
    case True
    with b obtain m' out where "write_mmu mem opts apps (mmu_of p) pm1 = Inr (m', pm2, out)"
      by (auto simp: bindr_Inr_iff)
    then show ?thesis by (rule write_mmu_grows [OF _ ok1])
  next
    case False
    with b ok1 show ?thesis by (simp add: grows_refl)
  qed
  with g r show ?thesis by (simp add: grows_trans)
qed

lemma file_run_ok:
  assumes "process_goldfinger_file env c = Inr r"
  shows "physmap_ok (r_physmap r)"
proof -
  from assms obtain pm p0 parsed pa where i: "init_image_file_data_structures (e_mem env) empty_objects = Inr (pm, p0)"
    and r: "process_goldfinger_objects (e_mem env) (opts_of (e_little env) pa c) (e_creat env) (e_elf env)
         c pm parsed = Inr r"
    unfolding process_goldfinger_file_def enter_dir_def bindr_Inr_iff errif_Inr_iff
    by (auto simp: bindr_Inr_iff)
  from i have "init_physmap (e_mem env) = Inr pm"
    by (auto simp: init_image_file_data_structures_def)
  with init_physmap_ok have "physmap_ok pm" by blast
  from run_grows [OF r this] show ?thesis by (simp add: grows_def)
qed

section \<open>The command line\<close>

text \<open>Options without argument are processed from the left, one at a time.\<close>

lemma process_cmdline_append:
  "set xs \<inter> set arg_options = {} \<Longrightarrow>
   process_cmdline (xs @ ys) c = bindr (process_cmdline xs c) (process_cmdline ys)"
proof (induction xs arbitrary: c)
  case Nil
  then show ?case by simp
next
  case (Cons x xs)
  then show ?case by (cases "set_flag_option x c") auto
qed

text \<open>An option that takes an argument fails at the end of the line.\<close>

lemma process_cmdline_missing:
  "opt \<in> set arg_options \<Longrightarrow> process_cmdline [opt] c = Inl (Exit M_GOLDFINGERARG)"
  by simp

text \<open>The program stops only with status 0 or \<open>M_GOLDFINGERARG\<close>.\<close>

lemma process_cmdline_exits:
  "process_cmdline argv c = Inl e \<Longrightarrow> e = Exit M_NOERROR \<or> e = Exit M_GOLDFINGERARG"
proof (induction argv c rule: process_cmdline.induct)
  case (1 c)
  then show ?case by simp
next
  case (2 opt argv c)
  have f: "set_flag_option opt c = Inl e \<Longrightarrow> e = Exit M_NOERROR \<or> e = Exit M_GOLDFINGERARG"
    by (auto simp: set_flag_option_def split: if_splits)
  show ?case
  proof (cases "opt \<in> set arg_options")
    case True
    with 2 show ?thesis by (cases argv) auto
  next
    case False
    with 2 f show ?thesis by (cases "set_flag_option opt c") auto
  qed
qed

end
