(* ===== verification/GF_Hardware.thy ===== *)
theory GF_Hardware
  imports GF_Tsb
begin

text \<open>
  What a table walk finds in the memory that the image file sets up: the TSB and its link area are
  read back word by word from the loaded image. The result joins the TSB component, the link
  areas, the writers and the physical map, whose check keeps the two regions apart.
\<close>

section \<open>A walk through memory\<close>

text \<open>A node is four words: tag, data and the address of the next node, twice.\<close>

fun mem_walk :: "nat \<Rightarrow> (addr_t \<Rightarrow> u64) \<Rightarrow> addr_t \<Rightarrow> (u64 \<times> u64) list option" where
  "mem_walk 0 M a = None"
| "mem_walk (Suc f) M a =
     (if a = EOL then Some []
      else map_option (\<lambda>ps. (M a, M (a + 8)) # ps) (mem_walk f M (M (a + 16))))"

definition mem_slot :: "nat \<Rightarrow> (addr_t \<Rightarrow> u64) \<Rightarrow> addr_t \<Rightarrow> (u64 \<times> u64) list option" where
  "mem_slot fuel M a =
     (if M a = 0 \<and> M (a + 8) = 0 then Some []
      else if M a = TSB_LINK_TAG then mem_walk fuel M (M (a + 8))
      else Some [(M a, M (a + 8))])"

text \<open>Memory that holds the nodes of an area.\<close>

definition holds_area :: "(addr_t \<Rightarrow> u64) \<Rightarrow> tsb_link \<Rightarrow> bool" where
  "holds_area M l \<longleftrightarrow> (\<forall>i < length (tl_entries l).
     (let a = node_addr (tl_start_addr l) i; e = tl_entries l ! i
      in M a = le_tag e \<and> M (a + 8) = le_data e \<and> M (a + 16) = le_link e))"

lemma node_at_Some:
  assumes "node_at l a = Some e"
  obtains i where "i < length (tl_entries l)" and "e = tl_entries l ! i" and "a = node_addr (tl_start_addr l) i"
proof -
  define d where "d = a - tl_start_addr l"
  from assms have m: "d mod 32 = 0" and i: "unat (d div 32) < length (tl_entries l)"
    and e: "e = tl_entries l ! unat (d div 32)"
    by (auto simp: node_at_def Let_def d_def split: if_splits)
  have "d = 32 * (d div 32)" using m word_mod_div_equality [of d 32] by (simp add: mult.commute)
  then have "d = of_nat (32 * unat (d div 32))" by simp
  then have "a = node_addr (tl_start_addr l) (unat (d div 32))"
    unfolding node_addr_def d_def by (simp del: of_nat_mult)
  with i e show thesis by (rule that)
qed

lemma mem_walk_hw_walk:
  assumes "holds_area M l"
  shows "hw_walk f l a = Some ps \<Longrightarrow> mem_walk f M a = Some ps"
proof (induction f arbitrary: a ps)
  case (Suc f)
  show ?case
  proof (cases "a = EOL")
    case False
    with Suc.prems obtain e qs where n: "node_at l a = Some e" and w: "hw_walk f l (le_link e) = Some qs"
      and ps: "ps = payload e # qs"
      by (auto split: option.splits)
    from n obtain i where i: "i < length (tl_entries l)" "e = tl_entries l ! i" "a = node_addr (tl_start_addr l) i"
      by (rule node_at_Some)
    with assms have "M a = le_tag e" "M (a + 8) = le_data e" "M (a + 16) = le_link e"
      by (auto simp: holds_area_def Let_def)
    with False Suc.IH [OF w] ps show ?thesis by (simp add: payload_def)
  qed (use Suc.prems in simp)
qed simp

lemma mem_slot_bucket:
  assumes ok: "tsb_ok l t" and ex: "link_exact l t" and al: "tl_start_addr l AND 31 = 0"
    and e: "e \<in> set (t_entries t)" and area: "holds_area M l"
    and slot: "M a = te_tag e" "M (a + 8) = te_data e"
  shows "mem_slot (Suc (length (tl_entries l))) M a = Some (tsb_bucket l e)"
proof -
  note hw = hw_slot_bucket [OF ok ex al e]
  show ?thesis
  proof (cases "te_tag e = TSB_LINK_TAG")
    case True
    with hw have "hw_walk (Suc (length (tl_entries l))) l (te_data e) = Some (tsb_bucket l e)"
      by (simp add: hw_slot_def del: hw_walk.simps)
    from mem_walk_hw_walk [OF area this] True show ?thesis
      by (simp add: mem_slot_def slot del: mem_walk.simps)
  next
    case False
    with hw show ?thesis by (auto simp: mem_slot_def hw_slot_def slot)
  qed
qed

section \<open>What the writers put into memory\<close>

definition tsb_word :: "tsb_entry list \<Rightarrow> nat \<Rightarrow> u64" where
  "tsb_word es j = (if even j then te_tag (es ! (j div 2)) else te_data (es ! (j div 2)))"

definition tsb_pair_zero :: "bool \<Rightarrow> tsb_entry list \<Rightarrow> nat \<Rightarrow> bool" where
  "tsb_pair_zero suppress es k \<longleftrightarrow> suppress \<and>
     (te_tag (es ! (2 * k)) = 0 \<and> te_data (es ! (2 * k)) = 0) \<and>
     (te_tag (es ! (2 * k + 1)) = 0 \<and> te_data (es ! (2 * k + 1)) = 0)"

lemma upt4: "[4 * k ..< 4 * k + 4] = [4 * k, 4 * k + 1, 4 * k + 2, 4 * k + 3]"
  by (simp add: upt_rec)

lemma write_tsb_loads:
  assumes w: "write_tsb mem su ez pm t = Inr (pm', out)"
    and n: "unat (t_num_entries t) = 2 * m" and len: "2 * m \<le> length (t_entries t)"
  shows "load_items a out =
    map (\<lambda>j. (t_start_addr t + of_nat (8 * j), tsb_word (t_entries t) j))
      (filter (\<lambda>j. \<not> tsb_pair_zero su (t_entries t) (j div 4)) [0 ..< 4 * m])"
proof -
  define zero row where "zero = (\<lambda>e :: tsb_entry. te_tag e = 0 \<and> te_data e = 0)"
    and "row = (\<lambda>e :: tsb_entry. [te_tag e, te_data e])"
  from w obtain body where body: "write_pairs su ez zero row (t_start_addr t) (t_entries t) (2 * m) 0 False
      (t_start_addr t) False = Inr body"
    and out: "out = At (t_start_addr t) (''TSB '' @ quoted (t_name t)) # body"
    by (auto simp: write_tsb_def bindr_Inr_iff n zero_def row_def)
  have row2: "length (row e) = 2" for e by (simp add: row_def)
  have "load_items (t_start_addr t) body = concat (map (pair_words su zero row (t_start_addr t) (t_entries t)) [0..<m])"
    using write_pairs_loads [OF len, of row 0 False "t_start_addr t" "t_start_addr t" su ez zero
        "t_start_addr t" False] row2 body by auto
  also have "\<dots> = map (\<lambda>j. (t_start_addr t + of_nat (8 * j), tsb_word (t_entries t) j))
      (filter (\<lambda>j. \<not> tsb_pair_zero su (t_entries t) (j div 4)) [0 ..< 4 * m])"
  proof (rule concat_lines)
    fix k :: nat
    have "4 * k div 2 = 2 * k" "(4 * k + 1) div 2 = 2 * k" "(4 * k + 2) div 2 = 2 * k + 1" "(4 * k + 3) div 2 = 2 * k + 1"
      by simp_all
    then have "map (tsb_word (t_entries t)) [4 * k ..< 4 * k + 4] =
        row (t_entries t ! (2 * k)) @ row (t_entries t ! (2 * k + 1))"
      unfolding upt4 by (simp add: tsb_word_def row_def)
    then show "pair_words su zero row (t_start_addr t) (t_entries t) k =
        (if tsb_pair_zero su (t_entries t) k then []
         else place (t_start_addr t + of_nat (32 * k)) (map (tsb_word (t_entries t)) [4 * k ..< 4 * k + 4]))"
      by (simp add: pair_words_def tsb_pair_zero_def zero_def)
  qed
  finally show ?thesis by (simp add: out)
qed

lemma tsb_pair_zero_word: "tsb_pair_zero su es (j div 4) \<Longrightarrow> tsb_word es j = 0"
proof -
  assume z: "tsb_pair_zero su es (j div 4)"
  have "j div 2 = 2 * (j div 4) \<or> j div 2 = 2 * (j div 4) + 1" by presburger
  with z show ?thesis by (auto simp: tsb_pair_zero_def tsb_word_def)
qed

definition link_word :: "tsb_link_entry list \<Rightarrow> nat \<Rightarrow> u64" where
  "link_word es j = [le_tag (es ! (j div 4)), le_data (es ! (j div 4)),
                     le_link (es ! (j div 4)), le_link (es ! (j div 4))] ! (j mod 4)"

lemma link_word_four:
  "link_word es (4 * k) = le_tag (es ! k)"
  "link_word es (4 * k + 1) = le_data (es ! k)"
  "link_word es (4 * k + 2) = le_link (es ! k)"
  "link_word es (4 * k + 3) = le_link (es ! k)"
proof -
  have q: "4 * k div 4 = k" "(4 * k + 1) div 4 = k" "(4 * k + 2) div 4 = k" "(4 * k + 3) div 4 = k"
    "4 * k mod 4 = 0" "(4 * k + 1) mod 4 = 1" "(4 * k + 2) mod 4 = 2" "(4 * k + 3) mod 4 = 3"
    by presburger+
  show "link_word es (4 * k) = le_tag (es ! k)"
    "link_word es (4 * k + 1) = le_data (es ! k)"
    "link_word es (4 * k + 2) = le_link (es ! k)"
    "link_word es (4 * k + 3) = le_link (es ! k)"
    unfolding link_word_def q by simp_all
qed

lemma link_words: "map (link_word es) [4 * k ..< 4 * k + 4] =
    [le_tag (es ! k), le_data (es ! k), le_link (es ! k), le_link (es ! k)]"
  unfolding upt4 list.map link_word_four by (rule refl)

lemma load_link_rows:
  "load_items a (concat (map write_tsb_link_entry es)) =
   map (\<lambda>j. (a + of_nat (8 * j), link_word es j)) (filter (\<lambda>j. \<not> False) [0 ..< 4 * length es])"
proof -
  have "load_items a (concat (map write_tsb_link_entry es)) =
      concat (map (\<lambda>k. place (a + of_nat (32 * k)) (map (link_word es) [4 * k ..< 4 * k + 4])) [0 ..< length es])"
  proof (induction es rule: rev_induct)
    case (snoc e es)
    have eq: "map (link_word (es @ [e])) [4 * k ..< 4 * k + 4] = map (link_word es) [4 * k ..< 4 * k + 4]"
      if "k < length es" for k
      using that unfolding link_words by (simp add: nth_append)
    have new: "map (link_word (es @ [e])) [4 * length es ..< 4 * length es + 4] =
        [le_tag e, le_data e, le_link e, le_link e]"
      unfolding link_words by simp
    have loc: "load_loc a (concat (map write_tsb_link_entry es)) = a + of_nat (32 * length es)"
      by (induction es arbitrary: a) (simp_all add: write_tsb_link_entry_def algebra_simps)
    have "concat (map (\<lambda>k. place (a + of_nat (32 * k)) (map (link_word (es @ [e])) [4 * k ..< 4 * k + 4])) [0 ..< length es])
        = concat (map (\<lambda>k. place (a + of_nat (32 * k)) (map (link_word es) [4 * k ..< 4 * k + 4])) [0 ..< length es])"
      by (intro arg_cong [where f = concat] map_cong) (auto simp: eq)
    moreover have "load_items a (concat (map write_tsb_link_entry (es @ [e]))) =
        load_items a (concat (map write_tsb_link_entry es)) @
        place (a + of_nat (32 * length es)) [le_tag e, le_data e, le_link e, le_link e]"
      unfolding map_append concat_append load_items_append loc by (simp add: write_tsb_link_entry_def)
    ultimately show ?case using snoc by (simp only: new) (simp add: new)
  qed simp
  also have "\<dots> = map (\<lambda>j. (a + of_nat (8 * j), link_word es j)) (filter (\<lambda>j. \<not> False) [0 ..< 4 * length es])"
    by (rule concat_lines) simp
  finally show ?thesis .
qed

section \<open>The whole MMU image of a TSB\<close>

text \<open>A non-reversed region does not wrap around the address space.\<close>

lemma region_end:
  assumes "start \<le> start + of_nat n" and "n < 2 ^ 64"
  shows "unat (start + of_nat n :: addr_t) = unat start + n"
proof -
  have u: "unat (of_nat n :: addr_t) = n" using assms(2) by (simp add: unat_of_nat take_bit_eq_mod)
  have "unat start \<le> unat (start + of_nat n)" using assms(1) by (simp add: word_le_nat_alt)
  then show ?thesis using assms(2) u unat_less_pow2 [of start]
    by (simp add: unat_word_ariths mod_if split: if_splits)
qed

lemma image_walk:
  assumes pm: "physmap_ok pm" and ok: "tsb_ok l t" and ex: "link_exact l t" and al: "tl_start_addr l AND 31 = 0"
    and even: "even (unat (t_num_entries t))" and len: "length (t_entries t) = unat (t_num_entries t)"
    and small: "unat (t_num_entries t) < 2 ^ 59"
    and w1: "write_tsb mem su ez pm t = Inr (pm1, out1)" and w2: "write_tsb_link mem pm1 l = Inr (pm2, out2)"
    and i: "i < length (t_entries t)"
  shows "mem_slot (Suc (length (tl_entries l))) (memory_of (load_items a0 (out1 @ out2)))
      (t_start_addr t + of_nat (16 * i)) = Some (tsb_bucket l (t_entries t ! i))"
proof -
  obtain m where m: "unat (t_num_entries t) = 2 * m" using even by (rule evenE)
  define st sl n where "st = t_start_addr t" and "sl = tl_start_addr l" and "n = length (tl_entries l)"
  define es where "es = t_entries t"
  have n26: "n \<le> 2 ^ 26" using ok by (simp add: tsb_ok_def area_ok_def n_def)
  have w1': "add_object_to_physmap mem pm (t_srcfile t) (t_srcline t) (t_lineno t) st (st + of_nat (32 * m))
      ''TSB'' (t_name t) = Inr pm1"
  proof -
    have "t_num_entries t = of_nat (2 * m)" using m by (metis of_nat_unat ucast_id)
    then have "t_num_entries t * BYTES_PER_ENTRY = of_nat (32 * m)" by (simp add: BYTES_PER_ENTRY_def)
    with w1 show ?thesis by (auto simp: write_tsb_def bindr_Inr_iff st_def)
  qed
  from add_object_keeps [OF pm w1'] obtain c1 where c1: "vec_list pm1 = vec_list pm @ [c1]"
    "pm_start c1 = st" "pm_stop c1 = st + of_nat (32 * m)" and pm1: "physmap_ok pm1" by auto
  from w2 have w2': "add_object_to_physmap mem pm1 (tl_srcfile l) (tl_srcline l) (tl_lineno l) sl
      (sl + of_nat (32 * n)) ''TSB_LINK'' (tl_name l) = Inr pm2"
    and out2: "out2 = At sl (''TSB_LINK '' @ quoted (tl_name l)) # concat (map write_tsb_link_entry (tl_entries l))"
    by (auto simp: write_tsb_link_def bindr_Inr_iff link_addr_Inr_iff node_addr_def sl_def n_def)
  from add_object_keeps [OF pm1 w2'] obtain c2 where c2: "vec_list pm2 = vec_list pm1 @ [c2]"
    "pm_start c2 = sl" "pm_stop c2 = sl + of_nat (32 * n)" and pm2: "physmap_ok pm2"
    and dis: "region c1 \<inter> region c2 = {}" using c1(1) by auto
  have le: "st \<le> st + of_nat (32 * m)" "sl \<le> sl + of_nat (32 * n)"
    using pm1 pm2 c1 c2 by (auto simp: physmap_ok_def)
  have m59: "32 * m < 2 ^ 64" and n31: "32 * n < 2 ^ 64" using small m n26 by simp_all
  note end1 = region_end [OF le(1) m59] and end2 = region_end [OF le(2) n31]
  have wrap1: "unat st + 32 * m \<le> 2 ^ 64" and wrap2: "unat sl + 32 * n \<le> 2 ^ 64"
    using end1 end2 unat_less_pow2 [of "st + of_nat (32 * m)"] unat_less_pow2 [of "sl + of_nat (32 * n)"]
    by simp_all
  have apart: "\<not> (unat st \<le> x \<and> x < unat st + 32 * m \<and> unat sl \<le> x \<and> x < unat sl + 32 * n)" for x
    using dis by (auto simp: region_def c1(2,3) c2(2,3) end1 end2 simp del: of_nat_mult)
  define L1 L2 where "L1 = load_items a0 out1" and "L2 = load_items (load_loc a0 out1) out2"
  have L1: "L1 = map (\<lambda>j. (st + of_nat (8 * j), tsb_word es j))
      (filter (\<lambda>j. \<not> tsb_pair_zero su es (j div 4)) [0 ..< 4 * m])"
    unfolding L1_def st_def es_def by (rule write_tsb_loads [OF w1 m]) (simp add: len m)
  have L2: "L2 = map (\<lambda>j. (sl + of_nat (8 * j), link_word (tl_entries l) j))
      (filter (\<lambda>j. \<not> False) [0 ..< 4 * n])"
    by (simp add: L2_def out2 load_link_rows n_def del: filter_True)
  define M where "M = memory_of (load_items a0 (out1 @ out2))"
  have M: "M x = (if x \<in> fst ` set L2 then memory_of L2 x else memory_of L1 x)" for x
    by (simp add: M_def load_items_append memory_of_append L1_def L2_def)
  have off: "unat (s + of_nat (8 * j)) = unat s + 8 * j"
    if "j < 4 * k" "unat s + 32 * k \<le> 2 ^ 64" for s :: addr_t and j k
  proof -
    have "unat (of_nat (8 * j) :: addr_t) = 8 * j" using that by (simp add: unat_of_nat take_bit_eq_mod del: of_nat_mult)
    then show ?thesis using that unfolding unat_word_ariths by (simp del: of_nat_mult)
  qed
  have tsb: "M (st + of_nat (8 * j)) = tsb_word es j" if j: "j < 4 * m" for j
  proof -
    have "st + of_nat (8 * j) \<notin> fst ` set L2"
      using lines_keys [OF L2 wrap2] apart [of "unat (st + of_nat (8 * j))"] off [OF j wrap1] j by fastforce
    then have "M (st + of_nat (8 * j)) = memory_of L1 (st + of_nat (8 * j))" by (simp only: M if_False)
    also have "\<dots> = tsb_word es j"
      by (rule memory_lines [OF L1 _ j]) (use m59 in simp, rule tsb_pair_zero_word)
    finally show ?thesis .
  qed
  have link: "M (sl + of_nat (8 * j)) = link_word (tl_entries l) j" if j: "j < 4 * n" for j
  proof -
    have "sl + of_nat (8 * j) \<in> fst ` set L2" using j unfolding L2 by force
    then have "M (sl + of_nat (8 * j)) = memory_of L2 (sl + of_nat (8 * j))" by (simp only: M if_True)
    also have "\<dots> = link_word (tl_entries l) j"
      by (rule memory_lines [OF L2 _ j]) (use n31 in simp_all)
    finally show ?thesis .
  qed
  have area: "holds_area M l"
    unfolding holds_area_def
  proof (intro allI impI)
    fix k
    assume "k < length (tl_entries l)"
    then have k: "4 * k < 4 * n" "4 * k + 1 < 4 * n" "4 * k + 2 < 4 * n" by (simp_all add: n_def)
    have ad: "node_addr sl k = sl + of_nat (8 * (4 * k))" "node_addr sl k + 8 = sl + of_nat (8 * (4 * k + 1))"
      "node_addr sl k + 16 = sl + of_nat (8 * (4 * k + 2))"
      by (simp_all add: node_addr_def algebra_simps)
    show "let a = node_addr (tl_start_addr l) k; e = tl_entries l ! k
        in M a = le_tag e \<and> M (a + 8) = le_data e \<and> M (a + 16) = le_link e"
      unfolding Let_def sl_def [symmetric] ad(2,3) unfolding ad(1) link [OF k(1)] link [OF k(2)] link [OF k(3)]
        link_word_four by simp
  qed
  have i2: "2 * i < 4 * m" "2 * i + 1 < 4 * m" using i len m by simp_all
  have ad: "st + of_nat (16 * i) = st + of_nat (8 * (2 * i))" "st + of_nat (16 * i) + 8 = st + of_nat (8 * (2 * i + 1))"
    by (simp_all add: algebra_simps)
  have slot: "M (st + of_nat (16 * i)) = te_tag (es ! i)" "M (st + of_nat (16 * i) + 8) = te_data (es ! i)"
    unfolding ad(2) unfolding ad(1) tsb [OF i2(1)] tsb [OF i2(2)] by (simp_all add: tsb_word_def)
  have "es ! i \<in> set (t_entries t)" using i by (simp add: es_def)
  from mem_slot_bucket [OF ok ex al this area slot] show ?thesis by (simp add: M_def st_def es_def)
qed

end
