(* ===== verification/GF_Shared.thy ===== *)
theory GF_Shared
  imports GF_Tsb
begin

text \<open>
  Link areas in use by more than one table. Several TSBs may name the same link area, and the
  \<open>tsbcsm\<close> tables use areas of their own with clump numbers in the place of data. What
  \<open>tsb.c\<close> and \<open>tsb_link.c\<close> do in both cases is the insertion of \<open>overflow_area\<close>,
  into a family of slots indexed by table and position.
\<close>

section \<open>A family of slots\<close>

context overflow_area
begin

definition family_ok :: "'ar \<Rightarrow> 'i set \<Rightarrow> ('i \<Rightarrow> 'p slot) \<Rightarrow> bool" where
  "family_ok a I f \<longleftrightarrow> ainv a \<and> (\<forall>x \<in> I. \<forall>h. f x = Chained h \<longrightarrow> h \<in> aheads a) \<and>
     (\<forall>x \<in> I. \<forall>y \<in> I. \<forall>h. f x = Chained h \<longrightarrow> f y = Chained h \<longrightarrow> x = y)"

text \<open>An insertion at \<open>x\<close> extends the list of \<open>x\<close> and leaves those of the other slots.\<close>

lemma family_insert:
  assumes ok: "family_ok a I f" and x: "x \<in> I" and ins: "insert_slot a (f x) p = Inr (a', s')"
  shows "family_ok a' I (f(x := s'))"
    and "slot_list a' s' = slot_list a (f x) @ [p]"
    and "\<And>y. y \<in> I \<Longrightarrow> y \<noteq> x \<Longrightarrow> slot_list a' (f y) = slot_list a (f y)"
proof -
  from ok have inv: "ainv a" and hd: "\<And>y h. y \<in> I \<Longrightarrow> f y = Chained h \<Longrightarrow> h \<in> aheads a"
    and inj: "\<And>y z h. y \<in> I \<Longrightarrow> z \<in> I \<Longrightarrow> f y = Chained h \<Longrightarrow> f z = Chained h \<Longrightarrow> y = z"
    unfolding family_ok_def by blast+
  have step: "step_ok a (f x) p a' s'" by (rule insert_step [OF inv hd [OF x] ins])
  show "slot_list a' s' = slot_list a (f x) @ [p]" by (rule step_okD(3) [OF step])
  have apart: "f x \<noteq> Chained h" "s' \<noteq> Chained h" if "y \<in> I" "y \<noteq> x" "f y = Chained h" for y h
  proof -
    show "f x \<noteq> Chained h" using inj [OF that(1) x that(3)] that(2) by blast
    then show "s' \<noteq> Chained h" using step_okD(5) [OF step _ hd [OF that(1,3)]] by blast
  qed
  show "slot_list a' (f y) = slot_list a (f y)" if "y \<in> I" "y \<noteq> x" for y
  proof (cases "f y")
    case (Chained h)
    from step_okD(6) [OF step hd [OF that(1) Chained] apart(1) [OF that Chained]] show ?thesis
      by (simp add: slot_list_def Chained)
  qed (simp_all add: slot_list_def)
  show "family_ok a' I (f(x := s'))"
    unfolding family_ok_def
  proof (intro conjI ballI allI impI)
    show "ainv a'" by (rule step_okD(1) [OF step])
  next
    fix y h assume y: "y \<in> I" "(f(x := s')) y = Chained h"
    show "h \<in> aheads a'"
    proof (cases "y = x")
      case True
      with y step_okD(4) [OF step] show ?thesis by simp
    next
      case False
      with y have "h \<in> aheads a" using hd by simp
      then show ?thesis by (rule step_okD(2) [OF step])
    qed
  next
    fix y z h
    assume yz: "y \<in> I" "z \<in> I" "(f(x := s')) y = Chained h" "(f(x := s')) z = Chained h"
    then show "y = z"
      using apart(2) [of y h] apart(2) [of z h] inj [of y z h] by (cases "y = x"; cases "z = x") auto
  qed
qed

end

section \<open>TSBs on one link area\<close>

definition shared_index :: "tsb list \<Rightarrow> (nat \<times> nat) set" where
  "shared_index ts = {(n, i). n < length ts \<and> i < length (t_entries (ts ! n))}"

definition slots_in :: "tsb_link \<Rightarrow> tsb list \<Rightarrow> nat \<times> nat \<Rightarrow> (u64 \<times> u64) slot" where
  "slots_in l ts = (\<lambda>(n, i). slot_of l (t_entries (ts ! n) ! i))"

definition shared_ok :: "tsb_link \<Rightarrow> tsb list \<Rightarrow> bool" where
  "shared_ok l ts \<longleftrightarrow> tsb_area.family_ok l (shared_index ts) (slots_in l ts) \<and> (\<forall>t \<in> set ts. link_exact l t)"

text \<open>Additions to the TSBs of a vector, each with the number of the TSB it goes to.\<close>

definition add_shared ::
  "bool \<Rightarrow> tsb_link list \<Rightarrow> tsb list \<Rightarrow> (nat \<times> addition) list \<Rightarrow> (tsb_link list \<times> tsb list) res" where
  "add_shared allow ls ts ads =
     foldr_res (\<lambda>(ls, ts) (n, index, tag, data, b, bt).
       bindr (nth_res ts n) (\<lambda>t.
       bindr (add_entry allow ls t index tag data b bt) (\<lambda>(ls', t'). Inr (ls', ts[n := t'])))) (ls, ts) ads"

definition added_to :: "(nat \<times> addition) list \<Rightarrow> nat \<Rightarrow> addition list" where
  "added_to ads n = map snd (filter (\<lambda>a. fst a = n) ads)"

lemma shared_index_update:
  "n < length ts \<Longrightarrow> length (t_entries t) = length (t_entries (ts ! n)) \<Longrightarrow>
   shared_index (ts[n := t]) = shared_index ts"
  unfolding shared_index_def by (intro Collect_cong) (auto simp: nth_list_update split: if_splits)

lemma shared_ok_tsb:
  assumes "shared_ok l ts" and "n < length ts"
  shows "tsb_ok l (ts ! n) \<and> link_exact l (ts ! n)"
proof -
  have fam: "tsb_area.family_ok l (shared_index ts) (slots_in l ts)" using assms(1) by (simp add: shared_ok_def)
  have "tsb_area.table_ok l (map (slot_of l) (t_entries (ts ! n)))"
  proof (rule tsb_area.table_okI)
    show "area_ok l" using fam by (simp add: tsb_area.family_ok_def)
  next
    fix i h
    assume "i < length (map (slot_of l) (t_entries (ts ! n)))" "map (slot_of l) (t_entries (ts ! n)) ! i = Chained h"
    then have "(n, i) \<in> shared_index ts" "slots_in l ts (n, i) = Chained h"
      using assms(2) by (simp_all add: shared_index_def slots_in_def)
    with fam show "h \<in> area_heads l" unfolding tsb_area.family_ok_def by blast
  next
    fix i j h
    assume ij: "i < length (map (slot_of l) (t_entries (ts ! n)))" "j < length (map (slot_of l) (t_entries (ts ! n)))"
      "map (slot_of l) (t_entries (ts ! n)) ! i = Chained h" "map (slot_of l) (t_entries (ts ! n)) ! j = Chained h"
    then have "(n, i) \<in> shared_index ts" "(n, j) \<in> shared_index ts" "slots_in l ts (n, i) = Chained h"
      "slots_in l ts (n, j) = Chained h"
      using assms(2) by (simp_all add: shared_index_def slots_in_def)
    with fam have "(n, i) = (n, j)" unfolding tsb_area.family_ok_def by blast
    then show "i = j" by simp
  qed
  then show ?thesis using assms by (simp add: tsb_ok_table shared_ok_def)
qed

text \<open>\<open>add_entry\<close> is the insertion of the contract at its slot, and touches nothing else of the
  TSB.\<close>

lemma add_entry_insert:
  assumes li: "t_link_ptr t = Some li" "li < length ls" and ok: "tsb_ok (ls ! li) t"
    and pl: "plain_pair tag data" and add: "add_entry allow ls t index tag data b bt = Inr (ls', t')"
  shows "\<exists>e'. tsb_area.insert_slot (Some b) (Some bt) (ls ! li) (slot_of (ls ! li) (t_entries t ! unat index)) (tag, data)
       = Inr (ls' ! li, slot_of (ls' ! li) e') \<and>
     t' = t\<lparr>t_entries := (t_entries t)[unat index := e']\<rparr> \<and>
     tl_start_addr (ls' ! li) = tl_start_addr (ls ! li) \<and> length ls' = length ls"
  using add
proof (cases rule: add_entry_cases)
  case free
  then show ?thesis using pl
    by (intro exI [of _ "\<lparr>te_tag = tag, te_data = data, te_block = Some b, te_block_tsb = Some bt\<rparr>"])
      (auto simp: slot_of_def plain_pair_def tsb_area.insert_slot_def)
next
  case (link li' l' e')
  with li have eq: "li' = li" by simp
  from ok have okl: "area_ok (ls ! li)" by (simp add: tsb_ok_def)
  note ins = tsb_link_add_entry_insert [OF okl link(3) link(7) [unfolded eq]]
  with link li show ?thesis by (intro exI [of _ e']) (simp add: eq)
qed

lemma add_shared_step:
  assumes ok: "shared_ok (ls ! li) ts" and li: "li < length ls" "n < length ts" "t_link_ptr (ts ! n) = Some li"
    and pl: "plain_pair tag data" and add: "add_entry allow ls (ts ! n) index tag data b bt = Inr (ls', t')"
  shows "shared_ok (ls' ! li) (ts[n := t'])"
    and "\<And>m i. (m, i) \<in> shared_index ts \<Longrightarrow> tsb_bucket (ls' ! li) (t_entries (ts[n := t'] ! m) ! i) =
      tsb_bucket (ls ! li) (t_entries (ts ! m) ! i) @ (if m = n \<and> i = unat index then [(tag, data)] else [])"
proof -
  note one = shared_ok_tsb [OF ok li(2)]
  have ix: "unat index < length (t_entries (ts ! n))" using add_entry_fields [OF add] by simp
  from add_entry_insert [OF li(3,1) conjunct1 [OF one] pl add] obtain e' where
    ins: "tsb_area.insert_slot (Some b) (Some bt) (ls ! li) (slots_in (ls ! li) ts (n, unat index)) (tag, data)
       = Inr (ls' ! li, slot_of (ls' ! li) e')"
    and t': "t' = (ts ! n)\<lparr>t_entries := (t_entries (ts ! n))[unat index := e']\<rparr>"
    and st: "tl_start_addr (ls' ! li) = tl_start_addr (ls ! li)" by (auto simp: slots_in_def)
  note so = slot_of_cong [OF st]
  have x: "(n, unat index) \<in> shared_index ts" using ix li by (simp add: shared_index_def)
  have I: "shared_index (ts[n := t']) = shared_index ts"
    by (rule shared_index_update [OF li(2)]) (simp add: t')
  have upd: "y \<in> shared_index ts \<Longrightarrow> slots_in (ls' ! li) (ts[n := t']) y =
      ((slots_in (ls ! li) ts)((n, unat index) := slot_of (ls' ! li) e')) y" for y
    using li by (cases y) (auto simp: shared_index_def slots_in_def t' nth_list_update so)
  have fam0: "tsb_area.family_ok (ls ! li) (shared_index ts) (slots_in (ls ! li) ts)"
    using ok by (simp add: shared_ok_def)
  note ins' = tsb_area.family_insert [OF fam0 x ins]
  have "tsb_area.family_ok (ls' ! li) (shared_index (ts[n := t'])) (slots_in (ls' ! li) (ts[n := t']))"
    using ins'(1) unfolding tsb_area.family_ok_def I by (simp add: upd)
  moreover have "link_exact (ls' ! li) t'"
    using add_entry_exact [OF li(3,1) conjunct1 [OF one] conjunct2 [OF one] pl add] by simp
  then have "\<forall>t \<in> set (ts[n := t']). link_exact (ls' ! li) t"
    using ok st by (auto simp: shared_ok_def link_exact_def link_index_def dest!: set_update_cases)
  ultimately show "shared_ok (ls' ! li) (ts[n := t'])" by (simp add: shared_ok_def)
  show "tsb_bucket (ls' ! li) (t_entries (ts[n := t'] ! m) ! i) =
      tsb_bucket (ls ! li) (t_entries (ts ! m) ! i) @ (if m = n \<and> i = unat index then [(tag, data)] else [])"
    if mi: "(m, i) \<in> shared_index ts" for m i
  proof -
    have "tsb_bucket (ls' ! li) (t_entries (ts[n := t'] ! m) ! i) =
        tsb_area.slot_list (ls' ! li) (slots_in (ls' ! li) (ts[n := t']) (m, i))"
      by (simp add: tsb_bucket_slot slots_in_def)
    moreover have "tsb_bucket (ls ! li) (t_entries (ts ! m) ! i) = tsb_area.slot_list (ls ! li) (slots_in (ls ! li) ts (m, i))"
      by (simp add: tsb_bucket_slot slots_in_def)
    ultimately show ?thesis using ins'(2) ins'(3) [OF mi] upd [OF mi] by auto
  qed
qed

lemma add_shared_spec:
  assumes "shared_ok (ls ! li) ts" and "li < length ls" and "list_all (\<lambda>t. t_link_ptr t = Some li) ts"
    and "list_all (\<lambda>(n, _, tag, data, _). plain_pair tag data) ads"
    and "add_shared allow ls ts ads = Inr (ls', ts')"
  shows "shared_ok (ls' ! li) ts' \<and> tl_start_addr (ls' ! li) = tl_start_addr (ls ! li) \<and>
    shared_index ts' = shared_index ts \<and>
    (\<forall>m i. (m, i) \<in> shared_index ts \<longrightarrow> tsb_bucket (ls' ! li) (t_entries (ts' ! m) ! i) =
       tsb_bucket (ls ! li) (t_entries (ts ! m) ! i) @ added_at (added_to ads m) i)"
  using assms
proof (induction ads arbitrary: ls ts)
  case Nil
  then show ?case by (simp add: add_shared_def added_at_def added_to_def)
next
  case (Cons a ads)
  obtain n index tag data b bt where a: "a = (n, index, tag, data, b, bt)" by (cases a)
  from Cons.prems(5) obtain ls1 t1 where n: "n < length ts"
    and add: "add_entry allow ls (ts ! n) index tag data b bt = Inr (ls1, t1)"
    and rest: "add_shared allow ls1 (ts[n := t1]) ads = Inr (ls', ts')"
    by (auto simp: add_shared_def a bindr_Inr_iff)
  have lp: "t_link_ptr (ts ! n) = Some li" using Cons.prems(3) n by (simp add: list_all_length)
  have pl: "plain_pair tag data" using Cons.prems(4) by (simp add: a)
  note step = add_shared_step [OF Cons.prems(1,2) n lp pl add] and len = add_entry_fields [OF add]
    and one = shared_ok_tsb [OF Cons.prems(1) n]
  note exact = add_entry_exact [OF lp Cons.prems(2) conjunct1 [OF one] conjunct2 [OF one] pl add]
  have "t_link_ptr t1 = Some li" using add_entry_spec [OF lp Cons.prems(2) conjunct1 [OF one] pl add] by simp
  then have lps: "list_all (\<lambda>t. t_link_ptr t = Some li) (ts[n := t1])"
    using Cons.prems(3) by (auto simp: list_all_iff dest!: set_update_cases)
  have I: "shared_index (ts[n := t1]) = shared_index ts"
    by (rule shared_index_update [OF n]) (simp add: len)
  have "list_all (\<lambda>(n, _, tag, data, _). plain_pair tag data) ads" using Cons.prems(4) by simp
  note IH = Cons.IH [OF step(1) _ lps this rest]
  have ad: "added_at (added_to (a # ads) m) i =
      (if m = n \<and> i = unat index then [(tag, data)] else []) @ added_at (added_to ads m) i" for m i
    by (auto simp: added_at_def added_to_def a)
  have l1: "li < length ls1" using len Cons.prems(2) by simp
  have "tsb_bucket (ls' ! li) (t_entries (ts' ! m) ! i) =
      tsb_bucket (ls ! li) (t_entries (ts ! m) ! i) @ added_at (added_to (a # ads) m) i"
    if mi: "(m, i) \<in> shared_index ts" for m i
  proof -
    have "tsb_bucket (ls' ! li) (t_entries (ts' ! m) ! i) =
        tsb_bucket (ls1 ! li) (t_entries (ts[n := t1] ! m) ! i) @ added_at (added_to ads m) i"
      using IH [OF l1] mi unfolding I by blast
    then show ?thesis by (simp add: step(2) [OF mi] ad)
  qed
  with IH [OF l1] exact I show ?case by auto
qed

text \<open>The TSBs as initialisation leaves them.\<close>

lemma shared_fresh:
  assumes fin: "finish_tsb_init mem links tv = Inr tv0" and l: "tl_entries l = []"
  shows "shared_ok l (tv_vector tv0)"
    and "(m, i) \<in> shared_index (tv_vector tv0) \<Longrightarrow> tsb_bucket l (t_entries (tv_vector tv0 ! m) ! i) = []"
proof -
  from fin obtain v where v: "map_res (finish_single_tsb_init mem links) (tv_vector tv) = Inr v" "tv_vector tv0 = v"
    by (auto simp: finish_tsb_init_def bindr_Inr_iff)
  have z: "set (t_entries (v ! n)) \<subseteq> {zero_tsb_entry}" if "n < length v" for n
    using finish_single_tsb_init_fields(1) [OF map_res_nth [OF v(1)]] map_res_length [OF v(1)] that by simp
  have zi: "t_entries (v ! n) ! i = zero_tsb_entry" if "(n, i) \<in> shared_index v" for n i
  proof -
    from that have n: "n < length v" and i: "i < length (t_entries (v ! n))" by (simp_all add: shared_index_def)
    from subsetD [OF z [OF n] nth_mem [OF i]] show ?thesis by simp
  qed
  have free: "slots_in l v y = Free" if "y \<in> shared_index v" for y
    using zi that by (cases y) (simp add: slots_in_def slot_of_def zero_tsb_entry_def)
  have ao: "area_ok l" by (rule init_area_ok [OF l])
  have "link_exact l t" if t: "t \<in> set v" for t
  proof -
    obtain n where n: "n < length v" "v ! n = t" using t unfolding in_set_conv_nth by blast
    show ?thesis using fresh_tsb(2) [OF z [OF n(1)] ao] by (simp add: n(2))
  qed
  moreover have "tsb_area.family_ok l (shared_index v) (slots_in l v)"
    unfolding tsb_area.family_ok_def using ao free by simp
  ultimately show "shared_ok l (tv_vector tv0)" by (simp add: shared_ok_def v(2))
  show "tsb_bucket l (t_entries (tv_vector tv0 ! m) ! i) = []" if "(m, i) \<in> shared_index (tv_vector tv0)"
    using zi that by (simp add: v(2) tsb_bucket_def zero_tsb_entry_def)
qed

lemma shared_walk:
  assumes fin: "finish_tsb_init mem links tv = Inr tv0"
    and area: "list_all (\<lambda>t. t_link_ptr t = Some li) (tv_vector tv0)" "li < length ls" "tl_entries (ls ! li) = []"
      "tl_start_addr (ls ! li) AND 31 = 0"
    and plain: "list_all (\<lambda>(n, _, tag, data, _). plain_pair tag data) ads"
    and add: "add_shared allow ls (tv_vector tv0) ads = Inr (ls', ts')"
    and i: "n < length ts'" "i < length (t_entries (ts' ! n))"
  shows "hw_slot (Suc (length (tl_entries (ls' ! li)))) (ls' ! li) (t_entries (ts' ! n) ! i) =
     Some (added_at (added_to ads n) i)"
proof -
  note fresh = shared_fresh [OF fin area(3)]
  note spec = add_shared_spec [OF fresh(1) area(2,1) plain add]
  have ix: "(n, i) \<in> shared_index ts'" using i by (simp add: shared_index_def)
  with spec have ix0: "(n, i) \<in> shared_index (tv_vector tv0)" by blast
  with spec have "tsb_bucket (ls' ! li) (t_entries (ts' ! n) ! i) =
      tsb_bucket (ls ! li) (t_entries (tv_vector tv0 ! n) ! i) @ added_at (added_to ads n) i" by blast
  then have bk: "tsb_bucket (ls' ! li) (t_entries (ts' ! n) ! i) = added_at (added_to ads n) i"
    by (simp add: fresh(2) [OF ix0])
  have "tsb_ok (ls' ! li) (ts' ! n)" "link_exact (ls' ! li) (ts' ! n)"
    using shared_ok_tsb [of "ls' ! li" ts' n] spec i by simp_all
  from hw_slot_bucket [OF this _ nth_mem [OF i(2)]] show ?thesis
    using spec area(4) by (simp add: bk)
qed

section \<open>What a \<open>tsbcsm\<close> table holds\<close>

text \<open>The (tag, clump number) pairs a slot stands for. A slot that is taken and not a link stands
  for its own pair; \<open>data\<close> only tells whether it is free and, in a link, where the chain is.\<close>

definition csm_bucket :: "tsbcsm_link \<Rightarrow> tsbcsm_entry \<Rightarrow> (u64 \<times> u64) list" where
  "csm_bucket l e =
     (if ce_tag e = 0 \<and> ce_data e = 0 then []
      else if ce_tag e = TSB_LINK_TAG then area_chain l (link_index l (ce_data e))
      else [(ce_tag e, ce_clump_num e)])"

definition csm_buckets :: "tsbcsm_link \<Rightarrow> tsbcsm \<Rightarrow> (u64 \<times> u64) list list" where
  "csm_buckets l t = map (csm_bucket l) (t_entries t)"

definition csm_ok :: "tsbcsm_link \<Rightarrow> tsbcsm \<Rightarrow> bool" where
  "csm_ok l t \<longleftrightarrow> area_ok l \<and>
     (\<forall>e \<in> set (t_entries t). ce_tag e = TSB_LINK_TAG \<longrightarrow> link_index l (ce_data e) \<in> area_heads l) \<and>
     (\<forall>i < length (t_entries t). \<forall>j < length (t_entries t).
        ce_tag (t_entries t ! i) = TSB_LINK_TAG \<longrightarrow> ce_tag (t_entries t ! j) = TSB_LINK_TAG \<longrightarrow>
        link_index l (ce_data (t_entries t ! i)) = link_index l (ce_data (t_entries t ! j)) \<longrightarrow> i = j)"

definition csm_slot :: "tsbcsm_link \<Rightarrow> tsbcsm_entry \<Rightarrow> (u64 \<times> u64) slot" where
  "csm_slot l e =
     (if ce_tag e = 0 \<and> ce_data e = 0 then Free
      else if ce_tag e = TSB_LINK_TAG then Chained (link_index l (ce_data e))
      else Single (ce_tag e, ce_clump_num e))"

lemma csm_slot_Chained_iff: "csm_slot l e = Chained h \<longleftrightarrow> ce_tag e = TSB_LINK_TAG \<and> h = link_index l (ce_data e)"
  by (auto simp: csm_slot_def)

lemma csm_bucket_slot: "csm_bucket l = (\<lambda>e. tsb_area.slot_list l (csm_slot l e))"
  by (rule ext) (simp add: csm_bucket_def tsb_area.slot_list_def csm_slot_def)

lemma csm_ok_table: "csm_ok l t \<longleftrightarrow> tsb_area.table_ok l (map (csm_slot l) (t_entries t))"
  by (simp add: csm_ok_def tsb_area.table_ok_def csm_slot_Chained_iff all_set_conv_all_nth) blast

lemma csm_slot_cong: "tl_start_addr l' = tl_start_addr l \<Longrightarrow> csm_slot l' = csm_slot l"
  by (simp add: csm_slot_def link_index_def fun_eq_iff)

text \<open>\<open>tsbcsm_link_add_entry\<close> is the routine of the TSBs on an entry whose data is the address
  of the chain, or the clump number when there is none yet.\<close>

lemma csm_link_add_entry_insert:
  assumes ok: "area_ok l" and nf: "\<not> (ce_tag e = 0 \<and> ce_data e = 0)"
    and add: "tsbcsm_link_add_entry l t c e b bt = Inr (l', e')"
  shows "tsb_area.insert_slot b bt l (csm_slot l e) (t, c) = Inr (l', csm_slot l' e') \<and>
         tl_start_addr l' = tl_start_addr l"
proof (cases "ce_tag e = TSB_LINK_TAG")
  case True
  with add have ex: "tsb_extend b bt l (link_index l (ce_data e)) (t, c) = Inr l'" and e': "e' = e"
    by (auto simp: tsbcsm_link_add_entry_def tsb_extend_def link_index_def csm_routines_eq LINK_SIZE_def bindr_Inr_iff Let_def)
  have st: "tl_start_addr l' = tl_start_addr l" by (rule tsb_extend_start [OF ex])
  have "csm_slot l e = Chained (link_index l (ce_data e))" using True by (simp add: csm_slot_Chained_iff)
  with ex e' st show ?thesis by (simp add: tsb_area.insert_slot_def csm_slot_cong [OF st])
next
  case False
  define e0 where "e0 = \<lparr>te_tag = ce_tag e, te_data = ce_clump_num e, te_block = None, te_block_tsb = None\<rparr>"
  from add False obtain a where "tsb_link_add_entry l t c e0 b bt = Inr (l', e0\<lparr>te_tag := TSB_LINK_TAG, te_data := a\<rparr>)"
    and e': "e' = e\<lparr>ce_tag := TSB_LINK_TAG, ce_data := a\<rparr>"
    by (auto simp: tsbcsm_link_add_entry_def tsb_link_add_entry_def csm_routines_eq e0_def bindr_Inr_iff)
  from tsb_link_add_entry_single [OF ok _ this(1)] False
  obtain k where np: "tsb_new_pair b bt l (ce_tag e, ce_clump_num e) (t, c) = Inr (k, l')"
    and a: "a = node_addr (tl_start_addr l) k"
    and k: "k < 2 ^ 26" and st: "tl_start_addr l' = tl_start_addr l" by (auto simp: e0_def)
  have "link_index l' (node_addr (tl_start_addr l) k) = k"
    using node_index(1) [OF k] by (simp add: link_index_def st)
  then have "csm_slot l' e' = Chained k" by (simp add: e' a csm_slot_def)
  moreover have "csm_slot l e = Single (ce_tag e, ce_clump_num e)" using False nf by (auto simp: csm_slot_def)
  ultimately show ?thesis using np st by (simp add: tsb_area.insert_slot_def)
qed

lemma add_entry_csm_cases:
  assumes "add_entry_csm allow ls t index tag data clump b bt = Inr (ls', t')"
  obtains (free) "index < t_num_entries t" "unat index < length (t_entries t)"
      "ce_tag (t_entries t ! unat index) = 0" "ce_data (t_entries t ! unat index) = 0" "ls' = ls"
      "t' = t\<lparr>t_entries := (t_entries t)[unat index :=
                  \<lparr>ce_tag = tag, ce_data = data, ce_clump_num = clump, ce_block = Some b, ce_block_tsb = Some bt\<rparr>]\<rparr>"
  | (link) li l' e' where "index < t_num_entries t" "unat index < length (t_entries t)"
      "\<not> (ce_tag (t_entries t ! unat index) = 0 \<and> ce_data (t_entries t ! unat index) = 0)"
      "allow" "t_link_ptr t = Some li" "li < length ls"
      "tsbcsm_link_add_entry (ls ! li) tag clump (t_entries t ! unat index) (Some b) (Some bt) = Inr (l', e')"
      "ls' = ls[li := l']" "t' = t\<lparr>t_entries := (t_entries t)[unat index := e']\<rparr>"
proof (cases "ce_tag (t_entries t ! unat index) = 0 \<and> ce_data (t_entries t ! unat index) = 0")
  case True
  with assms show thesis
    by (intro free) (auto simp: add_entry_csm_def bindr_Inr_iff not_le)
next
  case False
  with assms obtain li where li: "t_link_ptr t = Some li"
    by (cases "t_link_ptr t") (auto simp: add_entry_csm_def bindr_Inr_iff)
  with False assms obtain l' e' where "index < t_num_entries t" "unat index < length (t_entries t)" "allow" "li < length ls"
      "tsbcsm_link_add_entry (ls ! li) tag clump (t_entries t ! unat index) (Some b) (Some bt) = Inr (l', e')"
      "ls' = ls[li := l']" "t' = t\<lparr>t_entries := (t_entries t)[unat index := e']\<rparr>"
    by (auto simp: add_entry_csm_def bindr_Inr_iff not_le)
  with False li show thesis by (intro link)
qed

lemma csm_slot_step:
  assumes ok: "csm_ok l t" and i: "i < length (t_entries t)" and st: "tl_start_addr l' = tl_start_addr l"
    and ins: "tsb_area.insert_slot b bt l (csm_slot l (t_entries t ! i)) p = Inr (l', csm_slot l' e')"
  shows "csm_ok l' (t\<lparr>t_entries := (t_entries t)[i := e']\<rparr>) \<and>
    csm_buckets l' (t\<lparr>t_entries := (t_entries t)[i := e']\<rparr>) =
      (csm_buckets l t)[i := csm_buckets l t ! i @ [p]]"
proof -
  define ss where "ss = map (csm_slot l) (t_entries t)"
  have sl: "ss ! i = csm_slot l (t_entries t ! i)" "i < length ss" using i by (simp_all add: ss_def)
  have s': "ss[i := csm_slot l' e'] = map (csm_slot l') ((t_entries t)[i := e'])"
    by (simp add: ss_def csm_slot_cong [OF st] map_update)
  from ok have "tsb_area.table_ok l ss" by (simp add: csm_ok_table ss_def)
  from tsb_area.insert_spec [OF this sl(2) ins [folded sl(1)], unfolded s'] sl i
  show ?thesis
    by (simp add: csm_ok_table csm_buckets_def csm_bucket_slot ss_def comp_def)
qed

lemma add_entry_csm_spec:
  assumes li: "t_link_ptr t = Some li" "li < length ls" and ok: "csm_ok (ls ! li) t"
    and pl: "plain_pair tag data" and add: "add_entry_csm allow ls t index tag data clump b bt = Inr (ls', t')"
  shows "csm_ok (ls' ! li) t' \<and> ls' = ls[li := ls' ! li] \<and>
    csm_buckets (ls' ! li) t' = (csm_buckets (ls ! li) t)
      [unat index := csm_buckets (ls ! li) t ! unat index @ [(tag, clump)]]"
  using add
proof (cases rule: add_entry_csm_cases)
  case free
  define e where "e = \<lparr>ce_tag = tag, ce_data = data, ce_clump_num = clump, ce_block = Some b, ce_block_tsb = Some bt\<rparr>"
  have "csm_slot (ls ! li) (t_entries t ! unat index) = Free" using free by (simp add: csm_slot_def)
  moreover have "csm_slot (ls ! li) e = Single (tag, clump)" using pl by (auto simp: e_def csm_slot_def plain_pair_def)
  ultimately have "tsb_area.insert_slot (Some b) (Some bt) (ls ! li)
      (csm_slot (ls ! li) (t_entries t ! unat index)) (tag, clump) = Inr (ls ! li, csm_slot (ls ! li) e)"
    by (simp add: tsb_area.insert_slot_def)
  from csm_slot_step [OF ok free(2) refl this] show ?thesis using free li by (simp add: e_def)
next
  case (link li' l' e')
  with li have eq: "li' = li" by simp
  from ok have okl: "area_ok (ls ! li)" by (simp add: csm_ok_def)
  note ins = csm_link_add_entry_insert [OF okl link(3) link(7) [unfolded eq]]
  from csm_slot_step [OF ok link(2) conjunct2 [OF ins] conjunct1 [OF ins]] link li
  show ?thesis by (simp add: eq)
qed

end
