(* ===== verification/GF_Layout.thy ===== *)
theory GF_Layout
  imports GF_Goldfinger GF_Hardware GF_Shared
begin

text \<open>
  The image file against the physical map. Every object the program writes enters one region and
  then places words; \<open>laid_out es its\<close> says that the words of the pieces \<open>its\<close> come in groups, one
  for each region of \<open>es\<close> in this order, and that those of a group have their addresses in the
  region. The header of a block has the address masked to the PA size, the region does not, so a
  block is laid out when its start has no bit above the PA size.

  Lemmas: each writer adds its region and words inside of it, and so does the whole run.
\<close>

unbundle bit_operations_syntax

section \<open>Words in regions\<close>

definition laid_out :: "physmap_ent list \<Rightarrow> img_item list \<Rightarrow> bool" where
  "laid_out es its \<longleftrightarrow> (\<forall>a. \<exists>wss. load_items a its = concat wss \<and>
     list_all2 (\<lambda>e ws. \<forall>(b, w) \<in> set ws. unat b \<in> region e) es wss)"

lemma laid_out_none: "(\<And>a. load_items a its = []) \<Longrightarrow> laid_out [] its"
  by (simp add: laid_out_def)

lemma laid_out_one: "(\<And>a b w. (b, w) \<in> set (load_items a its) \<Longrightarrow> unat b \<in> region e) \<Longrightarrow> laid_out [e] its"
  unfolding laid_out_def by (intro allI exI [of _ "[load_items a its]" for a]) auto

lemma laid_out_append:
  assumes "laid_out es its" and "laid_out fs jts"
  shows "laid_out (es @ fs) (its @ jts)"
  unfolding laid_out_def
proof
  fix a
  obtain wss where 1: "load_items a its = concat wss"
    "list_all2 (\<lambda>e ws. \<forall>(b, w) \<in> set ws. unat b \<in> region e) es wss"
    using assms(1) unfolding laid_out_def by blast
  obtain vss where 2: "load_items (load_loc a its) jts = concat vss"
    "list_all2 (\<lambda>e ws. \<forall>(b, w) \<in> set ws. unat b \<in> region e) fs vss"
    using assms(2) unfolding laid_out_def by blast
  show "\<exists>wss. load_items a (its @ jts) = concat wss \<and>
      list_all2 (\<lambda>e ws. \<forall>(b, w) \<in> set ws. unat b \<in> region e) (es @ fs) wss"
    by (intro exI [of _ "wss @ vss"] conjI list_all2_appendI 1 2) (simp add: load_items_append 1 2)
qed

text \<open>A step of the run: the physical map grows by regions and the pieces fill them, if the
  regions start inside the physical address space that \<open>mk\<close> masks.\<close>

definition lays :: "addr_t \<Rightarrow> physmap_t \<Rightarrow> img_item list \<Rightarrow> physmap_t \<Rightarrow> bool" where
  "lays mk pm out pm' \<longleftrightarrow> physmap_ok pm' \<and> (\<exists>es. vec_list pm' = vec_list pm @ es \<and>
     (list_all (\<lambda>e. pm_start e AND mk = pm_start e) es \<longrightarrow> laid_out es out))"

lemma lays_silent: "physmap_ok pm \<Longrightarrow> (\<And>a. load_items a out = []) \<Longrightarrow> lays mk pm out pm"
  by (simp add: lays_def laid_out_none)

lemma lays_ok: "lays mk pm out pm' \<Longrightarrow> physmap_ok pm'"
  by (simp add: lays_def)

lemma lays_trans:
  assumes "lays mk a o1 b" and "lays mk b o2 c"
  shows "lays mk a (o1 @ o2) c"
proof -
  from assms(1) obtain es where 1: "vec_list b = vec_list a @ es"
    "list_all (\<lambda>e. pm_start e AND mk = pm_start e) es \<longrightarrow> laid_out es o1" unfolding lays_def by blast
  from assms(2) obtain fs where 2: "vec_list c = vec_list b @ fs" "physmap_ok c"
    "list_all (\<lambda>e. pm_start e AND mk = pm_start e) fs \<longrightarrow> laid_out fs o2" unfolding lays_def by blast
  show ?thesis
    unfolding lays_def using 1 2 laid_out_append by (intro conjI exI [of _ "es @ fs"]) auto
qed

lemma lays_one:
  assumes "physmap_ok pm'" and "vec_list pm' = vec_list pm @ [e]"
    and "\<And>a b w. pm_start e AND mk = pm_start e \<Longrightarrow> (b, w) \<in> set (load_items a out) \<Longrightarrow> unat b \<in> region e"
  shows "lays mk pm out pm'"
  unfolding lays_def using assms(1,2) assms(3) laid_out_one
  by (intro conjI exI [of _ "[e]"]) auto

lemma foldr_res_lays:
  assumes "foldr_res f s xs = Inr t" and "physmap_ok (g s)"
    and step: "\<And>s x s'. x \<in> set xs \<Longrightarrow> physmap_ok (g s) \<Longrightarrow> f s x = Inr s' \<Longrightarrow>
        \<exists>out. h s' = h s @ out \<and> lays mk (g s) out (g s')"
  shows "\<exists>out. h t = h s @ out \<and> lays mk (g s) out (g t)"
  using assms(1)
proof (rule foldr_res_invariant [where P = "\<lambda>u. \<exists>out. h u = h s @ out \<and> lays mk (g s) out (g u)"])
  show "\<exists>out. h s = h s @ out \<and> lays mk (g s) out (g s)"
    using assms(2) by (intro exI [of _ "[]"]) (simp add: lays_silent)
next
  fix u x v
  assume x: "x \<in> set xs" "\<exists>out. h u = h s @ out \<and> lays mk (g s) out (g u)" "f u x = Inr v"
  then obtain o1 where o1: "h u = h s @ o1" "lays mk (g s) o1 (g u)" by blast
  from step [OF x(1) lays_ok [OF o1(2)] x(3)] obtain o2 where o2: "h v = h u @ o2" "lays mk (g u) o2 (g v)" by blast
  from o1 o2 lays_trans [OF o1(2) o2(2)] show "\<exists>out. h v = h s @ out \<and> lays mk (g s) out (g v)" by auto
qed

text \<open>An address \<open>j\<close> bytes into a region of \<open>n\<close> bytes.\<close>

lemma in_region:
  assumes "physmap_ok pm" and "e \<in> set (vec_list pm)" and "pm_start e = start" "pm_stop e = start + of_nat n"
    and "n < 2 ^ 64" and "j < n"
  shows "unat (start + of_nat j :: addr_t) \<in> region e"
proof -
  have le: "start \<le> start + of_nat n" using assms(1-4) by (auto simp: physmap_ok_def)
  have en: "unat (start + of_nat n) = unat start + n" by (rule region_end [OF le assms(5)])
  then have "unat start + n < 2 ^ 64" using unat_less_pow2 [of "start + of_nat n"] by simp
  then have "unat start + j < 2 ^ 64" using assms(6) by simp
  moreover have "unat (of_nat j :: addr_t) = j" using assms(5,6) by (simp add: unat_of_nat take_bit_eq_mod)
  ultimately have "unat (start + of_nat j) = unat start + j" unfolding unat_word_ariths by simp
  with en assms(3,4,6) show ?thesis by (simp add: region_def)
qed

lemma place_addr: "(b, w) \<in> set (place a ws) \<Longrightarrow> \<exists>i < length ws. b = a + of_nat (8 * i)"
  by (auto simp: place_conv)

section \<open>Blocks\<close>

lemma line_pairs_shape:
  "line_pairs little buf base words i n = Inr (ps, brk) \<Longrightarrow> (0 < n \<Longrightarrow> i < words) \<Longrightarrow>
   length ps \<le> n \<and> (\<not> brk \<longrightarrow> length ps = n) \<and> (\<forall>p < length ps. i + 2 * p < words)"
proof (induction n arbitrary: i ps)
  case (Suc n)
  show ?case
  proof (cases "n > 0 \<and> i + 2 \<ge> words")
    case True
    with Suc.prems show ?thesis by (auto simp: bindr_Inr_iff)
  next
    case False
    with Suc.prems(1) obtain p0 qs where ps: "ps = p0 # qs"
      and rest: "line_pairs little buf base words (i + 2) n = Inr (qs, brk)"
      by (auto simp: bindr_Inr_iff split: if_splits)
    have "length qs \<le> n \<and> (\<not> brk \<longrightarrow> length qs = n) \<and> (\<forall>p < length qs. i + 2 + 2 * p < words)"
      by (rule Suc.IH [OF rest]) (use False in auto)
    with Suc.prems(2) show ?thesis by (auto simp: ps less_Suc_eq_0_disj)
  qed
qed simp

text \<open>Whatever the loop prints from word \<open>i\<close> on, it places before the end of the block, if the
  location is that of some word up to \<open>i\<close>.\<close>

lemma gen_lines_inside:
  "gen_lines c i s = Inr (out, s') \<Longrightarrow> line_pa s = g_start_pa c + of_nat (4 * i) \<Longrightarrow>
   (\<exists>l \<le> i. a = g_start_pa c + of_nat (4 * l)) \<Longrightarrow> (b, w) \<in> set (load_items a out) \<Longrightarrow>
   \<exists>j < 4 * g_words c. b = g_start_pa c + of_nat j"
proof (induction "g_words c - i" arbitrary: i s a out s' rule: less_induct)
  case less
  note prems = less.prems
  have guards: "int_ok (int i)" using prems(1) by (subst (asm) gen_lines.simps) (auto split: if_splits)
  show ?case
  proof (cases "g_words c \<le> i")
    case True
    with prems(1) guards have "out = []" by (subst (asm) gen_lines.simps) auto
    with prems(4) show ?thesis by simp
  next
    case False
    with prems(1) guards have ok7: "int_ok (int i + 7)" by (subst (asm) gen_lines.simps) (auto split: if_splits)
    from prems(1) guards False ok7 obtain z where
      z: "(if i + 7 < g_words c then zero_words (g_little c) (g_buf c) (g_base c) i 8 else Inr (zero_line s)) = Inr z"
      by (subst (asm) gen_lines.simps) (auto simp: bindr_Inr_iff)
    define pre where "pre = (if doing_compress s \<and> \<not> z
      then end_of_run (g_env_zero c) (printed_data s) (last_addr s) (g_start_pa c) (line_pa s)
           @ [At (line_pa s) (from_compressed (g_start_pa c))] else [])"
    define s1 where "s1 = s\<lparr>zero_line := z, doing_compress := doing_compress s \<and> z\<rparr>"
    have pre: "load_items a pre = []" by (simp add: pre_def load_items_append)
    define a1 where "a1 = load_loc a pre"
    have a1: "\<exists>l \<le> i. a1 = g_start_pa c + of_nat (4 * l)"
      using prems(2,3) by (auto simp: a1_def pre_def load_loc_append)
    have dec: "g_words c - (i + 8) < g_words c - i" using False by simp
    have lp8: "line_pa s + 32 = g_start_pa c + of_nat (4 * (i + 8))" using prems(2) by (simp add: algebra_simps)
    note one = prems(1) [unfolded gen_lines.simps [of c i s]]
    show ?thesis
    proof (cases "g_compress c \<and> i + 7 < g_words c \<and> z")
      case True
      define s2 where "s2 = s1\<lparr>last_addr := (if doing_compress s1 then last_addr s1 else line_pa s1),
                         doing_compress := True, line_pa := line_pa s1 + 32\<rparr>"
      from one guards False ok7 z True obtain rest where
        r: "gen_lines c (i + 8) s2 = Inr (rest, s')" and out: "out = pre @ rest"
        by (cases "doing_compress s") (auto simp: bindr_Inr_iff Let_def s2_def s1_def pre_def)
      have w: "(b, w) \<in> set (load_items a1 rest)" using prems(4) by (simp add: out load_items_append pre a1_def)
      have l: "\<exists>l \<le> i + 8. a1 = g_start_pa c + of_nat (4 * l)" using a1 trans_le_add1 by blast
      show ?thesis
        by (rule less.hyps [OF dec r _ l w]) (use lp8 in \<open>simp add: s2_def s1_def\<close>)
    next
      case nc: False
      from one guards False ok7 z nc obtain ps brk where
        lp: "line_pairs (g_little c) (g_buf c) (g_base c) (g_words c) i 4 = Inr (ps, brk)"
        by (auto simp: bindr_Inr_iff Let_def)
      note shape = line_pairs_shape [OF lp]
      obtain l where l: "l \<le> i" "a1 = g_start_pa c + of_nat (4 * l)" using a1 by blast
      have row: "\<exists>j < 4 * g_words c. b = g_start_pa c + of_nat j"
        if "(b, w) \<in> set (place a1 (map word_pair ps))"
      proof -
        from place_addr [OF that] obtain p where p: "p < length ps" "b = a1 + of_nat (8 * p)" by auto
        then have "i + 2 * p < g_words c" using shape False by simp
        with l p show ?thesis by (intro exI [of _ "4 * l + 8 * p"]) auto
      qed
      define s2 where "s2 = s1\<lparr>printed_data := True\<rparr>"
      show ?thesis
      proof (cases brk)
        case True
        with one guards False ok7 z nc lp have "out = pre @ [Row32 ps]"
          by (auto simp: bindr_Inr_iff Let_def pre_def)
        with prems(4) row show ?thesis by (simp add: load_items_append pre flip: a1_def)
      next
        case nb: False
        with one guards False ok7 z nc lp obtain rest where
          r: "gen_lines c (i + 8) (s2\<lparr>line_pa := line_pa s2 + 32\<rparr>) = Inr (rest, s')"
          and out: "out = pre @ Row32 ps # rest"
          by (auto simp: bindr_Inr_iff Let_def pre_def s2_def s1_def)
        have len: "length ps = 4" using shape False nb by simp
        consider "(b, w) \<in> set (place a1 (map word_pair ps))" | "(b, w) \<in> set (load_items (a1 + 32) rest)"
          using prems(4) by (auto simp: out load_items_append pre len simp flip: a1_def)
        then show ?thesis
        proof cases
          case 1
          then show ?thesis by (rule row)
        next
          case 2
          have l8: "\<exists>k \<le> i + 8. a1 + 32 = g_start_pa c + of_nat (4 * k)"
            using l by (intro exI [of _ "l + 8"]) (simp add: algebra_simps)
          show ?thesis
            by (rule less.hyps [OF dec r _ l8 2]) (use lp8 in \<open>simp add: s2_def s1_def\<close>)
        qed
      qed
    qed
  qed
qed

lemma block_image_lays:
  assumes ok: "physmap_ok pm" and mk: "pa_mask pa = Inr mk"
    and gen: "block_generate_image mem le pa co ez pm b scn = Inr (pm', out)"
  shows "lays mk pm out pm'"
proof (cases "b_in_image b = 0")
  case True
  with gen ok show ?thesis by (simp add: block_generate_image_def lays_silent)
next
  case False
  from False gen [unfolded block_generate_image_def Let_def mk bindr_simps] obtain buf lines s where
    add: "add_block_to_physmap mem pm (b_srcfile b) (b_srcline b) (b_lineno b)
      (b_pa b) (b_pa b + b_d_length b) (b_section_name b) (b_segment_name b) = Inr pm'"
    and gl: "gen_lines \<lparr>g_little = le, g_buf = buf, g_base = unat (b_d_offset b div 4), g_words = unat (b_d_length b div 4),
                  g_compress = (b_compress b \<noteq> 0 \<and> co), g_env_zero = ez, g_start_pa = b_pa b\<rparr>
                 0 \<lparr>zero_line = False, doing_compress = False, line_pa = b_pa b, last_addr = b_pa b,
                    printed_data = False\<rparr> = Inr (lines, s)"
    and out: "out = [Blank, At (b_pa b AND mk) (''Section '' @ quoted (b_section_name b) @
                     '', segment '' @ quoted (b_segment_name b))] @ lines @
            (if doing_compress s \<and> ez then [Note (zero_bytes (line_pa s - last_addr s)), Blank] else [])"
    by (auto simp: bindr_Inr_iff)
  from add_block_keeps [OF ok add] obtain e where pm': "physmap_ok pm'" "vec_list pm' = vec_list pm @ [e]"
    and e: "pm_start e = b_pa b" "pm_stop e = b_pa b + b_d_length b" by auto
  show ?thesis
  proof (rule lays_one [OF pm'])
    fix a x w
    assume al: "pm_start e AND mk = pm_start e" and "(x, w) \<in> set (load_items a out)"
    then have "(x, w) \<in> set (load_items (b_pa b) lines)"
      by (auto simp: out load_items_append e(1) split: if_splits)
    from gen_lines_inside [OF gl _ _ this] obtain j where j: "j < 4 * unat (b_d_length b div 4)" "x = b_pa b + of_nat j"
      by auto
    have "unat (b_d_length b div 4) = unat (b_d_length b) div 4" by (simp add: unat_div)
    then have jl: "j < unat (b_d_length b)" using j(1) by linarith
    show "unat x \<in> region e"
      unfolding j(2) by (rule in_region [OF pm'(1) _ e(1), of "unat (b_d_length b)"])
        (use jl unat_less_pow2 [of "b_d_length b"] in \<open>simp_all add: pm'(2) e(2)\<close>)
  qed
qed

section \<open>TSBs\<close>

text \<open>What allocation leaves of the size of a TSB, kept by every addition.\<close>

definition alloc_ok :: "'e tsb_obj \<Rightarrow> bool" where
  "alloc_ok t \<longleftrightarrow> length (t_entries t) \<le> unat (t_num_entries t) \<and> length (t_entries t) < 2 ^ 59"

lemma alloc_ok_cong:
  "alloc_ok t \<Longrightarrow> length (t_entries t') = length (t_entries t) \<Longrightarrow> t_num_entries t' = t_num_entries t \<Longrightarrow> alloc_ok t'"
  by (simp add: alloc_ok_def)

text \<open>A writer that returns has an even number of entries, all of them allocated.\<close>

lemma write_pairs_even:
  "write_pairs su ez zero row start es n i skip la printed = Inr out \<Longrightarrow> length es \<le> n \<Longrightarrow> even i \<Longrightarrow> i \<le> n \<Longrightarrow>
   even n \<and> (i < n \<longrightarrow> n \<le> length es)"
proof (induction "n - i" arbitrary: i skip la printed out rule: less_induct)
  case less
  show ?case
  proof (cases "i < n")
    case False
    with less.prems show ?thesis by (cases "i = n") auto
  next
    case True
    with less.prems(1) obtain sk la' pr out' where i: "i + 1 < length es"
      and rec: "write_pairs su ez zero row start es n (i + 2) sk la' pr = Inr out'"
      by (subst (asm) write_pairs.simps) (auto simp: bindr_Inr_iff Let_def split: if_splits)
    have "even n \<and> (i + 2 < n \<longrightarrow> n \<le> length es)"
      by (rule less.hyps [OF _ rec less.prems(2)]) (use True i less.prems in auto)
    with i less.prems(2) show ?thesis by auto
  qed
qed

lemma write_pairs_inside:
  assumes w: "write_pairs su ez zero row start es n 0 False start False = Inr out"
    and len: "length es \<le> n" and row: "\<And>e. length (row e) = 2" and b: "(b, w') \<in> set (load_items start out)"
  shows "\<exists>j < 16 * n. b = start + of_nat j \<and> (0 < n \<longrightarrow> n = length es)"
proof -
  note ev = write_pairs_even [OF w len]
  then obtain m where m: "n = 2 * m" by auto
  have n: "0 < n \<longrightarrow> n = length es" using ev len by auto
  then have l2: "2 * m \<le> length es" using m by (cases m) auto
  from write_pairs_loads [where row = row and k = 0 and skip = False and a = start and start = start and
      suppress = su and env = ez and zero = zero and la = start and printed = False, OF l2 row] w m
  have "load_items start out = concat (map (pair_words su zero row start es) [0..<m])" by auto
  with b obtain k where k: "k < m" "(b, w') \<in> set (pair_words su zero row start es k)" by auto
  then have "(b, w') \<in> set (place (start + of_nat (32 * k)) (row (es ! (2 * k)) @ row (es ! (2 * k + 1))))"
    by (auto simp: pair_words_def split: if_splits)
  from place_addr [OF this] obtain i where i: "i < 4" "b = start + of_nat (32 * k) + of_nat (8 * i)"
    by (auto simp: row)
  with k m n show ?thesis by (intro exI [of _ "32 * k + 8 * i"]) auto
qed

lemma write_object_lays:
  assumes ok: "physmap_ok pm"
    and add: "add_object_to_physmap mem pm f l n start (start + of_nat size') ty nm = Inr pm'" and size: "size' < 2 ^ 64"
    and words: "\<And>b w. (b, w) \<in> set (load_items start body) \<Longrightarrow> \<exists>j < size'. b = start + of_nat j"
  shows "lays mk pm (At start txt # body) pm'"
proof -
  from add_object_keeps [OF ok add] obtain e where pm': "physmap_ok pm'" "vec_list pm' = vec_list pm @ [e]"
    and e: "pm_start e = start" "pm_stop e = start + of_nat size'" by auto
  show ?thesis
  proof (rule lays_one [OF pm'])
    fix a b w
    assume "(b, w) \<in> set (load_items a (At start txt # body))"
    then obtain j where j: "j < size'" "b = start + of_nat j" using words by auto
    show "unat b \<in> region e"
      unfolding j(2) by (rule in_region [OF pm'(1) _ e size j(1)]) (simp add: pm'(2))
  qed
qed

text \<open>A table that was written has its allocated size, so the end of its region did not wrap.\<close>

lemma table_end:
  assumes "alloc_ok t" and "0 < unat (t_num_entries t) \<longrightarrow> unat (t_num_entries t) = length (t_entries t)"
  shows "t_num_entries t * BYTES_PER_ENTRY = of_nat (16 * unat (t_num_entries t))" and "16 * unat (t_num_entries t) < 2 ^ 64"
proof -
  show "t_num_entries t * BYTES_PER_ENTRY = of_nat (16 * unat (t_num_entries t))"
    by (simp add: BYTES_PER_ENTRY_def)
  show "16 * unat (t_num_entries t) < 2 ^ 64"
    using assms by (cases "0 < unat (t_num_entries t)") (auto simp: alloc_ok_def)
qed

lemma write_pairs_empty:
  "write_pairs su ez zero row start es 0 0 False start False = Inr out \<Longrightarrow> load_items start out = []"
  by (subst (asm) write_pairs.simps) (auto simp: Let_def)

text \<open>The size that \<open>alloc_ok\<close> and the loop leave for a written table.\<close>

lemma write_table_lays:
  assumes ok: "physmap_ok pm" and al: "alloc_ok t" and row: "\<And>e. length (row e) = 2"
    and add: "add_object_to_physmap mem pm f l n (t_start_addr t) (t_start_addr t + t_num_entries t * BYTES_PER_ENTRY)
      ty nm = Inr pm'"
    and w: "write_pairs su ez zero row (t_start_addr t) (t_entries t) (unat (t_num_entries t)) 0 False (t_start_addr t) False
      = Inr body"
  shows "lays mk pm (At (t_start_addr t) txt # body) pm'"
proof -
  have len: "length (t_entries t) \<le> unat (t_num_entries t)" using al by (simp add: alloc_ok_def)
  have "0 < unat (t_num_entries t) \<longrightarrow> unat (t_num_entries t) = length (t_entries t)"
    using write_pairs_even [OF w len] len by auto
  note sz = table_end [OF al this]
  show ?thesis
  proof (rule write_object_lays [OF ok add [unfolded sz(1)] sz(2)])
    fix b x
    assume "(b, x) \<in> set (load_items (t_start_addr t) body)"
    from write_pairs_inside [OF w len row this]
    show "\<exists>j < 16 * unat (t_num_entries t). b = t_start_addr t + of_nat j" by blast
  qed
qed

lemma write_tsb_lays:
  assumes ok: "physmap_ok pm" "alloc_ok t" and w: "write_tsb mem su ez pm t = Inr (pm', out)"
  shows "lays mk pm out pm'"
  using w unfolding write_tsb_def bindr_Inr_iff
  by (auto simp: bindr_Inr_iff intro!: write_table_lays [OF ok, rotated 2])

lemma write_tsbcsm_lays:
  assumes ok: "physmap_ok pm" "alloc_ok t" and w: "write_tsbcsm mem su ez pm t = Inr (pm', out)"
  shows "lays mk pm out pm'"
  using w unfolding write_tsbcsm_def bindr_Inr_iff
  by (auto simp: bindr_Inr_iff intro!: write_table_lays [OF ok, rotated 2])

section \<open>Link areas\<close>

lemma link_rows_inside:
  assumes "(b, w) \<in> set (load_items a (concat (map write_tsb_link_entry es)))"
  shows "\<exists>j < 32 * length es. b = a + of_nat j"
proof -
  from assms obtain j where "j < 4 * length es" "b = a + of_nat (8 * j)" unfolding load_link_rows by auto
  then show ?thesis by (intro exI [of _ "8 * j"]) auto
qed

lemma write_tsb_link_lays:
  assumes "physmap_ok pm" and "write_tsb_link mem pm l = Inr (pm', out)"
  shows "lays mk pm out pm'"
proof -
  from assms(2) have n: "length (tl_entries l) < 2 ^ 26"
    and add: "add_object_to_physmap mem pm (tl_srcfile l) (tl_srcline l) (tl_lineno l) (tl_start_addr l)
       (tl_start_addr l + of_nat (32 * length (tl_entries l))) ''TSB_LINK'' (tl_name l) = Inr pm'"
    and out: "out = At (tl_start_addr l) (''TSB_LINK '' @ quoted (tl_name l)) # concat (map write_tsb_link_entry (tl_entries l))"
    by (auto simp: write_tsb_link_def bindr_Inr_iff link_addr_Inr_iff node_addr_def)
  show ?thesis unfolding out
    by (rule write_object_lays [OF assms(1) add]) (use n in \<open>auto dest: link_rows_inside\<close>)
qed

lemma write_tsbcsm_link_lays:
  assumes "physmap_ok pm" and "write_tsbcsm_link mem pm l = Inr (pm', out)"
  shows "lays mk pm out pm'"
proof -
  have eq: "write_tsbcsm_link_entry = write_tsb_link_entry"
    by (rule ext) (simp add: write_tsbcsm_link_entry_def write_tsb_link_entry_def)
  from assms(2) have n: "length (tl_entries l) < 2 ^ 26"
    and add: "add_object_to_physmap mem pm (tl_srcfile l) (tl_srcline l) (tl_lineno l) (tl_start_addr l)
       (tl_start_addr l + of_nat (32 * length (tl_entries l))) ''TSBCSM_LINK'' (tl_name l) = Inr pm'"
    and out: "out = At (tl_start_addr l) (''TSBCSM_LINK '' @ quoted (tl_name l)) # concat (map write_tsb_link_entry (tl_entries l))"
    by (auto simp: write_tsbcsm_link_def bindr_Inr_iff link_addr_Inr_iff node_addr_def eq)
  show ?thesis unfolding out
    by (rule write_object_lays [OF assms(1) add]) (use n in \<open>auto dest: link_rows_inside\<close>)
qed

lemma write_all_lays:
  assumes "write_all w pm xs = Inr (pm', out)" and "physmap_ok pm"
    and "\<And>x pm pm' out. x \<in> set xs \<Longrightarrow> physmap_ok pm \<Longrightarrow> w pm x = Inr (pm', out) \<Longrightarrow> lays mk pm out pm'"
  shows "lays mk pm out pm'"
proof -
  have "\<exists>out. snd s' = snd s @ out \<and> lays mk (fst s) out (fst s')"
    if "x \<in> set xs" and "physmap_ok (fst s)"
      and "(case s of (pm, out) \<Rightarrow> \<lambda>x. bindr (w pm x) (\<lambda>(pm', txt). Inr (pm', out @ txt))) x = Inr s'" for s x s'
    using that assms(3) by (auto simp: bindr_Inr_iff split: prod.splits)
  from foldr_res_lays [where g = fst and h = snd, OF assms(1) [unfolded write_all_def] _ this] assms(2)
  show ?thesis by simp
qed

section \<open>Filling the tables keeps their size\<close>

definition mmu_alloc :: "mmu_st \<Rightarrow> bool" where
  "mmu_alloc m \<longleftrightarrow> (\<forall>t \<in> set (m_tsbs m). alloc_ok t) \<and> (\<forall>t \<in> set (m_tsbcsms m). alloc_ok t)"

lemma add_entry_alloc: "add_entry allow ls t ix tg d b bt = Inr (ls', t') \<Longrightarrow> alloc_ok t \<Longrightarrow> alloc_ok t'"
  by (erule add_entry_cases) (auto simp: alloc_ok_def)

lemma add_entry_csm_alloc: "add_entry_csm allow ls t ix tg d cl b bt = Inr (ls', t') \<Longrightarrow> alloc_ok t \<Longrightarrow> alloc_ok t'"
  by (erule add_entry_csm_cases) (auto simp: alloc_ok_def)

lemma add_block_tsb_alloc:
  assumes "add_block_tsb_to_tsb allow bref btref b bt ls t = Inr (ls', t')" and "alloc_ok t"
  shows "alloc_ok t'"
proof -
  from assms(1) obtain c where "foldr_res (\<lambda>(ls, tsb) page_num.
         bindr (page_entry bt c (of_nat page_num)) (\<lambda>(index, tag, data).
           add_entry allow ls tsb index tag data bref btref)) (ls, t) [0..<unat (pc_num_pages c)] = Inr (ls', t')"
    by (auto simp: add_block_tsb_to_tsb_def bindr_Inr_iff)
  then have "alloc_ok (snd (ls', t'))"
    by (rule foldr_res_invariant [where P = "\<lambda>s. alloc_ok (snd s)"])
      (use assms(2) in \<open>auto simp: bindr_Inr_iff intro: add_entry_alloc\<close>)
  then show ?thesis by simp
qed

lemma add_block_tsbcsm_alloc:
  assumes "add_block_tsbcsm_to_tsbcsm allow bref btref b bc bt t ls tc = Inr (ls', tc')" and "alloc_ok tc"
  shows "alloc_ok tc'"
proof -
  from assms(1) obtain c where "foldr_res (\<lambda>(ls, tsbcsm) page_num.
         bindr (page_entry bt c (of_nat page_num)) (\<lambda>(index, tag, data).
           add_entry_csm allow ls tsbcsm index tag data (bc_clump_num bc) bref btref)) (ls, tc) [0..<unat (pc_num_pages c)]
      = Inr (ls', tc')"
    by (auto simp: add_block_tsbcsm_to_tsbcsm_def bindr_Inr_iff)
  then have "alloc_ok (snd (ls', tc'))"
    by (rule foldr_res_invariant [where P = "\<lambda>s. alloc_ok (snd s)"])
      (use assms(2) in \<open>auto simp: bindr_Inr_iff intro: add_entry_csm_alloc\<close>)
  then show ?thesis by simp
qed

lemma add_one_tsb_alloc: "add_one_block_tsb allow bref b m p = Inr m' \<Longrightarrow> mmu_alloc m \<Longrightarrow> mmu_alloc m'"
  by (auto simp: add_one_block_tsb_def bindr_Inr_iff mmu_alloc_def dest!: set_update_cases
      elim!: add_block_tsb_alloc)

lemma add_one_tsbcsm_alloc: "add_one_block_tsbcsm allow bref b m p = Inr m' \<Longrightarrow> mmu_alloc m \<Longrightarrow> mmu_alloc m'"
  by (auto simp: add_one_block_tsbcsm_def bindr_Inr_iff mmu_alloc_def dest!: set_update_cases
      elim!: add_block_tsbcsm_alloc)

lemma foldr_res_alloc:
  "foldr_res f m xs = Inr m' \<Longrightarrow> mmu_alloc m \<Longrightarrow> (\<And>m x m'. f m x = Inr m' \<Longrightarrow> mmu_alloc m \<Longrightarrow> mmu_alloc m') \<Longrightarrow> mmu_alloc m'"
  by (erule foldr_res_invariant) auto

lemma add_apps_alloc:
  "add_apps_to_tsbs allow apps m = Inr m' \<Longrightarrow> mmu_alloc m \<Longrightarrow> mmu_alloc m'"
  "add_apps_to_tsbcsms allow apps m = Inr m' \<Longrightarrow> mmu_alloc m \<Longrightarrow> mmu_alloc m'"
  unfolding add_apps_to_tsbs_def add_apps_to_tsbcsms_def app_add_to_tsbs_def [abs_def] app_add_to_tsbcsms_def [abs_def]
    block_add_to_tsbs_def [abs_def] block_add_to_tsbcsms_def [abs_def]
  by (erule foldr_res_alloc; auto elim!: foldr_res_alloc simp: add_one_tsb_alloc add_one_tsbcsm_alloc split: prod.splits)+

section \<open>The run\<close>

lemma process_section_lays:
  assumes mk: "pa_mask (o_pa_size opts) = Inr mk" and ok: "physmap_ok (fst (snd st))"
    and run: "process_section mem opts gi st scn = Inr st'"
  shows "\<exists>out. snd (snd st') = snd (snd st) @ out \<and> lays mk (fst (snd st)) out (fst (snd st'))"
proof -
  obtain a pm out where st: "st = (a, pm, out)" by (cases st)
  have pm: "physmap_ok pm" using ok by (simp add: st)
  have same: "\<exists>o'. out = out @ o' \<and> lays mk pm o' pm" using pm by (simp add: lays_silent)
  have gen: "\<exists>o'. snd y = snd x @ o' \<and> lays mk (fst x) o' (fst y)"
    if "physmap_ok (fst x)" "blk_gen_image_if_match mem opts nm scn x b = Inr y" for x y nm b
  proof -
    have r: "\<exists>o'. snd x = snd x @ o' \<and> lays mk (fst x) o' (fst x)" using that(1) by (simp add: lays_silent)
    show ?thesis using that r block_image_lays [OF that(1) mk]
      by (fastforce simp: blk_gen_image_if_match_def bindr_Inr_iff split: if_splits)
  qed
  have gens: "\<exists>o'. snd y = out @ o' \<and> lays mk pm o' (fst y)"
    if "foldr_res (blk_gen_image_if_match mem opts nm scn) (pm, out) bs = Inr y" for nm bs y
    using foldr_res_lays [where g = fst and h = snd, OF that _ gen] pm by simp
  show ?thesis
  proof (cases "is_loadable scn \<and> sc_name scn \<noteq> None")
    case False
    with run same show ?thesis by (cases "is_loadable scn") (auto simp: st process_section_def)
  next
    case True
    then obtain name where name: "sc_name scn = Some name" by auto
    from run True name obtain bs pm' out' where
      g: "(if gi then foldr_res (blk_gen_image_if_match mem opts name scn) (pm, out) bs else Inr (pm, out)) = Inr (pm', out')"
      and st': "st' = (a\<lparr>a_blocks := bs\<rparr>, pm', out')"
      by (auto simp: st process_section_def bindr_Inr_iff)
    show ?thesis
    proof (cases gi)
      case True
      with g gens [of name bs "(pm', out')"] show ?thesis by (simp add: st st')
    next
      case False
      with g same show ?thesis by (simp add: st st')
    qed
  qed
qed

lemma process_elf_lays:
  assumes mk: "pa_mask (o_pa_size opts) = Inr mk" and ok: "physmap_ok (fst st)"
    and run: "process_elf_file mem opts ef gi a st = Inr (a', st')"
  shows "\<exists>out. snd st' = snd st @ out \<and> lays mk (fst st) out (fst st')"
proof -
  obtain fname scns where "a_elf_file a = Some fname" "ef fname = Some scns"
    using run by (cases "a_elf_file a"; cases "ef (the (a_elf_file a))")
      (auto simp: process_elf_file_def)
  with run obtain a2 where "foldr_res (process_section mem opts gi) (a2, st) scns = Inr (a', st')"
    by (auto simp: process_elf_file_def bindr_Inr_iff Let_def)
  from foldr_res_lays [where g = "fst \<circ> snd" and h = "snd \<circ> snd" and mk = mk, OF this] process_section_lays [OF mk] ok
  show ?thesis by simp
qed

lemma process_apps_lays:
  assumes mk: "pa_mask (o_pa_size opts) = Inr mk" and ok: "physmap_ok pm"
    and run: "process_app_elf_files mem opts ef gi apps pm = Inr (apps', pm', out)"
  shows "lays mk pm out pm'"
proof -
  define f where "f = (\<lambda>(done :: app list, pm, out) a. bindr (process_elf_file mem opts ef gi a (pm, out)) (\<lambda>(a', pm', out').
           Inr (done @ [a'], pm', out')))"
  have step: "\<exists>out. snd (snd s') = snd (snd s) @ out \<and> lays mk (fst (snd s)) out (fst (snd s'))"
    if "physmap_ok (fst (snd s))" and "f s x = Inr s'" for s x s'
    using that process_elf_lays [OF mk]
    by (fastforce simp: f_def bindr_Inr_iff split: prod.splits)
  have "foldr_res f ([], pm, []) apps = Inr (apps', pm', out)"
    using run by (simp add: process_app_elf_files_def f_def)
  from foldr_res_lays [where g = "\<lambda>s. fst (snd s)" and h = "\<lambda>s. snd (snd s)" and mk = mk, OF this] step ok
  show ?thesis by simp
qed

lemma write_mmu_lays:
  assumes ok: "physmap_ok pm" and al: "mmu_alloc m" and w: "write_mmu mem opts apps m pm = Inr (m', pm', out)"
  shows "lays mk pm out pm'"
proof -
  from w obtain m1 pm1 pm2 pm3 o1 o2 o3 o4 where
    fill: "add_apps_to_tsbs (o_allow_conflicts opts) apps m = Inr m1"
      "add_apps_to_tsbcsms (o_allow_conflicts opts) apps m1 = Inr m'" and
    1: "write_tsbs mem (o_suppress_zero opts) (o_env_zero opts) pm (m_tsbs m') = Inr (pm1, o1)" and
    2: "write_tsb_links mem pm1 (m_links m') = Inr (pm2, o2)" and
    3: "write_tsbcsms mem (o_suppress_zero opts) (o_env_zero opts) pm2 (m_tsbcsms m') = Inr (pm3, o3)" and
    4: "write_tsbcsm_links mem pm3 (m_clinks m') = Inr (pm', o4)" and
    out: "out = [Blank, Blank, Note ''MMU IMAGE'', Blank] @ o1 @ o2 @ o3 @ o4"
    by (auto simp: write_mmu_def bindr_Inr_iff)
  have al': "mmu_alloc m'" using add_apps_alloc(2) [OF fill(2) add_apps_alloc(1) [OF fill(1) al]] .
  have g0: "lays mk pm [Blank, Blank, Note ''MMU IMAGE'', Blank] pm" by (rule lays_silent [OF ok]) simp
  have g1: "lays mk pm o1 pm1"
    by (rule write_all_lays [OF 1 [unfolded write_tsbs_def] ok write_tsb_lays]) (use al' in \<open>auto simp: mmu_alloc_def\<close>)
  have g2: "lays mk pm1 o2 pm2"
    by (rule write_all_lays [OF 2 [unfolded write_tsb_links_def] lays_ok [OF g1] write_tsb_link_lays])
  have g3: "lays mk pm2 o3 pm3"
    by (rule write_all_lays [OF 3 [unfolded write_tsbcsms_def] lays_ok [OF g2] write_tsbcsm_lays])
      (use al' in \<open>auto simp: mmu_alloc_def\<close>)
  have g4: "lays mk pm3 o4 pm'"
    by (rule write_all_lays [OF 4 [unfolded write_tsbcsm_links_def] lays_ok [OF g3] write_tsbcsm_link_lays])
  from lays_trans [OF g0 lays_trans [OF g1 lays_trans [OF g2 lays_trans [OF g3 g4]]]] show ?thesis
    by (simp add: out)
qed

text \<open>The tables as \<open>finish_image_file_init\<close> allocates them.\<close>

lemma alloc_entries_ok:
  assumes "alloc_entries mem n size' z = Inr es" and "32 \<le> unat size'"
  shows "length es \<le> unat n \<and> length es < 2 ^ 59"
proof -
  have es: "length es = unat (n * size') div unat size'"
    using assms(1) by (auto simp: alloc_entries_def bindr_Inr_iff Let_def)
  have "unat (n * size') \<le> unat n * unat size'" unfolding unat_word_ariths by simp
  then have "length es \<le> unat n" unfolding es using assms(2) by (metis div_le_mono div_mult_self_is_m less_le_trans zero_less_numeral)
  moreover have "length es * 32 \<le> unat (n * size')"
    unfolding es using assms(2) by (meson div_times_less_eq_dividend le_trans mult_le_mono2)
  moreover have "unat (n * size') < 2 ^ 64" using unat_less_pow2 [of "n * size'"] by simp
  ultimately show ?thesis by simp
qed

lemma finish_alloc:
  "finish_single_tsb_init mem links t = Inr t' \<Longrightarrow> alloc_ok t'"
  "finish_single_tsbcsm_init mem links c = Inr c' \<Longrightarrow> alloc_ok c'"
  by (auto simp: finish_single_tsb_init_def finish_single_tsbcsm_init_def bindr_Inr_iff alloc_ok_def
      split: option.splits dest!: alloc_entries_ok)

lemma map_res_all: "map_res f xs = Inr ys \<Longrightarrow> (\<And>x y. f x = Inr y \<Longrightarrow> P y) \<Longrightarrow> \<forall>y \<in> set ys. P y"
  by (induction xs arbitrary: ys) (auto simp: bindr_Inr_iff)

lemma finish_mmu_alloc:
  assumes "finish_image_file_init mem p = Inr p'"
  shows "mmu_alloc (mmu_of p')"
  using assms
proof -
  from assms obtain v w where v: "map_res (finish_single_tsb_init mem (p_tsb_links p)) (tv_vector (p_tsbs p)) = Inr v"
      "tv_vector (p_tsbs p') = v"
    and w: "map_res (finish_single_tsbcsm_init mem (p_tsbcsm_links p)) (tv_vector (p_tsbcsms p)) = Inr w"
      "tv_vector (p_tsbcsms p') = w"
    by (auto simp: finish_image_file_init_def finish_tsb_init_def finish_tsbcsm_init_def bindr_Inr_iff)
  have "\<forall>t \<in> set v. alloc_ok t" by (rule map_res_all [OF v(1)]) (rule finish_alloc(1))
  moreover have "\<forall>t \<in> set w. alloc_ok t" by (rule map_res_all [OF w(1)]) (rule finish_alloc(2))
  ultimately show ?thesis by (simp add: mmu_alloc_def mmu_of_def v(2) w(2))
qed

lemma run_lays:
  assumes mk: "pa_mask (o_pa_size opts) = Inr mk" and ok: "physmap_ok pm"
    and run: "process_goldfinger_objects mem opts cr ef c pm parsed = Inr r"
  shows "lays mk pm (r_image r) (r_physmap r)"
proof -
  from run obtain p apps pm1 img pm2 img2 where
    f: "finish_image_file_init mem parsed = Inr p" and
    a: "process_app_elf_files mem opts ef (c_genimage c) (av_vector (p_apps p)) pm = Inr (apps, pm1, img)" and
    b: "(if c_gentsbs c
            then bindr (write_mmu mem opts apps (mmu_of p) pm1) (\<lambda>(_, pm2, out). Inr (pm2, img @ out))
            else Inr (pm1, img)) = Inr (pm2, img2)" and
    r: "r_physmap r = pm2" "r_image r = img2"
    by (auto simp: process_goldfinger_objects_def open_output_def bindr_Inr_iff)
  have g: "lays mk pm img pm1" by (rule process_apps_lays [OF mk ok a])
  show ?thesis
  proof (cases "c_gentsbs c")
    case True
    with b obtain m' out where w: "write_mmu mem opts apps (mmu_of p) pm1 = Inr (m', pm2, out)" and i: "img2 = img @ out"
      by (auto simp: bindr_Inr_iff)
    from write_mmu_lays [OF lays_ok [OF g] finish_mmu_alloc [OF f] w] show ?thesis
      unfolding r i by (rule lays_trans [OF g])
  next
    case False
    with b g r show ?thesis by simp
  qed
qed

section \<open>What each region holds\<close>

lemma memory_of_concat:
  assumes i: "i < length wss" and other: "\<And>j. j < length wss \<Longrightarrow> j \<noteq> i \<Longrightarrow> b \<notin> fst ` set (wss ! j)"
  shows "memory_of (concat wss) b = memory_of (wss ! i) b"
proof -
  have split: "concat wss = concat (take i wss) @ wss ! i @ concat (drop (Suc i) wss)"
    using id_take_nth_drop [OF i] by (metis concat.simps(2) concat_append)
  have after: "b \<notin> fst ` set (concat (drop (Suc i) wss))"
  proof
    assume "b \<in> fst ` set (concat (drop (Suc i) wss))"
    then obtain xs where xs: "xs \<in> set (drop (Suc i) wss)" "b \<in> fst ` set xs" by auto
    from xs(1) obtain k where "k < length (drop (Suc i) wss)" "drop (Suc i) wss ! k = xs" unfolding in_set_conv_nth by blast
    then have "Suc i + k < length wss" "wss ! (Suc i + k) = xs" by simp_all
    with xs(2) other [of "Suc i + k"] show False by simp
  qed
  have before: "b \<notin> fst ` set (concat (take i wss))"
  proof
    assume "b \<in> fst ` set (concat (take i wss))"
    then obtain xs where xs: "xs \<in> set (take i wss)" "b \<in> fst ` set xs" by auto
    from xs(1) obtain k where "k < length (take i wss)" "take i wss ! k = xs" unfolding in_set_conv_nth by blast
    then have "k < i" "wss ! k = xs" using i by simp_all
    with xs(2) other [of k] i show False by simp
  qed
  from after before show ?thesis
    unfolding split memory_of_append by (auto simp: memory_of_outside image_Un)
qed

text \<open>With disjoint regions, loading the file leaves in each region what its own object wrote.\<close>

lemma laid_out_memory:
  assumes lay: "laid_out es its"
    and dis: "\<And>i j. i < j \<Longrightarrow> j < length es \<Longrightarrow> region (es ! i) \<inter> region (es ! j) = {}"
  shows "\<exists>wss. load_items a its = concat wss \<and>
     list_all2 (\<lambda>e ws. \<forall>(b, w) \<in> set ws. unat b \<in> region e) es wss \<and>
     (\<forall>i < length es. \<forall>b. unat b \<in> region (es ! i) \<longrightarrow> memory_of (load_items a its) b = memory_of (wss ! i) b)"
proof -
  from lay obtain wss where w: "load_items a its = concat wss"
    and all: "list_all2 (\<lambda>e ws. \<forall>(b, w) \<in> set ws. unat b \<in> region e) es wss"
    unfolding laid_out_def by blast
  have len: "length wss = length es" using all by (simp add: list_all2_lengthD)
  have key: "unat b \<in> region (es ! j)" if "j < length es" "b \<in> fst ` set (wss ! j)" for b j
    using list_all2_nthD [OF all that(1)] that(2) by auto
  have "memory_of (concat wss) b = memory_of (wss ! i) b" if i: "i < length es" and b: "unat b \<in> region (es ! i)" for i b
  proof (rule memory_of_concat)
    show "i < length wss" using i len by simp
    show "b \<notin> fst ` set (wss ! j)" if j: "j < length wss" "j \<noteq> i" for j
    proof
      assume "b \<in> fst ` set (wss ! j)"
      then have "unat b \<in> region (es ! j)" using key j len by simp
      moreover have "region (es ! i) \<inter> region (es ! j) = {}"
        using dis [of i j] dis [of j i] i j len by (cases "i < j") auto
      ultimately show False using b by blast
    qed
  qed
  with w all show ?thesis by (intro exI [of _ wss]) simp
qed

lemma file_run_layout:
  assumes run: "process_goldfinger_file env c = Inr r"
    and pa: "\<And>t p q n. e_yyparse env t p = Inr (q, n) \<Longrightarrow> n = pa_size" "pa_mask pa_size = Inr mk"
    and low: "list_all (\<lambda>e. pm_start e AND mk = pm_start e) (vec_list (r_physmap r))"
  shows "laid_out (vec_list (r_physmap r)) (r_image r)"
proof -
  from run obtain t pm p0 parsed n where i: "init_image_file_data_structures (e_mem env) empty_objects = Inr (pm, p0)"
    and y: "e_yyparse env t p0 = Inr (parsed, n)"
    and r: "process_goldfinger_objects (e_mem env) (opts_of (e_little env) n c) (e_creat env) (e_elf env)
         c pm parsed = Inr r"
    unfolding process_goldfinger_file_def enter_dir_def bindr_Inr_iff errif_Inr_iff
    by (auto simp: bindr_Inr_iff)
  have n: "pa_mask (o_pa_size (opts_of (e_little env) n c)) = Inr mk"
    using pa(1) [OF y] pa(2) by (simp add: opts_of_def)
  from i have "init_physmap (e_mem env) = Inr pm" by (auto simp: init_image_file_data_structures_def)
  with init_physmap_ok have ok: "physmap_ok pm" "vec_list pm = []" by auto
  from run_lays [OF n ok(1) r] show ?thesis using low by (auto simp: lays_def ok(2))
qed

end
