(* ===== verification/GF_Tail.thy ===== *)
theory GF_Tail
  imports GF_Block
begin

text \<open>
  The end of a block whose length is not a multiple of a line. The last, partial line of
  \<open>block_generate_image\<close> is not tested for zeroes; the flag \<open>zero_line\<close> is still that of
  the line before it, so after a compressed run no address line precedes it. What the file
  places then follows the last line that was printed.
\<close>

section \<open>The partial line\<close>

text \<open>The \<open>r\<close> words from position \<open>j\<close> in pairs; a missing last word is read as zero.\<close>

definition tail_pairs :: "u8 list \<Rightarrow> nat \<Rightarrow> nat \<Rightarrow> (u32 \<times> u32) list" where
  "tail_pairs buf j r =
     map (\<lambda>t. (be32 buf (j + 2 * t), if 2 * t + 1 < r then be32 buf (j + 2 * t + 1) else 0)) [0..<(r + 1) div 2]"

lemma tail_pairs_small:
  "tail_pairs buf j (Suc 0) = [(be32 buf j, 0)]"
  "tail_pairs buf j (Suc (Suc 0)) = [(be32 buf j, be32 buf (j + 1))]"
  by (simp_all add: tail_pairs_def)

lemma tail_pairs_step:
  assumes "0 < r"
  shows "tail_pairs buf j (Suc (Suc r)) = (be32 buf j, be32 buf (j + 1)) # tail_pairs buf (j + 2) r"
proof -
  have n: "(Suc (Suc r) + 1) div 2 = Suc ((r + 1) div 2)" by simp
  have u: "[0..<Suc k] = 0 # map Suc [0..<k]" for k by (simp add: upt_conv_Cons map_Suc_upt del: upt_Suc)
  show ?thesis unfolding tail_pairs_def n u by (simp add: comp_def del: upt_Suc)
qed

lemma image_word_beyond: "words \<le> i \<Longrightarrow> image_word little buf base words i = Inr 0"
  by (simp add: image_word_def)

lemma line_pairs_tail:
  "0 < r \<Longrightarrow> (r + 1) div 2 \<le> n \<Longrightarrow> words = i + r \<Longrightarrow> 4 * (base + words) \<le> length buf \<Longrightarrow>
   \<exists>brk. line_pairs little buf base words i n = Inr (tail_pairs buf (base + i) r, brk)"
proof (induction n arbitrary: i r)
  case (Suc n)
  have w0: "image_word little buf base words i = Inr (be32 buf (base + i))"
    by (rule image_word_ok) (use Suc.prems in simp_all)
  consider "r = Suc 0" | "r = Suc (Suc 0)" | q where "r = Suc (Suc q)" "0 < q"
    using Suc.prems(1) by (metis not0_implies_Suc not_gr_zero)
  then show ?case
  proof cases
    case 1
    then have "image_word little buf base words (i + 1) = Inr 0"
      using Suc.prems by (intro image_word_beyond) simp
    with 1 w0 Suc.prems show ?thesis
      by (cases n) (auto simp: tail_pairs_small intro: exI [of _ False] exI [of _ True])
  next
    case 2
    have "image_word little buf base words (i + 1) = Inr (be32 buf (base + (i + 1)))"
      by (rule image_word_ok) (use 2 Suc.prems in simp_all)
    with 2 w0 Suc.prems show ?thesis
      by (cases n) (auto simp: tail_pairs_small intro: exI [of _ False] exI [of _ True])
  next
    case 3
    have w1: "image_word little buf base words (i + 1) = Inr (be32 buf (base + (i + 1)))"
      by (rule image_word_ok) (use 3 Suc.prems in simp_all)
    have "\<exists>brk. line_pairs little buf base words (i + 2) n = Inr (tail_pairs buf (base + (i + 2)) q, brk)"
      by (rule Suc.IH) (use 3 Suc.prems in simp_all)
    with 3 w0 w1 Suc.prems show ?thesis by (auto simp: tail_pairs_step)
  qed
qed simp

section \<open>The loop\<close>

text \<open>The line behind the last one printed before line \<open>k\<close>.\<close>

fun run_start :: "gen_ctx \<Rightarrow> nat \<Rightarrow> nat" where
  "run_start c 0 = 0"
| "run_start c (Suc k) = (if g_compress c \<and> zero_run (g_buf c) (g_base c + 8 * k) 8 then run_start c k else Suc k)"

lemma run_start_le: "run_start c k \<le> k"
  by (induction k) auto

lemma run_start_plain: "\<not> g_compress c \<Longrightarrow> run_start c k = k"
  by (cases k) auto

lemma run_start_run:
  assumes "g_compress c" and "k = 0 \<or> \<not> zero_run (g_buf c) (g_base c + 8 * (k - 1)) 8"
  shows "(\<And>i. k \<le> i \<Longrightarrow> i < k + d \<Longrightarrow> zero_run (g_buf c) (g_base c + 8 * i) 8) \<Longrightarrow> run_start c (k + d) = k"
proof (induction d)
  case 0
  then show ?case using assms by (cases k) auto
next
  case (Suc d)
  have "zero_run (g_buf c) (g_base c + 8 * (k + d)) 8" by (rule Suc.prems) simp_all
  moreover have "run_start c (k + d) = k" by (rule Suc.IH) (rule Suc.prems, simp_all)
  ultimately show ?case using assms(1) by simp
qed

definition tail_words :: "gen_ctx \<Rightarrow> nat \<Rightarrow> nat \<Rightarrow> (addr_t \<times> u64) list" where
  "tail_words c m r = place (g_start_pa c + of_nat (32 * run_start c m))
     (map word_pair (tail_pairs (g_buf c) (g_base c + 8 * m) r))"

lemma gen_lines_tail:
  assumes words: "g_words c = 8 * m + r" and r: "0 < r" "r < 8"
    and len: "4 * (g_base c + g_words c) \<le> length (g_buf c)" and small: "8 * m + 8 < 2 ^ 31"
  shows "k \<le> m \<Longrightarrow> line_pa s = g_start_pa c + of_nat (32 * k) \<Longrightarrow>
     a = g_start_pa c + of_nat (32 * run_start c k) \<Longrightarrow> doing_compress s = (run_start c k < k) \<Longrightarrow>
     (doing_compress s \<longrightarrow> zero_line s) \<Longrightarrow>
     \<exists>out s'. gen_lines c (8 * k) s = Inr (out, s') \<and>
       load_items a out = concat (map (line_words c) [k..<m]) @ tail_words c m r"
proof (induction "m - k" arbitrary: k s a)
  case 0
  then have k: "k = m" by simp
  have g: "int_ok (int (8 * m))" "int_ok (int (8 * m) + 7)" "\<not> 8 * m \<ge> g_words c" "\<not> 8 * m + 7 < g_words c"
    using words r small by (auto simp: int_ok_def)
  have r4: "(r + 1) div 2 \<le> 4" using r by presburger
  obtain brk where lp: "line_pairs (g_little c) (g_buf c) (g_base c) (g_words c) (8 * m) 4 =
      Inr (tail_pairs (g_buf c) (g_base c + 8 * m) r, brk)"
    using line_pairs_tail [OF r(1) r4 words len] by blast
  have "int_ok (int (8 * m + 8))" using small by (simp add: int_ok_def)
  then have rest: "gen_lines c (8 * m + 8) u = Inr ([], u)" for u
    using words r by (subst gen_lines.simps) simp
  have nopre: "\<not> (doing_compress s \<and> \<not> zero_line s)" using 0 by blast
  have "\<exists>s'. gen_lines c (8 * m) s = Inr ([Row32 (tail_pairs (g_buf c) (g_base c + 8 * m) r)], s')"
    using g lp rest nopre by (subst gen_lines.simps) (cases brk; simp add: Let_def)
  with 0 show ?case unfolding k by (auto simp: tail_words_def)
next
  case (Suc d)
  then have km: "k < m" and d: "d = m - Suc k" "Suc k \<le> m" by auto
  have upt: "[k..<m] = k # [Suc k..<m]" using km by (simp add: upt_conv_Cons)
  have guards: "int_ok (int (8 * k))" "\<not> 8 * k \<ge> g_words c" "int_ok (int (8 * k) + 7)" "8 * k + 7 < g_words c"
    using km words small by (auto simp: int_ok_def)
  define z where "z = zero_run (g_buf c) (g_base c + 8 * k) 8"
  have room: "4 * (g_base c + 8 * k + 8) \<le> length (g_buf c)" using len words km by simp
  have zw: "zero_words (g_little c) (g_buf c) (g_base c) (8 * k) 8 = Inr z"
    unfolding z_def by (rule zero_words_ok) (use room in simp)
  define ps where "ps = be_pairs (g_buf c) (g_base c + 8 * k) 4"
  have lp: "line_pairs (g_little c) (g_buf c) (g_base c) (g_words c) (8 * k) 4 = Inr (ps, False)"
    unfolding ps_def by (rule line_pairs_ok) (use km words len in auto)
  have lps: "length ps = 4" by (simp add: ps_def be_pairs_def)
  define pre where "pre = (if doing_compress s \<and> \<not> z
      then end_of_run (g_env_zero c) (printed_data s) (last_addr s) (g_start_pa c) (line_pa s)
           @ [At (line_pa s) (from_compressed (g_start_pa c))] else [])"
  define s1 where "s1 = s\<lparr>zero_line := z, doing_compress := doing_compress s \<and> z\<rparr>"
  have next_i: "8 * k + 8 = 8 * Suc k" by simp
  note unfold_once = gen_lines.simps [of c "8 * k" s]
  have pa: "line_pa s + 32 = g_start_pa c + of_nat (32 * Suc k)" using Suc.prems(2) by simp
  have lt: "run_start c k < Suc k" using run_start_le [of c k] by simp
  show ?case
  proof (cases "g_compress c \<and> z")
    case True
    define s2 where "s2 = s1\<lparr>last_addr := (if doing_compress s1 then last_addr s1 else line_pa s1),
                         doing_compress := True, line_pa := line_pa s1 + 32\<rparr>"
    have rs: "run_start c (Suc k) = run_start c k" using True by (simp add: z_def)
    from Suc.hyps(1) [OF d, of s2 a] True pa Suc.prems(3) rs lt
    obtain out s' where out: "gen_lines c (8 * Suc k) s2 = Inr (out, s')"
      and load: "load_items a out = concat (map (line_words c) [Suc k..<m]) @ tail_words c m r"
      by (auto simp: s2_def s1_def)
    have "gen_lines c (8 * k) s = Inr (out, s')"
      using True guards zw unfold_once out
      by (cases "doing_compress s") (simp_all add: next_i s1_def s2_def Let_def)
    moreover have "line_words c k = []" using True by (simp add: line_words_def z_def)
    ultimately show ?thesis using load by (simp add: upt)
  next
    case False
    define s2 where "s2 = s1\<lparr>printed_data := True, line_pa := line_pa s1 + 32\<rparr>"
    have rs: "run_start c (Suc k) = Suc k" using False by (auto simp: z_def)
    have nd: "\<not> (doing_compress s \<and> z)"
      using False Suc.prems(4) run_start_plain [of c k] by auto
    from Suc.hyps(1) [OF d, of s2 "line_pa s + 32"] pa nd rs
    obtain out s' where out: "gen_lines c (8 * Suc k) s2 = Inr (out, s')"
      and load: "load_items (line_pa s + 32) out = concat (map (line_words c) [Suc k..<m]) @ tail_words c m r"
      by (auto simp: s2_def s1_def simp del: run_start.simps)
    have eq: "gen_lines c (8 * k) s = Inr (pre @ Row32 ps # out, s')"
      using False guards zw lp unfold_once out
      by (auto simp: next_i s1_def s2_def pre_def Let_def)
    have al: "a = line_pa s" if "\<not> doing_compress s"
      using that Suc.prems(2-4) run_start_le [of c k] by simp
    have pre: "load_items a pre = []" "load_loc a pre = line_pa s"
      using al nd by (auto simp: pre_def load_items_append load_loc_append)
    have "line_words c k = place (line_pa s) (map word_pair ps)"
      using False Suc.prems(2) by (auto simp: line_words_def z_def ps_def)
    with eq pre load lps show ?thesis
      by (simp add: load_items_append upt)
  qed
qed

section \<open>The image of the block\<close>

lemma block_image_tail:
  assumes gen: "block_generate_image mem little pa_size True env_zero pm b scn = Inr (pm', out)"
    and img: "b_in_image b \<noteq> 0" and comp: "b_compress b \<noteq> 0"
    and pa: "pa_mask pa_size = Inr mk" "b_pa b AND mk = b_pa b"
    and off: "unat (b_d_offset b) = 4 * base" and words: "unat (b_d_length b) div 4 = 8 * m + r" "0 < r" "r < 8"
    and inside: "4 * (base + 8 * m + r) \<le> length (image_buf scn b)" and small: "unat (b_d_length b) < 2 ^ 32"
    and run: "k \<le> m" "\<And>i. k \<le> i \<Longrightarrow> i < m \<Longrightarrow> zero_run (image_buf scn b) (base + 8 * i) 8"
      "k = 0 \<or> \<not> zero_run (image_buf scn b) (base + 8 * (k - 1)) 8"
  shows "load_items a out =
    map (\<lambda>j. (b_pa b + of_nat (8 * j), be64 (image_buf scn b) (4 * base + 8 * j)))
      (filter (\<lambda>j. \<not> zero_run (image_buf scn b) (base + 8 * (j div 4)) 8) [0 ..< 4 * k]) @
    place (b_pa b + of_nat (32 * k)) (map word_pair (tail_pairs (image_buf scn b) (base + 8 * m) r))"
proof -
  define c where "c = \<lparr>g_little = little, g_buf = image_buf scn b, g_base = base, g_words = 8 * m + r,
      g_compress = True, g_env_zero = env_zero, g_start_pa = b_pa b\<rparr>"
  define s0 where "s0 = \<lparr>zero_line = False, doing_compress = False, line_pa = b_pa b, last_addr = b_pa b,
                    printed_data = False\<rparr>"
  have w: "unat (b_d_offset b div 4) = base" "unat (b_d_length b div 4) = 8 * m + r"
    by (simp_all add: unat_div off words(1))
  have buf: "(if sc_type scn = SHT_NOBITS
               then let total_bytes = max (sc_size scn) (b_d_length b) in
                    bindr (gf_malloc mem (uint total_bytes)) (\<lambda>_. Inr (replicate (unat total_bytes) 0))
               else Inr (sc_buf scn)) = Inr buf \<Longrightarrow> buf = image_buf scn b" for buf
    by (auto simp: image_buf_def Let_def bindr_Inr_iff split: if_splits)
  from gen img comp obtain lines s where gl: "gen_lines c 0 s0 = Inr (lines, s)"
    and out: "out = [Blank, At (b_pa b) (''Section '' @ quoted (b_section_name b) @
                     '', segment '' @ quoted (b_segment_name b))] @ lines @
            (if doing_compress s \<and> env_zero then [Note (zero_bytes (line_pa s - last_addr s)), Blank] else [])"
    unfolding block_generate_image_def Let_def pa bindr_Inr_iff
    by (auto simp: bindr_Inr_iff w c_def s0_def pa(2) dest!: buf [unfolded Let_def] simp del: quoted_def)
  have m8: "8 * m + 8 < 2 ^ 31" 
  proof -
    have "unat (b_d_length b) div 4 < 2 ^ 30" using small by (intro less_mult_imp_div_less) simp
    then show ?thesis using words(1) by simp
  qed
  have "\<exists>out' s'. gen_lines c (8 * 0) s0 = Inr (out', s') \<and>
       load_items (b_pa b) out' = concat (map (line_words c) [0..<m]) @ tail_words c m r"
    by (rule gen_lines_tail [OF _ words(2,3)]) (use m8 inside in \<open>simp_all add: c_def s0_def\<close>)
  with gl have load: "load_items (b_pa b) lines = concat (map (line_words c) [0..<m]) @ tail_words c m r" by simp
  have "run_start c (k + (m - k)) = k"
    by (rule run_start_run) (use run in \<open>auto simp: c_def\<close>)
  then have rs: "run_start c m = k" using run(1) by simp
  have none: "concat (map (line_words c) [k..<m]) = []"
    using run(2) by (auto simp: line_words_def c_def)
  have "[0..<m] = [0..<k] @ [k..<m]" using run(1) upt_add_eq_append [of 0 k "m - k"] by simp
  then have "concat (map (line_words c) [0..<m]) = concat (map (line_words c) [0..<k])" by (simp add: none)
  also have "\<dots> = map (\<lambda>j. (b_pa b + of_nat (8 * j), be64 (image_buf scn b) (4 * base + 8 * j)))
      (filter (\<lambda>j. \<not> zero_run (image_buf scn b) (base + 8 * (j div 4)) 8) [0 ..< 4 * k])"
    by (rule concat_lines) (simp add: line_words_def c_def be_pairs_line [OF refl])
  finally have full: "concat (map (line_words c) [0..<m]) = map (\<lambda>j. (b_pa b + of_nat (8 * j), be64 (image_buf scn b) (4 * base + 8 * j)))
      (filter (\<lambda>j. \<not> zero_run (image_buf scn b) (base + 8 * (j div 4)) 8) [0 ..< 4 * k])" .
  have "tail_words c m r = place (b_pa b + of_nat (32 * k)) (map word_pair (tail_pairs (image_buf scn b) (base + 8 * m) r))"
    unfolding tail_words_def rs by (simp add: c_def)
  with load full show ?thesis by (simp add: out load_items_append)
qed

end
