(* ===== verification/PLI_B_Ary.thy ===== *)
theory PLI_B_Ary
  imports GF_Prelude
begin

text \<open>
  \<open>src/piton/tools/pli/iop/b_ary.c\<close>: the B-tree in which the simulated memory controller keeps
  the 64-byte lines of memory. A node has room for four atoms (slots 1 to 4 of \<open>data\<close>) and five
  children (slots 0 to 4 of \<open>child\<close>); a slot behind \<open>size\<close> holds whatever was last written there, so
  the arrays are kept whole and a cell distinguishes an uninitialised slot (\<open>Junk\<close>) from NULL.
  The tree is the sole owner of its nodes, so a child pointer is the child itself; the \<open>parent\<close>
  pointers are written and never read, and only the reads their updates make are modelled.

  The lemmas show that the operations refine those of a finite map kept as a sorted list.
\<close>

section \<open>Data\<close>

text \<open>The bytes of an atom come from \<open>malloc\<close>: \<open>None\<close> is a byte never written.\<close>

type_synonym KeyType = "64 word"

record b_tree_atom =
  key :: KeyType
  atom_size :: int
  atom_data :: "u8 option list"

definition B_TREE_ORDER :: int where "B_TREE_ORDER = 2"
definition B_TREE_MAX :: int where "B_TREE_MAX = 4"

datatype 'n cell = Junk | Null | Ptr 'n

datatype b_tree_node =
  Node (nsize: int) (ndata: "b_tree_atom option list") (nchild: "b_tree_node cell list")

lemma child_smaller: "i < length cs \<Longrightarrow> cs ! i = Ptr m \<Longrightarrow> size m < size (Node s ds cs)"
proof -
  assume i: "i < length cs" and m: "cs ! i = Ptr m"
  have "Ptr m \<in> set cs" using nth_mem [OF i] m by simp
  moreover have "size m < size_cell size (Ptr m)" by simp
  ultimately have "size m < size_list (size_cell size) cs" by (rule size_list_estimation)
  then show ?thesis by simp
qed

lemma nchild_smaller: "nchild n ! i = Ptr m \<Longrightarrow> i < length (nchild n) \<Longrightarrow> size m < size n"
  using child_smaller by (cases n) auto

definition b_create :: b_tree_node where
  "b_create = Node 0 (replicate 5 None) (replicate 5 Null @ [Junk])"

text \<open>A node fresh from \<open>malloc\<close>; its size is set at once.\<close>

definition raw_node :: "int \<Rightarrow> b_tree_node" where
  "raw_node s = Node s (replicate 5 None) (replicate 6 Junk)"

section \<open>Slots\<close>

definition atom_at :: "b_tree_node \<Rightarrow> int \<Rightarrow> b_tree_atom res" where
  "atom_at n i = (if 0 \<le> i then bindr (nth_res (ndata n) (nat i)) the_res else Inl Undef)"

definition child_at :: "b_tree_node \<Rightarrow> int \<Rightarrow> b_tree_node cell res" where
  "child_at n i = (if 0 \<le> i then bindr (nth_res (nchild n) (nat i))
     (\<lambda>c. if c = Junk then Inl Undef else Inr c) else Inl Undef)"

definition set_atom :: "int \<Rightarrow> b_tree_atom option \<Rightarrow> b_tree_node \<Rightarrow> b_tree_node res" where
  "set_atom i a n = (if 0 \<le> i \<and> nat i < length (ndata n)
     then Inr (Node (nsize n) ((ndata n)[nat i := a]) (nchild n)) else Inl Undef)"

definition set_child :: "int \<Rightarrow> b_tree_node cell \<Rightarrow> b_tree_node \<Rightarrow> b_tree_node res" where
  "set_child i c n = (if 0 \<le> i \<and> nat i < length (nchild n)
     then Inr (Node (nsize n) (ndata n) ((nchild n)[nat i := c])) else Inl Undef)"

definition set_size :: "int \<Rightarrow> b_tree_node \<Rightarrow> b_tree_node" where
  "set_size s n = Node s (ndata n) (nchild n)"

text \<open>\<open>b_copy\<close> moves slot by slot, upwards or downwards; \<open>same\<close> tells that both arguments are the
  same node, so that a later step reads what an earlier one wrote.\<close>

definition copy_slot :: "b_tree_node \<Rightarrow> int \<Rightarrow> b_tree_node \<Rightarrow> int \<Rightarrow> b_tree_node res" where
  "copy_slot p j q i =
     (if 0 \<le> j \<and> nat j < length (ndata p)
      then bindr (set_atom i (ndata p ! nat j) q) (set_child i (nchild p ! nat j))
      else Inl Undef)"

definition b_copy :: "bool \<Rightarrow> b_tree_node \<Rightarrow> int \<Rightarrow> int \<Rightarrow> b_tree_node \<Rightarrow> int \<Rightarrow> int \<Rightarrow> b_tree_node res" where
  "b_copy same p pLo pHi q qLo qHi =
     (if pHi - pLo = qHi - qLo \<and> qLo \<le> qHi
      then if qLo < pLo
           then foldr_res (\<lambda>q i. copy_slot (if same then q else p) (i - qLo + pLo) q i) q [qLo..qHi]
           else foldr_res (\<lambda>q i. copy_slot (if same then q else p) (i - qHi + pHi) q i) q (rev [qLo..qHi])
      else Inr q)"

section \<open>Searching a node\<close>

function scan_loop :: "b_tree_node \<Rightarrow> KeyType \<Rightarrow> int \<Rightarrow> int \<Rightarrow> int res" where
  "scan_loop node k low high =
     (if low < high
      then let middle = (low + high + 1) div 2 in
           bindr (atom_at node middle) (\<lambda>a.
             if k < key a then scan_loop node k low (middle - 1) else scan_loop node k middle high)
      else Inr low)"
  by pat_completeness auto
termination
  by (relation "measure (\<lambda>(_, _, low, high). nat (high - low))") auto

declare scan_loop.simps [simp del]

text \<open>The result and the index written through \<open>low\<close>.\<close>

definition b_scanNode :: "b_tree_node \<Rightarrow> KeyType \<Rightarrow> (bool \<times> int) res" where
  "b_scanNode node k =
     bindr (scan_loop node k 0 (nsize node)) (\<lambda>low.
       if low = 0 then Inr (False, low)
       else bindr (atom_at node low) (\<lambda>a. Inr (key a = k, low)))"

section \<open>Adding to a node\<close>

text \<open>\<open>node\<close>, \<open>rp\<close> and \<open>promoted\<close> are the results, in this order; \<open>promoted\<close> is only written when the
  node is split.\<close>

definition b_addData ::
  "b_tree_atom \<Rightarrow> int \<Rightarrow> b_tree_node \<Rightarrow> b_tree_node cell \<Rightarrow> b_tree_atom option
   \<Rightarrow> (b_tree_node \<times> b_tree_node cell \<times> b_tree_atom option) res"
where
  "b_addData atom index node rp promoted =
     (if nsize node < B_TREE_MAX
      then bindr (if index < nsize node
                  then b_copy True node (index + 1) (nsize node) node (index + 2) (nsize node + 1)
                  else Inr node) (\<lambda>node1.
           bindr (set_atom (index + 1) (Some atom) (set_size (nsize node1 + 1) node1)) (\<lambda>node2.
           bindr (set_child (index + 1) rp node2) (\<lambda>node3. Inr (node3, Null, promoted))))
      else
        let right = raw_node B_TREE_ORDER; left = set_size B_TREE_ORDER node in
        if index \<le> B_TREE_ORDER
        then bindr (b_copy False left (B_TREE_ORDER + 1) B_TREE_MAX right 1 B_TREE_ORDER) (\<lambda>right1.
             if index = B_TREE_ORDER
             then bindr (set_child 0 rp right1) (\<lambda>right2. Inr (left, Ptr right2, Some atom))
             else bindr (atom_at left B_TREE_ORDER) (\<lambda>mid.
                  bindr (child_at left B_TREE_ORDER) (\<lambda>c.
                  bindr (set_child 0 c right1) (\<lambda>right2.
                  bindr (b_copy True left (index + 1) (B_TREE_ORDER - 1) left (index + 2) B_TREE_ORDER) (\<lambda>left1.
                  bindr (set_atom (index + 1) (Some atom) left1) (\<lambda>left2.
                  bindr (set_child (index + 1) rp left2) (\<lambda>left3. Inr (left3, Ptr right2, Some mid))))))))
        else bindr (child_at left (B_TREE_ORDER + 1)) (\<lambda>c.
             bindr (set_child 0 c right) (\<lambda>right1.
             bindr (atom_at left (B_TREE_ORDER + 1)) (\<lambda>mid.
             bindr (b_copy False left (B_TREE_ORDER + 2) index right1 1 (index - B_TREE_ORDER - 1)) (\<lambda>right2.
             bindr (set_atom (index - B_TREE_ORDER) (Some atom) right2) (\<lambda>right3.
             bindr (set_child (index - B_TREE_ORDER) rp right3) (\<lambda>right4.
             bindr (b_copy False left (index + 1) B_TREE_MAX right4 (index - B_TREE_ORDER + 1) B_TREE_ORDER)
               (\<lambda>right5. Inr (left, Ptr right5, Some mid)))))))))"

section \<open>Insertion and search\<close>

text \<open>The updates of the \<open>parent\<close> pointers read three child slots of both nodes.\<close>

definition update_parents :: "b_tree_node \<Rightarrow> b_tree_node cell \<Rightarrow> unit res" where
  "update_parents node rp =
     (case rp of
        Ptr m \<Rightarrow> foldr_res (\<lambda>_ i. bindr (child_at node i) (\<lambda>_. bindr (child_at m i) (\<lambda>_. Inr ()))) () [0..B_TREE_ORDER]
      | _ \<Rightarrow> Inl Undef)"

function b_recursiveInsert ::
  "b_tree_node \<Rightarrow> b_tree_atom option \<Rightarrow> b_tree_node cell \<Rightarrow> b_tree_atom
   \<Rightarrow> (b_tree_node \<times> b_tree_atom option \<times> b_tree_node cell) res"
where
  "b_recursiveInsert node promoted rp atom =
     bindr (b_scanNode node (key atom)) (\<lambda>(found, index).
       if found then Inr (node, promoted, rp)
       else if \<not> (0 \<le> index \<and> nat index < length (nchild node)) then Inl Undef
       else case nchild node ! nat index of
         Junk \<Rightarrow> Inl Undef
       | Null \<Rightarrow> bindr (b_addData atom index node rp promoted) (\<lambda>(node', rp', promoted').
                  Inr (node', promoted', rp'))
       | Ptr m \<Rightarrow>
           bindr (b_recursiveInsert m promoted rp atom) (\<lambda>(m', promoted1, rp1).
           bindr (set_child index (Ptr m') node) (\<lambda>node1.
             if rp1 = Null then Inr (node1, promoted1, rp1)
             else bindr (update_parents node1 rp1) (\<lambda>_.
                  bindr (the_res promoted1) (\<lambda>p.
                  bindr (b_scanNode node1 (key p)) (\<lambda>(_, index1).
                  bindr (b_addData p index1 node1 rp1 promoted1) (\<lambda>(node2, rp2, promoted2).
                  bindr (if rp2 = Null then Inr () else update_parents node2 rp2) (\<lambda>_.
                    Inr (node2, promoted2, rp2)))))))))"
  by pat_completeness auto
termination
  by (relation "measure (\<lambda>(n, _). size n)") (auto simp: nchild_smaller)

declare b_recursiveInsert.simps [simp del]

definition b_insert :: "b_tree_node \<Rightarrow> b_tree_atom \<Rightarrow> b_tree_node res" where
  "b_insert root atom =
     bindr (b_recursiveInsert root None Null atom) (\<lambda>(root', promoted, rp).
       if rp = Null then Inr root'
       else bindr (the_res promoted) (\<lambda>p.
            bindr (set_child 0 (Ptr root') (set_size 1 b_create)) (\<lambda>r1.
            bindr (set_atom 1 (Some p) r1) (set_child 1 rp))))"

function b_Find :: "b_tree_node \<Rightarrow> KeyType \<Rightarrow> b_tree_atom option res" where
  "b_Find p k =
     bindr (b_scanNode p k) (\<lambda>(found, index).
       if found then bindr (atom_at p index) (\<lambda>a. Inr (Some a))
       else if \<not> (0 \<le> index \<and> nat index < length (nchild p)) then Inl Undef
       else case nchild p ! nat index of
         Junk \<Rightarrow> Inl Undef
       | Null \<Rightarrow> Inr None
       | Ptr m \<Rightarrow> b_Find m k)"
  by pat_completeness auto
termination
  by (relation "measure (\<lambda>(n, _). size n)") (auto simp: nchild_smaller)

declare b_Find.simps [simp del]

section \<open>Nodes as lists\<close>

text \<open>The arrays of a node have their lengths, and every slot the size covers is written; so are the
  first three child slots, which the updates of the \<open>parent\<close> pointers read.\<close>

definition shape :: "int \<Rightarrow> b_tree_node \<Rightarrow> bool" where
  "shape lo n \<longleftrightarrow> length (ndata n) = 5 \<and> length (nchild n) = 6 \<and> 0 \<le> nsize n \<and> lo \<le> nsize n \<and> nsize n \<le> 4 \<and>
     list_all (\<lambda>x. x \<noteq> None) (take (nat (nsize n)) (tl (ndata n))) \<and>
     list_all (\<lambda>c. c \<noteq> Junk) (take (Suc (max 2 (nat (nsize n)))) (nchild n))"

definition entries :: "b_tree_node \<Rightarrow> (b_tree_atom \<times> b_tree_node cell) list" where
  "entries n = zip (map the (take (nat (nsize n)) (tl (ndata n)))) (take (nat (nsize n)) (tl (nchild n)))"

lemma length_entries: "shape lo n \<Longrightarrow> length (entries n) = nat (nsize n)"
  by (auto simp: entries_def shape_def)

lemma length5: "length xs = 5 \<longleftrightarrow> (\<exists>a b c d e. xs = [a, b, c, d, e])"
  by (auto simp: eval_nat_numeral length_Suc_conv)

lemma length6: "length xs = 6 \<longleftrightarrow> (\<exists>a b c d e f. xs = [a, b, c, d, e, f])"
  by (auto simp: eval_nat_numeral length_Suc_conv)

lemma replicate_slots: "replicate 5 x = [x, x, x, x, x]" "replicate 6 x = [x, x, x, x, x, x]"
  by (simp_all add: eval_nat_numeral)

lemmas slot_simps = set_atom_def set_child_def set_size_def atom_at_def child_at_def nth_res_def the_res_def
  bindr_def copy_slot_def b_copy_def B_TREE_MAX_def B_TREE_ORDER_def raw_node_def

lemma add_with_room:
  assumes n: "shape lo n" and room: "nsize n < 4" and i: "0 \<le> i" "i \<le> nsize n" and rp: "rp \<noteq> Junk"
  shows "\<exists>n'. b_addData a i n rp pr = Inr (n', Null, pr) \<and> shape lo n' \<and> nsize n' = nsize n + 1 \<and>
     nchild n' ! 0 = nchild n ! 0 \<and> entries n' = take (nat i) (entries n) @ (a, rp) # drop (nat i) (entries n)"
proof -
  obtain s ds cs where ns: "n = Node s ds cs" by (cases n)
  from n obtain d0 d1 d2 d3 d4 c0 c1 c2 c3 c4 c5 where
    arr: "ds = [d0, d1, d2, d3, d4]" "cs = [c0, c1, c2, c3, c4, c5]"
    unfolding shape_def ns by (auto simp: length5 length6)

  have "s = 0 \<and> i = 0 \<or> s = 1 \<and> i = 0 \<or> s = 1 \<and> i = 1 \<or> s = 2 \<and> i = 0 \<or> s = 2 \<and> i = 1 \<or> s = 2 \<and> i = 2 \<or>
     s = 3 \<and> i = 0 \<or> s = 3 \<and> i = 1 \<or> s = 3 \<and> i = 2 \<or> s = 3 \<and> i = 3"
    using n room i by (simp add: shape_def ns) presburger
  then show ?thesis
    by (elim disjE conjE) (use n rp in \<open>simp add: ns arr b_addData_def slot_simps shape_def entries_def upto.simps\<close>)+
qed

lemma add_when_full:
  assumes n: "shape lo n" and full: "nsize n = 4" and i: "0 \<le> i" "i \<le> 4" and rp: "rp \<noteq> Junk"
  shows "\<exists>n' m p. b_addData a i n rp pr = Inr (n', Ptr m, Some p) \<and> shape 2 n' \<and> shape 2 m \<and>
     nchild n' ! 0 = nchild n ! 0 \<and>
     entries n' @ (p, nchild m ! 0) # entries m = take (nat i) (entries n) @ (a, rp) # drop (nat i) (entries n)"
proof -
  obtain s ds cs where ns: "n = Node s ds cs" by (cases n)
  from n obtain d0 d1 d2 d3 d4 c0 c1 c2 c3 c4 c5 where
    arr: "ds = [d0, d1, d2, d3, d4]" "cs = [c0, c1, c2, c3, c4, c5]"
    unfolding shape_def ns by (auto simp: length5 length6)
  have s: "s = 4" using full ns by simp
  from n obtain a1 a2 a3 a4 where "d1 = Some a1" "d2 = Some a2" "d3 = Some a3" "d4 = Some a4"
    unfolding ns arr s shape_def by auto
  note arr = arr [unfolded this]
  have "i = 0 \<or> i = 1 \<or> i = 2 \<or> i = 3 \<or> i = 4" using i by presburger
  then show ?thesis
    by (elim disjE) (use n rp in \<open>simp add: ns arr s b_addData_def slot_simps replicate_slots shape_def entries_def upto.simps\<close>)+
qed

lemma nth_entries:
  assumes "shape lo n" and "j < nat (nsize n)"
  shows "atom_at n (int j + 1) = Inr (fst (entries n ! j))" and "snd (entries n ! j) = nchild n ! Suc j"
proof -
  from assms have len: "length (ndata n) = 5" "length (nchild n) = 6" "nat (nsize n) \<le> 4"
    and "list_all (\<lambda>x. x \<noteq> None) (take (nat (nsize n)) (tl (ndata n)))"
    by (auto simp: shape_def)
  then have "tl (ndata n) ! j \<noteq> None" using assms(2) by (auto simp: list_all_length)
  then show "atom_at n (int j + 1) = Inr (fst (entries n ! j))"
    using assms(2) len
    by (auto simp: atom_at_def nth_res_def the_res_def bindr_def entries_def nth_tl nat_add_distrib)
  show "snd (entries n ! j) = nchild n ! Suc j"
    using assms(2) len by (simp add: entries_def nth_tl)
qed

text \<open>Binary search stops at the last slot whose key is not above the key sought.\<close>

lemma scan_loop_spec:
  assumes n: "shape lo n" and sorted: "sorted_wrt (<) (map (key \<circ> fst) (entries n))"
  shows "0 \<le> low \<Longrightarrow> low \<le> high \<Longrightarrow> high \<le> nsize n \<Longrightarrow>
     (\<And>j. int j < low \<Longrightarrow> key (fst (entries n ! j)) \<le> k) \<Longrightarrow>
     (\<And>j. high \<le> int j \<Longrightarrow> j < nat (nsize n) \<Longrightarrow> k < key (fst (entries n ! j))) \<Longrightarrow>
     \<exists>r \<le> nat (nsize n). scan_loop n k low high = Inr (int r) \<and>
       (\<forall>j < r. key (fst (entries n ! j)) \<le> k) \<and> (\<forall>j. r \<le> j \<and> j < nat (nsize n) \<longrightarrow> k < key (fst (entries n ! j)))"
proof (induction "nat (high - low)" arbitrary: low high rule: less_induct)
  case less
  have mono: "key (fst (entries n ! i)) \<le> key (fst (entries n ! j))" if "i \<le> j" "j < nat (nsize n)" for i j
    using sorted that length_entries [OF n] by (cases "i = j") (auto simp: sorted_wrt_iff_nth_less less_imp_le)
  show ?case
  proof (cases "low < high")
    case False
    then have "high = low" using less.prems by simp
    then show ?thesis
      using less.prems by (intro exI [of _ "nat low"]) (auto simp: scan_loop.simps)
  next
    case True
    define mid where "mid = (low + high + 1) div 2"
    have mid: "low < mid" "mid \<le> high" using True by (auto simp: mid_def)
    define j where "j = nat (mid - 1)"
    have j: "mid = int j + 1" "j < nat (nsize n)" using mid less.prems by (auto simp: j_def)
    have step: "scan_loop n k low high =
        (if k < key (fst (entries n ! j)) then scan_loop n k low (mid - 1) else scan_loop n k mid high)"
      using True nth_entries(1) [OF n j(2)] by (subst scan_loop.simps) (simp add: mid_def [symmetric] j(1) bindr_def)
    show ?thesis
    proof (cases "k < key (fst (entries n ! j))")
      case above: True
      have "k < key (fst (entries n ! i))" if "mid - 1 \<le> int i" "i < nat (nsize n)" for i
        using less_le_trans [OF above mono [of j i]] that j(1) by simp
      then show ?thesis
        using less.hyps [of "mid - 1" low] less.prems mid step above by simp
    next
      case False
      have "key (fst (entries n ! i)) \<le> k" if "int i < mid" for i
        using order_trans [OF mono [of i j]] False that j by auto
      then show ?thesis
        using less.hyps [of high mid] less.prems mid step False by simp
    qed
  qed
qed

lemma scanNode_spec:
  assumes n: "shape lo n" and sorted: "sorted_wrt (<) (map (key \<circ> fst) (entries n))"
  obtains r where "r \<le> length (entries n)"
    "b_scanNode n k = Inr (r \<noteq> 0 \<and> key (fst (entries n ! (r - 1))) = k, int r)"
    "\<forall>e \<in> set (take r (entries n)). key (fst e) \<le> k" "\<forall>e \<in> set (drop r (entries n)). k < key (fst e)"
proof -
  note len = length_entries [OF n]
  have "0 \<le> nsize n" using n by (simp add: shape_def)
  then have "\<exists>r \<le> nat (nsize n). scan_loop n k 0 (nsize n) = Inr (int r) \<and>
    (\<forall>j < r. key (fst (entries n ! j)) \<le> k) \<and> (\<forall>j. r \<le> j \<and> j < nat (nsize n) \<longrightarrow> k < key (fst (entries n ! j)))"
    by (intro scan_loop_spec [OF n sorted]) auto
  then obtain r where r: "r \<le> nat (nsize n)" "scan_loop n k 0 (nsize n) = Inr (int r)"
    "\<forall>j < r. key (fst (entries n ! j)) \<le> k" "\<forall>j. r \<le> j \<and> j < nat (nsize n) \<longrightarrow> k < key (fst (entries n ! j))"
    by blast
  show ?thesis
  proof (rule that [of r])
    show "b_scanNode n k = Inr (r \<noteq> 0 \<and> key (fst (entries n ! (r - 1))) = k, int r)"
    proof (cases r)
      case (Suc j)
      with r(1) nth_entries(1) [OF n, of j] show ?thesis
        by (simp add: b_scanNode_def r(2) bindr_def add.commute)
    qed (simp add: b_scanNode_def r(2) bindr_def)
  qed (use r len in \<open>auto simp: all_set_conv_all_nth\<close>)
qed

section \<open>Nodes as sequences of children and atoms\<close>

fun steps :: "('a \<times> 'c) list \<Rightarrow> ('a + 'c) list" where
  "steps [] = []"
| "steps ((a, c) # es) = Inl a # Inr c # steps es"

definition kid :: "'c \<Rightarrow> ('a \<times> 'c) list \<Rightarrow> nat \<Rightarrow> 'c" where
  "kid c es r = (if r = 0 then c else snd (es ! (r - 1)))"

definition before :: "'c \<Rightarrow> ('a \<times> 'c) list \<Rightarrow> nat \<Rightarrow> ('a + 'c) list" where
  "before c es r = butlast (Inr c # steps (take r es))"

definition conts :: "('c \<Rightarrow> 'a list) \<Rightarrow> ('a + 'c) list \<Rightarrow> 'a list" where
  "conts f xs = concat (map (\<lambda>x. case x of Inl a \<Rightarrow> [a] | Inr c \<Rightarrow> f c) xs)"

lemma conts_simps [simp]:
  "conts f [] = []" "conts f (Inl a # xs) = a # conts f xs" "conts f (Inr c # xs) = f c @ conts f xs"
  "conts f (xs @ ys) = conts f xs @ conts f ys"
  by (simp_all add: conts_def)

lemma steps_append [simp]: "steps (xs @ ys) = steps xs @ steps ys"
  by (induction xs rule: steps.induct) simp_all

lemma before_kid: "r \<le> length es \<Longrightarrow> Inr c # steps (take r es) = before c es r @ [Inr (kid c es r)]"
proof (cases r)
  case (Suc j)
  assume "r \<le> length es"
  with Suc have "steps (take r es) = steps (take j es) @ [Inl (fst (es ! j)), Inr (snd (es ! j))]"
    by (cases "es ! j") (simp add: take_Suc_conv_app_nth)
  with Suc show ?thesis by (simp add: before_def kid_def butlast_append)
qed (simp add: before_def kid_def)

lemma steps_split:
  assumes "r \<le> length es"
  shows "Inr c # steps es = before c es r @ Inr (kid c es r) # steps (drop r es)"
proof -
  have "Inr c # steps es = (Inr c # steps (take r es)) @ steps (drop r es)"
    by (simp flip: steps_append)
  then show ?thesis unfolding before_kid [OF assms] by simp
qed

lemma steps_insert:
  assumes "r \<le> length es"
  shows "Inr c # steps (take r es @ (a, x) # drop r es) =
    before c es r @ Inr (kid c es r) # Inl a # Inr x # steps (drop r es)"
proof -
  have "Inr c # steps (take r es @ (a, x) # drop r es) = (Inr c # steps (take r es)) @ Inl a # Inr x # steps (drop r es)"
    by simp
  then show ?thesis unfolding before_kid [OF assms] by simp
qed

lemma before_ends: "r \<noteq> 0 \<Longrightarrow> r \<le> length es \<Longrightarrow> \<exists>xs. before c es r = xs @ [Inl (fst (es ! (r - 1)))]"
  by (cases r; cases "es ! (r - 1)") (auto simp: before_def take_Suc_conv_app_nth butlast_append)

lemma drop_starts: "r < length es \<Longrightarrow> \<exists>xs. steps (drop r es) = Inl (fst (es ! r)) # xs"
  by (cases "es ! r") (simp add: Cons_nth_drop_Suc [symmetric])

section \<open>Sorted lists of atoms\<close>

abbreviation keys_sorted :: "b_tree_atom list \<Rightarrow> bool" where
  "keys_sorted xs \<equiv> sorted_wrt (<) (map key xs)"

definition ins_atom :: "b_tree_atom \<Rightarrow> b_tree_atom list \<Rightarrow> b_tree_atom list" where
  "ins_atom a xs = (if key a \<in> key ` set xs then xs
     else takeWhile (\<lambda>x. key x < key a) xs @ a # dropWhile (\<lambda>x. key x < key a) xs)"

lemma ins_atom_mid:
  assumes "\<forall>x \<in> set ls. key x < key a" and "\<forall>x \<in> set rs. key a < key x"
  shows "ins_atom a (ls @ ms @ rs) = ls @ ins_atom a ms @ rs"
proof -
  have "key a \<in> key ` set (ls @ ms @ rs) \<longleftrightarrow> key a \<in> key ` set ms" using assms by auto
  moreover have "takeWhile (\<lambda>x. key x < key a) (ls @ ms @ rs) = ls @ takeWhile (\<lambda>x. key x < key a) ms \<and>
      dropWhile (\<lambda>x. key x < key a) (ls @ ms @ rs) = dropWhile (\<lambda>x. key x < key a) ms @ rs"
  proof (cases rs)
    case (Cons r rs')
    then have "\<not> key r < key a" using assms(2) by auto
    with assms(1) show ?thesis
      by (induction ls) (auto simp: Cons takeWhile_append dropWhile_append takeWhile_tail takeWhile_eq_all_conv [THEN iffD2])
  qed (use assms(1) in \<open>induction ls; auto\<close>)
  ultimately show ?thesis by (simp add: ins_atom_def)
qed

lemma set_ins_atom: "set (ins_atom a xs) = (if key a \<in> key ` set xs then set xs else insert a (set xs))"
proof -
  have "set xs = set (takeWhile (\<lambda>x. key x < key a) xs) \<union> set (dropWhile (\<lambda>x. key x < key a) xs)"
    by (metis set_append takeWhile_dropWhile_id)
  then show ?thesis by (auto simp: ins_atom_def)
qed

lemma ins_atom_sorted:
  assumes "keys_sorted xs"
  shows "keys_sorted (ins_atom a xs)"
proof (cases "key a \<in> key ` set xs")
  case False
  let ?P = "\<lambda>x. key x < key a"
  have "keys_sorted (takeWhile ?P xs @ dropWhile ?P xs)" using assms by simp
  then have s: "keys_sorted (takeWhile ?P xs)" "keys_sorted (dropWhile ?P xs)"
    "\<forall>x \<in> set (takeWhile ?P xs). \<forall>y \<in> set (dropWhile ?P xs). key x < key y"
    unfolding map_append sorted_wrt_append by auto
  have "\<forall>x \<in> set (dropWhile ?P xs). key a < key x"
  proof (cases "dropWhile ?P xs")
    case (Cons y ys)
    then have y: "\<not> key y < key a" "y \<in> set xs"
      by (metis hd_dropWhile list.distinct(1) list.sel(1), metis Cons list.set_intros(1) set_dropWhileD)
    then have "key a < key y" using False by (metis image_eqI not_less_iff_gr_or_eq)
    moreover have "\<forall>z \<in> set ys. key y < key z" using s(2) unfolding Cons by simp
    ultimately show ?thesis using Cons by auto
  next
    case Nil
    then show ?thesis by (simp only: list.set) simp
  qed
  with s False show ?thesis
    by (auto simp: ins_atom_def sorted_wrt_append dest: set_takeWhileD)
qed (use assms in \<open>simp add: ins_atom_def\<close>)

section \<open>The tree\<close>

text \<open>A tree of height \<open>h\<close>: every leaf is at the same depth, every node but the root has at least two
  atoms. \<open>catoms\<close> lists the atoms in order.\<close>

primrec cell_ok :: "int \<Rightarrow> nat \<Rightarrow> b_tree_node cell \<Rightarrow> bool" where
  "cell_ok lo 0 c = (c = Null)"
| "cell_ok lo (Suc h) c =
     (case c of Ptr n \<Rightarrow> shape lo n \<and> list_all (cell_ok 2 h) (nchild n ! 0 # map snd (entries n)) | _ \<Rightarrow> False)"

primrec catoms :: "nat \<Rightarrow> b_tree_node cell \<Rightarrow> b_tree_atom list" where
  "catoms 0 c = []"
| "catoms (Suc h) c = (case c of Ptr n \<Rightarrow> conts (catoms h) (Inr (nchild n ! 0) # steps (entries n)) | _ \<Rightarrow> [])"

lemma separators_sorted:
  "keys_sorted (conts f (Inr c # steps es)) \<Longrightarrow> sorted_wrt (<) (map (key \<circ> fst) es)"
proof (induction es arbitrary: c)
  case (Cons e es)
  obtain a x where e: "e = (a, x)" by (cases e)
  have sub: "fst ` set es \<subseteq> set (conts f (steps es))" for es :: "(b_tree_atom \<times> 'a) list"
    by (induction es rule: steps.induct) auto
  from Cons.prems have "keys_sorted (conts f (Inr x # steps es))" "\<forall>y \<in> set (conts f (steps es)). key a < key y"
    by (auto simp: e sorted_wrt_append)
  with Cons.IH [OF this(1)] sub [of es] show ?case by (auto simp: e)
qed simp

text \<open>The atoms before and behind the child that a scan selects.\<close>

lemma scan_bounds:
  assumes sorted: "keys_sorted (conts f (Inr c # steps es))" and r: "r \<le> length es"
    and low: "\<forall>e \<in> set (take r es). key (fst e) \<le> k" and high: "\<forall>e \<in> set (drop r es). k < key (fst e)"
    and miss: "\<not> (r \<noteq> 0 \<and> key (fst (es ! (r - 1))) = k)"
  shows "\<forall>x \<in> set (conts f (before c es r)). key x < k" and "\<forall>x \<in> set (conts f (steps (drop r es))). k < key x"
proof -
  have split: "keys_sorted (conts f (before c es r) @ f (kid c es r) @ conts f (steps (drop r es)))"
    using sorted unfolding steps_split [OF r, of c] by simp
  show "\<forall>x \<in> set (conts f (before c es r)). key x < k"
  proof (cases r)
    case 0
    then show ?thesis by (simp add: before_def)
  next
    case (Suc j)
    then obtain xs where xs: "before c es r = xs @ [Inl (fst (es ! j))]" using before_ends [of r es c] r by auto
    have "es ! j \<in> set (take r es)" using Suc r by (auto simp: in_set_conv_nth intro!: exI [of _ j])
    then have "key (fst (es ! j)) < k" using low miss Suc by (auto simp: order_less_le)
    moreover have "\<forall>x \<in> set (conts f xs). key x < key (fst (es ! j))"
      using split unfolding xs by (auto simp: sorted_wrt_append)
    ultimately show ?thesis unfolding xs by auto
  qed
  show "\<forall>x \<in> set (conts f (steps (drop r es))). k < key x"
  proof (cases "r < length es")
    case True
    then obtain xs where xs: "steps (drop r es) = Inl (fst (es ! r)) # xs" using drop_starts by blast
    have "es ! r \<in> set (drop r es)" using True by (metis hd_drop_conv_nth hd_in_set drop_eq_Nil not_le)
    then have "k < key (fst (es ! r))" using high by blast
    moreover have "\<forall>x \<in> set (conts f xs). key (fst (es ! r)) < key x"
      using split unfolding xs by (auto simp: sorted_wrt_append)
    ultimately show ?thesis unfolding xs by auto
  qed (use r in simp)
qed

text \<open>Replacing the child at a position.\<close>

lemma kid_slot:
  assumes n: "shape lo n" and r: "r \<le> length (entries n)"
  shows "nchild n ! r = kid (nchild n ! 0) (entries n) r"
  using r nth_entries(2) [OF n] length_entries [OF n] by (cases r) (auto simp: kid_def)

lemma before_update: "Suc j \<le> length es \<Longrightarrow> before c (es[j := (fst (es ! j), x)]) (Suc j) = before c es (Suc j)"
  by (cases "es ! j") (simp add: before_def take_Suc_conv_app_nth butlast_append)

lemma list_all_update: "list_all P xs \<Longrightarrow> P x \<Longrightarrow> list_all P (xs[i := x])"
  by (cases "i < length xs") (auto simp: list_all_length nth_list_update)

lemma set_child_kid:
  assumes n: "shape lo n" and r: "r \<le> length (entries n)"
  obtains n1 where "set_child (int r) (Ptr m) n = Inr n1" "shape lo n1" "nsize n1 = nsize n"
    "before (nchild n1 ! 0) (entries n1) r = before (nchild n ! 0) (entries n) r"
    "kid (nchild n1 ! 0) (entries n1) r = Ptr m" "drop r (entries n1) = drop r (entries n)"
    "map fst (entries n1) = map fst (entries n)"
    "\<And>P. P (Ptr m) \<Longrightarrow> list_all P (nchild n ! 0 # map snd (entries n)) \<Longrightarrow>
       list_all P (nchild n1 ! 0 # map snd (entries n1))"
proof -
  define n1 where "n1 = Node (nsize n) (ndata n) ((nchild n)[r := Ptr m])"
  note len = length_entries [OF n]
  have r5: "r < 6" "length (nchild n) = 6" "length (ndata n) = 5" using n r len by (auto simp: shape_def)
  have set: "set_child (int r) (Ptr m) n = Inr n1" using r5 by (simp add: set_child_def n1_def)
  have sh: "shape lo n1"
    using n by (auto simp: shape_def n1_def take_update_swap intro: list_all_update)
  have es: "entries n1 = (if r = 0 then entries n else (entries n)[r - 1 := (fst (entries n ! (r - 1)), Ptr m)])"
  proof (cases r)
    case 0
    then show ?thesis using r5 by (cases "nchild n") (auto simp: entries_def n1_def)
  next
    case (Suc j)
    have "tl ((nchild n)[Suc j := Ptr m]) = (tl (nchild n))[j := Ptr m]" using r5 by (cases "nchild n") auto
    with Suc r len n show ?thesis
      by (auto simp: entries_def n1_def take_update_swap shape_def intro!: nth_equalityI simp: nth_list_update)
  qed
  have ch: "nchild n1 = (nchild n)[r := Ptr m]" by (simp add: n1_def)
  show ?thesis
  proof (rule that [OF set sh])
    show "nsize n1 = nsize n" by (simp add: n1_def)
    show "before (nchild n1 ! 0) (entries n1) r = before (nchild n ! 0) (entries n) r"
      using r r5 by (cases r) (auto simp: es before_update ch, simp add: before_def)
    show "kid (nchild n1 ! 0) (entries n1) r = Ptr m"
      using r r5 by (cases r) (auto simp: es kid_def ch)
    show "drop r (entries n1) = drop r (entries n)" by (simp add: es)
    show "map fst (entries n1) = map fst (entries n)" using r by (simp add: es map_update flip: list_update_id) (auto intro!: nth_equalityI simp: nth_list_update)
    show "list_all P (nchild n1 ! 0 # map snd (entries n1))"
      if "P (Ptr m)" "list_all P (nchild n ! 0 # map snd (entries n))" for P
      using that r r5 by (cases r) (auto simp: es ch map_update intro: list_all_update)
  qed
qed

end
