(* ===== verification/PLI_B_Tree.thy ===== *)
theory PLI_B_Tree
  imports PLI_B_Ary
begin

text \<open>
  The B-tree of \<open>b_ary.c\<close> as a map from keys to atoms: insertion and search refine insertion and
  search in the sorted list of atoms, keep the tree balanced and its nodes filled, and never touch
  an uninitialised slot. At the end the contract the loader relies on, as a locale, and its
  interpretation on these operations.
\<close>

section \<open>One node\<close>

lemma cell_ok_not_Junk: "cell_ok lo h c \<Longrightarrow> c \<noteq> Junk"
  by (cases h) auto

lemma shape_child:
  assumes "shape l k" and "i \<le> 2"
  shows "nchild k ! i \<noteq> Junk"
proof -
  from assms have "list_all (\<lambda>c. c \<noteq> Junk) (take (Suc (max 2 (nat (nsize k)))) (nchild k))" "length (nchild k) = 6"
    "nat (nsize k) \<le> 4" by (auto simp: shape_def)
  then show ?thesis using assms(2) by (auto simp: list_all_length)
qed

lemma kid_all: "list_all P (c # map snd es) \<Longrightarrow> r \<le> length es \<Longrightarrow> P (kid c es r)"
  by (cases r) (auto simp: kid_def list_all_iff)

lemma update_parents_ok:
  assumes "shape lo n" and "shape lo' m"
  shows "update_parents n (Ptr m) = Inr ()"
proof -
  have "\<exists>x. child_at k i = Inr x" if "shape l k" "i \<in> {0, 1, 2}" for l k i
    using shape_child [OF that(1), of "nat i"] that by (auto simp: child_at_def nth_res_def bindr_def shape_def)
  then obtain x0 x1 x2 y0 y1 y2 where "child_at n 0 = Inr x0" "child_at n 1 = Inr x1" "child_at n 2 = Inr x2"
    "child_at m 0 = Inr y0" "child_at m 1 = Inr y1" "child_at m 2 = Inr y2"
    using assms by (metis insertCI)
  then show ?thesis by (simp add: update_parents_def B_TREE_ORDER_def upto.simps bindr_def)
qed

text \<open>What a routine leaves behind: one node, or a node split in two around the promoted atom.\<close>

definition grown :: "int \<Rightarrow> nat \<Rightarrow> b_tree_node \<Rightarrow> b_tree_atom option \<Rightarrow> b_tree_node cell \<Rightarrow> b_tree_atom list \<Rightarrow> bool" where
  "grown lo h n pr rp xs \<longleftrightarrow>
     (rp = Null \<and> cell_ok lo (Suc h) (Ptr n) \<and> catoms (Suc h) (Ptr n) = xs) \<or>
     (\<exists>m p. rp = Ptr m \<and> pr = Some p \<and> cell_ok 2 (Suc h) (Ptr n) \<and> cell_ok 2 (Suc h) (Ptr m) \<and>
        catoms (Suc h) (Ptr n) @ p # catoms (Suc h) (Ptr m) = xs)"

lemma addData_grown:
  assumes n: "shape lo n" and r: "r \<le> length (entries n)"
    and kids: "list_all (cell_ok 2 h) (nchild n ! 0 # map snd (entries n))" and rp: "cell_ok 2 h rp"
  obtains n' rp' pr' where "b_addData a (int r) n rp pr = Inr (n', rp', pr')"
    "grown lo h n' pr' rp'
      (conts (catoms h) (before (nchild n ! 0) (entries n) r) @ catoms h (kid (nchild n ! 0) (entries n) r)
       @ a # catoms h rp @ conts (catoms h) (steps (drop r (entries n))))"
proof -
  note len = length_entries [OF n]
  have i: "0 \<le> int r" "int r \<le> nsize n" using r len n by (auto simp: shape_def)
  note nj = cell_ok_not_Junk [OF rp]
  have ins: "conts f (Inr c # steps (take r es @ (a, x) # drop r es)) =
      conts f (before c es r) @ f (kid c es r) @ a # f x @ conts f (steps (drop r es))" if "r \<le> length es" for f c x es
    unfolding steps_insert [OF that] by simp
  have all: "list_all (cell_ok 2 h) (map snd (take r (entries n) @ (a, rp) # drop r (entries n)))"
    using kids rp by (auto simp: list_all_iff dest: in_set_takeD in_set_dropD)
  show ?thesis
  proof (cases "nsize n < 4")
    case True
    with add_with_room [OF n _ i nj, of a pr] obtain n' where n': "b_addData a (int r) n rp pr = Inr (n', Null, pr)"
      "shape lo n'" "nchild n' ! 0 = nchild n ! 0" "entries n' = take r (entries n) @ (a, rp) # drop r (entries n)"
      by auto
    have "grown lo h n' pr Null (conts (catoms h) (before (nchild n ! 0) (entries n) r) @ catoms h (kid (nchild n ! 0) (entries n) r)
       @ a # catoms h rp @ conts (catoms h) (steps (drop r (entries n))))"
      unfolding grown_def ins [OF r, symmetric] using n' kids all by simp
    with n'(1) show ?thesis by (rule that)
  next
    case False
    then have "nsize n = 4" using n by (simp add: shape_def)
    with add_when_full [OF n this _ _ nj, of "int r" a pr] i obtain n' m p where
      m: "b_addData a (int r) n rp pr = Inr (n', Ptr m, Some p)" "shape 2 n'" "shape 2 m" "nchild n' ! 0 = nchild n ! 0"
      and es: "entries n' @ (p, nchild m ! 0) # entries m = take r (entries n) @ (a, rp) # drop r (entries n)"
      by auto
    have parts: "list_all (cell_ok 2 h) (map snd (entries n'))" "cell_ok 2 h (nchild m ! 0)"
      "list_all (cell_ok 2 h) (map snd (entries m))"
      using all unfolding es [symmetric] by auto
    have "grown lo h n' (Some p) (Ptr m) (conts (catoms h) (before (nchild n ! 0) (entries n) r) @ catoms h (kid (nchild n ! 0) (entries n) r)
       @ a # catoms h rp @ conts (catoms h) (steps (drop r (entries n))))"
      unfolding grown_def ins [OF r, symmetric] es [symmetric] using m parts kids by simp
    with m(1) show ?thesis by (rule that)
  qed
qed

section \<open>Insertion\<close>

lemma cut_unique:
  assumes "r \<le> length xs" "r' \<le> length xs" "\<forall>x \<in> set (take r xs). P x" "\<forall>x \<in> set (drop r xs). \<not> P x"
    "\<forall>x \<in> set (take r' xs). P x" "\<forall>x \<in> set (drop r' xs). \<not> P x"
  shows "r = r'"
proof (rule ccontr)
  assume ne: "r \<noteq> r'"
  have "False" if "i < j" "j \<le> length xs" "\<forall>x \<in> set (drop i xs). \<not> P x" "\<forall>x \<in> set (take j xs). P x" for i j
  proof -
    have "xs ! i \<in> set (take j xs)" using that(1,2) by (auto simp: in_set_conv_nth intro!: exI [of _ i])
    moreover have "xs ! i \<in> set (drop i xs)"
      using that(1,2) by (metis hd_drop_conv_nth hd_in_set drop_eq_Nil not_le order_less_le_trans)
    ultimately show False using that by blast
  qed
  from this [of r r'] this [of r' r] assms ne show False by (meson nat_neq_iff)
qed

lemma separators_before: "r \<le> length es \<Longrightarrow> fst ` set (take r es) \<subseteq> set (conts f (before c es r))"
proof -
  assume r: "r \<le> length es"
  have sub: "fst ` set xs \<subseteq> set (conts (\<lambda>_. []) (steps xs))" for xs :: "('a \<times> 'b) list"
    by (induction xs rule: steps.induct) auto
  have "conts (\<lambda>_. []) (Inr c # steps (take r es)) = conts (\<lambda>_. []) (before c es r)"
    unfolding before_kid [OF r] by simp
  moreover have "set (conts (\<lambda>_. []) xs) \<subseteq> set (conts f xs)" for xs :: "('a + 'b) list"
    by (auto simp: conts_def split: sum.splits)
  ultimately show ?thesis using sub [of "take r es"] by fastforce
qed

lemma separators_after: "fst ` set (drop r es) \<subseteq> set (conts f (steps (drop r es)))"
proof -
  have "fst ` set xs \<subseteq> set (conts f (steps xs))" for xs :: "('a \<times> 'b) list"
    by (induction xs rule: steps.induct) auto
  then show ?thesis by blast
qed

lemma scan_cases:
  assumes n: "shape lo n" and sorted: "keys_sorted (conts f (Inr (nchild n ! 0) # steps (entries n)))"
  obtains (found) r where "b_scanNode n k = Inr (True, int (Suc r))" "r < length (entries n)"
      "key (fst (entries n ! r)) = k"
      "fst (entries n ! r) \<in> set (conts f (Inr (nchild n ! 0) # steps (entries n)))"
    | (miss) r where "b_scanNode n k = Inr (False, int r)" "r \<le> length (entries n)" "r < length (nchild n)"
      "\<forall>x \<in> set (conts f (before (nchild n ! 0) (entries n) r)). key x < k"
      "\<forall>x \<in> set (conts f (steps (drop r (entries n)))). k < key x"
proof -
  obtain r where r: "r \<le> length (entries n)"
    "b_scanNode n k = Inr (r \<noteq> 0 \<and> key (fst (entries n ! (r - 1))) = k, int r)"
    "\<forall>e \<in> set (take r (entries n)). key (fst e) \<le> k" "\<forall>e \<in> set (drop r (entries n)). k < key (fst e)"
    using scanNode_spec [OF n separators_sorted [OF sorted], of k] by blast
  have rn: "r < length (nchild n)" using r(1) length_entries [OF n] n by (auto simp: shape_def)
  show ?thesis
  proof (cases "r \<noteq> 0 \<and> key (fst (entries n ! (r - 1))) = k")
    case True
    then obtain j where j: "r = Suc j" by (cases r) auto
    have "fst (entries n ! j) \<in> fst ` set (entries n)" using j r(1) by simp
    then have "fst (entries n ! j) \<in> set (conts f (steps (entries n)))" using separators_after [of 0 "entries n" f] by auto
    then show ?thesis using True j r by (intro found [of j]) auto
  next
    case False
    then show ?thesis using r rn scan_bounds [OF sorted r(1,3,4) False] by (intro miss [of r]) auto
  qed
qed

lemma promoted_scan:
  assumes n: "shape lo n" and sorted: "sorted_wrt (<) (map (key \<circ> fst) (entries n))" and r: "r \<le> length (entries n)"
    and "\<forall>e \<in> set (take r (entries n)). key (fst e) < key p" "\<forall>e \<in> set (drop r (entries n)). key p < key (fst e)"
  obtains found where "b_scanNode n (key p) = Inr (found, int r)"
proof -
  obtain r' where r': "r' \<le> length (entries n)"
    "b_scanNode n (key p) = Inr (r' \<noteq> 0 \<and> key (fst (entries n ! (r' - 1))) = key p, int r')"
    "\<forall>e \<in> set (take r' (entries n)). key (fst e) \<le> key p" "\<forall>e \<in> set (drop r' (entries n)). key p < key (fst e)"
    using scanNode_spec [OF n sorted, of "key p"] by blast
  have "r = r'"
    by (rule cut_unique [where xs = "entries n" and P = "\<lambda>e. key (fst e) \<le> key p"]) (use assms r' in \<open>auto simp: less_imp_le not_le\<close>)
  from r'(2) [folded this] show ?thesis by (rule that)
qed

lemma recursiveInsert_spec:
  assumes "cell_ok lo (Suc h) (Ptr n)" and "keys_sorted (catoms (Suc h) (Ptr n))"
  shows "\<exists>n' pr' rp'. b_recursiveInsert n pr Null a = Inr (n', pr', rp') \<and>
     grown lo h n' pr' rp' (ins_atom a (catoms (Suc h) (Ptr n)))"
  using assms
proof (induction h arbitrary: lo n pr)
  case (0 lo n)
  then have n: "shape lo n" and kids: "list_all (cell_ok 2 0) (nchild n ! 0 # map snd (entries n))"
    and sorted: "keys_sorted (conts (catoms 0) (Inr (nchild n ! 0) # steps (entries n)))" by simp_all
  from n sorted show ?case
  proof (cases rule: scan_cases [where k = "key a"])
    case (found r)
    then have "key a \<in> key ` set (catoms (Suc 0) (Ptr n))"
      using imageI [OF found(4), of key] found(3) by simp
    then show ?thesis using 0 found by (subst b_recursiveInsert.simps) (simp add: bindr_def ins_atom_def grown_def)
  next
    case (miss r)
    have null: "nchild n ! r = Null"
      using kid_all [OF kids miss(2)] kid_slot [OF n miss(2)] by simp
    obtain n' rp' pr' where add: "b_addData a (int r) n Null pr = Inr (n', rp', pr')"
      and g: "grown lo 0 n' pr' rp' (conts (catoms 0) (before (nchild n ! 0) (entries n) r)
         @ catoms 0 (kid (nchild n ! 0) (entries n) r) @ a # catoms 0 Null @ conts (catoms 0) (steps (drop r (entries n))))"
      using addData_grown [OF n miss(2) kids, where rp = Null and a = a and pr = pr] by auto
    have "ins_atom a (catoms (Suc 0) (Ptr n)) = conts (catoms 0) (before (nchild n ! 0) (entries n) r)
        @ [a] @ conts (catoms 0) (steps (drop r (entries n)))"
      using ins_atom_mid [OF miss(4,5), of "[]"] steps_split [OF miss(2), of "nchild n ! 0"]
      by (simp add: ins_atom_def)
    then show ?thesis using g by (subst b_recursiveInsert.simps) (simp add: bindr_def miss null add)
  qed
next
  case (Suc h lo n)
  then have n: "shape lo n" and kids: "list_all (cell_ok 2 (Suc h)) (nchild n ! 0 # map snd (entries n))"
    and sorted: "keys_sorted (conts (catoms (Suc h)) (Inr (nchild n ! 0) # steps (entries n)))" by simp_all
  let ?f = "catoms (Suc h)"
  from n sorted show ?case
  proof (cases rule: scan_cases [where k = "key a"])
    case (found r)
    then have "key a \<in> key ` set (catoms (Suc (Suc h)) (Ptr n))"
      using imageI [OF found(4), of key] found(3) by simp
    then show ?thesis using Suc.prems found by (subst b_recursiveInsert.simps) (simp add: bindr_def ins_atom_def grown_def)
  next
    case (miss r)
    let ?L = "conts ?f (before (nchild n ! 0) (entries n) r)" and ?R = "conts ?f (steps (drop r (entries n)))"
    have "cell_ok 2 (Suc h) (nchild n ! r)"
      using kid_all [OF kids miss(2)] kid_slot [OF n miss(2)] by simp
    then obtain m where m: "nchild n ! r = Ptr m" "cell_ok 2 (Suc h) (Ptr m)"
      by (cases "nchild n ! r") auto
    have all: "catoms (Suc (Suc h)) (Ptr n) = ?L @ ?f (Ptr m) @ ?R"
      using steps_split [OF miss(2), of "nchild n ! 0"] kid_slot [OF n miss(2)] m(1) by simp
    have "keys_sorted (?L @ ?f (Ptr m) @ ?R)" using Suc.prems(2) unfolding all .
    then have ks: "keys_sorted (?f (Ptr m))" by (simp only: map_append sorted_wrt_append)
    have ins: "ins_atom a (catoms (Suc (Suc h)) (Ptr n)) = ?L @ ins_atom a (?f (Ptr m)) @ ?R"
      unfolding all by (rule ins_atom_mid [OF miss(4,5)])
    have all_sorted: "keys_sorted (?L @ ins_atom a (?f (Ptr m)) @ ?R)"
      unfolding ins [symmetric] by (rule ins_atom_sorted) (use sorted in simp)
    obtain m' pr1 rp1 where rec: "b_recursiveInsert m pr Null a = Inr (m', pr1, rp1)"
      and g: "grown 2 h m' pr1 rp1 (ins_atom a (?f (Ptr m)))"
      using Suc.IH [OF m(2) ks] by blast
    obtain n1 where n1: "set_child (int r) (Ptr m') n = Inr n1" "shape lo n1" "nsize n1 = nsize n"
      "before (nchild n1 ! 0) (entries n1) r = before (nchild n ! 0) (entries n) r"
      "kid (nchild n1 ! 0) (entries n1) r = Ptr m'" "drop r (entries n1) = drop r (entries n)"
      "map fst (entries n1) = map fst (entries n)"
      and keep: "\<And>P. P (Ptr m') \<Longrightarrow> list_all P (nchild n ! 0 # map snd (entries n)) \<Longrightarrow>
         list_all P (nchild n1 ! 0 # map snd (entries n1))"
      using set_child_kid [OF n miss(2)] by blast
    have r1: "r \<le> length (entries n1)" using miss(2) n1(7) by (metis length_map)
    have m': "cell_ok 2 (Suc h) (Ptr m')" using g by (auto simp: grown_def)
    note kids1 = keep [OF m' kids]
    have n1_atoms: "catoms (Suc (Suc h)) (Ptr n1) = ?L @ ?f (Ptr m') @ ?R"
      using steps_split [OF r1, of "nchild n1 ! 0"] n1 by simp
    show ?thesis
    proof (cases "rp1 = Null")
      case True
      then have "?f (Ptr m') = ins_atom a (?f (Ptr m))" using g by (auto simp: grown_def)
      with n1_atoms have seq: "catoms (Suc (Suc h)) (Ptr n1) = ins_atom a (catoms (Suc (Suc h)) (Ptr n))"
        unfolding ins by argo
      have "cell_ok lo (Suc (Suc h)) (Ptr n1)" using n1(2) kids1 by simp
      with seq have "grown lo (Suc h) n1 pr1 Null (ins_atom a (catoms (Suc (Suc h)) (Ptr n)))"
        unfolding grown_def by blast
      then show ?thesis using True miss m(1) rec n1(1)
        by (subst b_recursiveInsert.simps) (simp add: bindr_def)
    next
      case False
      with g obtain q p where q: "rp1 = Ptr q" "pr1 = Some p" "cell_ok 2 (Suc h) (Ptr q)"
        and pq: "?f (Ptr m') @ p # ?f (Ptr q) = ins_atom a (?f (Ptr m))"
        by (auto simp: grown_def)
      have up: "update_parents n1 rp1 = Inr ()"
        unfolding q(1) using q(3) by (intro update_parents_ok [OF n1(2), of 2]) simp
      have lt: "\<forall>x \<in> set ?L. key x < key p" "\<forall>x \<in> set ?R. key p < key x"
        using all_sorted unfolding pq [symmetric] by (auto simp: sorted_wrt_append)
      obtain found' where sc: "b_scanNode n1 (key p) = Inr (found', int r)"
      proof (rule promoted_scan [OF n1(2) _ r1, of p])
        show "sorted_wrt (<) (map (key \<circ> fst) (entries n1))"
          using separators_sorted [OF sorted] n1(7) by (metis map_map)
        show "\<forall>e \<in> set (take r (entries n1)). key (fst e) < key p"
          using separators_before [OF r1, of ?f "nchild n1 ! 0"] lt(1) unfolding n1(4) by fastforce
        show "\<forall>e \<in> set (drop r (entries n1)). key p < key (fst e)"
          using separators_after [of r "entries n1" ?f] lt(2) unfolding n1(6) by fastforce
      qed
      obtain n2 rp2 pr2 where add: "b_addData p (int r) n1 rp1 pr1 = Inr (n2, rp2, pr2)"
        and g2: "grown lo (Suc h) n2 pr2 rp2 (?L @ ?f (Ptr m') @ p # ?f (Ptr q) @ ?R)"
        using addData_grown [OF n1(2) r1 kids1 q(3), of p pr1] unfolding n1 q(1) by blast
      have up2: "(if rp2 = Null then Inr () else update_parents n2 rp2) = Inr ()"
        using g2 by (auto simp: grown_def intro: update_parents_ok)
      have "grown lo (Suc h) n2 pr2 rp2 (ins_atom a (catoms (Suc (Suc h)) (Ptr n)))"
        using g2 unfolding ins pq [symmetric] append_assoc append_Cons .
      then show ?thesis using False q miss m(1) rec n1(1) up sc add up2
        by (subst b_recursiveInsert.simps) (simp add: bindr_def the_res_def)
    qed
  qed
qed

text \<open>The height of a tree, along its first children.\<close>

function depth :: "b_tree_node \<Rightarrow> nat" where
  "depth n = (case nchild n of Ptr m # _ \<Rightarrow> Suc (depth m) | _ \<Rightarrow> 0)"
  by pat_completeness auto
termination
proof (relation "measure size")
  fix n m x and cs :: "b_tree_node cell list"
  assume "nchild n = x # cs" and "x = Ptr m"
  then show "(m, n) \<in> measure size" using nchild_smaller [of n 0 m] by simp
qed simp

declare depth.simps [simp del]

lemma depth_eq: "cell_ok lo (Suc h) (Ptr n) \<Longrightarrow> depth n = h"
proof (induction h arbitrary: lo n)
  case (0 lo n)
  then show ?case by (subst depth.simps) (auto split: list.splits cell.splits)
next
  case (Suc h lo n)
  then obtain m where m: "nchild n ! 0 = Ptr m" "cell_ok 2 (Suc h) (Ptr m)"
    by (auto split: cell.splits)
  have "nchild n \<noteq> []" using Suc.prems by (auto simp: shape_def)
  then show ?case using m(1) Suc.IH [OF m(2)] by (subst depth.simps) (cases "nchild n"; simp)
qed

definition atoms_of :: "b_tree_node \<Rightarrow> b_tree_atom list" where
  "atoms_of n = catoms (Suc (depth n)) (Ptr n)"

definition tree_ok :: "b_tree_node \<Rightarrow> bool" where
  "tree_ok n \<longleftrightarrow> cell_ok 0 (Suc (depth n)) (Ptr n) \<and> keys_sorted (atoms_of n)"

lemma tree_okI:
  assumes "cell_ok lo (Suc h) (Ptr n)" and "keys_sorted (catoms (Suc h) (Ptr n))"
  shows "tree_ok n" and "atoms_of n = catoms (Suc h) (Ptr n)"
proof -
  have d: "depth n = h" by (rule depth_eq [OF assms(1)])
  then show "atoms_of n = catoms (Suc h) (Ptr n)" by (simp add: atoms_of_def)
  then show "tree_ok n" using assms by (simp add: tree_ok_def d) (simp add: shape_def)
qed

lemma b_create_ok: "tree_ok b_create" "atoms_of b_create = []"
proof -
  have "cell_ok 0 (Suc 0) (Ptr b_create)" "catoms (Suc 0) (Ptr b_create) = []" by code_simp+
  then show "tree_ok b_create" "atoms_of b_create = []" using tree_okI [of 0 0 b_create] by simp_all
qed

theorem b_insert_spec:
  assumes "tree_ok root"
  shows "\<exists>root'. b_insert root a = Inr root' \<and> tree_ok root' \<and> atoms_of root' = ins_atom a (atoms_of root)"
proof -
  define h where "h = depth root"
  have ok: "cell_ok 0 (Suc h) (Ptr root)" "keys_sorted (catoms (Suc h) (Ptr root))"
    and atoms: "atoms_of root = catoms (Suc h) (Ptr root)"
    using assms by (simp_all add: tree_ok_def atoms_of_def h_def)
  note sorted' = ins_atom_sorted [OF ok(2), of a]
  obtain n pr rp where rec: "b_recursiveInsert root None Null a = Inr (n, pr, rp)"
    and g: "grown 0 h n pr rp (ins_atom a (catoms (Suc h) (Ptr root)))"
    using recursiveInsert_spec [OF ok] by blast
  show ?thesis
  proof (cases "rp = Null")
    case True
    with g have n: "cell_ok 0 (Suc h) (Ptr n)" and n_atoms: "catoms (Suc h) (Ptr n) = ins_atom a (catoms (Suc h) (Ptr root))"
      by (auto simp: grown_def)
    note ok' = tree_okI [OF n sorted' [folded n_atoms]]
    have "b_insert root a = Inr n" using rec True by (simp add: b_insert_def bindr_def)
    then show ?thesis using ok' unfolding atoms n_atoms by blast
  next
    case False
    with g obtain q p where q: "rp = Ptr q" "pr = Some p" "cell_ok 2 (Suc h) (Ptr n)" "cell_ok 2 (Suc h) (Ptr q)"
      and seq: "catoms (Suc h) (Ptr n) @ p # catoms (Suc h) (Ptr q) = ins_atom a (catoms (Suc h) (Ptr root))"
      by (auto simp: grown_def)
    define r where "r = Node 1 [None, Some p, None, None, None] [Ptr n, Ptr q, Null, Null, Null, Junk]"
    have "b_insert root a = Inr r"
      using rec q by (simp add: b_insert_def bindr_def the_res_def set_child_def set_atom_def set_size_def
          b_create_def replicate_slots r_def)
    moreover have "cell_ok 1 (Suc (Suc h)) (Ptr r)"
      using q by (simp add: r_def shape_def entries_def)
    moreover have "catoms (Suc (Suc h)) (Ptr r) = ins_atom a (catoms (Suc h) (Ptr root))"
      unfolding seq [symmetric] by (simp add: r_def entries_def)
    ultimately show ?thesis using tree_okI [of 1 "Suc h" r] sorted' by (simp add: atoms)
  qed
qed

section \<open>Search\<close>

lemma find_unique: "keys_sorted xs \<Longrightarrow> x \<in> set xs \<Longrightarrow> key x = k \<Longrightarrow> find (\<lambda>a. key a = k) xs = Some x"
  by (induction xs) auto

lemma find_append: "find P (xs @ ys) = (case find P xs of None \<Rightarrow> find P ys | Some x \<Rightarrow> Some x)"
  by (induction xs) auto

lemma b_Find_height:
  "cell_ok lo (Suc h) (Ptr n) \<Longrightarrow> keys_sorted (catoms (Suc h) (Ptr n)) \<Longrightarrow>
   b_Find n k = Inr (find (\<lambda>a. key a = k) (catoms (Suc h) (Ptr n)))"
proof (induction h arbitrary: lo n rule: nat_less_induct)
  case (1 h)
  then have n: "shape lo n" and kids: "list_all (cell_ok 2 h) (nchild n ! 0 # map snd (entries n))"
    and sorted: "keys_sorted (conts (catoms h) (Inr (nchild n ! 0) # steps (entries n)))" by simp_all
  let ?P = "\<lambda>a. key a = k"
  from n sorted show ?case
  proof (cases rule: scan_cases [where k = k])
    case (found r)
    have "atom_at n (int (Suc r)) = Inr (fst (entries n ! r))"
      using nth_entries(1) [OF n, of r] found(2) length_entries [OF n] by (simp add: add.commute)
    moreover have "find ?P (catoms (Suc h) (Ptr n)) = Some (fst (entries n ! r))"
      by (rule find_unique [OF "1.prems"(2)]) (use found in simp_all)
    ultimately show ?thesis by (subst b_Find.simps) (simp add: found bindr_def)
  next
    case (miss r)
    have kid: "kid (nchild n ! 0) (entries n) r = nchild n ! r" using kid_slot [OF n miss(2)] by simp
    have none: "find ?P (conts (catoms h) (before (nchild n ! 0) (entries n) r)) = None"
      "find ?P (conts (catoms h) (steps (drop r (entries n)))) = None"
      using miss(4,5) by (auto simp: find_None_iff)
    have all: "catoms (Suc h) (Ptr n) = conts (catoms h) (before (nchild n ! 0) (entries n) r) @
        catoms h (nchild n ! r) @ conts (catoms h) (steps (drop r (entries n)))"
      using steps_split [OF miss(2), of "nchild n ! 0"] kid by simp
    have in_kid: "find ?P (catoms (Suc h) (Ptr n)) = find ?P (catoms h (nchild n ! r))"
      unfolding all by (simp add: find_append none split: option.splits)
    have ok: "cell_ok 2 h (nchild n ! r)" using kid_all [OF kids miss(2)] kid by simp
    show ?thesis
    proof (cases h)
      case 0
      with ok in_kid miss show ?thesis by (subst b_Find.simps) (simp add: bindr_def)
    next
      case (Suc h')
      with ok obtain m where m: "nchild n ! r = Ptr m" by (auto split: cell.splits)
      have "keys_sorted (catoms h (nchild n ! r))"
        using "1.prems"(2) unfolding all by (simp only: map_append sorted_wrt_append)
      then have "b_Find m k = Inr (find ?P (catoms h (Ptr m)))"
        using "1.IH" Suc ok m by (metis lessI)
      with miss m in_kid show ?thesis by (subst b_Find.simps) (simp add: bindr_def)
    qed
  qed
qed

theorem b_Find_spec: "tree_ok root \<Longrightarrow> b_Find root k = Inr (find (\<lambda>a. key a = k) (atoms_of root))"
  using b_Find_height [of 0 "depth root" root k] by (simp add: tree_ok_def atoms_of_def)

section \<open>The contract of a store of lines\<close>

text \<open>What the users of the tree rely on: an insertion is kept unless the key is taken.\<close>

locale line_store =
  fixes inv :: "'s \<Rightarrow> bool" and start :: 's
    and put :: "'s \<Rightarrow> b_tree_atom \<Rightarrow> 's res" and get :: "'s \<Rightarrow> KeyType \<Rightarrow> b_tree_atom option res"
  assumes start_inv: "inv start" and get_start: "get start k = Inr None"
    and put_ok: "inv s \<Longrightarrow> \<exists>s'. put s a = Inr s' \<and> inv s' \<and>
      (\<forall>k. get s' k = (if k = key a \<and> get s k = Inr None then Inr (Some a) else get s k))"
    and get_ok: "inv s \<Longrightarrow> \<exists>x. get s k = Inr x"
begin

text \<open>After any sequence of insertions a key has the first atom that was put there.\<close>

lemma put_all:
  "inv s \<Longrightarrow> \<exists>s'. foldr_res put s as = Inr s' \<and> inv s' \<and>
     (\<forall>k. get s' k = (if get s k = Inr None then Inr (find (\<lambda>a. key a = k) as) else get s k))"
proof (induction "as" arbitrary: s)
  case Nil
  then show ?case by simp
next
  case (Cons a "as")
  obtain s1 where s1: "put s a = Inr s1" "inv s1"
    and g1: "\<And>k. get s1 k = (if k = key a \<and> get s k = Inr None then Inr (Some a) else get s k)"
    using put_ok [OF Cons.prems, of a] by blast
  obtain s' where s': "foldr_res put s1 as = Inr s'" "inv s'"
    and g: "\<And>k. get s' k = (if get s1 k = Inr None then Inr (find (\<lambda>a. key a = k) as) else get s1 k)"
    using Cons.IH [OF s1(2)] by blast
  have "get s' k = (if get s k = Inr None then Inr (find (\<lambda>a. key a = k) (a # as)) else get s k)" for k
    using g [of k] g1 [of k] by auto
  then show ?case using s1(1) s' by auto
qed

lemma put_all_from_start:
  "\<exists>s'. foldr_res put start as = Inr s' \<and> inv s' \<and> (\<forall>k. get s' k = Inr (find (\<lambda>a. key a = k) as))"
  using put_all [OF start_inv, of "as"] get_start by auto

end

lemma find_ins_atom:
  assumes "keys_sorted xs"
  shows "find (\<lambda>a. key a = k) (ins_atom a xs) =
    (if k = key a \<and> find (\<lambda>a. key a = k) xs = None then Some a else find (\<lambda>a. key a = k) xs)"
proof (cases "key a \<in> key ` set xs")
  case True
  then have "find (\<lambda>x. key x = key a) xs \<noteq> None" by (auto simp: find_None_iff)
  with True show ?thesis by (auto simp: ins_atom_def)
next
  case False
  define ls rs where "ls = takeWhile (\<lambda>x. key x < key a) xs" and "rs = dropWhile (\<lambda>x. key x < key a) xs"
  have xs: "xs = ls @ rs" by (simp add: ls_def rs_def)
  have none: "find (\<lambda>x. key x = key a) ls = None" "find (\<lambda>x. key x = key a) rs = None"
    using False unfolding xs unfolding find_None_iff by (metis Un_iff image_eqI set_append)+
  have "ins_atom a xs = ls @ a # rs" using False by (simp add: ins_atom_def ls_def rs_def)
  with none show ?thesis unfolding xs by (auto simp: find_append split: option.splits)
qed

interpretation bt: line_store tree_ok b_create b_insert b_Find
proof
  show "tree_ok b_create" by (rule b_create_ok)
  show "b_Find b_create k = Inr None" for k by (simp add: b_Find_spec b_create_ok)
  show "\<exists>x. b_Find s k = Inr x" if "tree_ok s" for s k by (simp add: b_Find_spec [OF that])
  show "\<exists>s'. b_insert s a = Inr s' \<and> tree_ok s' \<and>
      (\<forall>k. b_Find s' k = (if k = key a \<and> b_Find s k = Inr None then Inr (Some a) else b_Find s k))"
    if t: "tree_ok s" for s a
  proof -
    obtain s' where s': "b_insert s a = Inr s'" "tree_ok s'" "atoms_of s' = ins_atom a (atoms_of s)"
      using b_insert_spec [OF t] by blast
    have "keys_sorted (atoms_of s)" using t by (simp add: tree_ok_def)
    then show ?thesis using s' t by (auto simp: b_Find_spec find_ins_atom)
  qed
qed

text \<open>What a tree holds after a sequence of insertions.\<close>

lemma inserted_atoms:
  assumes "foldr_res b_insert b_create as = Inr root"
  shows "tree_ok root" and "find (\<lambda>a. key a = k) (atoms_of root) = find (\<lambda>a. key a = k) as"
    and "x \<in> set (atoms_of root) \<Longrightarrow> x \<in> set as"
proof -
  obtain root' where "foldr_res b_insert b_create as = Inr root'" "tree_ok root'"
    "\<forall>k. b_Find root' k = Inr (find (\<lambda>a. key a = k) as)"
    using bt.put_all_from_start by blast
  with assms have ok: "tree_ok root" and f: "\<And>k. b_Find root k = Inr (find (\<lambda>a. key a = k) as)" by auto
  show "tree_ok root" by (rule ok)
  show eq: "find (\<lambda>a. key a = k) (atoms_of root) = find (\<lambda>a. key a = k) as" for k
    using f [of k] b_Find_spec [OF ok, of k] by simp
  show "x \<in> set as" if "x \<in> set (atoms_of root)"
  proof -
    have "find (\<lambda>a. key a = key x) as = Some x"
      using find_unique [OF _ that refl] ok by (simp add: tree_ok_def eq)
    then show ?thesis by (auto simp: find_Some_iff)
  qed
qed

end
