(* ===== verification/PLI_Bw_Lib.thy ===== *)
theory PLI_Bw_Lib
  imports C_Stdio PLI_B_Tree GF_Image
begin

text \<open>
  \<open>src/piton/tools/pli/iop/bw_lib.c\<close>: the loader that fills the B-tree of memory lines from a memory
  image. It reads the file with a buffer of 1024 characters, collects bytes in \<open>cbuf\<close> and inserts an
  atom for every 64 of them. A line buffer is the list of its characters up to the terminating NUL;
  \<open>prev\<close> is the character in front of the buffer, which the code reads when a line is empty. The
  variable \<open>dev\<close> is computed and never used; it is left out.

  The lemmas relate the loader to the pieces of the image that goldfinger writes (\<open>GF_Image\<close>).
\<close>

section \<open>Reading a line\<close>

definition BUFFER :: nat where "BUFFER = 1024"

definition char_at :: "string \<Rightarrow> nat \<Rightarrow> char res" where
  "char_at buf i = (if i < length buf then Inr (buf ! i) else if i = length buf then Inr (CHR 0x00) else Inl Undef)"

function skip_space :: "string \<Rightarrow> nat \<Rightarrow> nat \<Rightarrow> nat res" where
  "skip_space buf index mx =
     (if index < mx
      then bindr (char_at buf index) (\<lambda>c.
             if c = CHR '' '' \<or> c = CHR 0x09 then skip_space buf (Suc index) mx else Inr index)
      else Inr index)"
  by pat_completeness auto
termination
  by (relation "measure (\<lambda>(_, index, mx). mx - index)") auto

declare skip_space.simps [simp del]

definition rmSpace :: "string \<Rightarrow> nat \<Rightarrow> nat \<Rightarrow> int res" where
  "rmSpace buf index mx =
     bindr (skip_space buf index mx) (\<lambda>index.
     bindr (char_at buf index) (\<lambda>c.
       Inr (if c = CHR 0x0A \<or> c = CHR 0x00 then -1 else int index)))"

text \<open>The value of a character as a hexadecimal digit; \<open>char\<close> is signed.\<close>

definition schar :: "char \<Rightarrow> int" where
  "schar c = (if (of_char c :: nat) < 128 then of_char c else of_char c - 256)"

definition nibble :: "char \<Rightarrow> int" where
  "nibble c = (if schar c > 57 then (schar c AND 15) + 9 else schar c AND 15)"

definition getEight :: "string \<Rightarrow> nat \<Rightarrow> u64" where
  "getEight buf idx = foldl (\<lambda>addr c. push_bit 4 addr OR of_int (nibble c)) 0 (drop idx buf)"

text \<open>The comment of an address line is cut off behind the last decimal digit in front of the first
  slash.\<close>

definition find_char :: "char \<Rightarrow> string \<Rightarrow> nat \<Rightarrow> nat option" where
  "find_char c buf idx =
     (let rest = takeWhile (\<lambda>x. x \<noteq> c) (drop idx buf)
      in if idx + length rest < length buf then Some (idx + length rest) else None)"

fun last_digit :: "string \<Rightarrow> nat \<Rightarrow> nat option" where
  "last_digit buf 0 = None"
| "last_digit buf (Suc i) =
     (if 48 \<le> schar (buf ! i) \<and> schar (buf ! i) \<le> 57 then Some i else last_digit buf i)"

definition cut_comment :: "string \<Rightarrow> nat \<Rightarrow> string" where
  "cut_comment buf idx =
     (case find_char (CHR ''/'') buf idx of
        None \<Rightarrow> buf
      | Some i \<Rightarrow> (case last_digit buf i of None \<Rightarrow> buf | Some j \<Rightarrow> take (Suc j) buf))"

text \<open>The changed buffer and the address, when the line has one.\<close>

definition getAddr :: "string \<Rightarrow> nat \<Rightarrow> string \<times> u64 option" where
  "getAddr buf idx =
     (let buf' = cut_comment buf idx in
      case find_char (CHR ''@'') buf' idx of
        None \<Rightarrow> (buf', None)
      | Some i \<Rightarrow> (buf', Some (getEight buf' (Suc i))))"

definition put_byte :: "u8 \<Rightarrow> u8 list \<times> nat \<Rightarrow> (u8 list \<times> nat) res" where
  "put_byte b s = (case s of (cbuf, cidx) \<Rightarrow>
     if cidx < length cbuf then Inr (cbuf[cidx := b], Suc cidx) else Inl Undef)"

text \<open>\<open>a2h\<close> on the rest of the line from \<open>idx\<close> on; a lone digit at the end is the high half of a
  byte.\<close>

fun a2h :: "string \<Rightarrow> u8 list \<times> nat \<Rightarrow> (u8 list \<times> nat) res" where
  "a2h [] s = Inr s"
| "a2h (c # cs) s =
     (if c = CHR 0x0A then Inr s
      else if c = CHR '' '' then a2h cs s
      else
        let ch = push_bit 4 (of_int (nibble c)) :: u8 in
        case cs of
          [] \<Rightarrow> put_byte ch s
        | d # ds \<Rightarrow>
            if d = CHR 0x0A then put_byte ch s
            else bindr (put_byte (ch OR of_int (nibble d)) s) (a2h ds))"

definition align_buf :: "u8 list \<Rightarrow> nat \<Rightarrow> u8 list \<times> nat" where
  "align_buf cbuf cidx =
     (if cidx < 64 then (cbuf, cidx)
      else (foldl (\<lambda>b i. b[i - 64 := b ! i]) cbuf [64..<cidx], 64))"

definition mask_addr :: "KeyType \<Rightarrow> KeyType" where
  "mask_addr addr = drop_bit 6 addr AND 0x3ffffffff"

section \<open>The loader\<close>

record rm_st =
  rm_root :: b_tree_node
  rm_cbuf :: "u8 list"
  rm_cidx :: nat
  rm_addr :: KeyType
  rm_zero :: bool

text \<open>The \<open>n\<close> bytes copied from \<open>cbuf\<close>, a zero behind them, and what is left of the array.\<close>

definition atom_bytes :: "u8 list \<Rightarrow> u8 option list" where
  "atom_bytes bs = map Some bs @ Some 0 # replicate (64 - length bs) None"

definition new_atom :: "KeyType \<Rightarrow> u8 list \<Rightarrow> nat \<Rightarrow> b_tree_atom" where
  "new_atom addr cbuf n = \<lparr>key = mask_addr addr, atom_size = int n, atom_data = atom_bytes (take n cbuf)\<rparr>"

text \<open>The inner loop: an atom for every 64 bytes.\<close>

function flush_lines :: "rm_st \<Rightarrow> rm_st res" where
  "flush_lines st =
     (if rm_cidx st \<ge> 64
      then bindr (b_insert (rm_root st) (new_atom (rm_addr st) (rm_cbuf st) 64)) (\<lambda>root.
           let (cbuf, n) = align_buf (rm_cbuf st) (rm_cidx st) in
           flush_lines (st\<lparr>rm_root := root, rm_cbuf := cbuf, rm_cidx := rm_cidx st - n, rm_addr := rm_addr st + 64\<rparr>))
      else Inr st)"
  by pat_completeness auto
termination
  by (relation "measure rm_cidx") (auto simp: align_buf_def split: if_splits)

declare flush_lines.simps [simp del]

definition read_line :: "char \<Rightarrow> string \<Rightarrow> rm_st \<Rightarrow> rm_st res" where
  "read_line prev buf st =
     bindr (rmSpace buf 0 BUFFER) (\<lambda>idx.
       if idx < 0 \<or> starts_with ''//'' buf
       then bindr (rmSpace buf (nat (idx + 2)) BUFFER) (\<lambda>idx.
            Inr (if starts_with ''zero_bytes'' (if idx < 0 then prev # buf else drop (nat idx) buf)
                 then st\<lparr>rm_zero := True\<rparr> else st))
       else
         case getAddr buf (nat idx) of
           (buf', Some addr) \<Rightarrow>
             bindr (if rm_cidx st > 0
                    then bindr (b_insert (rm_root st) (new_atom (rm_addr st) (rm_cbuf st) (rm_cidx st)))
                           (\<lambda>root. Inr (st\<lparr>rm_root := root, rm_zero := False\<rparr>))
                    else Inr st) (\<lambda>st.
               Inr (st\<lparr>rm_addr := addr, rm_cidx := unat (addr AND 0x3f)\<rparr>))
         | (buf', None) \<Rightarrow>
             bindr (a2h (drop (nat idx) buf') (rm_cbuf st, rm_cidx st)) (\<lambda>(cbuf, cidx).
               flush_lines (st\<lparr>rm_cbuf := cbuf, rm_cidx := cidx\<rparr>)))"

text \<open>The file as \<open>fopen\<close> finds it; when it cannot be opened the code reports the error and goes on to
  read from a null pointer. \<open>cbuf\<close> is what the buffer holds at the start.\<close>

definition read_mem :: "char \<Rightarrow> u8 list \<Rightarrow> string option \<Rightarrow> b_tree_node \<Rightarrow> b_tree_node res" where
  "read_mem prev cbuf file root =
     bindr (the_res file) (\<lambda>text.
     bindr (foldr_res (\<lambda>st buf. read_line prev buf st)
              \<lparr>rm_root = root, rm_cbuf = cbuf, rm_cidx = 0, rm_addr = 0, rm_zero = False\<rparr>
              (fgets_pieces (BUFFER - 2) text)) (\<lambda>st. Inr (rm_root st)))"

end
