(* ===== verification/PLI_Load.thy ===== *)
theory PLI_Load
  imports PLI_Bw_Lib
begin

text \<open>
  What \<open>read_mem\<close> makes of the text that goldfinger writes: every 64 bytes of data become an atom at
  their address, provided every address line is a multiple of 64. \<open>image_atoms\<close> is that reading of
  the pieces of an image; the main lemma shows that the loader inserts exactly these atoms.
\<close>

section \<open>Digits\<close>

lemma hexdigit_all:
  "list_all (\<lambda>d. nibble (hexdigit d) = int d \<and> hexdigit d \<notin> {CHR 0x0A, CHR '' '', CHR 0x09, CHR 0x00, CHR ''/'', CHR ''@''}) [0..<16]"
  by code_simp

lemma hexdigit_facts:
  assumes "d < 16"
  shows "nibble (hexdigit d) = int d" "hexdigit d \<noteq> CHR 0x0A" "hexdigit d \<noteq> CHR '' ''" "hexdigit d \<noteq> CHR 0x09"
    "hexdigit d \<noteq> CHR 0x00" "hexdigit d \<noteq> CHR ''/''" "hexdigit d \<noteq> CHR ''@''"
  using hexdigit_all assms by (auto simp: list_all_iff)

lemma hex_byte_facts: "unat (b :: u8) div 16 < 16" "unat b mod 16 < 16"
proof -
  have "unat b < 2 ^ 8" using unsigned_less [of b] by simp
  then show "unat b div 16 < 16" "unat b mod 16 < 16" by simp_all
qed

lemma join_nibbles: "push_bit 4 (of_nat (unat b div 16)) OR of_nat (unat b mod 16) = (b :: u8)"
proof -
  have "(of_nat (unat b div 16) :: u8) = drop_bit 4 b"
  proof (rule unsigned_word_eqI [where 'a = nat])
    have "unat b div 16 < 2 ^ 8" using hex_byte_facts(1) [of b] by simp
    then show "unat (of_nat (unat b div 16) :: u8) = unat (drop_bit 4 b)"
      unfolding unat_drop_bit_eq by (simp add: unat_of_nat drop_bit_eq_div)
  qed
  moreover have "(of_nat (unat b mod 16) :: u8) = take_bit 4 b"
  proof (rule unsigned_word_eqI [where 'a = nat])
    have "unat b mod 16 < 2 ^ 8" using hex_byte_facts(2) [of b] by simp
    then show "unat (of_nat (unat b mod 16) :: u8) = unat (take_bit 4 b)"
      unfolding unsigned_take_bit_eq by (simp add: unat_of_nat take_bit_eq_mod)
  qed
  ultimately show ?thesis by (simp add: bit_eq_iff bit_simps) auto
qed

lemma a2h_byte:
  assumes "i < length b"
  shows "a2h (hex_byte x @ cs) (b, i) = a2h cs (b[i := x], Suc i)"
  using assms hexdigit_facts [OF hex_byte_facts(1) [of x]] hexdigit_facts [OF hex_byte_facts(2) [of x]] join_nibbles [of x]
  by (simp add: hex_byte_def put_byte_def bindr_def)

lemma a2h_text:
  "i + length bs \<le> length b \<Longrightarrow>
   a2h (hex_text bs @ cs) (b, i) = a2h cs (take i b @ bs @ drop (i + length bs) b, i + length bs)"
proof (induction bs arbitrary: b i)
  case (Cons x bs)
  then have "a2h (hex_text (x # bs) @ cs) (b, i) = a2h (hex_text bs @ cs) (b[i := x], Suc i)"
    by (simp add: a2h_byte)
  also have "\<dots> = a2h cs (take (Suc i) (b[i := x]) @ bs @ drop (Suc i + length bs) (b[i := x]), Suc i + length bs)"
    using Cons.prems by (intro Cons.IH) simp
  also have "take (Suc i) (b[i := x]) = take i b @ [x]"
    using Cons.prems by (simp add: take_Suc_conv_app_nth)
  finally show ?case by simp
qed simp

lemma a2h_join:
  "i + length (concat chunks) \<le> length b \<Longrightarrow>
   a2h (join '' '' (map hex_text chunks) @ NL) (b, i) =
     Inr (take i b @ concat chunks @ drop (i + length (concat chunks)) b, i + length (concat chunks))"
proof (induction "'' '' :: string" "map hex_text chunks" arbitrary: chunks b i rule: join.induct)
  case 1
  then show ?case by simp
next
  case (2 x)
  then obtain c where "chunks = [c]" by auto
  with 2 show ?case by (simp add: a2h_text)
next
  case (3 x y zs)
  then obtain c cs where ch: "chunks = c # cs" "hex_text c = x" "map hex_text cs = y # zs" by (cases chunks) auto
  let ?b = "take i b @ c @ drop (i + length c) b"
  have "a2h (join '' '' (map hex_text chunks) @ NL) (b, i) = a2h (join '' '' (map hex_text cs) @ NL) (?b, i + length c)"
  proof -
    have "map hex_text chunks = hex_text c # y # zs" using ch by simp
    then have "join '' '' (map hex_text chunks) = hex_text c @ CHR '' '' # join '' '' (map hex_text cs)"
      unfolding ch(3) by simp
    then show ?thesis using 3(3) ch(1) by (simp add: a2h_text)
  qed
  also have "\<dots> = Inr (take (i + length c) ?b @ concat cs @ drop (i + length c + length (concat cs)) ?b,
      i + length c + length (concat cs))"
    using 3 ch by (intro 3(1)) auto
  finally show ?case using ch(1) 3 by (simp add: ac_simps)
qed

text \<open>An address reads back.\<close>

lemma getEight_digits:
  "foldl (\<lambda>addr c. push_bit 4 addr OR of_int (nibble c)) acc (hex_digits k w) =
     push_bit (4 * k) acc OR take_bit (4 * k) w" for w :: u64
proof (induction k arbitrary: acc)
  case (Suc k)
  have d: "unat (take_bit 4 (drop_bit (4 * k) w)) < 16"
    using take_bit_nat_less_exp [of 4] by (simp add: unsigned_take_bit_eq)
  have n: "(of_int (int (unat (take_bit 4 (drop_bit (4 * k) w)))) :: u64) = take_bit 4 (drop_bit (4 * k) w)"
    by simp
  show ?case
    unfolding hex_digits_Suc foldl_Cons hexdigit_facts(1) [OF d] n Suc.IH
    by (rule bit_eqI) (auto simp: bit_simps add.commute)
qed (simp add: hex_digits_def)

section \<open>Reading one piece of an image\<close>

fun item_bytes :: "img_item \<Rightarrow> u8 list" where
  "item_bytes (Row64 ws) = concat (map (be_bytes 8) ws)"
| "item_bytes (Row32 ps) = concat (map (\<lambda>(a, b). be_bytes 4 a @ be_bytes 4 b) ps)"
| "item_bytes _ = []"

fun chunk_atoms :: "KeyType \<Rightarrow> u8 list \<Rightarrow> b_tree_atom list" where
  "chunk_atoms a bs =
     (if length bs < 64 then [] else \<lparr>key = mask_addr a, atom_size = 64, atom_data = atom_bytes (take 64 bs)\<rparr> #
        chunk_atoms (a + 64) (drop 64 bs))"

declare chunk_atoms.simps [simp del]

text \<open>\<open>a\<close> is where the next 64 bytes go, \<open>pend\<close> what is collected so far.\<close>

fun image_atoms :: "KeyType \<Rightarrow> u8 list \<Rightarrow> img_item list \<Rightarrow> b_tree_atom list" where
  "image_atoms a pend [] = []"
| "image_atoms a pend (At b txt # is) =
     (if pend = [] then [] else [\<lparr>key = mask_addr a, atom_size = int (length pend), atom_data = atom_bytes pend\<rparr>]) @ image_atoms b [] is"
| "image_atoms a pend (it # is) =
     (let bs = pend @ item_bytes it; n = 64 * (length bs div 64)
      in chunk_atoms a bs @ image_atoms (a + of_nat n) (drop n bs) is)"

text \<open>Pieces whose line fits the buffer, and those the loader reads without loss: addresses of whole
  lines only.\<close>

fun item_short :: "img_item \<Rightarrow> bool" where
  "item_short (At a txt) \<longleftrightarrow> CHR 0x0A \<notin> set txt \<and> length txt \<le> 1000"
| "item_short (Note txt) \<longleftrightarrow> CHR 0x0A \<notin> set txt \<and> length txt \<le> 1000"
| "item_short (Row64 ws) \<longleftrightarrow> ws \<noteq> [] \<and> length ws \<le> 60"
| "item_short (Row32 ps) \<longleftrightarrow> ps \<noteq> [] \<and> length ps \<le> 60"
| "item_short Blank \<longleftrightarrow> True"

fun item_fits :: "img_item \<Rightarrow> bool" where
  "item_fits (At a txt) \<longleftrightarrow> a AND 63 = 0 \<and> item_short (At a txt)"
| "item_fits it \<longleftrightarrow> item_short it"

lemma item_fits_short: "item_fits it \<Longrightarrow> item_short it"
  by (cases it) simp_all

lemma align_buf_spec:
  assumes "64 \<le> n" "n \<le> length b"
  shows "snd (align_buf b n) = 64" and "length (fst (align_buf b n)) = length b"
    and "take (n - 64) (fst (align_buf b n)) = drop 64 (take n b)"
proof -
  have "length (foldl (\<lambda>b i. b[i - 64 := b ! i]) b [64..<m]) = length b \<and>
     (\<forall>j < length b. foldl (\<lambda>b i. b[i - 64 := b ! i]) b [64..<m] ! j = (if j + 64 < m then b ! (j + 64) else b ! j))"
    if "64 \<le> m" "m \<le> length b" for m
    using that
  proof (induction m rule: dec_induct)
    case (step m)
    then show ?case by (auto simp: nth_list_update)
  qed simp
  from this [OF assms] assms show "snd (align_buf b n) = 64" "length (fst (align_buf b n)) = length b"
    "take (n - 64) (fst (align_buf b n)) = drop 64 (take n b)"
    by (auto simp: align_buf_def intro!: nth_equalityI simp: add.commute)
qed

text \<open>The state of the loader, seen as what it has collected.\<close>

definition rm_ok :: "rm_st \<Rightarrow> bool" where
  "rm_ok st \<longleftrightarrow> length (rm_cbuf st) = BUFFER \<and> rm_cidx st \<le> BUFFER \<and> tree_ok (rm_root st)"

definition pend :: "rm_st \<Rightarrow> u8 list" where
  "pend st = take (rm_cidx st) (rm_cbuf st)"

lemma length_pend: "rm_ok st \<Longrightarrow> length (pend st) = rm_cidx st"
  by (simp add: rm_ok_def pend_def)

lemma pend_empty: "rm_cidx st = 0 \<Longrightarrow> pend st = []"
  by (simp add: pend_def)

lemma flush_lines_spec:
  "rm_ok st \<Longrightarrow> \<exists>st'. flush_lines st = Inr st' \<and> rm_ok st' \<and>
     foldr_res b_insert (rm_root st) (chunk_atoms (rm_addr st) (pend st)) = Inr (rm_root st') \<and>
     pend st' = drop (64 * (rm_cidx st div 64)) (pend st) \<and> rm_cidx st' < 64 \<and>
     rm_addr st' = rm_addr st + of_nat (64 * (rm_cidx st div 64))"
proof (induction "rm_cidx st" arbitrary: st rule: less_induct)
  case less
  note len = length_pend [OF less.prems]
  show ?case
  proof (cases "64 \<le> rm_cidx st")
    case False
    then show ?thesis using less.prems len
      by (subst flush_lines.simps) (simp add: chunk_atoms.simps)
  next
    case True
    have ok: "length (rm_cbuf st) = BUFFER" "rm_cidx st \<le> BUFFER" "tree_ok (rm_root st)"
      using less.prems by (auto simp: rm_ok_def)
    let ?a = "new_atom (rm_addr st) (rm_cbuf st) 64"
    obtain root where root: "b_insert (rm_root st) ?a = Inr root" "tree_ok root"
      using b_insert_spec [OF ok(3)] by blast
    obtain cb n where al: "align_buf (rm_cbuf st) (rm_cidx st) = (cb, n)" by fastforce
    from align_buf_spec [OF True, of "rm_cbuf st"] ok al
    have cb: "n = 64" "length cb = BUFFER" "take (rm_cidx st - 64) cb = drop 64 (pend st)"
      by (auto simp: pend_def)
    define st1 where "st1 = st\<lparr>rm_root := root, rm_cbuf := cb, rm_cidx := rm_cidx st - 64, rm_addr := rm_addr st + 64\<rparr>"
    have st1: "rm_ok st1" "pend st1 = drop 64 (pend st)" "rm_cidx st1 = rm_cidx st - 64" "rm_root st1 = root"
      "rm_addr st1 = rm_addr st + 64"
      using cb ok root by (auto simp: st1_def rm_ok_def pend_def)
    have step: "flush_lines st = flush_lines st1"
      using True by (subst flush_lines.simps) (simp add: root al cb(1) st1_def bindr_def)
    have p64: "take 64 (pend st) = take 64 (rm_cbuf st)" using True by (simp add: pend_def min_def)
    have atoms: "chunk_atoms (rm_addr st) (pend st) = ?a # chunk_atoms (rm_addr st1) (pend st1)"
      using True len p64 by (subst chunk_atoms.simps) (simp add: new_atom_def st1)
    have q: "rm_cidx st div 64 = Suc (rm_cidx st1 div 64)"
      using True by (simp add: st1 div_if)
    from less.hyps [of st1] True st1 obtain st' where "flush_lines st1 = Inr st'" "rm_ok st'"
      "foldr_res b_insert root (chunk_atoms (rm_addr st1) (pend st1)) = Inr (rm_root st')"
      "pend st' = drop (64 * (rm_cidx st1 div 64)) (pend st1)" "rm_cidx st' < 64"
      "rm_addr st' = rm_addr st1 + of_nat (64 * (rm_cidx st1 div 64))"
      by auto
    then show ?thesis unfolding step atoms q by (simp add: root st1 add.commute algebra_simps)
  qed
qed

section \<open>Lines\<close>

lemma rmSpace_first:
  assumes "c \<notin> {CHR '' '', CHR 0x09, CHR 0x0A, CHR 0x00}"
  shows "rmSpace (c # cs) 0 BUFFER = Inr 0"
  using assms by (subst rmSpace_def, subst skip_space.simps) (simp add: BUFFER_def char_at_def bindr_def)

lemma be_bytes_empty: "be_bytes k w = [] \<longleftrightarrow> k = 0"
  using length_be_bytes [of k w] by (metis length_0_conv)

text \<open>A row of data.\<close>

lemma set_join: "set (join s xs) \<subseteq> \<Union> (set ` set xs) \<union> set s"
  by (induction s xs rule: join.induct) auto

lemma not_hexdigit: "CHR ''/'' \<notin> hexdigit ` {..<16}" "CHR ''@'' \<notin> hexdigit ` {..<16}"
  using hexdigit_facts(6,7) by (force, force)

lemma row_chars: "set (join '' '' (map hex_text chunks)) \<subseteq> hexdigit ` {..<16} \<union> {CHR '' ''}"
proof -
  have "set (hex_text c) \<subseteq> hexdigit ` {..<16}" for c
    using hex_byte_facts by (induction c) (auto simp: hex_byte_def)
  with set_join [of "'' ''" "map hex_text chunks"] show ?thesis by fastforce
qed

lemma find_char_absent: "c \<notin> set buf \<Longrightarrow> find_char c buf i = None"
proof -
  assume "c \<notin> set buf"
  then have "\<forall>x \<in> set (drop i buf). x \<noteq> c" by (metis in_set_dropD)
  then have tw: "takeWhile (\<lambda>x. x \<noteq> c) (drop i buf) = drop i buf" by (simp add: takeWhile_eq_all_conv)
  show ?thesis unfolding find_char_def Let_def tw by simp
qed

lemma find_char_first: "c \<notin> set p \<Longrightarrow> find_char c (p @ c # r) 0 = Some (length p)"
proof -
  assume "c \<notin> set p"
  then have "takeWhile (\<lambda>x. x \<noteq> c) (p @ c # r) = p" by (subst takeWhile_append2) auto
  then show ?thesis by (simp add: find_char_def)
qed

lemma read_row_step:
  assumes ok: "rm_ok st" and small: "rm_cidx st < 64" and ch: "chunks \<noteq> []" "hd chunks \<noteq> []"
    and len: "length (concat chunks) \<le> 480"
  shows "read_line prev (join '' '' (map hex_text chunks) @ NL) st =
    flush_lines (st\<lparr>rm_cbuf := take (rm_cidx st) (rm_cbuf st) @ concat chunks @ drop (rm_cidx st + length (concat chunks)) (rm_cbuf st),
      rm_cidx := rm_cidx st + length (concat chunks)\<rparr>)"
proof -
  define ln where "ln = join '' '' (map hex_text chunks) @ NL"
  obtain b bs cs where hdc: "chunks = (b # bs) # cs" using ch by (cases chunks; cases "hd chunks") auto
  obtain rest where ln: "ln = hexdigit (unat b div 16) # rest"
    by (cases cs) (auto simp: ln_def hdc hex_byte_def)
  note h = hexdigit_facts [OF hex_byte_facts(1) [of b]]
  have absent: "CHR ''/'' \<notin> set ln" "CHR ''@'' \<notin> set ln"
    using row_chars [of chunks] not_hexdigit unfolding ln_def by auto
  have "getAddr ln 0 = (ln, None)"
    by (simp add: getAddr_def cut_comment_def find_char_absent absent)
  moreover have "rmSpace ln 0 BUFFER = Inr 0"
    unfolding ln by (rule rmSpace_first) (use h in simp)
  moreover have "\<not> starts_with ''//'' ln"
    using h by (simp add: starts_with_def ln)
  ultimately have line: "read_line prev ln st =
      bindr (a2h ln (rm_cbuf st, rm_cidx st)) (\<lambda>(cbuf, cidx). flush_lines (st\<lparr>rm_cbuf := cbuf, rm_cidx := cidx\<rparr>))"
    by (simp add: read_line_def bindr_def)
  let ?n = "rm_cidx st + length (concat chunks)"
  define st1 where "st1 = st\<lparr>rm_cbuf := take (rm_cidx st) (rm_cbuf st) @ concat chunks @ drop ?n (rm_cbuf st), rm_cidx := ?n\<rparr>"
  have "a2h ln (rm_cbuf st, rm_cidx st) = Inr (rm_cbuf st1, rm_cidx st1)"
    using ok small len a2h_join [of "rm_cidx st" chunks "rm_cbuf st"] by (simp add: ln_def rm_ok_def BUFFER_def st1_def)
  then have "read_line prev ln st = flush_lines st1" unfolding line by (simp add: bindr_def st1_def)
  then show ?thesis by (simp only: ln_def st1_def)
qed

lemma read_row:
  assumes ok: "rm_ok st" and small: "rm_cidx st < 64" and ch: "chunks \<noteq> []" "hd chunks \<noteq> []"
    and len: "length (concat chunks) \<le> 480"
  shows "\<exists>st'. read_line prev (join '' '' (map hex_text chunks) @ NL) st = Inr st' \<and> rm_ok st' \<and>
     foldr_res b_insert (rm_root st) (chunk_atoms (rm_addr st) (pend st @ concat chunks)) = Inr (rm_root st') \<and>
     pend st' = drop (64 * ((rm_cidx st + length (concat chunks)) div 64)) (pend st @ concat chunks) \<and> rm_cidx st' < 64 \<and>
     rm_addr st' = rm_addr st + of_nat (64 * ((rm_cidx st + length (concat chunks)) div 64))"
proof -
  let ?n = "rm_cidx st + length (concat chunks)"
  define st1 where "st1 = st\<lparr>rm_cbuf := take (rm_cidx st) (rm_cbuf st) @ concat chunks @ drop ?n (rm_cbuf st), rm_cidx := ?n\<rparr>"
  have "rm_ok st1" "pend st1 = pend st @ concat chunks" "rm_cidx st1 = ?n" "rm_root st1 = rm_root st" "rm_addr st1 = rm_addr st"
    using ok small len by (auto simp: rm_ok_def st1_def pend_def BUFFER_def)
  then show ?thesis
    using flush_lines_spec [of st1] unfolding read_row_step [OF ok small ch len] st1_def [symmetric] by auto
qed

text \<open>An address line.\<close>

lemma last_hex_digit:
  assumes "a AND 15 = 0"
  shows "hex_digits 16 (a :: u64) = hex_digits 15 (drop_bit 4 a) @ [CHR ''0'']"
proof -
  have "hex_digits (Suc k) a = hex_digits k (drop_bit 4 a) @ [hexdigit (unat (take_bit 4 a))]" for k
  proof (induction k)
    case (Suc k)
    have "hex_digits (Suc (Suc k)) a = hexdigit (unat (take_bit 4 (drop_bit (4 * Suc k) a))) # hex_digits (Suc k) a"
      by (rule hex_digits_Suc)
    then show ?case unfolding Suc by (simp add: hex_digits_Suc add.commute)
  qed (simp add: hex_digits_def)
  from this [of 15] have "hex_digits 16 a = hex_digits 15 (drop_bit 4 a) @ [hexdigit (unat (take_bit 4 a))]"
    by simp
  moreover have "take_bit 4 a = 0" using assms by (simp add: take_bit_eq_mask mask_eq_exp_minus_1)
  ultimately show ?thesis by (simp add: hexdigit_def)
qed

lemma line_aligned: "a AND 63 = 0 \<Longrightarrow> a AND 15 = 0" for a :: u64
proof -
  assume "a AND 63 = 0"
  then have "take_bit 6 a = 0" by (simp add: take_bit_eq_mask mask_eq_exp_minus_1)
  then have "take_bit 4 (take_bit 6 a) = 0" by simp
  then have "take_bit 4 a = 0" by simp
  then show ?thesis by (simp add: take_bit_eq_mask mask_eq_exp_minus_1)
qed

lemma hex_digits_chars: "set (hex_digits k w) \<subseteq> hexdigit ` {..<16}"
proof -
  have "unat (take_bit 4 x) < 16" for x :: "'a word"
    using take_bit_nat_less_exp [of 4 "unat x"] by (simp add: unsigned_take_bit_eq)
  then show ?thesis by (auto simp: hex_digits_def)
qed

lemma getAddr_line:
  assumes "a AND 15 = 0"
  shows "getAddr (''@'' @ hex_digits 16 a @ TAB @ ''// '' @ txt @ NL) 0 = (''@'' @ hex_digits 16 a, Some a)"
proof -
  define p where "p = ''@'' @ hex_digits 16 a @ TAB"
  define buf where "buf = p @ CHR ''/'' # ''/ '' @ txt @ NL"
  have digits: "set (hex_digits 16 a) \<subseteq> hexdigit ` {..<16}" by (rule hex_digits_chars)
  then have "CHR ''/'' \<notin> set p" using not_hexdigit by (auto simp: p_def)
  then have slash: "find_char (CHR ''/'') buf 0 = Some 18"
    unfolding buf_def by (subst find_char_first) (simp_all add: p_def)
  have p16: "buf ! 16 = CHR ''0''" "buf ! 17 = CHR 0x09"
    by (simp_all add: buf_def p_def nth_append last_hex_digit [OF assms])
  have "last_digit buf 18 = Some 16"
    using p16 last_digit.simps(2) [of buf 17] last_digit.simps(2) [of buf 16] by (simp add: schar_def)
  then have cut: "cut_comment buf 0 = ''@'' @ hex_digits 16 a"
    by (simp add: cut_comment_def slash) (simp add: buf_def p_def)
  have "find_char (CHR ''@'') (''@'' @ hex_digits 16 a) 0 = Some 0"
    using find_char_first [of "CHR ''@''" "[]" "hex_digits 16 a"] by simp
  moreover have "getEight (''@'' @ hex_digits 16 a) (Suc 0) = a"
    using getEight_digits [of 0 16 a] take_bit_length_eq [of a] by (simp add: getEight_def)
  ultimately have "getAddr buf 0 = (''@'' @ hex_digits 16 a, Some a)"
    by (simp add: getAddr_def cut)
  then show ?thesis by (simp add: buf_def p_def)
qed

lemma read_At:
  assumes ok: "rm_ok st" and a: "a AND 15 = 0"
  shows "\<exists>st'. read_line prev (render_item (At a txt)) st = Inr st' \<and> rm_ok st' \<and>
     foldr_res b_insert (rm_root st) (image_atoms (rm_addr st) (pend st) [At a txt]) = Inr (rm_root st') \<and>
     rm_cbuf st' = rm_cbuf st \<and> rm_cidx st' = unat (a AND 63) \<and> rm_addr st' = a"
proof -
  have sp: "rmSpace (render_item (At a txt)) 0 BUFFER = Inr 0" by (simp add: rmSpace_first)
  have ns: "\<not> starts_with ''//'' (render_item (At a txt))" by (simp add: starts_with_def)
  have ga: "getAddr (render_item (At a txt)) 0 = (''@'' @ hex_digits 16 a, Some a)"
    using getAddr_line [OF a] by simp
  have "a AND 63 \<le> 63" by (rule word_and_le1)
  then have z: "unat (a AND 63) \<le> BUFFER" by (simp add: word_le_nat_alt BUFFER_def)
  obtain root where root: "b_insert (rm_root st) (new_atom (rm_addr st) (rm_cbuf st) (rm_cidx st)) = Inr root" "tree_ok root"
    using b_insert_spec [of "rm_root st"] ok by (auto simp: rm_ok_def)
  have atom: "new_atom (rm_addr st) (rm_cbuf st) (rm_cidx st) =
      \<lparr>key = mask_addr (rm_addr st), atom_size = int (length (pend st)), atom_data = atom_bytes (pend st)\<rparr>"
    using length_pend [OF ok] by (simp add: new_atom_def pend_def)
  have empty: "pend st = [] \<longleftrightarrow> rm_cidx st = 0" using length_pend [OF ok] by auto
  show ?thesis
    using ok root sp ns ga z empty
    by (cases "rm_cidx st = 0") (auto simp: read_line_def bindr_def rm_ok_def atom [symmetric])
qed

text \<open>Comments and empty lines change nothing but the flag.\<close>

lemma skip_space_total: "i \<le> length buf \<Longrightarrow> \<exists>j \<le> length buf. skip_space buf i mx = Inr j"
proof (induction buf i mx rule: skip_space.induct)
  case (1 buf i mx)
  then show ?case
    by (subst skip_space.simps) (cases "i = length buf"; auto simp: char_at_def bindr_def)
qed

lemma rmSpace_total: "i \<le> length buf \<Longrightarrow> \<exists>j. rmSpace buf i mx = Inr j"
  using skip_space_total [of i buf mx] by (auto simp: rmSpace_def bindr_def char_at_def)

lemma read_comment:
  assumes "rmSpace buf 0 BUFFER = Inr i" "i < 0 \<or> starts_with ''//'' buf" "nat (i + 2) \<le> length buf"
  shows "\<exists>z. read_line prev buf st = Inr (st\<lparr>rm_zero := z\<rparr>)"
proof -
  obtain j where "rmSpace buf (nat (i + 2)) BUFFER = Inr j" using rmSpace_total assms(3) by blast
  with assms(1,2) have "read_line prev buf st = Inr st \<or> read_line prev buf st = Inr (st\<lparr>rm_zero := True\<rparr>)"
    by (auto simp: read_line_def bindr_def)
  then show ?thesis
  proof
    assume "read_line prev buf st = Inr st"
    then show ?thesis by (intro exI [of _ "rm_zero st"]) simp
  qed blast
qed

lemma read_Note: "\<exists>z. read_line prev (render_item (Note txt)) st = Inr (st\<lparr>rm_zero := z\<rparr>)"
  by (rule read_comment [of _ 0]) (simp_all add: rmSpace_first starts_with_def)

lemma read_Blank: "\<exists>z. read_line prev (render_item Blank) st = Inr (st\<lparr>rm_zero := z\<rparr>)"
proof (rule read_comment)
  show "rmSpace (render_item Blank) 0 BUFFER = Inr (-1)" by code_simp
qed simp_all

lemma zero_flag: "rm_ok (st\<lparr>rm_zero := z\<rparr>) = rm_ok st" "pend (st\<lparr>rm_zero := z\<rparr>) = pend st"
  by (simp_all add: rm_ok_def pend_def)

lemma image_atoms_quiet: "it = Blank \<or> it = Note t \<Longrightarrow> length bs < 64 \<Longrightarrow>
    image_atoms a bs (it # is) = image_atoms a bs is"
  by (auto simp: chunk_atoms.simps)

text \<open>One piece of the image: the atoms it completes are inserted, and the rest of the image is read from
  the state it leaves.\<close>

lemma read_item:
  assumes fits: "item_fits it" and ok: "rm_ok st" and small: "rm_cidx st < 64"
  shows "\<exists>st' as. read_line prev (render_item it) st = Inr st' \<and> rm_ok st' \<and> rm_cidx st' < 64 \<and>
     foldr_res b_insert (rm_root st) as = Inr (rm_root st') \<and>
     (\<forall>is. image_atoms (rm_addr st) (pend st) (it # is) = as @ image_atoms (rm_addr st') (pend st') is)"
proof -
  note len = length_pend [OF ok]
  have row: ?thesis if it: "\<And>is. image_atoms (rm_addr st) (pend st) (it # is) =
        (let bs = pend st @ item_bytes it; n = 64 * (length bs div 64)
         in chunk_atoms (rm_addr st) bs @ image_atoms (rm_addr st + of_nat n) (drop n bs) is)"
    and r: "render_item it = join '' '' (map hex_text chunks) @ NL" and b: "item_bytes it = concat chunks"
    and c: "chunks \<noteq> []" "hd chunks \<noteq> []" "length (concat chunks) \<le> 480" for chunks
  proof -
    obtain st' where "read_line prev (render_item it) st = Inr st'" "rm_ok st'"
     "foldr_res b_insert (rm_root st) (chunk_atoms (rm_addr st) (pend st @ concat chunks)) = Inr (rm_root st')"
     "pend st' = drop (64 * ((rm_cidx st + length (concat chunks)) div 64)) (pend st @ concat chunks)" "rm_cidx st' < 64"
     "rm_addr st' = rm_addr st + of_nat (64 * ((rm_cidx st + length (concat chunks)) div 64))"
      using read_row [OF ok small c] unfolding r by blast
    moreover have "length (pend st @ concat chunks) = rm_cidx st + length (concat chunks)" using len by simp
    ultimately show ?thesis unfolding it b Let_def by (metis (no_types, lifting))
  qed
  show ?thesis
  proof (cases it)
    case (At a t)
    then have a: "a AND 63 = 0" using fits by simp
    from read_At [OF ok line_aligned [OF a], of prev t] obtain st' where
      "read_line prev (render_item it) st = Inr st'" "rm_ok st'" "rm_cidx st' = 0" "rm_addr st' = a"
      "foldr_res b_insert (rm_root st) (image_atoms (rm_addr st) (pend st) [it]) = Inr (rm_root st')"
      using At a by auto
    moreover from this have "pend st' = []" by (simp add: pend_empty)
    ultimately show ?thesis using At
      by (intro exI [of _ st'] exI [of _ "image_atoms (rm_addr st) (pend st) [it]"]) simp
  next
    case (Row64 ws)
    have "hex_digits 16 = (\<lambda>w. hex_text (be_bytes 8 (w :: u64)))" by (rule ext) (use hex_digits_text [of 8] in simp)
    moreover have "length (concat (map (be_bytes 8) ws)) = 8 * length ws" by (induction ws) simp_all
    ultimately show ?thesis using fits Row64
      by (intro row [of "map (be_bytes 8) ws"]) (auto simp: comp_def hd_map be_bytes_empty)
  next
    case (Row32 ps)
    have "hex_digits 8 = (\<lambda>w. hex_text (be_bytes 4 (w :: u32)))" by (rule ext) (use hex_digits_text [of 4] in simp)
    moreover have "length (concat (map (\<lambda>(a, b). be_bytes 4 a @ be_bytes 4 b) ps)) = 8 * length ps"
      by (induction ps) auto
    ultimately show ?thesis using fits Row32
      by (intro row [of "map (\<lambda>(a, b). be_bytes 4 a @ be_bytes 4 b) ps"])
        (auto simp: comp_def hd_map case_prod_beta' be_bytes_empty)
  next
    case (Note t)
    obtain z where "read_line prev (render_item it) st = Inr (st\<lparr>rm_zero := z\<rparr>)" using read_Note Note by blast
    then show ?thesis using ok small len image_atoms_quiet [of it t "pend st"] Note
      by (intro exI [of _ "st\<lparr>rm_zero := z\<rparr>"] exI [of _ "[]"]) (simp add: zero_flag)
  next
    case Blank
    obtain z where "read_line prev (render_item it) st = Inr (st\<lparr>rm_zero := z\<rparr>)" using read_Blank Blank by blast
    then show ?thesis using ok small len image_atoms_quiet [of it _ "pend st"] Blank
      by (intro exI [of _ "st\<lparr>rm_zero := z\<rparr>"] exI [of _ "[]"]) (simp add: zero_flag)
  qed
qed

section \<open>The whole image\<close>

lemma length_join: "(\<And>x. x \<in> set xs \<Longrightarrow> length x \<le> m) \<Longrightarrow> length (join s xs) \<le> (m + length s) * length xs"
proof (induction s xs rule: join.induct)
  case (3 s x y xs)
  then have "length x \<le> m" "length (join s (y # xs)) \<le> (m + length s) * length (y # xs)" by auto
  then show ?case by simp
qed simp_all

lemma render_lines:
  assumes "list_all item_short items"
  shows "fgets_pieces (BUFFER - 2) (render items) = map render_item items"
proof -
  define l where "l = (\<lambda>it. butlast (render_item it))"
  have line: "render_item it = l it @ NL \<and> CHR 0x0A \<notin> set (l it) \<and> length (l it) \<le> 1022" if "item_short it" for it
  proof (cases it)
    case (At a t)
    have "CHR 0x0A \<notin> set (hex_digits 16 a)" using hex_digits_chars [of 16 a] hexdigit_facts(2) by force
    then show ?thesis using that At by (simp add: l_def butlast_append)
  next
    case (Row64 ws)
    have r: "set (join '' '' (map (hex_digits 16) ws)) \<subseteq> \<Union> (set ` hex_digits 16 ` set ws) \<union> {CHR '' ''}"
      using set_join [of "'' ''" "map (hex_digits 16) ws"] by auto
    have "CHR 0x0A \<notin> set (hex_digits 16 w)" for w :: u64 using hex_digits_chars [of 16 w] hexdigit_facts(2) by force
    with r have "CHR 0x0A \<notin> set (join '' '' (map (hex_digits 16) ws))" by auto
    moreover have "length (join '' '' (map (hex_digits 16) ws)) \<le> 17 * length ws"
      by (rule order_trans [OF length_join [where m = 16]]) auto
    ultimately show ?thesis using that Row64 by (simp add: l_def butlast_append)
  next
    case (Row32 ps)
    let ?r = "\<lambda>(a :: u32, b :: u32). hex_digits 8 a @ hex_digits 8 b"
    have r: "set (join '' '' (map ?r ps)) \<subseteq> \<Union> (set ` ?r ` set ps) \<union> {CHR '' ''}"
      using set_join [of "'' ''" "map ?r ps"] by auto
    have "CHR 0x0A \<notin> set (hex_digits 8 w)" for w :: u32 using hex_digits_chars [of 8 w] hexdigit_facts(2) by force
    with r have "CHR 0x0A \<notin> set (join '' '' (map ?r ps))" by auto
    moreover have "length (join '' '' (map ?r ps)) \<le> 17 * length ps"
      by (rule order_trans [OF length_join [where m = 16]]) auto
    ultimately show ?thesis using that Row32 by (simp add: l_def butlast_append)
  qed (use that in \<open>simp_all add: l_def butlast_append\<close>)
  have ok: "\<forall>it \<in> set items. item_short it" using assms by (simp add: list_all_iff)
  have r: "map render_item items = map (\<lambda>l. l @ NL) (map l items)" using ok line by simp
  have "fgets_pieces 1022 (concat (map (\<lambda>l. l @ NL) (map l items))) = map (\<lambda>l. l @ NL) (map l items)"
    by (rule fgets_pieces_lines) (use ok line in auto)
  then show ?thesis by (simp add: render_def BUFFER_def r del: map_map)
qed

lemma read_items:
  "list_all item_fits items \<Longrightarrow> rm_ok st \<Longrightarrow> rm_cidx st < 64 \<Longrightarrow>
   \<exists>st'. foldr_res (\<lambda>st buf. read_line prev buf st) st (map render_item items) = Inr st' \<and> rm_ok st' \<and>
     foldr_res b_insert (rm_root st) (image_atoms (rm_addr st) (pend st) items) = Inr (rm_root st')"
proof (induction items arbitrary: st)
  case (Cons it items)
  then obtain st1 as1 where st1: "read_line prev (render_item it) st = Inr st1" "rm_ok st1" "rm_cidx st1 < 64"
    "foldr_res b_insert (rm_root st) as1 = Inr (rm_root st1)"
    "\<And>is. image_atoms (rm_addr st) (pend st) (it # is) = as1 @ image_atoms (rm_addr st1) (pend st1) is"
    using read_item [of it st prev] by auto
  with Cons.IH [OF _ st1(2,3)] Cons.prems show ?case
    by (fastforce simp: bindr_def foldr_res_append)
qed simp

lemma read_mem_lines:
  assumes "list_all item_short items"
  shows "read_mem prev cbuf (Some (render items)) root =
    bindr (foldr_res (\<lambda>st buf. read_line prev buf st)
      \<lparr>rm_root = root, rm_cbuf = cbuf, rm_cidx = 0, rm_addr = 0, rm_zero = False\<rparr> (map render_item items)) (\<lambda>st. Inr (rm_root st))"
  by (simp add: read_mem_def the_res_def bindr_def render_lines [OF assms])

theorem read_mem_loads:
  assumes "list_all item_fits items" and "length cbuf = BUFFER" and "tree_ok root"
  shows "\<exists>root'. read_mem prev cbuf (Some (render items)) root = Inr root' \<and> tree_ok root' \<and>
    foldr_res b_insert root (image_atoms 0 [] items) = Inr root'"
proof -
  define st where "st = \<lparr>rm_root = root, rm_cbuf = cbuf, rm_cidx = 0, rm_addr = 0, rm_zero = False\<rparr>"
  have "rm_ok st" "rm_cidx st < 64" "pend st = []" "rm_addr st = 0" "rm_root st = root"
    using assms by (simp_all add: st_def rm_ok_def pend_def)
  moreover have "list_all item_short items" using assms(1) item_fits_short by (simp add: list_all_iff)
  ultimately show ?thesis using read_items [OF assms(1), of st prev]
    by (auto simp: read_mem_lines bindr_def st_def [symmetric] rm_ok_def)
qed

end
