(* ===== verification/PLI_Iob.thy ===== *)
theory PLI_Iob
  imports PLI_Bw_Lib
begin

text \<open>
  The memory of the simulated machine, \<open>src/piton/tools/pli/iop/iob_main.cc\<close>: reads and writes of 64-bit
  words over the B-tree of 64-byte lines, with the line of the last access kept in \<open>pli_var\<close>. Only
  element 0 of \<open>pli_var.data\<close> and \<open>pli_var.last_addr\<close> is used. The cached pointer and the tree share
  the atom; keys are unique in the tree and atoms are never freed, so a pointer to an atom is the key
  of the atom, and a store through a pointer changes the atom in the tree.

  The lemmas show that reads and writes refine those of a flat memory of 64-bit words.
\<close>

section \<open>The code\<close>

record pli_st =
  sysMem :: b_tree_node
  pli_data :: "KeyType option"
  last_addr :: KeyType

text \<open>\<open>long long\<close> shifted left keeps its low 64 bits.\<close>

definition get_eight_byte :: "u8 option list \<Rightarrow> KeyType \<Rightarrow> u64 res" where
  "get_eight_byte data k =
     (let m = unat (k AND 0x38) in
      foldr_res (\<lambda>val i. bindr (nth_res data (m + i)) (\<lambda>c. bindr (the_res c) (\<lambda>b.
          Inr (push_bit 8 val OR ucast b)))) 0 [0..<8])"

definition write_eight_byte :: "u8 option list \<Rightarrow> KeyType \<Rightarrow> u64 \<Rightarrow> u8 option list res" where
  "write_eight_byte data k val =
     (let m = unat (k AND 0x38) in
      bindr (foldr_res (\<lambda>(data, val) i.
          if m + i < length data then Inr (data[m + i := Some (ucast val)], drop_bit 8 val) else Inl Undef)
        (data, val) (rev [0..<8])) (\<lambda>(data, _). Inr data))"

definition line_key :: "KeyType \<Rightarrow> KeyType" where
  "line_key k = drop_bit 6 (k AND 0xffffffffff)"

text \<open>A pointer to an atom, and a store into the bytes of the atom with a key.\<close>

definition deref :: "b_tree_node \<Rightarrow> KeyType option \<Rightarrow> b_tree_atom res" where
  "deref root p = bindr (the_res p) (\<lambda>k. the_res (find (\<lambda>a. key a = k) (atoms_of root)))"

primrec on_atoms :: "(b_tree_atom \<Rightarrow> b_tree_atom) \<Rightarrow> b_tree_node \<Rightarrow> b_tree_node" where
  "on_atoms f (Node s ds cs) = Node s (map (map_option f) ds) (map (map_cell (on_atoms f)) cs)"

definition poke :: "KeyType \<Rightarrow> u8 option list \<Rightarrow> b_tree_node \<Rightarrow> b_tree_node" where
  "poke k d = on_atoms (\<lambda>a. if key a = k then a\<lparr>atom_data := d\<rparr> else a)"

definition read_64b_call :: "KeyType \<Rightarrow> pli_st \<Rightarrow> (u64 \<times> pli_st) res" where
  "read_64b_call k st =
     (if last_addr st = line_key k
      then bindr (deref (sysMem st) (pli_data st)) (\<lambda>a.
           bindr (get_eight_byte (atom_data a) k) (\<lambda>v. Inr (v, st)))
      else bindr (b_Find (sysMem st) (line_key k)) (\<lambda>found.
        case found of
          None \<Rightarrow> Inr (0, st)
        | Some a \<Rightarrow> bindr (get_eight_byte (atom_data a) k) (\<lambda>v.
            Inr (v, st\<lparr>pli_data := Some (key a), last_addr := line_key k\<rparr>))))"

definition write_64b_call :: "KeyType \<Rightarrow> u64 \<Rightarrow> pli_st \<Rightarrow> pli_st res" where
  "write_64b_call k val st =
     (let st = (if last_addr st = line_key k then st\<lparr>last_addr := 0\<rparr> else st) in
      bindr (b_Find (sysMem st) (line_key k)) (\<lambda>found.
        case found of
          Some a \<Rightarrow> bindr (write_eight_byte (atom_data a) k val) (\<lambda>d.
            Inr (st\<lparr>sysMem := poke (key a) d (sysMem st), pli_data := Some (key a), last_addr := line_key k\<rparr>))
        | None \<Rightarrow> bindr (write_eight_byte (replicate 64 (Some 0) @ [None]) k val) (\<lambda>d.
            bindr (b_insert (sysMem st) \<lparr>key = line_key k, atom_size = 64, atom_data = d\<rparr>) (\<lambda>root.
              Inr (st\<lparr>sysMem := root\<rparr>)))))"

text \<open>\<open>pli_var\<close> is static, so its pointers start as NULL.\<close>

definition init_jbus_model_call :: "char \<Rightarrow> u8 list \<Rightarrow> string option \<Rightarrow> bool \<Rightarrow> pli_st res" where
  "init_jbus_model_call prev cbuf file oram =
     bindr (if oram then Inr b_create else read_mem prev cbuf file b_create) (\<lambda>root.
       Inr \<lparr>sysMem = root, pli_data = None, last_addr = (if oram then -1 else 0)\<rparr>)"

section \<open>Words of a line\<close>

definition full :: "u8 option list \<Rightarrow> bool" where
  "full d \<longleftrightarrow> length d = 65 \<and> list_all (\<lambda>c. c \<noteq> None) (take 64 d)"

definition slot_at :: "KeyType \<Rightarrow> nat" where
  "slot_at k = unat (k AND 0x38)"

definition word_at :: "u8 option list \<Rightarrow> nat \<Rightarrow> u64" where
  "word_at d m = foldl (\<lambda>val b. push_bit 8 val OR ucast b) 0 (map the (take 8 (drop m d)))"

lemma slot_at_bounds: "slot_at k \<le> 56" "slot_at k mod 8 = 0"
proof -
  have "k AND 0x38 \<le> 0x38" by (rule word_and_le1)
  then show "slot_at k \<le> 56" by (simp add: slot_at_def word_le_nat_alt)
  have "take_bit 3 (k AND 0x38) = 0" by (simp add: take_bit_and)
  then have "unat (take_bit 3 (k AND 0x38)) = 0" by simp
  then show "slot_at k mod 8 = 0" unfolding slot_at_def by (simp only: unsigned_take_bit_eq) (simp add: take_bit_eq_mod)
qed

lemma full_nth: "full d \<Longrightarrow> i < 64 \<Longrightarrow> \<exists>b. d ! i = Some b"
  by (auto simp: full_def list_all_length)

lemma get_eight_byte_ok:
  assumes "full d"
  shows "get_eight_byte d k = Inr (word_at d (slot_at k))"
proof -
  let ?m = "slot_at k"
  let ?f = "\<lambda>val (b :: u8). push_bit 8 val OR ucast b :: u64"
  have "n \<le> 8 \<Longrightarrow> foldr_res (\<lambda>val i. bindr (nth_res d (?m + i)) (\<lambda>c. bindr (the_res c) (\<lambda>b. Inr (?f val b)))) 0 [0..<n]
      = Inr (foldl ?f 0 (map the (take n (drop ?m d))))" for n
  proof (induction n)
    case (Suc n)
    have n: "?m + n < 64" "n < length (drop ?m d)" using slot_at_bounds(1) [of k] Suc.prems assms by (auto simp: full_def)
    then obtain b where "d ! (?m + n) = Some b" using full_nth [OF assms] by blast
    then show ?case
      using Suc n assms by (simp add: foldr_res_append take_Suc_conv_app_nth full_def)
  qed simp
  then show ?thesis by (simp add: get_eight_byte_def word_at_def slot_at_def Let_def del: upt_Suc)
qed

lemma be_bytes_snoc: "be_bytes (Suc n) w = be_bytes n (drop_bit 8 w) @ [ucast w]"
proof -
  have "rev [0..<Suc n] = map Suc (rev [0..<n]) @ [0]" by (simp add: rev_map [symmetric] map_Suc_upt upt_conv_Cons del: upt_Suc)
  then show ?thesis by (simp add: be_bytes_def comp_def drop_bit_drop_bit add.commute del: upt_Suc)
qed

lemma write_eight_byte_ok:
  assumes "length d = 65"
  shows "write_eight_byte d k v = Inr (take (slot_at k) d @ map Some (be_bytes 8 v) @ drop (slot_at k + 8) d)"
proof -
  let ?m = "slot_at k"
  have "n \<le> 8 \<Longrightarrow> length d = 65 \<Longrightarrow> foldr_res (\<lambda>(data, val) i.
          if ?m + i < length data then Inr (data[?m + i := Some (ucast val)], drop_bit 8 val) else Inl Undef) (d, v) (rev [0..<n])
      = Inr (take ?m d @ map Some (be_bytes n v) @ drop (?m + n) d, drop_bit (8 * n) v)" for n d v
  proof (induction n arbitrary: d v)
    case (Suc n)
    have n: "?m + n < length d" using slot_at_bounds(1) [of k] Suc.prems by simp
    have "drop (?m + n) (d[?m + n := Some (ucast v)]) = Some (ucast v) # drop (Suc (?m + n)) d"
      using n by (subst Cons_nth_drop_Suc [symmetric]) (simp_all add: drop_update_cancel)
    then show ?case using n Suc.IH [of "d[?m + n := Some (ucast v)]" "drop_bit 8 v"] Suc.prems
      by (simp add: be_bytes_snoc drop_bit_drop_bit add.commute)
  qed (simp add: be_bytes_def)
  from this [of 8 d v] assms show ?thesis by (simp add: write_eight_byte_def Let_def slot_at_def [symmetric] del: upt_Suc)
qed

lemma bytes_word:
  "foldl (\<lambda>val b. push_bit 8 val OR ucast b) acc (be_bytes k w) = push_bit (8 * k) acc OR take_bit (8 * k) w" for w :: u64
proof (induction k arbitrary: acc)
  case (Suc k)
  have n: "ucast (ucast (drop_bit (8 * k) w) :: u8) = (take_bit 8 (drop_bit (8 * k) w) :: u64)"
    by (rule bit_eqI) (auto simp: bit_simps)
  show ?case
    unfolding be_bytes_Suc foldl_Cons n Suc.IH
    by (rule bit_eqI) (auto simp: bit_simps add.commute)
qed (simp add: be_bytes_def)

lemma bytes_word_all: "foldl (\<lambda>val b. push_bit 8 val OR ucast b) 0 (be_bytes 8 w) = w" for w :: u64
  using bytes_word [of 0 8 w] take_bit_length_eq [of w] by simp

lemma word_at_write:
  assumes "length d = 65" "m \<le> 56" "m mod 8 = 0" "m' \<le> 56" "m' mod 8 = 0"
  shows "word_at (take m d @ map Some (be_bytes 8 v) @ drop (m + 8) d) m' = (if m' = m then v else word_at d m')"
proof (cases "m' = m")
  case True
  have "take 8 (drop m (take m d @ map Some (be_bytes 8 v) @ drop (m + 8) d)) = map Some (be_bytes 8 v)"
    using assms by simp
  then show ?thesis using True by (simp add: word_at_def comp_def bytes_word_all)
next
  case False
  have apart: "m' + 8 \<le> m \<or> m + 8 \<le> m'" using False assms(3,5) by presburger
  define e where "e = take m d @ map Some (be_bytes 8 v) @ drop (m + 8) d"
  have len: "length e = 65" using assms by (simp add: e_def)
  have same: "e ! j = d ! j" if "j < m \<or> m + 8 \<le> j" "j < 65" for j
    using that assms(1,2) by (auto simp: nth_append e_def)
  have "take 8 (drop m' e) = take 8 (drop m' d)"
  proof (rule nth_equalityI)
    show "length (take 8 (drop m' e)) = length (take 8 (drop m' d))" using len assms(1) by simp
    show "take 8 (drop m' e) ! i = take 8 (drop m' d) ! i" if "i < length (take 8 (drop m' e))" for i
    proof -
      have "i < 8" using that by simp
      then have "m' + i < m \<or> m + 8 \<le> m' + i" "m' + i < 65" using apart assms(4) by linarith+
      then show ?thesis using \<open>i < 8\<close> len assms(1,4) same [of "m' + i"] by simp
    qed
  qed
  then show ?thesis using False by (simp add: word_at_def e_def)
qed

lemma full_write:
  assumes "full d" "m \<le> 56"
  shows "full (take m d @ map Some (be_bytes 8 v) @ drop (m + 8) d)"
proof -
  define e where "e = take m d @ map Some (be_bytes 8 v) @ drop (m + 8) d"
  have len: "length e = 65" using assms by (simp add: e_def full_def)
  have "e ! i \<noteq> None" if "i < 64" for i
    using that assms full_nth [OF assms(1), of i] by (auto simp: nth_append full_def e_def)
  then have "full e" using len by (auto simp: full_def list_all_length)
  then show ?thesis by (simp only: e_def)
qed

section \<open>Changing atoms in place\<close>

lemma on_atoms_parts:
  "nsize (on_atoms f n) = nsize n" "ndata (on_atoms f n) = map (map_option f) (ndata n)"
  "nchild (on_atoms f n) = map (map_cell (on_atoms f)) (nchild n)"
  by (cases n; simp)+

lemma map_cell_Junk: "map_cell g c = Junk \<longleftrightarrow> c = Junk"
  by (cases c) simp_all

lemma shape_on_atoms: "shape lo (on_atoms f n) = shape lo n"
  by (simp add: map_cell_Junk shape_def on_atoms_parts list.map_sel map_tl [symmetric] take_map list.pred_map comp_def)

lemma entries_on_atoms:
  assumes "shape lo n"
  shows "entries (on_atoms f n) = map (map_prod f (map_cell (on_atoms f))) (entries n)"
proof -
  have all: "list_all (\<lambda>x. x \<noteq> None) (take (nat (nsize n)) (tl (ndata n)))" using assms by (simp add: shape_def)
  have "map the (map (map_option f) xs) = map f (map the xs)" if "list_all (\<lambda>x. x \<noteq> None) xs" for xs :: "b_tree_atom option list"
    using that by (induction xs) auto
  with all show ?thesis
    by (simp add: entries_def on_atoms_parts map_tl [symmetric] take_map zip_map_map map_prod_def del: map_map)
qed

lemma conts_map: "(\<And>c. Inr c \<in> set xs \<Longrightarrow> f (g c) = map h (f' c)) \<Longrightarrow>
    conts f (map (map_sum h g) xs) = map h (conts f' xs)"
  by (induction xs) (auto split: sum.splits simp: conts_def)

lemma steps_map: "steps (map (map_prod h g) es) = map (map_sum h g) (steps es)"
  by (induction es rule: steps.induct) simp_all

lemma Inr_steps: "Inr c \<in> set (steps es) \<longleftrightarrow> c \<in> snd ` set es"
  by (induction es rule: steps.induct) auto

lemma on_atoms_tree:
  "cell_ok lo h c \<Longrightarrow> cell_ok lo h (map_cell (on_atoms f) c) \<and> catoms h (map_cell (on_atoms f) c) = map f (catoms h c)"
proof (induction h arbitrary: lo c)
  case (Suc h)
  then obtain n where c: "c = Ptr n" and n: "shape lo n" and kids: "list_all (cell_ok 2 h) (nchild n ! 0 # map snd (entries n))"
    by (auto split: cell.splits)
  have first: "nchild (on_atoms f n) ! 0 = map_cell (on_atoms f) (nchild n ! 0)"
    using n by (auto simp: on_atoms_parts shape_def)
  have kid: "cell_ok 2 h (map_cell (on_atoms f) k) \<and> catoms h (map_cell (on_atoms f) k) = map f (catoms h k)"
    if "k = nchild n ! 0 \<or> k \<in> snd ` set (entries n)" for k
    using Suc.IH [of 2 k] kids that by (auto simp: list_all_iff)
  have "conts (catoms h) (Inr (nchild (on_atoms f n) ! 0) # steps (entries (on_atoms f n))) =
      conts (catoms h) (map (map_sum f (map_cell (on_atoms f))) (Inr (nchild n ! 0) # steps (entries n)))"
    by (simp add: first entries_on_atoms [OF n] steps_map)
  also have "\<dots> = map f (conts (catoms h) (Inr (nchild n ! 0) # steps (entries n)))"
    using kid by (intro conts_map) (auto simp: Inr_steps)
  finally show ?case
    using kid n by (auto simp: c shape_on_atoms first entries_on_atoms [OF n] list_all_iff)
qed simp

lemma on_atoms_ok:
  assumes "tree_ok root" and "\<And>a. key (f a) = key a"
  shows "tree_ok (on_atoms f root)" and "atoms_of (on_atoms f root) = map f (atoms_of root)"
proof -
  define h where "h = depth root"
  have ok: "cell_ok 0 (Suc h) (Ptr root)" "keys_sorted (catoms (Suc h) (Ptr root))" "atoms_of root = catoms (Suc h) (Ptr root)"
    using assms(1) by (simp_all add: tree_ok_def atoms_of_def h_def)
  have t: "cell_ok 0 (Suc h) (Ptr (on_atoms f root))" "catoms (Suc h) (Ptr (on_atoms f root)) = map f (atoms_of root)"
    using on_atoms_tree [OF ok(1), of f] ok(3) by simp_all
  moreover have "keys_sorted (map f (atoms_of root))" using ok assms(2) by (simp add: comp_def)
  ultimately show "tree_ok (on_atoms f root)" "atoms_of (on_atoms f root) = map f (atoms_of root)"
    using tree_okI [OF t(1)] by simp_all
qed

section \<open>A memory of words\<close>

text \<open>Two addresses name the same word when they agree in bits 3 to 39.\<close>

definition same_word :: "KeyType \<Rightarrow> KeyType \<Rightarrow> bool" where
  "same_word a b \<longleftrightarrow> a AND 0xfffffffff8 = b AND 0xfffffffff8"

lemma same_word_iff: "same_word a b \<longleftrightarrow> line_key a = line_key b \<and> slot_at a = slot_at b"
proof -
  have lk: "line_key x = drop_bit 6 (x AND 0xfffffffff8)" and sl: "x AND 0x38 = (x AND 0xfffffffff8) AND 0x38" for x :: u64
  proof -
    have c: "(0xfffffffff8 :: u64) = push_bit 3 (mask 37)" "(0x38 :: u64) = push_bit 3 (mask 3)" "(0xffffffffff :: u64) = mask 40"
      by (simp_all add: mask_eq_exp_minus_1)
    show "line_key x = drop_bit 6 (x AND 0xfffffffff8)" unfolding line_key_def c
      by (rule bit_eqI) (auto simp: bit_simps)
    show "x AND 0x38 = (x AND 0xfffffffff8) AND 0x38" unfolding c by (rule bit_eqI) (auto simp: bit_simps)
  qed
  have parts: "x AND 0xfffffffff8 = push_bit 6 (line_key x) OR (x AND 0x38)" for x :: u64
  proof -
    have c: "(0xfffffffff8 :: u64) = push_bit 3 (mask 37)" "(0x38 :: u64) = push_bit 3 (mask 3)" "(0xffffffffff :: u64) = mask 40"
      by (simp_all add: mask_eq_exp_minus_1)
    show ?thesis unfolding line_key_def c
    proof (rule bit_eqI)
      fix n
      show "bit (x AND push_bit 3 (mask 37)) n = bit (push_bit 6 (drop_bit 6 (x AND mask 40)) OR x AND push_bit 3 (mask 3)) n"
        by (cases "n < 6") (auto simp: bit_simps)
    qed
  qed
  show ?thesis
  proof
    assume "same_word a b"
    then show "line_key a = line_key b \<and> slot_at a = slot_at b"
      by (simp only: same_word_def lk slot_at_def sl [of a] sl [of b])
  next
    assume "line_key a = line_key b \<and> slot_at a = slot_at b"
    then have "line_key a = line_key b" "a AND 0x38 = b AND 0x38"
      by (auto simp: slot_at_def intro: unsigned_word_eqI [where 'a = nat])
    then show "same_word a b" unfolding same_word_def parts by simp
  qed
qed

datatype mem_op = Read KeyType | Write KeyType u64

fun run_ops :: "(KeyType \<Rightarrow> 's \<Rightarrow> (u64 \<times> 's) res) \<Rightarrow> (KeyType \<Rightarrow> u64 \<Rightarrow> 's \<Rightarrow> 's res) \<Rightarrow> mem_op list \<Rightarrow> 's
    \<Rightarrow> (u64 list \<times> 's) res" where
  "run_ops rd wr [] s = Inr ([], s)"
| "run_ops rd wr (Read a # ops) s =
     bindr (rd a s) (\<lambda>(v, s). bindr (run_ops rd wr ops s) (\<lambda>(vs, s). Inr (v # vs, s)))"
| "run_ops rd wr (Write a v # ops) s = bindr (wr a v s) (run_ops rd wr ops)"

text \<open>The same operations on a function from addresses to words.\<close>

fun flat_ops :: "mem_op list \<Rightarrow> (KeyType \<Rightarrow> u64) \<Rightarrow> u64 list" where
  "flat_ops [] m = []"
| "flat_ops (Read a # ops) m = m a # flat_ops ops m"
| "flat_ops (Write a v # ops) m = flat_ops ops (\<lambda>b. if same_word a b then v else m b)"

fun op_addr :: "mem_op \<Rightarrow> KeyType" where
  "op_addr (Read a) = a"
| "op_addr (Write a v) = a"

locale word_memory =
  fixes inv :: "'s \<Rightarrow> bool" and good :: "KeyType \<Rightarrow> bool" and contents :: "'s \<Rightarrow> KeyType \<Rightarrow> u64"
    and rd :: "KeyType \<Rightarrow> 's \<Rightarrow> (u64 \<times> 's) res" and wr :: "KeyType \<Rightarrow> u64 \<Rightarrow> 's \<Rightarrow> 's res"
  assumes rd_ok: "inv s \<Longrightarrow> good a \<Longrightarrow> \<exists>s'. rd a s = Inr (contents s a, s') \<and> inv s' \<and> contents s' = contents s"
    and wr_ok: "inv s \<Longrightarrow> good a \<Longrightarrow> \<exists>s'. wr a v s = Inr s' \<and> inv s' \<and>
      contents s' = (\<lambda>b. if same_word a b then v else contents s b)"
begin

lemma run_refines:
  "inv s \<Longrightarrow> \<forall>x \<in> set ops. good (op_addr x) \<Longrightarrow>
   \<exists>s'. run_ops rd wr ops s = Inr (flat_ops ops (contents s), s') \<and> inv s'"
proof (induction ops arbitrary: s)
  case (Cons x ops)
  show ?case
  proof (cases x)
    case (Read a)
    then obtain s1 where "rd a s = Inr (contents s a, s1)" "inv s1" "contents s1 = contents s"
      using rd_ok [OF Cons.prems(1), of a] Cons.prems(2) by auto
    with Cons.IH [of s1] Cons.prems(2) Read show ?thesis by auto
  next
    case (Write a v)
    then obtain s1 where "wr a v s = Inr s1" "inv s1" "contents s1 = (\<lambda>b. if same_word a b then v else contents s b)"
      using wr_ok [OF Cons.prems(1), of a v] Cons.prems(2) by auto
    with Cons.IH [of s1] Cons.prems(2) Write show ?thesis by auto
  qed
qed simp

end

section \<open>The simulated memory is a memory of words\<close>

definition iob_mem :: "pli_st \<Rightarrow> KeyType \<Rightarrow> u64" where
  "iob_mem st a =
     (case find (\<lambda>x. key x = line_key a) (atoms_of (sysMem st)) of
        None \<Rightarrow> 0 | Some x \<Rightarrow> word_at (atom_data x) (slot_at a))"

text \<open>Every line is complete, and the cached pointer is NULL or that of the line named beside it.\<close>

definition iob_ok :: "pli_st \<Rightarrow> bool" where
  "iob_ok st \<longleftrightarrow> tree_ok (sysMem st) \<and> (\<forall>x \<in> set (atoms_of (sysMem st)). full (atom_data x)) \<and>
     (case pli_data st of None \<Rightarrow> last_addr st = 0 \<or> last_addr st = -1
      | Some k \<Rightarrow> last_addr st = k \<and> k \<in> key ` set (atoms_of (sysMem st)))"

lemma line_key_not_max: "line_key a \<noteq> -1"
proof
  assume "line_key a = -1"
  then have "bit (line_key a) 63" by simp
  then show False unfolding line_key_def by (simp add: bit_simps)
qed

lemma find_in: "find P xs = Some x \<Longrightarrow> x \<in> set xs \<and> P x"
  by (auto simp: find_Some_iff)

text \<open>The cache is transparent: a hit reads the line that a search of the tree would find.\<close>

lemma read_64b_ok:
  assumes ok: "iob_ok st" and ready: "pli_data st = None \<longrightarrow> last_addr st \<noteq> line_key a"
  shows "\<exists>st'. read_64b_call a st = Inr (iob_mem st a, st') \<and> iob_ok st' \<and> iob_mem st' = iob_mem st"
proof -
  have t: "tree_ok (sysMem st)" and fulls: "\<And>x. x \<in> set (atoms_of (sysMem st)) \<Longrightarrow> full (atom_data x)"
    using ok by (auto simp: iob_ok_def)
  show ?thesis
  proof (cases "last_addr st = line_key a")
    case True
    with ready obtain k where "pli_data st = Some k" by auto
    with ok True have p: "pli_data st = Some (line_key a)" "line_key a \<in> key ` set (atoms_of (sysMem st))"
      by (simp_all add: iob_ok_def)
    then obtain x where x: "find (\<lambda>x. key x = line_key a) (atoms_of (sysMem st)) = Some x"
      by (cases "find (\<lambda>x. key x = line_key a) (atoms_of (sysMem st))") (auto simp: find_None_iff)
    have "full (atom_data x)" by (rule fulls) (use find_in [OF x] in simp)
    then have "read_64b_call a st = Inr (word_at (atom_data x) (slot_at a), st)"
      using True p x by (simp add: read_64b_call_def deref_def get_eight_byte_ok)
    moreover have "iob_mem st a = word_at (atom_data x) (slot_at a)" using x by (simp add: iob_mem_def)
    ultimately show ?thesis using ok by simp
  next
    case False
    show ?thesis
    proof (cases "find (\<lambda>x. key x = line_key a) (atoms_of (sysMem st))")
      case None
      then have "read_64b_call a st = Inr (0, st)" using False by (simp add: read_64b_call_def b_Find_spec [OF t])
      moreover have "iob_mem st a = 0" using None by (simp add: iob_mem_def)
      ultimately show ?thesis using ok by simp
    next
      case (Some x)
      from find_in [OF this] have x: "x \<in> set (atoms_of (sysMem st))" "key x = line_key a" by auto
      define st' where "st' = st\<lparr>pli_data := Some (key x), last_addr := line_key a\<rparr>"
      have "read_64b_call a st = Inr (word_at (atom_data x) (slot_at a), st')"
        using Some False get_eight_byte_ok [OF fulls [OF x(1)]]
        by (simp add: read_64b_call_def b_Find_spec [OF t] st'_def)
      moreover have "iob_mem st a = word_at (atom_data x) (slot_at a)" using Some by (simp add: iob_mem_def)
      moreover have "iob_mem st' = iob_mem st" by (rule ext) (simp add: iob_mem_def st'_def)
      moreover have "iob_ok st'"
      proof -
        have "line_key a \<in> key ` set (atoms_of (sysMem st))" using x by (metis image_eqI)
        then show ?thesis using t fulls x(2) by (simp add: iob_ok_def st'_def)
      qed
      ultimately show ?thesis by simp
    qed
  qed
qed

lemma find_map_same: "(\<And>x. key (f x) = key x) \<Longrightarrow> find (\<lambda>x. key x = k) (map f xs) = map_option f (find (\<lambda>x. key x = k) xs)"
  by (induction xs) auto

lemma write_64b_ok:
  assumes ok: "iob_ok st"
  shows "\<exists>st'. write_64b_call a v st = Inr st' \<and> iob_ok st' \<and>
    iob_mem st' = (\<lambda>b. if same_word a b then v else iob_mem st b)"
proof -
  have t: "tree_ok (sysMem st)" and fulls: "\<And>x. x \<in> set (atoms_of (sysMem st)) \<Longrightarrow> full (atom_data x)"
    using ok by (auto simp: iob_ok_def)
  define st1 where "st1 = (if last_addr st = line_key a then st\<lparr>last_addr := 0\<rparr> else st)"
  have st1: "sysMem st1 = sysMem st" "pli_data st1 = pli_data st" by (simp_all add: st1_def)
  let ?find = "\<lambda>k. find (\<lambda>x. key x = k) (atoms_of (sysMem st))"
  note written = word_at_write [OF _ slot_at_bounds slot_at_bounds]
  show ?thesis
  proof (cases "?find (line_key a)")
    case (Some x)
    from find_in [OF this] have x: "x \<in> set (atoms_of (sysMem st))" "key x = line_key a" by auto
    note fx = fulls [OF x(1)]
    define d where "d = take (slot_at a) (atom_data x) @ map Some (be_bytes 8 v) @ drop (slot_at a + 8) (atom_data x)"
    have d: "write_eight_byte (atom_data x) a v = Inr d" "full d"
      using write_eight_byte_ok [of "atom_data x" a v] full_write [OF fx slot_at_bounds(1)] fx by (simp_all add: d_def full_def)
    define f where "f = (\<lambda>y :: b_tree_atom. if key y = line_key a then y\<lparr>atom_data := d\<rparr> else y)"
    have kf: "key (f y) = key y" for y by (simp add: f_def)
    define st' where "st' = st1\<lparr>sysMem := on_atoms f (sysMem st), pli_data := Some (line_key a), last_addr := line_key a\<rparr>"
    have call: "write_64b_call a v st = Inr st'"
      using Some d x(2) by (simp add: write_64b_call_def Let_def st1_def [symmetric] st1 b_Find_spec [OF t] st'_def poke_def f_def)
    have at: "atoms_of (sysMem st') = map f (atoms_of (sysMem st))" and t': "tree_ok (sysMem st')"
      using on_atoms_ok [OF t, of f] kf by (simp_all add: st'_def)
    have "\<forall>y \<in> set (atoms_of (sysMem st')). full (atom_data y)" using fulls d(2) by (auto simp: at f_def)
    moreover have "line_key a \<in> key ` set (atoms_of (sysMem st'))" using x kf by (auto simp: at image_image intro: rev_image_eqI)
    ultimately have "iob_ok st'" using t' by (simp add: iob_ok_def) (simp add: st'_def)
    moreover have "iob_mem st' b = (if same_word a b then v else iob_mem st b)" for b
    proof (cases "line_key b = line_key a")
      case True
      then have "iob_mem st b = word_at (atom_data x) (slot_at b)" using Some by (simp add: iob_mem_def)
      moreover have "iob_mem st' b = word_at (atom_data (f x)) (slot_at b)"
        using Some True unfolding iob_mem_def at find_map_same [of f, OF kf] by simp
      moreover have "atom_data (f x) = d" using x(2) by (simp add: f_def)
      moreover have "word_at d (slot_at b) = (if slot_at b = slot_at a then v else word_at (atom_data x) (slot_at b))"
        unfolding d_def by (rule written) (use fx in \<open>simp add: full_def\<close>)
      ultimately show ?thesis using True by (auto simp: same_word_iff)
    next
      case False
      have "atom_data (f y) = atom_data y" if "?find (line_key b) = Some y" for y
        using find_in [OF that] False by (simp add: f_def)
      then have "iob_mem st' b = iob_mem st b"
        unfolding iob_mem_def at find_map_same [of f, OF kf] by (auto split: option.splits)
      then show ?thesis using False by (auto simp: same_word_iff)
    qed
    ultimately show ?thesis using call by blast
  next
    case None
    define z :: "u8 option list" where "z = replicate 64 (Some 0) @ [None]"
    have z: "full z" "length z = 65" by (simp_all add: z_def full_def list_all_iff)
    have z0: "word_at z m = 0" if "m \<le> 56" for m
    proof -
      have "take 8 (drop m z) = replicate 8 (Some 0)" using that by (simp add: z_def)
      then show ?thesis by (simp add: word_at_def numeral_eq_Suc)
    qed
    define d where "d = take (slot_at a) z @ map Some (be_bytes 8 v) @ drop (slot_at a + 8) z"
    have d: "write_eight_byte z a v = Inr d" "full d"
      using write_eight_byte_ok [OF z(2), of a v] full_write [OF z(1) slot_at_bounds(1)] by (simp_all add: d_def)
    define x where "x = \<lparr>key = line_key a, atom_size = 64, atom_data = d\<rparr>"
    obtain root where root: "b_insert (sysMem st) x = Inr root" "tree_ok root" "atoms_of root = ins_atom x (atoms_of (sysMem st))"
      using b_insert_spec [OF t] by blast
    define st' where "st' = st1\<lparr>sysMem := root\<rparr>"
    have call: "write_64b_call a v st = Inr st'"
      using None d(1) root(1) by (simp add: write_64b_call_def Let_def st1_def [symmetric] st1 b_Find_spec [OF t] st'_def z_def x_def)
    have absent: "line_key a \<notin> key ` set (atoms_of (sysMem st))" using None by (auto simp: find_None_iff)
    have set: "set (atoms_of root) = insert x (set (atoms_of (sysMem st)))" using absent by (simp add: root(3) set_ins_atom x_def)
    have "iob_ok st'"
      using ok absent d(2) fulls root(2) set by (auto simp: iob_ok_def st'_def st1_def x_def split: option.splits)
    moreover have "iob_mem st' b = (if same_word a b then v else iob_mem st b)" for b
    proof -
      have sorted: "keys_sorted (atoms_of (sysMem st))" using t by (simp add: tree_ok_def)
      have f: "find (\<lambda>x. key x = line_key b) (atoms_of root) = (if line_key b = line_key a then Some x else ?find (line_key b))"
        unfolding root(3) find_ins_atom [OF sorted] using None by (auto simp: x_def)
      show ?thesis
      proof (cases "line_key b = line_key a")
        case True
        then have "iob_mem st' b = word_at d (slot_at b)" "iob_mem st b = 0" using f None by (simp_all add: iob_mem_def st'_def x_def)
        then show ?thesis using True written [of z a v b] z z0 [OF slot_at_bounds(1)] by (auto simp: d_def same_word_iff)
      next
        case False
        then show ?thesis using f by (auto simp: iob_mem_def st'_def same_word_iff)
      qed
    qed
    ultimately show ?thesis using call by blast
  qed
qed

text \<open>Away from line 0, which a NULL cache answers for at the start.\<close>

interpretation iob: word_memory iob_ok "\<lambda>a. line_key a \<noteq> 0" iob_mem read_64b_call write_64b_call
proof
  show "\<exists>s'. read_64b_call a s = Inr (iob_mem s a, s') \<and> iob_ok s' \<and> iob_mem s' = iob_mem s"
    if "iob_ok s" "line_key a \<noteq> 0" for s a
    using that by (intro read_64b_ok) (auto simp: iob_ok_def line_key_not_max)
  show "\<exists>s'. write_64b_call a v s = Inr s' \<and> iob_ok s' \<and> iob_mem s' = (\<lambda>b. if same_word a b then v else iob_mem s b)"
    if "iob_ok s" "line_key a \<noteq> 0" for s a v
    using that(1) by (rule write_64b_ok)
qed

end
