(* ===== verification/PLI_Memory.thy ===== *)
theory PLI_Memory
  imports PLI_Load PLI_Iob
begin

text \<open>
  From the image file to the memory the simulated processor reads. The words that an image places are
  grouped into lines of eight; the loader inserts these lines, and for an image made of whole lines the
  words read back are those the image means (\<open>memory_of\<close>).
\<close>

section \<open>Bytes of words\<close>

definition word_bytes :: "u64 list \<Rightarrow> u8 list" where
  "word_bytes ws = concat (map (be_bytes 8) ws)"

lemma word_bytes_simps [simp]: "word_bytes [] = []" "word_bytes (w # ws) = be_bytes 8 w @ word_bytes ws"
  "word_bytes (vs @ ws) = word_bytes vs @ word_bytes ws" "length (word_bytes ws) = 8 * length ws"
  by (simp_all add: word_bytes_def) (induction ws; simp)

lemma word_bytes_nth: "j < length ws \<Longrightarrow> i < 8 \<Longrightarrow> word_bytes ws ! (8 * j + i) = be_bytes 8 (ws ! j) ! i"
proof (induction ws arbitrary: j)
  case (Cons w ws)
  then show ?case by (cases j) (simp_all add: nth_append)
qed simp

lemma drop_word_bytes: "drop (8 * n) (word_bytes ws) = word_bytes (drop n ws)"
proof (induction ws arbitrary: n)
  case (Cons w ws)
  then show ?case by (cases n) simp_all
qed simp

lemma take_word_bytes: "take (8 * n) (word_bytes ws) = word_bytes (take n ws)"
proof (induction ws arbitrary: n)
  case (Cons w ws)
  then show ?case by (cases n) simp_all
qed simp

lemma word_pair_bytes: "be_bytes 4 a @ be_bytes 4 b = be_bytes 8 (word_pair (a, b))"
proof -
  have "ucast (drop_bit (8 * i) (word_pair (a, b))) = (ucast (drop_bit (8 * i) b) :: u8)" if "i < 4" for i
    using that by (intro bit_eqI) (auto simp: word_pair_def bit_simps)
  moreover have "ucast (drop_bit (8 * (4 + i)) (word_pair (a, b))) = (ucast (drop_bit (8 * i) a) :: u8)" if "i < 4" for i
    using that by (intro bit_eqI) (auto simp: word_pair_def bit_simps dest: bit_imp_le_length)
  moreover have "rev [0..<8] = map (\<lambda>i. 4 + i) (rev [0..<4]) @ rev [0..<4]" by (simp add: upt_rec)
  ultimately show ?thesis by (simp add: be_bytes_def)
qed

lemma word_at_line:
  assumes "length ws = 8" "j < 8"
  shows "word_at (atom_bytes (word_bytes ws)) (8 * j) = ws ! j"
proof -
  have "take 8 (drop (8 * j) (atom_bytes (word_bytes ws))) = map Some (be_bytes 8 (ws ! j))"
    using assms by (intro nth_equalityI) (simp_all add: atom_bytes_def nth_append word_bytes_nth)
  then show ?thesis by (simp add: word_at_def comp_def bytes_word_all)
qed

lemma full_line: "length bs = 64 \<Longrightarrow> full (atom_bytes bs)"
  by (simp add: full_def atom_bytes_def list_all_iff)

section \<open>Lines of an image\<close>

fun item_words :: "img_item \<Rightarrow> u64 list" where
  "item_words (Row64 ws) = ws"
| "item_words (Row32 ps) = map word_pair ps"
| "item_words _ = []"

lemma item_bytes_words: "item_bytes it = word_bytes (item_words it)"
proof (cases it)
  case (Row32 ps)
  have "concat (map (\<lambda>(a, b). be_bytes 4 a @ be_bytes 4 b) ps) = word_bytes (map word_pair ps)"
    by (induction ps) (auto simp: word_pair_bytes)
  then show ?thesis using Row32 by simp
qed (simp_all add: word_bytes_def)

fun chunk_lines :: "addr_t \<Rightarrow> u64 list \<Rightarrow> (addr_t \<times> u64 list) list" where
  "chunk_lines a ws = (if length ws < 8 then [] else (a, take 8 ws) # chunk_lines (a + 64) (drop 8 ws))"

declare chunk_lines.simps [simp del]

text \<open>The lines the image is cut into, each with the address of its first word: complete ones and those an
  address line cuts short; and what is left over at the end.\<close>

fun image_lines :: "addr_t \<Rightarrow> u64 list \<Rightarrow> img_item list \<Rightarrow> (addr_t \<times> u64 list) list" where
  "image_lines a vs [] = []"
| "image_lines a vs (At b txt # is) = (if vs = [] then [] else [(a, vs)]) @ image_lines b [] is"
| "image_lines a vs (it # is) =
     (let ws = vs @ item_words it; n = length ws div 8
      in chunk_lines a ws @ image_lines (a + of_nat (64 * n)) (drop (8 * n) ws) is)"

fun image_rest :: "u64 list \<Rightarrow> img_item list \<Rightarrow> u64 list" where
  "image_rest vs [] = vs"
| "image_rest vs (At b txt # is) = image_rest [] is"
| "image_rest vs (it # is) =
     (let ws = vs @ item_words it in image_rest (drop (8 * (length ws div 8)) ws) is)"

definition line_atom :: "addr_t \<times> u64 list \<Rightarrow> b_tree_atom" where
  "line_atom l = \<lparr>key = mask_addr (fst l), atom_size = int (8 * length (snd l)), atom_data = atom_bytes (word_bytes (snd l))\<rparr>"

lemma chunk_atoms_lines: "chunk_atoms a (word_bytes ws) = map line_atom (chunk_lines a ws)"
proof (induction a ws rule: chunk_lines.induct)
  case (1 a ws)
  show ?case
  proof (cases "length ws < 8")
    case True
    then show ?thesis by (simp add: chunk_atoms.simps chunk_lines.simps)
  next
    case False
    then have "chunk_atoms a (word_bytes ws) = line_atom (a, take 8 ws) # chunk_atoms (a + 64) (word_bytes (drop 8 ws))"
      using take_word_bytes [of 8 ws] drop_word_bytes [of 8 ws] by (subst chunk_atoms.simps) (simp add: line_atom_def)
    with 1 [OF False] False show ?thesis by (subst chunk_lines.simps) simp
  qed
qed

text \<open>A piece that is not an address line adds its words.\<close>

fun is_At :: "img_item \<Rightarrow> bool" where
  "is_At (At a txt) = True"
| "is_At it = False"

lemma not_At:
  assumes "\<not> is_At it"
  shows "image_atoms a bs (it # is) = chunk_atoms a (bs @ item_bytes it) @
      image_atoms (a + of_nat (64 * (length (bs @ item_bytes it) div 64))) (drop (64 * (length (bs @ item_bytes it) div 64)) (bs @ item_bytes it)) is"
    and "image_lines a vs (it # is) = chunk_lines a (vs @ item_words it) @
      image_lines (a + of_nat (64 * (length (vs @ item_words it) div 8))) (drop (8 * (length (vs @ item_words it) div 8)) (vs @ item_words it)) is"
    and "image_rest vs (it # is) = image_rest (drop (8 * (length (vs @ item_words it) div 8)) (vs @ item_words it)) is"
    and "load_items b (it # is) = place b (item_words it) @ load_items (b + of_nat (8 * length (item_words it))) is"
  using assms by (cases it; simp add: Let_def)+

lemma image_atoms_lines: "image_atoms a (word_bytes ws) items = map line_atom (image_lines a ws items)"
proof (induction items arbitrary: a ws)
  case (Cons it items)
  show ?case
  proof (cases "is_At it")
    case True
    then obtain b t where it: "it = At b t" by (cases it) auto
    have "word_bytes ws = [] \<longleftrightarrow> ws = []" by (cases ws) (simp_all add: be_bytes_empty)
    with Cons.IH [of b "[]"] show ?thesis by (simp add: it line_atom_def)
  next
    case False
    let ?ws = "ws @ item_words it"
    have bs: "word_bytes ws @ item_bytes it = word_bytes ?ws" by (simp add: item_bytes_words)
    have n: "length (word_bytes ?ws) div 64 = length ?ws div 8" by simp
    have d: "drop (64 * m) (word_bytes ?ws) = word_bytes (drop (8 * m) ?ws)" for m
      using drop_word_bytes [of "8 * m" ?ws] by (simp add: mult.assoc)
    show ?thesis unfolding not_At [OF False] bs n d chunk_atoms_lines Cons.IH by simp
  qed
qed simp

text \<open>The lines and the rest hold the words the image places, in order.\<close>

lemma chunk_lines_place:
  "place a ws = concat (map (\<lambda>(b, vs). place b vs) (chunk_lines a ws)) @
     place (a + of_nat (64 * (length ws div 8))) (drop (8 * (length ws div 8)) ws)"
proof (induction a ws rule: chunk_lines.induct)
  case (1 a ws)
  show ?case
  proof (cases "length ws < 8")
    case True
    then show ?thesis by (simp add: chunk_lines.simps)
  next
    case False
    then have q: "length ws div 8 = Suc (length (drop 8 ws) div 8)" by (simp add: div_if)
    have "place a ws = place a (take 8 ws) @ place (a + 64) (drop 8 ws)"
      using place_append [of a "take 8 ws" "drop 8 ws"] False by (simp add: min_def)
    with 1 [OF False] False show ?thesis unfolding q
      by (subst chunk_lines.simps) (simp add: algebra_simps)
  qed
qed

lemma image_lines_place:
  "\<exists>b. place a vs @ load_items (a + of_nat (8 * length vs)) items =
     concat (map (\<lambda>(b, ws). place b ws) (image_lines a vs items)) @ place b (image_rest vs items)"
proof (induction items arbitrary: a vs)
  case (Cons it items)
  show ?case
  proof (cases "is_At it")
    case True
    then obtain b t where it: "it = At b t" by (cases it) auto
    with Cons.IH [of b "[]"] show ?thesis by simp
  next
    case False
    define w n where "w = vs @ item_words it" and "n = length w div 8"
    define a' vs' where "a' = a + of_nat (64 * n)" and "vs' = drop (8 * n) w"
    define c where "c = a + of_nat (8 * length vs)"
    have next_loc: "c + of_nat (8 * length (item_words it)) = a' + of_nat (8 * length vs')"
    proof -
      have "8 * length vs + 8 * length (item_words it) = 64 * n + 8 * length vs'"
        using div_mult_mod_eq [of "length w" 8] by (simp add: w_def n_def vs'_def)
      then have "(of_nat (8 * length vs + 8 * length (item_words it)) :: addr_t) = of_nat (64 * n + 8 * length vs')"
        by (rule arg_cong)
      then show ?thesis by (simp only: c_def a'_def of_nat_add add.assoc)
    qed
    have joined: "place a vs @ place c (item_words it) = place a w" by (simp only: place_append w_def c_def)
    obtain b where b: "place a' vs' @ load_items (a' + of_nat (8 * length vs')) items =
        concat (map (\<lambda>(b, ws). place b ws) (image_lines a' vs' items)) @ place b (image_rest vs' items)"
      using Cons.IH by blast
    have "place a vs @ load_items c (it # items) = place a w @ load_items (a' + of_nat (8 * length vs')) items"
      by (simp only: not_At(4) [OF False] next_loc append_assoc [symmetric] joined)
    also have "\<dots> = concat (map (\<lambda>(b, ws). place b ws) (chunk_lines a w @ image_lines a' vs' items)) @ place b (image_rest vs' items)"
      using b chunk_lines_place [of a w, folded n_def, folded a'_def vs'_def] by simp
    finally show ?thesis
      unfolding not_At [OF False] w_def [symmetric] n_def [symmetric] a'_def [symmetric] vs'_def [symmetric] c_def [symmetric]
      by blast
  qed
qed (auto intro: exI [of _ a])

section \<open>The memory the store holds\<close>

lemma aligned_iff: "A AND 63 = 0 \<longleftrightarrow> take_bit 6 A = 0" for A :: addr_t
  by (simp add: take_bit_eq_mask mask_eq_exp_minus_1)

lemma line_parts:
  assumes A: "A AND 63 = (0 :: addr_t)" and j: "j < 8"
  shows "drop_bit 6 (A + of_nat (8 * j)) = drop_bit 6 A" and "unat (take_bit 6 (A + of_nat (8 * j))) = 8 * j"
    and "unat (A + of_nat (8 * j)) = unat A + 8 * j"
proof -
  have m: "unat A mod 64 = 0"
  proof -
    have "unat (take_bit 6 A) = 0" using A by (simp only: aligned_iff) simp
    then show ?thesis by (simp only: unsigned_take_bit_eq) (simp add: take_bit_eq_mod)
  qed
  define q where "q = unat A div 64"
  have q: "unat A = 64 * q" using m by (auto simp: q_def)
  have "unat A < 2 ^ 64" using unsigned_less [of A] by simp
  then have "q < 2 ^ 58" unfolding q_def by (simp add: div_less_iff_less_mult)
  then have "unat A + 8 * j < 2 ^ 64" using j by (simp add: q)
  then show u: "unat (A + of_nat (8 * j)) = unat A + 8 * j"
    using j by (simp add: unat_word_ariths unat_of_nat take_bit_eq_mod del: of_nat_mult)
  show "drop_bit 6 (A + of_nat (8 * j)) = drop_bit 6 A"
    by (rule unsigned_word_eqI [where 'a = nat]) (use j in \<open>simp only: unat_drop_bit_eq u q; simp add: drop_bit_eq_div\<close>)
  show "unat (take_bit 6 (A + of_nat (8 * j))) = 8 * j"
    using j by (simp only: unsigned_take_bit_eq u q) (simp add: take_bit_eq_mod)
qed

lemma aligned_eq: "A AND 63 = 0 \<Longrightarrow> B AND 63 = 0 \<Longrightarrow> drop_bit 6 A = drop_bit 6 B \<Longrightarrow> A = B" for A B :: addr_t
  by (metis aligned_iff bits_ident)

lemma line_unique:
  assumes "A AND 63 = (0 :: addr_t)" "B AND 63 = 0" "i < 8" "j < 8" "A + of_nat (8 * i) = B + of_nat (8 * j)"
  shows "A = B \<and> i = j"
proof -
  have "drop_bit 6 A = drop_bit 6 B"
    using line_parts(1) [OF assms(1,3)] line_parts(1) [OF assms(2,4)] assms(5) by simp
  moreover have "8 * i = 8 * j"
    using line_parts(2) [OF assms(1,3)] line_parts(2) [OF assms(2,4)] assms(5) by simp
  ultimately show ?thesis using aligned_eq assms by simp
qed

lemma mask_addr_small: "unat C < 2 ^ 40 \<Longrightarrow> mask_addr C = drop_bit 6 C"
proof -
  assume "unat C < 2 ^ 40"
  then have "unat (drop_bit 6 C) < 2 ^ 34" by (simp only: unat_drop_bit_eq) (simp add: drop_bit_eq_div div_less_iff_less_mult)
  then have "take_bit 34 (drop_bit 6 C) = drop_bit 6 C"
    by (intro unsigned_word_eqI [where 'a = nat]) (simp only: unsigned_take_bit_eq take_bit_nat_eq_self)
  then show ?thesis by (simp add: mask_addr_def take_bit_eq_mask mask_eq_exp_minus_1)
qed

lemma word_place:
  assumes "a AND 7 = (0 :: addr_t)"
  obtains A j where "A AND 63 = 0" "j < 8" "a = A + of_nat (8 * j)"
proof -
  define j where "j = unat (take_bit 6 a) div 8"
  have t: "unat (take_bit 6 a) < 64" "unat (take_bit 6 a) mod 8 = 0"
  proof -
    show "unat (take_bit 6 a) < 64" using take_bit_nat_less_exp [of 6 "unat a"] by (simp add: unsigned_take_bit_eq)
    have "take_bit 3 a = 0" using assms by (simp add: take_bit_eq_mask mask_eq_exp_minus_1)
    then have "unat (take_bit 3 (take_bit 6 a)) = 0" by simp
    then show "unat (take_bit 6 a) mod 8 = 0" by (simp only: unsigned_take_bit_eq) (simp add: take_bit_eq_mod)
  qed
  have "8 * j = unat (take_bit 6 a)" using t(2) by (auto simp: j_def)
  then have "of_nat (8 * j) = take_bit 6 a" by (simp del: of_nat_mult of_nat_take_bit)
  moreover have "push_bit 6 (drop_bit 6 a) AND 63 = 0" by (simp only: aligned_iff) (simp add: take_bit_push_bit)
  moreover have "a = push_bit 6 (drop_bit 6 a) + take_bit 6 a" by (simp add: bits_ident)
  moreover have "j < 8" using t by (simp add: j_def)
  ultimately show ?thesis using that by metis
qed

text \<open>An image of whole lines: every line complete, at an address of its own below \<open>2^40\<close>.\<close>

definition whole_lines :: "img_item list \<Rightarrow> bool" where
  "whole_lines items \<longleftrightarrow> image_rest [] items = [] \<and>
     list_all (\<lambda>(a, ws). length ws = 8 \<and> a AND 63 = 0 \<and> unat a < 2 ^ 40) (image_lines 0 [] items) \<and>
     distinct (map fst (image_lines 0 [] items))"

lemma distinct_lines:
  assumes "list_all (\<lambda>(a, ws). length ws = 8 \<and> a AND 63 = 0) ls" and "distinct (map fst ls)"
  shows "distinct (map fst (concat (map (\<lambda>(a, ws). place a ws) ls)))"
  using assms
proof (induction ls)
  case (Cons l ls)
  obtain A ws where l: "l = (A, ws)" by (cases l)
  have own: "distinct (map fst (place A ws))"
    using Cons.prems(1) line_unique [of A A] by (auto simp: l place_conv comp_def distinct_map inj_on_def simp del: of_nat_mult)
  have "fst p \<noteq> fst q" if p: "p \<in> set (place A ws)" and q: "q \<in> set (place B vs)" "(B, vs) \<in> set ls" for p q B vs
  proof
    assume eq: "fst p = fst q"
    have "B \<in> fst ` set ls" using q(2) by force
    then have B: "length vs = 8" "B AND 63 = 0" "A \<noteq> B" "length ws = 8" "A AND 63 = 0"
      using Cons.prems q(2) by (auto simp: l list_all_iff)
    with p q eq obtain i j where "i < 8" "j < 8" "A + of_nat (8 * i) = B + of_nat (8 * j)"
      by (auto simp: place_conv simp del: of_nat_mult)
    then show False using line_unique [of A B i j] B by blast
  qed
  then have "set (map fst (place A ws)) \<inter> set (map fst (concat (map (\<lambda>(a, ws). place a ws) ls))) = {}"
    by fastforce
  with own Cons show ?case by (simp add: l)
qed simp

text \<open>The line of an aligned address among the lines of the image, and the word of it.\<close>

lemma find_line:
  assumes "list_all (\<lambda>(a, ws). length ws = 8 \<and> a AND 63 = 0 \<and> unat a < 2 ^ 40) ls" and "A AND 63 = 0" "unat A < 2 ^ 40"
  shows "find (\<lambda>at. key at = mask_addr A) (map line_atom ls) = map_option (\<lambda>ws. line_atom (A, ws)) (map_of ls A)"
  using assms(1)
proof (induction ls)
  case (Cons l ls)
  obtain B vs where l: "l = (B, vs)" by (cases l)
  have "mask_addr B = mask_addr A \<longleftrightarrow> B = A"
    using Cons.prems assms mask_addr_small [of A] mask_addr_small [of B] aligned_eq [of A B] by (auto simp: l)
  with Cons show ?case by (auto simp: l line_atom_def)
qed simp

text \<open>The word an address names, and its place in a line.\<close>

definition word_addr :: "KeyType \<Rightarrow> KeyType" where
  "word_addr a = a AND 0xfffffffff8"

lemma word_addr_parts:
  shows "word_addr a AND 7 = 0" and "unat (word_addr a) < 2 ^ 40" and "line_key a = drop_bit 6 (word_addr a)"
    and "slot_at a = unat (take_bit 6 (word_addr a))"
proof -
  have c: "(0xfffffffff8 :: u64) = push_bit 3 (mask 37)" "(7 :: u64) = mask 3" "(0x38 :: u64) = push_bit 3 (mask 3)"
    "(0xffffffffff :: u64) = mask 40"
    by (simp_all add: mask_eq_exp_minus_1)
  show "word_addr a AND 7 = 0" unfolding word_addr_def c by (rule bit_eqI) (auto simp: bit_simps)
  have "word_addr a \<le> 0xfffffffff8" unfolding word_addr_def by (rule word_and_le1)
  then show "unat (word_addr a) < 2 ^ 40" by (simp add: word_le_nat_alt)
  show "line_key a = drop_bit 6 (word_addr a)" unfolding word_addr_def line_key_def c
    by (rule bit_eqI) (auto simp: bit_simps)
  have "a AND 0x38 = take_bit 6 (word_addr a)" unfolding word_addr_def c by (rule bit_eqI) (auto simp: bit_simps)
  then show "slot_at a = unat (take_bit 6 (word_addr a))" by (simp only: slot_at_def)
qed

text \<open>After the start the simulated memory is that of the image.\<close>

lemma loaded_memory:
  assumes fits: "list_all item_fits items" and whole: "whole_lines items" and cbuf: "length cbuf = BUFFER"
  shows "\<exists>st. init_jbus_model_call prev cbuf (Some (render items)) False = Inr st \<and> iob_ok st \<and>
    iob_mem st = (\<lambda>a. memory_of (load_items 0 items) (word_addr a))"
proof -
  define ls where "ls = image_lines 0 [] items"
  have ls: "list_all (\<lambda>(a, ws). length ws = 8 \<and> a AND 63 = 0 \<and> unat a < 2 ^ 40) ls" "distinct (map fst ls)"
    using whole by (simp_all add: whole_lines_def ls_def)
  have words: "load_items 0 items = concat (map (\<lambda>(a, ws). place a ws) ls)"
    using image_lines_place [of 0 "[]" items] whole by (auto simp: whole_lines_def ls_def)
  obtain root where root: "read_mem prev cbuf (Some (render items)) b_create = Inr root" "tree_ok root"
    and fold: "foldr_res b_insert b_create (image_atoms 0 [] items) = Inr root"
    using read_mem_loads [OF fits cbuf b_create_ok(1)] by blast
  have atoms: "image_atoms 0 [] items = map line_atom ls"
    using image_atoms_lines [of 0 "[]" items] by (simp add: ls_def)
  have find: "find (\<lambda>x. key x = k) (atoms_of root) = find (\<lambda>x. key x = k) (map line_atom ls)" for k
    using inserted_atoms(2) [OF fold] by (simp only: atoms)
  define st where "st = \<lparr>sysMem = root, pli_data = None, last_addr = (0 :: KeyType)\<rparr>"
  have init: "init_jbus_model_call prev cbuf (Some (render items)) False = Inr st"
    using root(1) by (simp add: init_jbus_model_call_def st_def)
  have "full (atom_data x)" if "x \<in> set (atoms_of root)" for x
  proof -
    have "x \<in> set (map line_atom ls)" using inserted_atoms(3) [OF fold that] by (simp only: atoms)
    then obtain A ws where x: "x = line_atom (A, ws)" "(A, ws) \<in> set ls" by auto
    have "length ws = 8" using ls(1) x(2) by (auto simp: list_all_iff)
    then show ?thesis by (simp add: x(1) line_atom_def full_line)
  qed
  then have "iob_ok st" using root(2) by (simp add: iob_ok_def st_def)
  moreover have "iob_mem st a = memory_of (load_items 0 items) (word_addr a)" for a
  proof -
    note w = word_addr_parts [of a]
    obtain A j where A: "A AND 63 = 0" "j < 8" "word_addr a = A + of_nat (8 * j)" using word_place [OF w(1)] .
    have lt: "unat A < 2 ^ 40" using w(2) line_parts(3) [OF A(1,2)] by (simp add: A(3))
    have k: "line_key a = mask_addr A" "slot_at a = 8 * j"
      unfolding w(3,4) A(3) line_parts(1,2) [OF A(1,2)] mask_addr_small [OF lt] by simp_all
    have rd: "iob_mem st a = (case map_of ls A of None \<Rightarrow> 0 | Some ws \<Rightarrow> word_at (atom_bytes (word_bytes ws)) (8 * j))"
      unfolding iob_mem_def k by (simp add: st_def find find_line [OF ls(1) A(1) lt] line_atom_def split: option.splits)
    show ?thesis
    proof (cases "map_of ls A")
      case None
      have "word_addr a \<noteq> fst p" if "(B, vs) \<in> set ls" "p \<in> set (place B vs)" for B vs p
      proof
        assume eq: "word_addr a = fst p"
        have B: "length vs = 8" "B AND 63 = 0" using ls(1) that(1) by (auto simp: list_all_iff)
        with that(2) eq obtain i where "i < 8" "A + of_nat (8 * j) = B + of_nat (8 * i)"
          by (auto simp: place_conv A(3) simp del: of_nat_mult)
        then have "A = B" using line_unique A B by blast
        then show False using that(1) None by (force simp: map_of_eq_None_iff)
      qed
      then have "word_addr a \<notin> fst ` set (load_items 0 items)" by (fastforce simp: words)
      then show ?thesis using rd None by (simp add: memory_of_outside)
    next
      case (Some ws)
      then have "(A, ws) \<in> set ls" by (rule map_of_SomeD)
      moreover from this have len: "length ws = 8" using ls(1) by (auto simp: list_all_iff)
      moreover have "(word_addr a, ws ! j) \<in> set (place A ws)" using len A by (auto simp: place_conv simp del: of_nat_mult)
      ultimately have "(word_addr a, ws ! j) \<in> set (load_items 0 items)" by (auto simp: words)
      moreover have "distinct (map fst (load_items 0 items))"
        unfolding words using ls by (intro distinct_lines) (auto simp: list_all_iff)
      ultimately show ?thesis using rd Some word_at_line [OF len A(2)] by (simp add: memory_of_in)
    qed
  qed
  ultimately show ?thesis using init by blast
qed

end
