(* ===== verification/PLI_Image.thy ===== *)
theory PLI_Image
  imports PLI_Memory GF_Block
begin

text \<open>
  Goldfinger and the loader together. A block that is written without compression, at an address and with
  a length that are multiples of 64, is read back by the simulated processor word by word. Goldfinger
  itself works in lines of 32 bytes: what the loader makes of an address in the middle of its 64-byte
  lines is shown on an image with such an address.
\<close>

section \<open>Images without further addresses\<close>

lemma chunk_lines_append:
  "chunk_lines a (xs @ ys) = chunk_lines a xs @
     chunk_lines (a + of_nat (64 * (length xs div 8))) (drop (8 * (length xs div 8)) xs @ ys)"
proof (induction a xs rule: chunk_lines.induct)
  case (1 a xs)
  show ?case
  proof (cases "length xs < 8")
    case True
    then show ?thesis by (simp add: chunk_lines.simps [of a xs])
  next
    case False
    then have q: "length xs div 8 = Suc (length (drop 8 xs) div 8)" by (simp add: div_if)
    have "chunk_lines a (xs @ ys) = (a, take 8 xs) # chunk_lines (a + 64) (drop 8 xs @ ys)"
      using False by (subst chunk_lines.simps) simp
    moreover have "chunk_lines a xs = (a, take 8 xs) # chunk_lines (a + 64) (drop 8 xs)"
      using False by (subst chunk_lines.simps) simp
    ultimately show ?thesis unfolding q using 1 [OF False] by (simp add: algebra_simps)
  qed
qed

lemma rest_short: "length (drop (8 * (length ws div 8)) ws) < 8"
  using mod_less_divisor [of 8 "length ws"] by (simp add: minus_mult_div_eq_mod)

lemma image_lines_plain:
  "list_all (\<lambda>it. \<not> is_At it) items \<Longrightarrow> length vs < 8 \<Longrightarrow>
   image_lines a vs items = chunk_lines a (vs @ concat (map item_words items)) \<and>
   image_rest vs items = drop (8 * (length (vs @ concat (map item_words items)) div 8)) (vs @ concat (map item_words items))"
proof (induction items arbitrary: a vs)
  case Nil
  then show ?case by (simp add: chunk_lines.simps)
next
  case (Cons it items)
  define w n r where "w = vs @ item_words it" and "n = length w div 8" and "r = concat (map item_words items)"
  have na: "\<not> is_At it" "list_all (\<lambda>it. \<not> is_At it) items" using Cons.prems by simp_all
  have "length (drop (8 * n) w) < 8" unfolding n_def by (rule rest_short)
  note IH = Cons.IH [OF na(2) this, of "a + of_nat (64 * n)", folded r_def]
  have dd: "drop (8 * (length (drop (8 * n) w @ r) div 8)) (drop (8 * n) w @ r) = drop (8 * (length (w @ r) div 8)) (w @ r)"
  proof -
    have "8 * n \<le> length w" by (simp add: n_def)
    then have len: "length (w @ r) = 8 * n + length (drop (8 * n) w @ r)" and wr: "drop (8 * n) w @ r = drop (8 * n) (w @ r)" by simp_all
    have "8 * (length (w @ r) div 8) = 8 * (length (drop (8 * n) w @ r) div 8) + 8 * n" unfolding len by simp
    then show ?thesis unfolding wr by (simp only: drop_drop)
  qed
  show ?case
    unfolding not_At(2,3) [OF na(1)] w_def [symmetric] n_def [symmetric] IH [THEN conjunct1] IH [THEN conjunct2] dd
    using chunk_lines_append [of a w r, folded n_def] by (simp add: w_def r_def)
qed

lemma chunk_lines_fst: "map fst (chunk_lines a ws) = map (\<lambda>i. a + of_nat (64 * i)) [0..<length ws div 8]"
  and chunk_lines_len: "list_all (\<lambda>l. length (snd l) = 8) (chunk_lines a ws)"
proof -
  have "map fst (chunk_lines a ws) = map (\<lambda>i. a + of_nat (64 * i)) [0..<length ws div 8] \<and>
     list_all (\<lambda>l. length (snd l) = 8) (chunk_lines a ws)"
  proof (induction a ws rule: chunk_lines.induct)
    case (1 a ws)
    show ?case
    proof (cases "length ws < 8")
      case True
      then show ?thesis by (simp add: chunk_lines.simps)
    next
      case False
      then have q: "length ws div 8 = Suc (length (drop 8 ws) div 8)" by (simp add: div_if)
      have u: "[0..<Suc n] = 0 # map Suc [0..<n]" for n by (simp add: upt_conv_Cons map_Suc_upt del: upt_Suc)
      show ?thesis unfolding q u using 1 [OF False] False
        by (subst (1 2) chunk_lines.simps) (simp add: comp_def algebra_simps)
    qed
  qed
  then show "map fst (chunk_lines a ws) = map (\<lambda>i. a + of_nat (64 * i)) [0..<length ws div 8]"
    "list_all (\<lambda>l. length (snd l) = 8) (chunk_lines a ws)" by blast+
qed

text \<open>An image of one address and rows of words, of whole lines below \<open>2^40\<close>.\<close>

lemma one_region_whole:
  assumes plain: "list_all (\<lambda>it. \<not> is_At it) rows" and a: "a AND 63 = 0"
    and len: "length (concat (map item_words rows)) = 8 * n" and lt: "unat a + 64 * n \<le> 2 ^ 40"
  shows "whole_lines (Blank # At a t # rows)"
proof -
  define ws where "ws = concat (map item_words rows)"
  have ln: "length ws = 8 * n" using len by (simp add: ws_def)
  note p = image_lines_plain [OF plain, of "[]", folded ws_def]
  have lines: "image_lines 0 [] (Blank # At a t # rows) = chunk_lines a ws" and rest: "image_rest [] (Blank # At a t # rows) = []"
    using p [of a] ln by (simp_all add: chunk_lines.simps [of 0 "[]"])
  have sum: "unat (a + of_nat (64 * i)) = unat a + 64 * i" if "i < n" for i
    using that lt by (simp add: unat_word_ariths unat_of_nat take_bit_eq_mod del: of_nat_mult)
  have fst: "map fst (chunk_lines a ws) = map (\<lambda>i. a + of_nat (64 * i)) [0..<n]"
    using chunk_lines_fst [of a ws] ln by simp
  have al: "(a + of_nat (64 * i)) AND 63 = 0" if "i < n" for i
  proof -
    have "unat (take_bit 6 a) = 0" using a by (simp only: aligned_iff) simp
    then have m: "unat a mod 64 = 0" by (simp only: unsigned_take_bit_eq) (simp add: take_bit_eq_mod)
    have "unat (take_bit 6 (a + of_nat (64 * i))) = 0"
      using m by (simp only: unsigned_take_bit_eq sum [OF that]) (simp add: take_bit_eq_mod)
    then have "take_bit 6 (a + of_nat (64 * i)) = 0" by (simp only: unsigned_eq_0_iff)
    then show ?thesis by (simp only: aligned_iff)
  qed
  have bound: "unat (a + of_nat (64 * i)) < 2 ^ 40" if "i < n" for i using sum [OF that] lt that by linarith
  have "distinct (map fst (chunk_lines a ws))"
    unfolding fst using sum by (auto simp: distinct_map inj_on_def simp del: of_nat_mult) (metis add_left_cancel nat_mult_eq_cancel1 zero_less_numeral)
  moreover have "length (snd l) = 8 \<and> fst l AND 63 = 0 \<and> unat (fst l) < 2 ^ 40" if l: "l \<in> set (chunk_lines a ws)" for l
  proof -
    have "fst l \<in> set (map fst (chunk_lines a ws))" using l by simp
    then obtain i where "i < n" "fst l = a + of_nat (64 * i)" unfolding fst by auto
    then show ?thesis using al bound chunk_lines_len [of a ws] l by (simp add: list_all_iff)
  qed
  ultimately show ?thesis unfolding whole_lines_def lines rest by (auto simp: list_all_iff)
qed

section \<open>A block without compression\<close>

lemma gen_lines_uncompressed:
  assumes words: "g_words c = 8 * m" and len: "4 * (g_base c + g_words c) \<le> length (g_buf c)"
    and small: "8 * m < 2 ^ 31" and cp: "\<not> g_compress c"
  shows "k \<le> m \<Longrightarrow> \<not> doing_compress s \<Longrightarrow>
     \<exists>s'. gen_lines c (8 * k) s = Inr (map (\<lambda>k. Row32 (be_pairs (g_buf c) (g_base c + 8 * k) 4)) [k..<m], s') \<and> \<not> doing_compress s'"
proof (induction "m - k" arbitrary: k s)
  case 0
  then have "k = m" by simp
  then show ?case using words small 0 by (subst gen_lines.simps) (simp add: int_ok_def)
next
  case (Suc d)
  then have km: "k < m" and d: "d = m - Suc k" "Suc k \<le> m" by auto
  have upt: "[k..<m] = k # [Suc k..<m]" using km by (simp add: upt_conv_Cons)
  have guards: "int_ok (int (8 * k))" "\<not> 8 * k \<ge> g_words c" "int_ok (int (8 * k) + 7)" "8 * k + 7 < g_words c"
    using km words small by (auto simp: int_ok_def)
  have zw: "zero_words (g_little c) (g_buf c) (g_base c) (8 * k) 8 = Inr (zero_run (g_buf c) (g_base c + 8 * k) 8)"
    by (rule zero_words_ok) (use len words km in simp)
  have lp: "line_pairs (g_little c) (g_buf c) (g_base c) (g_words c) (8 * k) 4 = Inr (be_pairs (g_buf c) (g_base c + 8 * k) 4, False)"
    by (rule line_pairs_ok) (use km words len in auto)
  define s2 where "s2 = s\<lparr>zero_line := zero_run (g_buf c) (g_base c + 8 * k) 8, doing_compress := False,
      printed_data := True, line_pa := line_pa s + 32\<rparr>"
  from Suc.hyps(1) [OF d, of s2] obtain s' where
    "gen_lines c (8 * Suc k) s2 = Inr (map (\<lambda>k. Row32 (be_pairs (g_buf c) (g_base c + 8 * k) 4)) [Suc k..<m], s')"
    "\<not> doing_compress s'" by (auto simp: s2_def)
  then show ?case using cp Suc.prems(2) guards zw lp gen_lines.simps [of c "8 * k" s]
    by (simp add: upt s2_def Let_def add.commute)
qed

lemma uncompressed_image:
  assumes gen: "block_generate_image mem little pa_size compress_on env_zero pm b scn = Inr (pm', out)"
    and img: "b_in_image b \<noteq> 0" and pa: "pa_mask pa_size = Inr mk" "b_pa b AND mk = b_pa b"
    and plain: "b_compress b = 0 \<or> \<not> compress_on"
    and off: "unat (b_d_offset b) = 4 * base" and len: "unat (b_d_length b) = 32 * m"
    and inside: "unat (b_d_offset b) + unat (b_d_length b) \<le> length (image_buf scn b)"
    and small: "unat (b_d_length b) < 2 ^ 33"
  shows "out = Blank # At (b_pa b) (''Section '' @ quoted (b_section_name b) @ '', segment '' @ quoted (b_segment_name b)) #
    map (\<lambda>k. Row32 (be_pairs (image_buf scn b) (base + 8 * k) 4)) [0..<m]"
proof -
  define c where "c = \<lparr>g_little = little, g_buf = image_buf scn b, g_base = base, g_words = 8 * m,
                  g_compress = (b_compress b \<noteq> 0 \<and> compress_on), g_env_zero = env_zero, g_start_pa = b_pa b\<rparr>"
  define s0 where "s0 = \<lparr>zero_line = False, doing_compress = False, line_pa = b_pa b, last_addr = b_pa b, printed_data = False\<rparr>"
  have w: "unat (b_d_length b div 4) = 8 * m" "unat (b_d_offset b div 4) = base"
    using len off by (simp_all add: unat_div)
  obtain s' where s': "gen_lines c (8 * 0) s0 = Inr (map (\<lambda>k. Row32 (be_pairs (g_buf c) (g_base c + 8 * k) 4)) [0..<m], s')"
    "\<not> doing_compress s'"
    using gen_lines_uncompressed [of c m 0 s0] plain off len inside small by (auto simp: c_def s0_def)
  from gen img pa w s' show ?thesis
    by (auto simp: block_generate_image_def Let_def bindr_Inr_iff c_def s0_def image_buf_def split: if_splits)
qed

lemma word_addr_id:
  assumes "a AND 7 = 0" and "unat a < 2 ^ 40"
  shows "word_addr a = a"
proof -
  have "take_bit 40 a = a"
    by (rule unsigned_word_eqI [where 'a = nat]) (use assms(2) in \<open>simp only: unsigned_take_bit_eq take_bit_nat_eq_self\<close>)
  moreover have "word_addr a = take_bit 40 a"
  proof -
    have c: "(0xfffffffff8 :: u64) = push_bit 3 (mask 37)" by (simp add: mask_eq_exp_minus_1)
    have low: "3 \<le> i" if "bit a i" for i
    proof (rule ccontr)
      have t: "take_bit 3 a = 0" using assms(1) by (simp add: take_bit_eq_mask mask_eq_exp_minus_1)
      assume "\<not> 3 \<le> i"
      then have "bit (take_bit 3 a) i" using that by (simp add: bit_take_bit_iff)
      then show False by (simp add: t)
    qed
    show ?thesis unfolding word_addr_def c by (rule bit_eqI) (use low in \<open>auto simp: bit_simps\<close>)
  qed
  ultimately show ?thesis by simp
qed

lemma aligned_words:
  fixes a :: addr_t
  assumes "a AND 63 = 0" "unat a + 8 * j < 2 ^ 64"
  shows "unat (a + of_nat (8 * j)) = unat a + 8 * j" and "(a + of_nat (8 * j)) AND 7 = 0"
proof -
  show u: "unat (a + of_nat (8 * j)) = unat a + 8 * j"
    using assms(2) by (simp add: unat_word_ariths unat_of_nat take_bit_eq_mod del: of_nat_mult)
  have "unat (take_bit 6 a) = 0" using assms(1) by (simp only: aligned_iff) simp
  then have "unat a mod 64 = 0" by (simp only: unsigned_take_bit_eq) (simp add: take_bit_eq_mod)
  then have "unat a mod 8 = 0" by presburger
  then have "unat (take_bit 3 (a + of_nat (8 * j))) = 0"
    by (simp only: unsigned_take_bit_eq u) (simp add: take_bit_eq_mod)
  then have "take_bit 3 (a + of_nat (8 * j)) = 0" by (simp only: unsigned_eq_0_iff)
  then show "(a + of_nat (8 * j)) AND 7 = 0" by (simp add: take_bit_eq_mask mask_eq_exp_minus_1)
qed

text \<open>The simulated memory holds the bytes of the section.\<close>

lemma block_readback:
  assumes gen: "block_generate_image mem little pa_size compress_on env_zero pm b scn = Inr (pm', out)"
    and img: "b_in_image b \<noteq> 0" and pa: "pa_mask pa_size = Inr mk" "b_pa b AND mk = b_pa b"
    and plain: "b_compress b = 0 \<or> \<not> compress_on"
    and off: "unat (b_d_offset b) = 4 * base" and len: "unat (b_d_length b) = 64 * n"
    and inside: "unat (b_d_offset b) + unat (b_d_length b) \<le> length (image_buf scn b)"
    and small: "unat (b_d_length b) < 2 ^ 33"
    and line: "b_pa b AND 63 = 0" and below: "unat (b_pa b) + unat (b_d_length b) \<le> 2 ^ 40"
    and names: "CHR 0x0A \<notin> set (b_section_name b)" "CHR 0x0A \<notin> set (b_segment_name b)"
      "length (b_section_name b) + length (b_segment_name b) \<le> 900"
    and cbuf: "length cbuf = BUFFER"
  shows "\<exists>st. init_jbus_model_call prev cbuf (Some (render out)) False = Inr st \<and> iob_ok st \<and>
    (\<forall>j < 8 * n. iob_mem st (b_pa b + of_nat (8 * j)) = be64 (image_buf scn b) (unat (b_d_offset b) + 8 * j))"
proof -
  have len32: "unat (b_d_length b) = 32 * (2 * n)" using len by simp
  define t where "t = ''Section '' @ quoted (b_section_name b) @ '', segment '' @ quoted (b_segment_name b)"
  define rows where "rows = map (\<lambda>k. Row32 (be_pairs (image_buf scn b) (base + 8 * k) 4)) [0..<2 * n]"
  have out: "out = Blank # At (b_pa b) t # rows"
    using uncompressed_image [OF gen img pa plain off len32 inside small] by (simp add: t_def rows_def)
  have four: "length (be_pairs buf i 4) = 4" for buf i by (simp add: be_pairs_def)
  have "list_all item_fits rows" using four by (auto simp: rows_def list_all_iff)
    (metis list.size(3) zero_neq_numeral)
  moreover have "item_fits (At (b_pa b) t)" using line names by (auto simp: t_def quoted_def)
  ultimately have fits: "list_all item_fits out" by (simp add: out)
  have words: "length (concat (map item_words rows)) = 8 * n"
    by (simp add: rows_def length_concat comp_def four sum_list_triv)
  have whole: "whole_lines out"
    unfolding out using line words below len by (intro one_region_whole) (auto simp: rows_def list_all_iff)
  obtain st where st: "init_jbus_model_call prev cbuf (Some (render out)) False = Inr st" "iob_ok st"
    "iob_mem st = (\<lambda>a. memory_of (load_items 0 out) (word_addr a))"
    using loaded_memory [OF fits whole cbuf] by blast
  have "iob_mem st (b_pa b + of_nat (8 * j)) = be64 (image_buf scn b) (unat (b_d_offset b) + 8 * j)" if j: "j < 8 * n" for j
  proof -
    have lt: "8 * j < unat (b_d_length b)" using j len by simp
    have "word_addr (b_pa b + of_nat (8 * j)) = b_pa b + of_nat (8 * j)"
      using aligned_words [OF line, of j] below lt by (intro word_addr_id) simp_all
    then show ?thesis
      using block_image_memory [OF gen img pa off len32 inside small lt, of 0] by (simp add: st(3))
  qed
  with st(1,2) show ?thesis by blast
qed

section \<open>An address in the middle of a line\<close>

lemma flush_once:
  assumes "rm_ok st" "rm_cidx st = 64"
  obtains root where "b_insert (rm_root st) (new_atom (rm_addr st) (rm_cbuf st) 64) = Inr root" "tree_ok root"
    "flush_lines st = Inr (st\<lparr>rm_root := root, rm_cidx := 0, rm_addr := rm_addr st + 64\<rparr>)"
proof -
  obtain root where root: "b_insert (rm_root st) (new_atom (rm_addr st) (rm_cbuf st) 64) = Inr root" "tree_ok root"
    using b_insert_spec [of "rm_root st"] assms(1) by (auto simp: rm_ok_def)
  have al: "align_buf (rm_cbuf st) 64 = (rm_cbuf st, 64)" by (simp add: align_buf_def)
  have "flush_lines st = Inr (st\<lparr>rm_root := root, rm_cidx := 0, rm_addr := rm_addr st + 64\<rparr>)"
    using assms(2) root(1) al
    by (subst flush_lines.simps, subst flush_lines.simps) (simp add: bindr_def)
  with root that show ?thesis by blast
qed

text \<open>A line of data, then 32 bytes that are left out because they are zero, then 32 bytes of data: the
  loader fills the gap with what its buffer still holds, the first half of the line before.\<close>

definition gap_image :: "addr_t \<Rightarrow> u64 list \<Rightarrow> u64 list \<Rightarrow> img_item list" where
  "gap_image a ws vs = [At a ''data'', Row64 ws, At (a + 96) ''more'', Row64 vs]"

lemma gap_address:
  fixes a :: addr_t
  assumes a: "a AND 63 = 0" "unat a < 2 ^ 39"
  shows "unat ((a + 96) AND 63) = 32" and "(a + 96) AND 15 = 0" and "(a + 64) AND 63 = 0"
    and "unat (a + 96) = unat a + 96" and "unat (a + 64) = unat a + 64"
proof -
  show u96: "unat (a + 96) = unat a + 96" using a(2) by (simp add: unat_word_ariths)
  show u64: "unat (a + 64) = unat a + 64" using a(2) by (simp add: unat_word_ariths)
  have m64: "unat a mod 64 = 0"
  proof -
    have "unat (take_bit 6 a) = 0" using a(1) by (simp only: aligned_iff) simp
    then show ?thesis by (simp only: unsigned_take_bit_eq) (simp add: take_bit_eq_mod)
  qed
  then obtain q where q: "unat a = 64 * q" by auto
    have "unat (take_bit 6 (a + 96)) = 32" by (simp only: unsigned_take_bit_eq u96 q) (simp add: take_bit_eq_mod)
    then show "unat ((a + 96) AND 63) = 32" by (simp add: take_bit_eq_mask mask_eq_exp_minus_1)
    have "unat (take_bit 4 (a + 96)) = 0" by (simp only: unsigned_take_bit_eq u96 q) (simp add: take_bit_eq_mod)
    then have "take_bit 4 (a + 96) = 0" by (simp only: unsigned_eq_0_iff)
    then show "(a + 96) AND 15 = 0" by (simp add: take_bit_eq_mask mask_eq_exp_minus_1)
  have "unat (take_bit 6 (a + 64)) = 0" by (simp only: unsigned_take_bit_eq u64 q) (simp add: take_bit_eq_mod)
  then have "take_bit 6 (a + 64) = 0" by (simp only: unsigned_eq_0_iff)
  then show "(a + 64) AND 63 = 0" by (simp only: aligned_iff)
qed

lemma gap_loaded:
  assumes a: "a AND 63 = 0" "unat a < 2 ^ 39" and ws: "length ws = 8" and vs: "length vs = 4" and cbuf: "length cbuf = BUFFER"
  obtains root b d where "read_mem prev cbuf (Some (render (gap_image a ws vs))) b_create = Inr root" "tree_ok root"
    "foldr_res b_insert b_create [new_atom a b 64, new_atom (a + 96) d 64] = Inr root"
    "take 64 b = word_bytes ws" "take 64 d = word_bytes (take 4 ws @ vs)"
proof -
  define st0 where "st0 = \<lparr>rm_root = b_create, rm_cbuf = cbuf, rm_cidx = 0, rm_addr = 0, rm_zero = False\<rparr>"
  have ok0: "rm_ok st0" using cbuf b_create_ok by (simp add: st0_def rm_ok_def)
  have row: "render_item (Row64 us) = join '' '' (map hex_text (map (be_bytes 8) us)) @ NL" for us
  proof -
    have "hex_digits 16 = (\<lambda>w. hex_text (be_bytes 8 (w :: u64)))" by (rule ext) (use hex_digits_text [of 8] in simp)
    then show ?thesis by (simp add: comp_def)
  qed
  have bytes: "length (concat (map (be_bytes 8) us)) = 8 * length us" for us :: "u64 list" by (induction us) simp_all
  have first: "us \<noteq> [] \<Longrightarrow> map (be_bytes 8) us \<noteq> [] \<and> hd (map (be_bytes 8) us) \<noteq> []" for us :: "u64 list"
    by (simp add: hd_map be_bytes_empty)
  obtain st1 where st1: "read_line prev (render_item (At a ''data'')) st0 = Inr st1" "rm_ok st1" "rm_root st1 = b_create"
    "rm_cbuf st1 = cbuf" "rm_cidx st1 = 0" "rm_addr st1 = a"
    using read_At [OF ok0 line_aligned [OF a(1)], of prev "''data''"] a(1) by (auto simp: st0_def pend_def)
  define b where "b = word_bytes ws @ drop 64 cbuf"
  have cb: "length b = BUFFER" using ws cbuf by (simp add: b_def BUFFER_def)
  have w8: "concat (map (be_bytes 8) ws) = word_bytes ws" by (simp add: word_bytes_def)
  define st2 where "st2 = st1\<lparr>rm_cbuf := b, rm_cidx := 64\<rparr>"
  have ok2: "rm_ok st2" using st1(2) cb by (simp add: st2_def rm_ok_def BUFFER_def)
  have s2: "read_line prev (render_item (Row64 ws)) st1 = flush_lines st2"
    using read_row_step [OF st1(2), of "map (be_bytes 8) ws" prev] ws first [of ws] st1(4,5) w8 bytes [of ws]
    by (cases "ws = []") (simp_all add: row st2_def b_def del: render_item.simps map_map)
  obtain r3 where r3: "b_insert b_create (new_atom a b 64) = Inr r3" "tree_ok r3"
    "flush_lines st2 = Inr (st2\<lparr>rm_root := r3, rm_cidx := 0, rm_addr := a + 64\<rparr>)"
    using flush_once [OF ok2] st1 by (auto simp: st2_def)
  define st3 where "st3 = st2\<lparr>rm_root := r3, rm_cidx := 0, rm_addr := a + 64\<rparr>"
  have ok3: "rm_ok st3" using ok2 r3(2) by (simp add: st3_def rm_ok_def)
  note mid = gap_address(1,2) [OF a]
  obtain st4 where st4: "read_line prev (render_item (At (a + 96) ''more'')) st3 = Inr st4" "rm_ok st4" "rm_root st4 = r3"
    "rm_cbuf st4 = b" "rm_cidx st4 = 32" "rm_addr st4 = a + 96"
    using read_At [OF ok3 mid(2), of prev "''more''"] mid(1) by (auto simp: st3_def st2_def pend_def)
  define d where "d = take 32 b @ word_bytes vs @ drop 64 b"
  have v8: "concat (map (be_bytes 8) vs) = word_bytes vs" by (simp add: word_bytes_def)
  define st5 where "st5 = st4\<lparr>rm_cbuf := d, rm_cidx := 64\<rparr>"
  have ok5: "rm_ok st5" using st4(2) cb vs by (simp add: st5_def rm_ok_def BUFFER_def d_def)
  have s5: "read_line prev (render_item (Row64 vs)) st4 = flush_lines st5"
    using read_row_step [OF st4(2), of "map (be_bytes 8) vs" prev] vs first [of vs] st4(4,5) v8 bytes [of vs]
    by (cases "vs = []") (simp_all add: row st5_def d_def del: render_item.simps map_map)
  obtain r6 where r6: "b_insert r3 (new_atom (a + 96) d 64) = Inr r6" "tree_ok r6"
    "flush_lines st5 = Inr (st5\<lparr>rm_root := r6, rm_cidx := 0, rm_addr := a + 96 + 64\<rparr>)"
    using flush_once [OF ok5] st4 by (auto simp: st5_def)
  have short: "list_all item_short (gap_image a ws vs)" using ws vs by (auto simp: gap_image_def)
  have rd: "read_mem prev cbuf (Some (render (gap_image a ws vs))) b_create = Inr r6"
    unfolding read_mem_lines [OF short]
    by (simp add: gap_image_def st0_def [symmetric] st1 s2 r3(3) st3_def [symmetric] st4(1) s5 r6(3) del: render_item.simps)
  moreover have "foldr_res b_insert b_create [new_atom a b 64, new_atom (a + 96) d 64] = Inr r6" using r3(1) r6(1) by simp
  moreover have "take 64 b = word_bytes ws" using ws by (simp add: b_def)
  moreover have "take 64 d = word_bytes (take 4 ws @ vs)"
    using ws vs take_word_bytes [of 4 ws] by (simp add: d_def b_def min_def)
  ultimately show ?thesis using that r6(2) by blast
qed

lemma gap_filled:
  assumes a: "a AND 63 = 0" "unat a < 2 ^ 39" and ws: "length ws = 8" and vs: "length vs = 4" and cbuf: "length cbuf = BUFFER"
  shows "\<exists>st. init_jbus_model_call prev cbuf (Some (render (gap_image a ws vs))) False = Inr st \<and> iob_ok st \<and>
    (\<forall>j < 4. iob_mem st (a + 64 + of_nat (8 * j)) = ws ! j)"
proof -
  obtain r6 b d where rd: "read_mem prev cbuf (Some (render (gap_image a ws vs))) b_create = Inr r6" and r6: "tree_ok r6"
    and ins: "foldr_res b_insert b_create [new_atom a b 64, new_atom (a + 96) d 64] = Inr r6"
    and bytes: "take 64 b = word_bytes ws" "take 64 d = word_bytes (take 4 ws @ vs)"
    using gap_loaded [OF assms] by blast
  define st where "st = \<lparr>sysMem = r6, pli_data = None, last_addr = (0 :: KeyType)\<rparr>"
  have init: "init_jbus_model_call prev cbuf (Some (render (gap_image a ws vs))) False = Inr st"
    using rd by (simp add: init_jbus_model_call_def st_def)
  let ?atoms = "[new_atom a b 64, new_atom (a + 96) d 64]"
  have found: "find (\<lambda>x. key x = k) (atoms_of r6) = find (\<lambda>x. key x = k) ?atoms" for k
    by (rule inserted_atoms(2) [OF ins])
  have t1: "atom_data (new_atom a b 64) = atom_bytes (word_bytes ws)" by (simp add: new_atom_def bytes)
  have t2: "atom_data (new_atom (a + 96) d 64) = atom_bytes (word_bytes (take 4 ws @ vs))" by (simp add: new_atom_def bytes)
  have fulls: "full (atom_data x)" if "x \<in> set (atoms_of r6)" for x
    using inserted_atoms(3) [OF ins that] t1 t2 ws vs by (auto intro!: full_line)
  have ok: "iob_ok st" using r6 fulls by (simp add: iob_ok_def st_def)
  note B = gap_address(3) [OF a] and u96 = gap_address(4) [OF a] and u64 = gap_address(5) [OF a]
  have k1: "mask_addr a = drop_bit 6 a" and k2: "mask_addr (a + 96) = drop_bit 6 (a + 64)"
  proof -
    show "mask_addr a = drop_bit 6 a" by (rule mask_addr_small) (use a(2) in simp)
    have "mask_addr (a + 96) = drop_bit 6 (a + 96)" by (rule mask_addr_small) (use a(2) u96 in simp)
    moreover have "a + 96 = (a + 64) + of_nat (8 * 4)" by simp
    moreover have "drop_bit 6 ((a + 64) + of_nat (8 * 4)) = drop_bit 6 (a + 64)" by (rule line_parts(1) [OF B]) simp
    ultimately show "mask_addr (a + 96) = drop_bit 6 (a + 64)" by argo
  qed
  have ne: "drop_bit 6 a \<noteq> drop_bit 6 (a + 64)" using aligned_eq [OF a(1) B] by auto
  have "iob_mem st (a + 64 + of_nat (8 * j)) = ws ! j" if j: "j < 4" for j
  proof -
    let ?x = "a + 64 + of_nat (8 * j)"
    have j8: "j < 8" using j by simp
    have "unat ?x = unat (a + 64) + 8 * j" by (rule line_parts(3) [OF B j8])
    then have bound: "unat (a + 64) + 8 * j < 2 ^ 40" using a(2) j u64 by simp
    then have wa: "word_addr ?x = ?x" using aligned_words [OF B, of j] by (intro word_addr_id) simp_all
    have k: "line_key ?x = drop_bit 6 (a + 64)" "slot_at ?x = 8 * j"
      unfolding word_addr_parts(3,4) wa line_parts(1,2) [OF B j8] by simp_all
    have "iob_mem st ?x = word_at (atom_bytes (word_bytes (take 4 ws @ vs))) (8 * j)"
      unfolding iob_mem_def k using ne t2 k1 k2 by (simp add: st_def found new_atom_def)
    also have "\<dots> = (take 4 ws @ vs) ! j" by (rule word_at_line) (use ws vs j in auto)
    finally show ?thesis using j ws by (simp add: nth_append)
  qed
  with init ok show ?thesis by blast
qed

lemma gap_is_zero:
  assumes "a AND 63 = 0" "unat a < 2 ^ 39" "length ws = 8" "length vs = 4" "length cbuf = BUFFER" "j < 4"
  shows "memory_of (load_items 0 (gap_image a ws vs)) (a + 64 + of_nat (8 * j)) = 0"
proof -
  have u: "unat (a + of_nat (8 * i)) = unat a + 8 * i" if "i < 100" for i
    using aligned_words(1) [OF assms(1), of i] assms(2) that by simp
  have x: "a + 64 + of_nat (8 * j) = a + of_nat (8 * (8 + j))" and y: "a + 96 + of_nat (8 * i) = a + of_nat (8 * (12 + i))" for i
    by simp_all
  have ne: "a + of_nat (8 * i) \<noteq> a + of_nat (8 * k)" if "i < 100" "k < 100" "i \<noteq> k" for i k
  proof
    assume "a + of_nat (8 * i) = a + of_nat (8 * k)"
    then have "unat a + 8 * i = unat a + 8 * k" using u [OF that(1)] u [OF that(2)] by argo
    then show False using that(3) by simp
  qed
  have "load_items 0 (gap_image a ws vs) = place a ws @ place (a + 96) vs" by (simp add: gap_image_def)
  then have "fst ` set (load_items 0 (gap_image a ws vs)) =
      (\<lambda>i. a + of_nat (8 * i)) ` {..<8} \<union> (\<lambda>i. a + 96 + of_nat (8 * i)) ` {..<4}"
    using assms(3,4) by (simp only: place_conv set_append set_map image_Un image_image fst_conv set_upt) (simp add: atLeast0LessThan)
  moreover have "a + of_nat (8 * (8 + j)) \<noteq> a + of_nat (8 * i)" if "i < 8" for i by (rule ne) (use that assms(6) in simp_all)
  moreover have "a + of_nat (8 * (8 + j)) \<noteq> a + of_nat (8 * (12 + i))" if "i < 4" for i by (rule ne) (use that assms(6) in simp_all)
  ultimately have "a + 64 + of_nat (8 * j) \<notin> fst ` set (load_items 0 (gap_image a ws vs))"
    unfolding x y by blast
  then show ?thesis by (rule memory_of_outside)
qed

lemma line_key_nonzero:
  assumes "a AND 63 = 0" "a \<noteq> 0" "unat a + 8 * j < 2 ^ 40"
  shows "line_key (a + of_nat (8 * j)) \<noteq> 0"
proof
  have u: "unat (a + of_nat (8 * j)) = unat a + 8 * j" and al: "(a + of_nat (8 * j)) AND 7 = 0"
    using aligned_words [OF assms(1), of j] assms(3) by simp_all
  have w: "word_addr (a + of_nat (8 * j)) = a + of_nat (8 * j)" by (rule word_addr_id [OF al]) (use u assms(3) in simp)
  assume "line_key (a + of_nat (8 * j)) = 0"
  then have "unat (drop_bit 6 (a + of_nat (8 * j))) = 0" unfolding word_addr_parts(3) w by simp
  then have "(unat a + 8 * j) div 64 = 0" by (simp only: unat_drop_bit_eq u) (simp add: drop_bit_eq_div)
  moreover have "unat (take_bit 6 a) = 0" using assms(1) by (simp only: aligned_iff) simp
  then have "unat a mod 64 = 0" by (simp only: unsigned_take_bit_eq) (simp add: take_bit_eq_mod)
  ultimately have "unat a = 0" by (auto simp: div_eq_0_iff)
  then show False using assms(2) by (simp only: unsigned_eq_0_iff)
qed

end
