(* ===== verification/PLI_Mem.thy ===== *)
theory PLI_Mem
  imports GF_Prelude
begin

text \<open>
  \<open>src/piton/tools/pli/mem/mem.c\<close>: the filling of the register files of the simulated processor with
  random words and their check bytes. The simulator interface hands over the number of words and groups
  and a byte array; \<open>random\<close> is the sequence of its results. The lemmas show that the check byte
  makes a code of distance four (single errors can be corrected, double errors detected), and that every
  word that is written is a word of this code.
\<close>

section \<open>The check byte\<close>

text \<open>The positions each bit of the check byte sums up, for the floating-point (32 bits) and the integer
  register file (64 bits).\<close>

definition frf_rows :: "nat list list" where
  "frf_rows = [
     [0, 1, 3, 4, 6, 8, 10, 11, 13, 15, 17, 19, 21, 23, 25, 26, 28, 30],
     [0, 2, 3, 5, 6, 9, 10, 12, 13, 16, 17, 20, 21, 24, 25, 27, 28, 31],
     [1, 2, 3, 7, 8, 9, 10, 14, 15, 16, 17, 22, 23, 24, 25, 29, 30, 31],
     [4, 5, 6, 7, 8, 9, 10, 18, 19, 20, 21, 22, 23, 24, 25],
     [11, 12, 13, 14, 15, 16, 17, 18, 19, 20, 21, 22, 23, 24, 25],
     [26, 27, 28, 29, 30, 31],
     [0, 1, 2, 4, 5, 7, 10, 11, 12, 14, 17, 18, 21, 23, 24, 26, 27, 29]]"

definition irf_rows :: "nat list list" where
  "irf_rows = [
     [0, 1, 3, 4, 6, 8, 10, 11, 13, 15, 17, 19, 21, 23, 25, 26, 28, 30, 32, 34, 36, 38, 40, 42, 44, 46, 48, 50, 52, 54, 56, 57, 59, 61, 63],
     [0, 2, 3, 5, 6, 9, 10, 12, 13, 16, 17, 20, 21, 24, 25, 27, 28, 31, 32, 35, 36, 39, 40, 43, 44, 47, 48, 51, 52, 55, 56, 58, 59, 62, 63],
     [1, 2, 3, 7, 8, 9, 10, 14, 15, 16, 17, 22, 23, 24, 25, 29, 30, 31, 32, 37, 38, 39, 40, 45, 46, 47, 48, 53, 54, 55, 56, 60, 61, 62, 63],
     [4, 5, 6, 7, 8, 9, 10, 18, 19, 20, 21, 22, 23, 24, 25, 33, 34, 35, 36, 37, 38, 39, 40, 49, 50, 51, 52, 53, 54, 55, 56],
     [11, 12, 13, 14, 15, 16, 17, 18, 19, 20, 21, 22, 23, 24, 25, 41, 42, 43, 44, 45, 46, 47, 48, 49, 50, 51, 52, 53, 54, 55, 56],
     [26, 27, 28, 29, 30, 31, 32, 33, 34, 35, 36, 37, 38, 39, 40, 41, 42, 43, 44, 45, 46, 47, 48, 49, 50, 51, 52, 53, 54, 55, 56],
     [57, 58, 59, 60, 61, 62, 63],
     [0, 1, 2, 4, 5, 7, 10, 11, 12, 14, 17, 18, 21, 23, 24, 26, 27, 29, 32, 33, 36, 38, 39, 41, 44, 46, 47, 50, 51, 53, 56, 57, 58, 60, 63]]"

text \<open>\<open>bits\<close>: the bytes from the last to the first, each from its lowest bit on.\<close>

definition data_bits :: "u8 list \<Rightarrow> nat \<Rightarrow> bool list" where
  "data_bits data num = concat (map (\<lambda>i. map (bit (data ! i)) [0..<8]) (rev [0..<num]))"

definition xor_bits :: "bool list \<Rightarrow> nat list \<Rightarrow> bool" where
  "xor_bits bits is = foldl (\<lambda>b i. b \<noteq> bits ! i) False is"

definition num_bytes :: "bool \<Rightarrow> nat" where
  "num_bytes fl = (if fl then 4 else 8)"

definition syndrome :: "u8 list \<Rightarrow> bool \<Rightarrow> u8 res" where
  "syndrome data fl =
     (let num = num_bytes fl; rows = (if fl then frf_rows else irf_rows); bits = data_bits data num in
      if length data < num then Inl Undef
      else Inr (foldl (\<lambda>ch i. ch OR push_bit i (if xor_bits bits (rows ! i) then 1 else 0)) 0 [0..<length rows]))"

section \<open>The distance of the code\<close>

text \<open>The bits of the check byte as a function of the set of ones.\<close>

definition check_bit :: "nat set \<Rightarrow> nat list \<Rightarrow> bool" where
  "check_bit S row \<longleftrightarrow> odd (card (S \<inter> set row))"

definition ones :: "bool list \<Rightarrow> nat set" where
  "ones bits = {i. i < length bits \<and> bits ! i}"

lemma xor_bits_parity:
  assumes "distinct is" and "\<forall>i \<in> set is. i < length bits"
  shows "xor_bits bits is = check_bit (ones bits) is"
proof -
  have "foldl (\<lambda>b i. b \<noteq> bits ! i) b is = (b \<noteq> odd (card (ones bits \<inter> set is)))" for b
    using assms
  proof (induction "is" arbitrary: b)
    case (Cons i "is")
    have "ones bits \<inter> set (i # is) = (if bits ! i then insert i (ones bits \<inter> set is) else ones bits \<inter> set is)"
      using Cons.prems(2) by (auto simp: ones_def)
    moreover have "i \<notin> ones bits \<inter> set is" using Cons.prems(1) by simp
    ultimately have "odd (card (ones bits \<inter> set (i # is))) = (bits ! i \<noteq> odd (card (ones bits \<inter> set is)))"
      by simp
    then show ?case using Cons by (cases b; cases "bits ! i") simp_all
  qed simp
  then show ?thesis by (simp add: xor_bits_def check_bit_def)
qed

text \<open>The difference of two check bytes is the check byte of the difference.\<close>

lemma card_sym_diff: "finite A \<Longrightarrow> finite B \<Longrightarrow> odd (card (A - B \<union> (B - A))) = (odd (card A) \<noteq> odd (card B))"
proof -
  assume f: "finite A" "finite B"
  have "card (A - B \<union> (B - A)) = card (A - B) + card (B - A)" using f by (intro card_Un_disjoint) auto
  moreover have "card A = card (A - B) + card (A \<inter> B)" using f by (metis Diff_Int2 card_Diff_subset_Int card_Int_Diff inf.idem add.commute)
  moreover have "card B = card (B - A) + card (A \<inter> B)" using f by (metis card_Int_Diff add.commute inf_commute)
  ultimately show ?thesis by presburger
qed

lemma check_bit_diff:
  assumes "finite S" "finite T"
  shows "check_bit (S - T \<union> (T - S)) row = (check_bit S row \<noteq> check_bit T row)"
proof -
  have "(S - T \<union> (T - S)) \<inter> set row = (S \<inter> set row) - (T \<inter> set row) \<union> ((T \<inter> set row) - (S \<inter> set row))" by auto
  then show ?thesis using card_sym_diff [of "S \<inter> set row" "T \<inter> set row"] by (simp add: check_bit_def)
qed

text \<open>The weight of a check byte has the parity of the number of ones, when every position is in an odd
  number of rows.\<close>

definition weight :: "nat set \<Rightarrow> nat list list \<Rightarrow> nat" where
  "weight S rows = length (filter (check_bit S) rows)"

definition column :: "nat list list \<Rightarrow> nat \<Rightarrow> bool list" where
  "column rows i = map (\<lambda>r. i \<in> set r) rows"

definition good_rows :: "nat \<Rightarrow> nat list list \<Rightarrow> bool" where
  "good_rows n rows \<longleftrightarrow> list_all (\<lambda>r. distinct r \<and> list_all (\<lambda>i. i < n) r) rows \<and>
     list_all (\<lambda>i. length (filter (\<lambda>b. b) (column rows i)) \<in> {3, 5, 7}) [0..<n] \<and> distinct (map (column rows) [0..<n])"

lemma weight_parity:
  assumes "finite S" and "\<forall>i \<in> S. odd (length (filter (\<lambda>b. b) (column rows i)))"
  shows "odd (weight S rows) = odd (card S)"
  using assms
proof (induction S)
  case empty
  then show ?case by (simp add: weight_def check_bit_def)
next
  case (insert i S)
  have "odd (weight (insert i S) rows) = (odd (weight S rows) \<noteq> odd (length (filter (\<lambda>b. b) (column rows i))))"
  proof (induction rows)
    case (Cons r rows)
    have "check_bit (insert i S) r = (if i \<in> set r then \<not> check_bit S r else check_bit S r)"
      using insert.hyps by (auto simp: check_bit_def Int_insert_left)
    with Cons show ?case by (auto simp: weight_def column_def)
  qed (simp add: weight_def column_def)
  with insert show ?case by simp
qed

lemma weight_distance:
  assumes rows: "good_rows n rows" and S: "S \<subseteq> {..<n}" and ne: "S \<noteq> {}"
  shows "4 \<le> card S + weight S rows"
proof -
  have fin: "finite S" using S finite_subset by blast
  have col: "length (filter (\<lambda>b. b) (column rows i)) \<in> {3, 5, 7}" if "i \<in> S" for i
  proof -
    have "i \<in> set [0..<n]" using S that by auto
    then show ?thesis using rows by (simp add: good_rows_def list_all_iff)
  qed
  have "odd (length (filter (\<lambda>b. b) (column rows i)))" if "i \<in> S" for i using col [OF that] by auto
  then have par: "odd (weight S rows) = odd (card S)" by (intro weight_parity [OF fin]) simp
  have "card S \<noteq> 0" using ne fin by simp
  then consider "card S = 1" | "card S = 2" | "card S = 3" | "card S \<ge> 4" by linarith
  then show ?thesis
  proof cases
    case 1
    then obtain i where i: "S = {i}" by (auto simp: card_1_singleton_iff)
    have "weight {i} rows = length (filter (\<lambda>b. b) (column rows i))"
      by (induction rows) (auto simp: weight_def column_def check_bit_def)
    then show ?thesis using col [of i] i by auto
  next
    case 2
    then obtain i j where ij: "S = {i, j}" "i \<noteq> j" by (auto simp: card_2_iff)
    have "i < n" "j < n" using S ij by auto
    moreover have "inj_on (column rows) {0..<n}" using rows by (simp add: good_rows_def distinct_map)
    ultimately have "column rows i \<noteq> column rows j" using ij(2) by (auto dest: inj_onD)
    then obtain r where r: "r \<in> set rows" "(i \<in> set r) \<noteq> (j \<in> set r)" by (auto simp: column_def)
    have "check_bit S r"
    proof (cases "i \<in> set r")
      case True
      then have "S \<inter> set r = {i}" using r ij by auto
      then show ?thesis by (simp add: check_bit_def)
    next
      case False
      then have "S \<inter> set r = {j}" using r ij by auto
      then show ?thesis by (simp add: check_bit_def)
    qed
    then have "weight S rows \<noteq> 0" using r(1) by (auto simp: weight_def filter_empty_conv)
    then show ?thesis using 2 par by presburger
  next
    case 3
    then have "odd (weight S rows)" using par by simp
    then show ?thesis using 3 by presburger
  qed simp
qed

lemma frf_rows_good: "good_rows 32 frf_rows"
  by code_simp

lemma irf_rows_good: "good_rows 64 irf_rows"
  by code_simp

text \<open>Bytes that differ.\<close>

definition bit_count :: "u8 \<Rightarrow> nat" where
  "bit_count x = length (filter (bit x) [0..<8])"

definition bit_distance :: "u8 list \<Rightarrow> u8 list \<Rightarrow> nat" where
  "bit_distance xs ys = sum_list (map2 (\<lambda>x y. bit_count (x XOR y)) xs ys)"

lemma data_bits_rev: "length data = num \<Longrightarrow> data_bits data num = concat (map (\<lambda>x. map (bit x) [0..<8]) (rev data))"
proof -
  assume len: "length data = num"
  have "map (\<lambda>i. map (bit (data ! i)) [0..<8]) [0..<num] = map (\<lambda>x. map (bit x) [0..<8]) data"
    using len by (intro nth_equalityI) (simp_all del: upt_Suc)
  then show ?thesis by (simp add: data_bits_def rev_map [symmetric] del: upt_Suc)
qed

lemma length_data_bits: "length (data_bits data num) = 8 * num"
  by (simp add: data_bits_def length_concat comp_def sum_list_triv)

lemma differences:
  "length xs = length ys \<Longrightarrow>
   card {i. i < length xs \<and> xs ! i \<noteq> ys ! i} = length (filter (\<lambda>(a, b). a \<noteq> b) (zip xs ys))"
  using length_filter_conv_card [of "\<lambda>(a, b). a \<noteq> b" "zip xs ys"] by (simp cong: conj_cong)

lemma concat_differences:
  "length xs = length ys \<Longrightarrow>
   length (filter (\<lambda>(a, b). a \<noteq> b) (zip (concat (map (\<lambda>x. map (bit x) [0..<8]) xs)) (concat (map (\<lambda>x. map (bit x) [0..<8]) ys)))) =
     bit_distance xs ys"
proof (induction xs ys rule: list_induct2)
  case (Cons x xs y ys)
  have "length (filter (\<lambda>(a, b). a \<noteq> b) (zip (map (bit x) [0..<8]) (map (bit y) [0..<8]))) = bit_count (x XOR y)"
    by (simp add: bit_count_def zip_map_map filter_map zip_same_conv_map comp_def) (simp add: bit_xor_iff fun_eq_iff cong: filter_cong)
  with Cons show ?case by (simp add: bit_distance_def zip_append1 zip_append del: upt_Suc)
qed (simp add: bit_distance_def)

lemma bit_distance_rev: "length xs = length ys \<Longrightarrow> bit_distance (rev xs) (rev ys) = bit_distance xs ys"
  by (simp add: bit_distance_def zip_rev rev_map [symmetric])

lemma bit_syndrome:
  "bit (foldl (\<lambda>ch i. ch OR push_bit i (if P i then 1 else 0)) (c :: u8) [0..<n]) k \<longleftrightarrow> bit c k \<or> k < n \<and> k < 8 \<and> P k"
  by (induction n) (auto simp: bit_simps less_Suc_eq split: if_splits)

lemma syndrome_distance:
  assumes "length d = num_bytes fl" "length d' = num_bytes fl" "d \<noteq> d'"
  shows "\<exists>s s'. syndrome d fl = Inr s \<and> syndrome d' fl = Inr s' \<and> 4 \<le> bit_distance d d' + bit_count (s XOR s')"
proof -
  define num rows where "num = num_bytes fl" and "rows = (if fl then frf_rows else irf_rows)"
  define b b' where "b = data_bits d num" and "b' = data_bits d' num"
  have good: "good_rows (8 * num) rows" using frf_rows_good irf_rows_good by (simp add: num_def rows_def num_bytes_def)
  have rows8: "length rows \<le> 8" by (simp add: rows_def frf_rows_def irf_rows_def)
  define E where "E = {i. i < length b \<and> b ! i \<noteq> b' ! i}"
  have len: "length b = 8 * num" "length b' = 8 * num" by (simp_all add: b_def b'_def length_data_bits)
  have E: "E = ones b - ones b' \<union> (ones b' - ones b)" using len by (auto simp: E_def ones_def)
  have fin: "finite (ones b)" "finite (ones b')" by (simp_all add: ones_def)
  have "card E = length (filter (\<lambda>(a, b). a \<noteq> b) (zip b b'))" unfolding E_def using len by (intro differences) simp
  also have "\<dots> = bit_distance (rev d) (rev d')"
    unfolding b_def b'_def using assms by (subst (1 2) data_bits_rev) (simp_all only: num_def concat_differences length_rev)
  finally have cE: "card E = bit_distance d d'" using assms by (simp add: bit_distance_rev)
  have syn: "\<exists>s. syndrome x fl = Inr s \<and> (\<forall>k. bit s k \<longleftrightarrow> k < length rows \<and> check_bit (ones (data_bits x num)) (rows ! k))"
    if "length x = num" for x
  proof -
    have par: "xor_bits (data_bits x num) (rows ! k) = check_bit (ones (data_bits x num)) (rows ! k)" if "k < length rows" for k
    proof (rule xor_bits_parity)
      have "rows ! k \<in> set rows" using that by simp
      then show "distinct (rows ! k)" "\<forall>i \<in> set (rows ! k). i < length (data_bits x num)"
        using good by (auto simp: good_rows_def list_all_iff length_data_bits)
    qed
    then show ?thesis using that rows8
      by (auto simp: syndrome_def Let_def bit_syndrome rows_def [symmetric] num_def [symmetric] simp del: upt_Suc)
  qed
  obtain s s' where s: "syndrome d fl = Inr s" "\<And>k. bit s k \<longleftrightarrow> k < length rows \<and> check_bit (ones b) (rows ! k)"
    and s': "syndrome d' fl = Inr s'" "\<And>k. bit s' k \<longleftrightarrow> k < length rows \<and> check_bit (ones b') (rows ! k)"
    using syn [of d] syn [of d'] assms(1,2) by (auto simp: num_def b_def b'_def)
  have bits: "bit (s XOR s') k \<longleftrightarrow> k < length rows \<and> check_bit E (rows ! k)" for k
    unfolding E check_bit_diff [OF fin] bit_xor_iff s(2) s'(2) by blast
  have "bit_count (s XOR s') = card {k. k < 8 \<and> k < length rows \<and> check_bit E (rows ! k)}"
    by (simp add: bit_count_def bits length_filter_conv_card del: upt_Suc cong: conj_cong)
  also have "{k. k < 8 \<and> k < length rows \<and> check_bit E (rows ! k)} = {k. k < length rows \<and> check_bit E (rows ! k)}"
    using rows8 by auto
  also have "card \<dots> = weight E rows" by (simp add: weight_def length_filter_conv_card)
  finally have w: "bit_count (s XOR s') = weight E rows" .
  have "E \<noteq> {}"
  proof
    assume "E = {}"
    then have "b = b'" using len by (auto simp: E_def intro: nth_equalityI)
    have byte: "x = y" if "\<forall>k \<in> {0..<8}. bit x k = bit y k" for x y :: u8
    proof (rule bit_word_eqI)
      fix k
      assume "k < LENGTH(8)"
      then show "bit x k = bit y k" using that by simp
    qed
    have "rev xs = rev ys" if "concat (map (\<lambda>x. map (bit x) [0..<8]) xs) = concat (map (\<lambda>x. map (bit x) [0..<8]) ys)" "length xs = length ys"
      for xs ys :: "u8 list"
      using that(2,1) by (induction xs ys rule: list_induct2) (auto dest!: byte simp del: upt_Suc)
    from this [of "rev d" "rev d'"] have "d = d'"
      using \<open>b = b'\<close> assms(1,2) by (simp add: b_def b'_def data_bits_rev num_def del: upt_Suc)
    with assms(3) show False by simp
  qed
  moreover have "E \<subseteq> {..<8 * num}" using len by (auto simp: E_def)
  ultimately have "4 \<le> card E + weight E rows" by (intro weight_distance [OF good])
  then show ?thesis using s(1) s'(1) w cE by auto
qed

section \<open>Filling a register file\<close>

text \<open>\<open>rnd n\<close> is the result of call \<open>n\<close> of \<open>random\<close>, \<open>slam\<close> the value of the plusarg. The interface's
  memory is a flat array of bytes: for every word \<open>ngroups\<close> bytes of value, then \<open>ngroups\<close> bytes that mark
  unknown bits.\<close>

record slam_st =
  sl_mem :: "u8 list"
  sl_data :: "u8 list"
  sl_ind :: int
  sl_calls :: nat

definition put_at :: "nat \<Rightarrow> u8 \<Rightarrow> u8 list \<Rightarrow> u8 list res" where
  "put_at i b mem = (if i < length mem then Inr (mem[i := b]) else Inl Undef)"

definition slam_group :: "(nat \<Rightarrow> u64) \<Rightarrow> u32 option \<Rightarrow> bool \<Rightarrow> nat \<Rightarrow> nat \<Rightarrow> slam_st \<Rightarrow> nat \<Rightarrow> slam_st res" where
  "slam_group rnd slam fl ngroups base st g =
     (if sl_ind st < 0
      then bindr (syndrome (sl_data st) fl) (\<lambda>ch.
           bindr (put_at (base + g) ch (sl_mem st)) (\<lambda>mem.
           bindr (put_at (base + ngroups + g) 0 mem) (\<lambda>mem. Inr (st\<lparr>sl_mem := mem\<rparr>))))
      else
        let (ch, calls) = (case slam of None \<Rightarrow> (ucast (rnd (sl_calls st)), Suc (sl_calls st)) | Some v \<Rightarrow> (ucast v, sl_calls st)) in
        bindr (put_at (base + g) ch (sl_mem st)) (\<lambda>mem.
        bindr (put_at (base + ngroups + g) 0 mem) (\<lambda>mem.
        bindr (put_at (nat (sl_ind st)) ch (sl_data st)) (\<lambda>data.
          Inr (st\<lparr>sl_mem := mem, sl_data := data, sl_ind := sl_ind st - 1, sl_calls := calls\<rparr>)))))"

definition slam_word :: "(nat \<Rightarrow> u64) \<Rightarrow> u32 option \<Rightarrow> bool \<Rightarrow> nat \<Rightarrow> slam_st \<Rightarrow> nat \<Rightarrow> slam_st res" where
  "slam_word rnd slam fl ngroups st w =
     foldr_res (slam_group rnd slam fl ngroups (w * (ngroups * 2))) (st\<lparr>sl_ind := (if fl then 3 else 7)\<rparr>) [0..<ngroups]"

text \<open>The first case fills a vector, the second a memory; \<open>mode\<close> is the third argument of the call, \<open>data\<close>
  the contents of the local array, 8 bytes.\<close>

definition slam_vector :: "(nat \<Rightarrow> u64) \<Rightarrow> nat \<Rightarrow> (u32 \<times> u32) list" where
  "slam_vector rnd ngroups = map (\<lambda>g. (ucast (rnd g), 0)) [0..<ngroups]"

definition slam_memory :: "(nat \<Rightarrow> u64) \<Rightarrow> u32 option \<Rightarrow> u8 list \<Rightarrow> bool \<Rightarrow> nat \<Rightarrow> nat \<Rightarrow> u8 list \<Rightarrow> u8 list res" where
  "slam_memory rnd slam data fl num ngroups mem =
     bindr (foldr_res (slam_word rnd slam fl ngroups) \<lparr>sl_mem = mem, sl_data = data, sl_ind = 0, sl_calls = 0\<rparr> [0..<num])
       (\<lambda>st. Inr (sl_mem st))"

text \<open>The value bytes of a word, first the one with the highest index of \<open>data\<close>.\<close>

definition word_value :: "nat \<Rightarrow> u8 list \<Rightarrow> nat \<Rightarrow> u8 list" where
  "word_value ngroups mem w = take ngroups (drop (w * (ngroups * 2)) mem)"

lemma put_at_ok: "i < length mem \<Longrightarrow> put_at i b mem = Inr (mem[i := b])"
  by (simp add: put_at_def)

text \<open>After the data bytes of a word: memory and \<open>data\<close> agree, in opposite order.\<close>

lemma slam_data_groups:
  assumes base: "base + 2 * ngroups \<le> length (sl_mem st)" and d: "length (sl_data st) = 8" and ng: "num_bytes fl < ngroups"
    and ind: "sl_ind st = int (num_bytes fl) - 1"
  shows "k \<le> num_bytes fl \<Longrightarrow> \<exists>st'. foldr_res (slam_group rnd slam fl ngroups base) st [0..<k] = Inr st' \<and>
     length (sl_mem st') = length (sl_mem st) \<and> length (sl_data st') = 8 \<and> sl_ind st' = int (num_bytes fl) - 1 - int k \<and>
     (\<forall>i. i < base \<or> base + 2 * ngroups \<le> i \<longrightarrow> sl_mem st' ! i = sl_mem st ! i) \<and>
     (\<forall>g < k. sl_data st' ! (num_bytes fl - 1 - g) = sl_mem st' ! (base + g)) \<and>
     (\<forall>g < k. sl_mem st' ! (base + ngroups + g) = 0)"
proof (induction k)
  case 0
  then show ?case using d ind by simp
next
  case (Suc k)
  then obtain st' where st': "foldr_res (slam_group rnd slam fl ngroups base) st [0..<k] = Inr st'"
    "length (sl_mem st') = length (sl_mem st)" "length (sl_data st') = 8" "sl_ind st' = int (num_bytes fl) - 1 - int k"
    "\<forall>i. i < base \<or> base + 2 * ngroups \<le> i \<longrightarrow> sl_mem st' ! i = sl_mem st ! i"
    "\<forall>g < k. sl_data st' ! (num_bytes fl - 1 - g) = sl_mem st' ! (base + g)"
    "\<forall>g < k. sl_mem st' ! (base + ngroups + g) = 0" by auto
  have n8: "num_bytes fl \<le> 8" by (simp add: num_bytes_def)
  obtain ch calls where ch: "(case slam of None \<Rightarrow> (ucast (rnd (sl_calls st')), Suc (sl_calls st')) | Some v \<Rightarrow> (ucast v, sl_calls st')) = (ch :: u8, calls)"
    by fastforce
  define st2 where "st2 = st'\<lparr>sl_mem := (sl_mem st')[base + k := ch, base + ngroups + k := 0],
      sl_data := (sl_data st')[num_bytes fl - 1 - k := ch], sl_ind := sl_ind st' - 1, sl_calls := calls\<rparr>"
  have pos: "nat (sl_ind st') = num_bytes fl - 1 - k" "\<not> sl_ind st' < 0" using Suc.prems st'(4) by auto
  have step: "slam_group rnd slam fl ngroups base st' k = Inr st2"
    unfolding slam_group_def ch using pos base ng Suc.prems st'(2,3) n8
    by (simp add: put_at_ok st2_def)
  have "sl_data st2 ! (num_bytes fl - 1 - g) = sl_mem st2 ! (base + g)" if "g < Suc k" for g
  proof (cases "g = k")
    case True
    then show ?thesis using base ng Suc.prems st'(2,3) n8 by (simp add: st2_def)
  next
    case False
    then have "num_bytes fl - 1 - g \<noteq> num_bytes fl - 1 - k" using that Suc.prems by linarith
    then show ?thesis using False that st'(6) ng Suc.prems by (simp add: st2_def)
  qed
  moreover have "sl_mem st2 ! i = sl_mem st ! i" if "i < base \<or> base + 2 * ngroups \<le> i" for i
  proof -
    have "i \<noteq> base + k" "i \<noteq> base + ngroups + k" using that ng Suc.prems by auto
    then show ?thesis using st'(5) that by (auto simp: st2_def)
  qed
  moreover have "sl_mem st2 ! (base + ngroups + g) = 0" if "g < Suc k" for g
    using that st'(7) ng Suc.prems base st'(2) by (cases "g = k") (simp_all add: st2_def)
  ultimately show ?case using st' step
    by (intro exI [of _ st2]) (simp add: foldr_res_append, simp add: st2_def)
qed

lemma syndrome_take: "num_bytes fl \<le> length data \<Longrightarrow> syndrome (take (num_bytes fl) data) fl = syndrome data fl"
proof -
  assume "num_bytes fl \<le> length data"
  moreover have "data_bits (take n data) n = data_bits data n" for n
    unfolding data_bits_def by (rule arg_cong [where f = concat], rule map_cong) (simp_all del: upt_Suc)
  ultimately show ?thesis by (simp add: syndrome_def Let_def del: upt_Suc)
qed

text \<open>A word with its check byte, all of its bits known.\<close>

definition codeword :: "bool \<Rightarrow> u8 list \<Rightarrow> nat \<Rightarrow> bool" where
  "codeword fl mem w =
     (let n = num_bytes fl; base = w * (Suc n * 2) in
      syndrome (rev (take n (drop base mem))) fl = Inr (mem ! (base + n)) \<and>
      list_all (\<lambda>b. b = 0) (take (Suc n) (drop (base + Suc n) mem)))"

lemma slam_word_ok:
  assumes len: "(w + 1) * (Suc (num_bytes fl) * 2) \<le> length (sl_mem st)" and d: "length (sl_data st) = 8"
  shows "\<exists>st'. slam_word rnd slam fl (Suc (num_bytes fl)) st w = Inr st' \<and> length (sl_mem st') = length (sl_mem st) \<and>
     length (sl_data st') = 8 \<and> codeword fl (sl_mem st') w \<and>
     (\<forall>i. i < w * (Suc (num_bytes fl) * 2) \<or> (w + 1) * (Suc (num_bytes fl) * 2) \<le> i \<longrightarrow> sl_mem st' ! i = sl_mem st ! i)"
proof -
  define n base where "n = num_bytes fl" and "base = w * (Suc n * 2)"
  have ends: "(w + 1) * (Suc n * 2) = base + 2 * Suc n" by (simp add: base_def)
  have n8: "n \<le> 8" "0 < n" by (simp_all add: n_def num_bytes_def)
  define st0 where "st0 = st\<lparr>sl_ind := (if fl then 3 else 7)\<rparr>"
  have room: "base + 2 * Suc n \<le> length (sl_mem st0)" using len ends by (simp add: st0_def n_def)
  have st0: "length (sl_data st0) = 8" "sl_ind st0 = int (num_bytes fl) - 1" using d by (simp_all add: st0_def num_bytes_def)
  obtain st1 where st1: "foldr_res (slam_group rnd slam fl (Suc n) base) st0 [0..<n] = Inr st1"
     "length (sl_mem st1) = length (sl_mem st0)" "length (sl_data st1) = 8" "sl_ind st1 = -1"
     "\<And>i. i < base \<or> base + 2 * Suc n \<le> i \<Longrightarrow> sl_mem st1 ! i = sl_mem st0 ! i"
     "\<And>g. g < n \<Longrightarrow> sl_data st1 ! (n - 1 - g) = sl_mem st1 ! (base + g)"
     "\<And>g. g < n \<Longrightarrow> sl_mem st1 ! (base + Suc n + g) = 0"
    using slam_data_groups [OF room st0(1) _ st0(2), of n rnd slam] by (auto simp: n_def)
  obtain ch where ch: "syndrome (sl_data st1) fl = Inr ch"
    using st1(3) n8 by (auto simp: syndrome_def Let_def n_def)
  define st2 where "st2 = st1\<lparr>sl_mem := (sl_mem st1)[base + n := ch, base + Suc n + n := 0]\<rparr>"
  have "slam_group rnd slam fl (Suc n) base st1 n = Inr st2"
    using st1(2,4) ch room by (simp add: slam_group_def put_at_ok st2_def)
  then have run: "slam_word rnd slam fl (Suc n) st w = Inr st2"
    unfolding slam_word_def st0_def [symmetric] base_def [symmetric]
    using st1(1) by (simp add: foldr_res_append)
  have out: "sl_mem st2 ! i = sl_mem st ! i" if "i < base \<or> base + 2 * Suc n \<le> i" for i
  proof -
    have "i \<noteq> base + n" "i \<noteq> base + Suc n + n" using that by auto
    then have "sl_mem st2 ! i = sl_mem st1 ! i" by (simp add: st2_def)
    then show ?thesis using st1(5) [OF that] by (simp add: st0_def)
  qed
  have "rev (take n (drop base (sl_mem st2))) = take n (sl_data st1)"
  proof (rule nth_equalityI)
    show "length (rev (take n (drop base (sl_mem st2)))) = length (take n (sl_data st1))"
      using room st1(2,3) n8 by (simp add: st2_def)
    show "rev (take n (drop base (sl_mem st2))) ! i = take n (sl_data st1) ! i" if "i < length (rev (take n (drop base (sl_mem st2))))" for i
    proof -
      have i: "i < n" "n - Suc i < n" using that n8 by auto
      have "rev (take n (drop base (sl_mem st2))) ! i = sl_mem st2 ! (base + (n - Suc i))"
        using i room st1(2) by (subst rev_nth) (simp_all add: st2_def)
      also have "\<dots> = sl_mem st1 ! (base + (n - Suc i))" using i by (simp add: st2_def)
      also have "\<dots> = sl_data st1 ! i" using st1(6) [OF i(2)] i by simp
      finally show ?thesis using i by simp
    qed
  qed
  then have "syndrome (rev (take n (drop base (sl_mem st2)))) fl = Inr ch"
    using syndrome_take [of fl "sl_data st1"] ch st1(3) n8 by (simp add: n_def)
  moreover have "sl_mem st2 ! (base + n) = ch" using room st1(2) by (simp add: st2_def)
  moreover have "sl_mem st2 ! (base + Suc n + g) = 0" if "g < Suc n" for g
    using that st1(2,7) room by (cases "g = n") (simp_all add: st2_def)
  ultimately have "codeword fl (sl_mem st2) w"
    using room st1(2) unfolding codeword_def Let_def n_def [symmetric] base_def [symmetric]
    by (simp add: list_all_length) (simp add: st2_def)
  then show ?thesis
    using run out st1(2,3) unfolding n_def [symmetric] base_def [symmetric] ends
    by (intro exI [of _ st2]) (simp add: st2_def st0_def)
qed

lemma codeword_cong:
  assumes "\<And>i. w * (Suc (num_bytes fl) * 2) \<le> i \<Longrightarrow> i < (w + 1) * (Suc (num_bytes fl) * 2) \<Longrightarrow> mem' ! i = mem ! i"
    and "length mem' = length mem" and "(w + 1) * (Suc (num_bytes fl) * 2) \<le> length mem" and "codeword fl mem w"
  shows "codeword fl mem' w"
proof -
  define n base where "n = num_bytes fl" and "base = w * (Suc n * 2)"
  have ends: "(w + 1) * (Suc n * 2) = base + 2 * Suc n" by (simp add: base_def)
  have same: "mem' ! i = mem ! i" if "base \<le> i" "i < base + 2 * Suc n" for i
    using assms(1) [of i] that unfolding n_def [symmetric] base_def [symmetric] ends by simp
  have room: "base + 2 * Suc n \<le> length mem" using assms(3) unfolding n_def [symmetric] ends .
  have part: "take k (drop b mem') = take k (drop b mem)" if "base \<le> b" "b + k \<le> base + 2 * Suc n" for b k
    using that same assms(2) room by (intro nth_equalityI) simp_all
  show ?thesis
    using assms(4) part [of base n] part [of "base + Suc n" "Suc n"] same [of "base + n"]
    unfolding codeword_def Let_def n_def [symmetric] base_def [symmetric] by simp
qed

lemma slam_memory_ok:
  assumes len: "length mem = num * (Suc (num_bytes fl) * 2)" and d: "length data = 8"
  shows "\<exists>mem'. slam_memory rnd slam data fl num (Suc (num_bytes fl)) mem = Inr mem' \<and> length mem' = length mem \<and>
     (\<forall>w < num. codeword fl mem' w)"
proof -
  let ?s = "Suc (num_bytes fl) * 2"
  define st where "st = \<lparr>sl_mem = mem, sl_data = data, sl_ind = 0, sl_calls = 0\<rparr>"
  have "k \<le> num \<Longrightarrow> \<exists>st'. foldr_res (slam_word rnd slam fl (Suc (num_bytes fl))) st [0..<k] = Inr st' \<and>
     length (sl_mem st') = length mem \<and> length (sl_data st') = 8 \<and> (\<forall>w < k. codeword fl (sl_mem st') w)" for k
  proof (induction k)
    case 0
    then show ?case using d by (simp add: st_def)
  next
    case (Suc k)
    then obtain st' where st': "foldr_res (slam_word rnd slam fl (Suc (num_bytes fl))) st [0..<k] = Inr st'"
      "length (sl_mem st') = length mem" "length (sl_data st') = 8" "\<forall>w < k. codeword fl (sl_mem st') w" by auto
    have room: "(k + 1) * ?s \<le> length (sl_mem st')" unfolding st'(2) len using Suc.prems by (intro mult_le_mono1) simp
    obtain st2 where st2: "slam_word rnd slam fl (Suc (num_bytes fl)) st' k = Inr st2" "length (sl_mem st2) = length (sl_mem st')"
      "length (sl_data st2) = 8" "codeword fl (sl_mem st2) k"
      and same: "\<And>i. i < k * ?s \<or> (k + 1) * ?s \<le> i \<Longrightarrow> sl_mem st2 ! i = sl_mem st' ! i"
      using slam_word_ok [OF room st'(3), of rnd slam] by blast
    have "codeword fl (sl_mem st2) w" if "w < Suc k" for w
    proof (cases "w = k")
      case False
      have le: "(w + 1) * ?s \<le> k * ?s" using that False by (intro mult_le_mono1) simp
      show ?thesis
      proof (rule codeword_cong [where mem = "sl_mem st'"])
        show "sl_mem st2 ! i = sl_mem st' ! i" if "w * ?s \<le> i" "i < (w + 1) * ?s" for i
          using that le by (intro same disjI1) linarith
        show "(w + 1) * ?s \<le> length (sl_mem st')" using le room by simp
      qed (use st2 st'(4) that False in auto)
    qed (use st2 in simp)
    then show ?case using st' st2 by (intro exI [of _ st2]) (simp add: foldr_res_append)
  qed
  from this [of num] show ?thesis unfolding slam_memory_def st_def [symmetric] by auto
qed

end
