(* ===== verification/BR_Uart.thy ===== *)
theory BR_Uart
  imports GF_Prelude
begin

text \<open>
  The boot ROM's serial port, \<open>linux/src/uart.c\<close> under
  \<open>src/piton/design/chipset/rv64_platform/bootrom/\<close>. The devices are a parameter: \<open>dev n a\<close> is what the
  \<open>n\<close>-th read of a device register returns when it reads address \<open>a\<close>. The bus counts the reads and logs
  the writes. A loop that waits for a status may never end (\<open>Diverge\<close>).

  The lemmas show what is sent, provided the transmitter becomes empty again and again.
\<close>

section \<open>The bus\<close>

record bus =
  bus_reads :: nat
  bus_log :: "(u64 \<times> u32) list"

type_synonym device = "nat \<Rightarrow> u64 \<Rightarrow> u32"

definition write_reg :: "u64 \<Rightarrow> u32 \<Rightarrow> bus \<Rightarrow> bus" where
  "write_reg a v b = b\<lparr>bus_log := bus_log b @ [(a, v)]\<rparr>"

definition read_reg :: "device \<Rightarrow> u64 \<Rightarrow> bus \<Rightarrow> u32 \<times> bus" where
  "read_reg dev a b = (dev (bus_reads b) a, b\<lparr>bus_reads := Suc (bus_reads b)\<rparr>)"

text \<open>Read until the value is as wanted; the number of reads then.\<close>

partial_function (option) poll :: "(nat \<Rightarrow> bool) \<Rightarrow> nat \<Rightarrow> nat option" where
  "poll wanted n = (if wanted n then Some (Suc n) else poll wanted (Suc n))"

lemma poll_ends: "n \<le> m \<Longrightarrow> wanted m \<Longrightarrow> \<exists>k. n < k \<and> poll wanted n = Some k"
proof (induction "m - n" arbitrary: n)
  case 0
  then show ?case by (simp add: poll.simps)
next
  case (Suc d)
  show ?case
  proof (cases "wanted n")
    case True
    then show ?thesis by (simp add: poll.simps)
  next
    case False
    have "d = m - Suc n" "Suc n \<le> m" using Suc.hyps(2) by simp_all
    then obtain k where "Suc n < k" "poll wanted (Suc n) = Some k" using Suc.hyps(1) Suc.prems(2) by blast
    then show ?thesis using False by (intro exI [of _ k]) (simp add: poll.simps [of wanted n])
  qed
qed

section \<open>uart.c\<close>

definition UART_BASE :: u64 where "UART_BASE = 0xFFF0C2C000"
definition UART_THR :: u64 where "UART_THR = UART_BASE + 0"
definition UART_INTERRUPT_ENABLE :: u64 where "UART_INTERRUPT_ENABLE = UART_BASE + 1"
definition UART_LINE_CONTROL :: u64 where "UART_LINE_CONTROL = UART_BASE + 3"
definition UART_MODEM_CONTROL :: u64 where "UART_MODEM_CONTROL = UART_BASE + 4"
definition UART_LINE_STATUS :: u64 where "UART_LINE_STATUS = UART_BASE + 5"
definition UART_DLAB_LSB :: u64 where "UART_DLAB_LSB = UART_BASE + 0"
definition UART_DLAB_MSB :: u64 where "UART_DLAB_MSB = UART_BASE + 1"

text \<open>Registers of the serial port are bytes.\<close>

definition write_reg_u8 :: "u64 \<Rightarrow> u8 \<Rightarrow> bus \<Rightarrow> bus" where
  "write_reg_u8 a v b = write_reg a (ucast v) b"

definition is_transmit_empty :: "device \<Rightarrow> nat \<Rightarrow> u8" where
  "is_transmit_empty dev n = ucast (dev n UART_LINE_STATUS) AND 0x20"

definition write_serial :: "device \<Rightarrow> char \<Rightarrow> bus \<Rightarrow> bus res" where
  "write_serial dev a b =
     (case poll (\<lambda>n. is_transmit_empty dev n \<noteq> 0) (bus_reads b) of
        None \<Rightarrow> Inl Diverge
      | Some n \<Rightarrow> Inr (write_reg_u8 UART_THR (of_char a) (b\<lparr>bus_reads := n\<rparr>)))"

definition init_uart :: "u32 \<Rightarrow> u32 \<Rightarrow> bus \<Rightarrow> bus res" where
  "init_uart freq baud b =
     (if push_bit 4 baud = 0 then Inl Undef
      else
        let divisor = (freq + push_bit 3 baud) div push_bit 4 baud in
        Inr (write_reg_u8 UART_MODEM_CONTROL 0x20
            (write_reg_u8 UART_LINE_CONTROL 0x03
            (write_reg_u8 UART_DLAB_MSB (ucast (drop_bit 8 divisor AND 0xFF))
            (write_reg_u8 UART_DLAB_LSB (ucast divisor)
            (write_reg_u8 UART_LINE_CONTROL 0x80
            (write_reg_u8 UART_INTERRUPT_ENABLE 0x00 b)))))))"

text \<open>The number of characters and the bus.\<close>

fun print_uart :: "device \<Rightarrow> string \<Rightarrow> bus \<Rightarrow> (nat \<times> bus) res" where
  "print_uart dev [] b = Inr (0, b)"
| "print_uart dev (c # cs) b =
     bindr (write_serial dev c b) (\<lambda>b. bindr (print_uart dev cs b) (\<lambda>(n, b). Inr (Suc n, b)))"

definition bin_to_hex_table :: string where
  "bin_to_hex_table = ''0123456789ABCDEF''"

definition bin_to_hex :: "u8 \<Rightarrow> string" where
  "bin_to_hex inp = [bin_to_hex_table ! unat (drop_bit 4 inp AND 0xf), bin_to_hex_table ! unat (inp AND 0xf)]"

text \<open>The loop of \<open>print_uart_dec\<close> for the positions below \<open>i\<close>.\<close>

fun dec_loop :: "device \<Rightarrow> nat \<Rightarrow> u32 \<Rightarrow> u32 \<Rightarrow> u32 \<Rightarrow> bus \<Rightarrow> (nat \<times> bus) res" where
  "dec_loop dev 0 val k digits b = Inr (0, b)"
| "dec_loop dev (Suc i) val k digits b =
     (if k = 0 then Inl Undef
      else
        let cur = val div k; val' = val - cur * k; k' = k div 10 in
        if cur \<noteq> 0 \<or> of_nat i < digits
        then bindr (write_serial dev (bin_to_hex_table ! unat (cur AND 0xf)) b) (\<lambda>b.
             bindr (dec_loop dev i val' k' (of_nat i) b) (\<lambda>(n, b). Inr (Suc n, b)))
        else dec_loop dev i val' k' digits b)"

definition print_uart_dec :: "device \<Rightarrow> u32 \<Rightarrow> u32 \<Rightarrow> bus \<Rightarrow> (nat \<times> bus) res" where
  "print_uart_dec dev val digits b = dec_loop dev 10 val 1000000000 digits b"

text \<open>The bytes of a number, the highest first.\<close>

definition hex_loop :: "device \<Rightarrow> nat \<Rightarrow> 'a :: len word \<Rightarrow> bus \<Rightarrow> (nat \<times> bus) res" where
  "hex_loop dev n w b =
     bindr (foldr_res (\<lambda>b i. bindr (print_uart dev (bin_to_hex (ucast (drop_bit (i * 8) w))) b) (\<lambda>(_, b). Inr b)) b (rev [0..<n]))
       (\<lambda>b. Inr (2 * n, b))"

definition print_uart_int :: "device \<Rightarrow> u32 \<Rightarrow> bus \<Rightarrow> (nat \<times> bus) res" where
  "print_uart_int dev a b = hex_loop dev 4 a b"

definition print_uart_addr :: "device \<Rightarrow> u64 \<Rightarrow> bus \<Rightarrow> (nat \<times> bus) res" where
  "print_uart_addr dev a b = hex_loop dev 8 a b"

definition print_uart_byte :: "device \<Rightarrow> u8 \<Rightarrow> bus \<Rightarrow> (nat \<times> bus) res" where
  "print_uart_byte dev x b = print_uart dev (bin_to_hex x) b"

section \<open>What is sent\<close>

definition ready :: "device \<Rightarrow> bool" where
  "ready dev \<longleftrightarrow> (\<forall>n. \<exists>m\<ge>n. is_transmit_empty dev m \<noteq> 0)"

definition sends :: "bus \<Rightarrow> string \<Rightarrow> bus \<Rightarrow> bool" where
  "sends b s b' \<longleftrightarrow> bus_log b' = bus_log b @ map (\<lambda>c. (UART_THR, ucast (of_char c :: u8))) s \<and> bus_reads b + length s \<le> bus_reads b'"

lemma sends_refl [simp]: "sends b [] b"
  by (simp add: sends_def)

lemma sends_trans: "sends b s b1 \<Longrightarrow> sends b1 t b2 \<Longrightarrow> sends b (s @ t) b2"
  by (simp add: sends_def)

lemma write_serial_sends:
  assumes "ready dev"
  shows "\<exists>b'. write_serial dev c b = Inr b' \<and> sends b [c] b'"
proof -
  obtain m where "bus_reads b \<le> m" "is_transmit_empty dev m \<noteq> 0" using assms by (auto simp: ready_def)
  then obtain k where "bus_reads b < k" "poll (\<lambda>n. is_transmit_empty dev n \<noteq> 0) (bus_reads b) = Some k"
    using poll_ends [of "bus_reads b" m "\<lambda>n. is_transmit_empty dev n \<noteq> 0"] by blast
  then show ?thesis by (auto simp: write_serial_def sends_def write_reg_u8_def write_reg_def)
qed

lemma print_uart_sends:
  assumes "ready dev"
  shows "\<exists>b'. print_uart dev s b = Inr (length s, b') \<and> sends b s b'"
proof (induction s arbitrary: b)
  case (Cons c s)
  obtain b1 where b1: "write_serial dev c b = Inr b1" "sends b [c] b1" using write_serial_sends [OF assms] by blast
  obtain b2 where "print_uart dev s b1 = Inr (length s, b2)" "sends b1 s b2" using Cons by blast
  then show ?case using b1 sends_trans [OF b1(2)] by fastforce
qed simp

text \<open>A transmitter that never becomes empty blocks the first character.\<close>

lemma poll_never: "(\<forall>m \<ge> n. \<not> wanted m) \<Longrightarrow> poll wanted n = None"
proof (rule ccontr)
  assume never: "\<forall>m \<ge> n. \<not> wanted m" and "poll wanted n \<noteq> None"
  then obtain k where k: "poll wanted n = Some k" by auto
  have "poll wanted n = Some k \<Longrightarrow> \<exists>m \<ge> n. wanted m"
  proof (rule poll.raw_induct [where P = "\<lambda>wanted n k. \<exists>m \<ge> n. wanted m"])
    show "\<exists>m \<ge> n. w m" if step: "\<And>w n k. p w n = Some k \<Longrightarrow> \<exists>m \<ge> n. w m" and ret: "(if w n then Some (Suc n) else p w (Suc n)) = Some k"
      for p w n k
    proof (cases "w n")
      case False
      then obtain m where "Suc n \<le> m" "w m" using step [of w "Suc n" k] ret by auto
      then show ?thesis by (intro exI [of _ m]) simp
    qed auto
  qed
  with k never show False by blast
qed

definition hex_text_upper :: "nat \<Rightarrow> 'a :: len word \<Rightarrow> string" where
  "hex_text_upper n w = concat (map (\<lambda>i. bin_to_hex (ucast (drop_bit (i * 8) w))) (rev [0..<n]))"

lemma hex_loop_sends:
  assumes "ready dev"
  shows "\<exists>b'. hex_loop dev n w b = Inr (2 * n, b') \<and> sends b (hex_text_upper n w) b'"
proof -
  have "\<exists>b'. foldr_res (\<lambda>b i. bindr (print_uart dev (f i) b) (\<lambda>(_, b). Inr b)) b is = Inr b' \<and>
     sends b (concat (map f is)) b'" for f :: "nat \<Rightarrow> string" and "is" b
  proof (induction "is" arbitrary: b)
    case (Cons i "is")
    obtain b1 where b1: "print_uart dev (f i) b = Inr (length (f i), b1)" "sends b (f i) b1"
      using print_uart_sends [OF assms] by blast
    obtain b2 where "foldr_res (\<lambda>b i. bindr (print_uart dev (f i) b) (\<lambda>(_, b). Inr b)) b1 is = Inr b2"
      "sends b1 (concat (map f is)) b2" using Cons by blast
    then show ?case using b1 sends_trans [OF b1(2)] by simp
  qed simp
  from this [of "\<lambda>i. bin_to_hex (ucast (drop_bit (i * 8) w))" b "rev [0..<n]"] show ?thesis
    by (auto simp: hex_loop_def hex_text_upper_def simp del: upt_Suc)
qed

section \<open>Decimal numbers\<close>

fun dec_out :: "nat \<Rightarrow> nat \<Rightarrow> nat \<Rightarrow> string" where
  "dec_out 0 v d = []"
| "dec_out (Suc i) v d =
     (if v div 10 ^ i \<noteq> 0 \<or> i < d then bin_to_hex_table ! (v div 10 ^ i) # dec_out i (v mod 10 ^ i) i
      else dec_out i (v mod 10 ^ i) d)"

lemma dec_loop_sends:
  assumes "ready dev"
  shows "i \<le> 10 \<Longrightarrow> unat val < 10 ^ i \<Longrightarrow> (i > 0 \<Longrightarrow> unat k = 10 ^ (i - 1)) \<Longrightarrow>
    \<exists>b'. dec_loop dev i val k digits b = Inr (length (dec_out i (unat val) (unat digits)), b') \<and>
      sends b (dec_out i (unat val) (unat digits)) b'"
proof (induction i arbitrary: val k digits b)
  case (Suc i)
  have k: "unat k = 10 ^ i" using Suc.prems by simp
  then have k0: "k \<noteq> 0" by (metis power_eq_0_iff unsigned_0 zero_neq_numeral)
  define cur where "cur = val div k"
  have uc: "unat cur = unat val div 10 ^ i" by (simp add: cur_def unat_div k)
  have c10: "unat cur < 10" using Suc.prems(2) unfolding uc by (simp add: div_less_iff_less_mult)
  have cf: "unat (cur AND 0xf) = unat cur"
  proof -
    have "cur AND 0xf = take_bit 4 cur" by (simp add: take_bit_eq_mask mask_eq_exp_minus_1)
    then have "unat (cur AND 0xf) = unat cur mod 16" by (simp only: unsigned_take_bit_eq) (simp add: take_bit_eq_mod)
    then show ?thesis using c10 by simp
  qed
  have v': "unat (val - cur * k) = unat val mod 10 ^ i"
  proof -
    have "val - cur * k = val mod k" unfolding cur_def by (simp add: minus_div_mult_eq_mod)
    then show ?thesis by (simp add: unat_mod k)
  qed
  have k': "i > 0 \<Longrightarrow> unat (k div 10) = 10 ^ (i - 1)"
    by (cases i) (simp_all add: unat_div k)
  have lt: "unat val mod 10 ^ i < 10 ^ i" by simp
  have ui: "unat (of_nat i :: u32) = i" using Suc.prems(1) by (simp add: unat_of_nat take_bit_eq_mod)
  have id: "(of_nat i < digits) = (i < unat digits)" by (simp add: word_less_nat_alt ui)
  have c0: "cur \<noteq> 0 \<longleftrightarrow> unat val div 10 ^ i \<noteq> 0" by (metis uc unsigned_eq_0_iff)
  show ?case
  proof (cases "cur \<noteq> 0 \<or> of_nat i < digits")
    case True
    obtain b1 where b1: "write_serial dev (bin_to_hex_table ! unat cur) b = Inr b1" "sends b [bin_to_hex_table ! unat cur] b1"
      using write_serial_sends [OF assms] by blast
    obtain b2 where "dec_loop dev i (val - cur * k) (k div 10) (of_nat i) b1 =
        Inr (length (dec_out i (unat val mod 10 ^ i) i), b2)" "sends b1 (dec_out i (unat val mod 10 ^ i) i) b2"
      using Suc.IH [of "val - cur * k" "k div 10" "of_nat i" b1] Suc.prems(1) v' k' lt ui by auto
    moreover from this(2) have "sends b ([bin_to_hex_table ! unat cur] @ dec_out i (unat val mod 10 ^ i) i) b2"
      using sends_trans [OF b1(2)] by blast
    moreover have "dec_out (Suc i) (unat val) (unat digits) = bin_to_hex_table ! unat cur # dec_out i (unat val mod 10 ^ i) i"
      using True c0 id uc by simp
    ultimately show ?thesis using True b1(1) k0
      by (simp add: cur_def [symmetric] cf Let_def)
  next
    case False
    have "dec_out (Suc i) (unat val) (unat digits) = dec_out i (unat val mod 10 ^ i) (unat digits)"
      using False c0 id by simp
    moreover have "dec_loop dev (Suc i) val k digits b = dec_loop dev i (val - cur * k) (k div 10) digits b"
      using False k0 by (simp add: cur_def [symmetric] Let_def)
    ultimately show ?thesis
      using Suc.IH [of "val - cur * k" "k div 10" digits b] Suc.prems(1) v' k' lt by simp
  qed
qed simp

text \<open>With one digit at least, this is the usual decimal number.\<close>

lemma dec_out_digits: "v < 10 ^ i \<Longrightarrow> i \<le> d \<Longrightarrow> dec_out i v d = map (\<lambda>j. bin_to_hex_table ! (v div 10 ^ j mod 10)) (rev [0..<i])"
proof (induction i arbitrary: v d)
  case (Suc i)
  have "v div 10 ^ i < 10" using Suc.prems(1) by (simp add: div_less_iff_less_mult)
  moreover have "v mod 10 ^ i div 10 ^ j mod 10 = v div 10 ^ j mod 10" if "j < i" for j
  proof -
    have e: "(10 :: nat) ^ i = 10 ^ j * 10 ^ (i - j)" using that by (simp flip: power_add)
    have "v mod 10 ^ i div 10 ^ j = v div 10 ^ j mod 10 ^ (i - j)" unfolding e by (simp add: mod_mult2_eq)
    moreover have "(10 :: nat) dvd 10 ^ (i - j)" using that by simp
    ultimately show ?thesis by (simp add: mod_mod_cancel)
  qed
  ultimately show ?case using Suc.IH [of "v mod 10 ^ i" i] Suc.prems by simp
qed simp

lemma dec_nat_digits_of: "10 ^ k \<le> v \<or> k = 0 \<Longrightarrow> v < 10 ^ Suc k \<Longrightarrow>
    dec_nat v = map (\<lambda>j. ''0123456789'' ! (v div 10 ^ j mod 10)) (rev [0..<Suc k])"
proof (induction k arbitrary: v)
  case 0
  then show ?case by (subst dec_nat.simps) simp
next
  case (Suc k)
  then have v: "10 \<le> v" "10 ^ k \<le> v div 10" "v div 10 < 10 ^ Suc k"
    by (simp_all add: less_eq_div_iff_mult_less_eq div_less_iff_less_mult order_trans [OF _ Suc.prems(1) [THEN disjE]])
      (use Suc.prems(1) order_trans [of 10 "10 * 10 ^ k" v] in auto)
  have u: "rev [0..<Suc (Suc k)] = map Suc (rev [0..<Suc k]) @ [0]"
    by (simp add: rev_map [symmetric] map_Suc_upt upt_conv_Cons del: upt_Suc)
  have "dec_nat v = dec_nat (v div 10) @ [''0123456789'' ! (v mod 10)]" using v(1) by (subst dec_nat.simps) simp
  then show ?case unfolding u using Suc.IH [of "v div 10"] v by (simp add: comp_def div_mult2_eq del: upt_Suc)
qed

lemma table_digit: "d < 10 \<Longrightarrow> bin_to_hex_table ! d = ''0123456789'' ! d"
proof -
  assume "d < 10"
  then have "d = 0 \<or> d = 1 \<or> d = 2 \<or> d = 3 \<or> d = 4 \<or> d = 5 \<or> d = 6 \<or> d = 7 \<or> d = 8 \<or> d = 9" by presburger
  then show ?thesis by (elim disjE) (simp_all add: bin_to_hex_table_def)
qed

lemma dec_out_dec_nat: "v < 10 ^ Suc i \<Longrightarrow> dec_out (Suc i) v 1 = dec_nat v"
proof (induction i arbitrary: v)
  case 0
  then show ?case by (subst dec_nat.simps) (simp add: table_digit)
next
  case (Suc i)
  show ?case
  proof (cases "v div 10 ^ Suc i = 0")
    case True
    then have "v < 10 ^ Suc i" by (simp add: div_eq_0_iff)
    then show ?thesis using Suc.IH [of v] True by simp
  next
    case False
    then have ge: "10 ^ Suc i \<le> v" by (simp add: div_eq_0_iff not_less)
    have "dec_out (Suc (Suc i)) v 1 = dec_out (Suc (Suc i)) v (Suc (Suc i))" using False by simp
    also have "\<dots> = map (\<lambda>j. bin_to_hex_table ! (v div 10 ^ j mod 10)) (rev [0..<Suc (Suc i)])"
      using Suc.prems by (intro dec_out_digits) simp_all
    also have "\<dots> = dec_nat v"
      using dec_nat_digits_of [of "Suc i" v] ge Suc.prems by (simp add: table_digit del: upt_Suc)
    finally show ?thesis .
  qed
qed

lemma print_uart_dec_sends:
  assumes "ready dev"
  shows "\<exists>b'. print_uart_dec dev val 1 b = Inr (length (dec_nat (unat val)), b') \<and> sends b (dec_nat (unat val)) b'"
proof -
  have "unat val < 2 ^ 32" using unsigned_less [of val] by simp
  then have lt: "unat val < 10 ^ 10" by simp
  have "dec_out 10 (unat val) 1 = dec_nat (unat val)" using dec_out_dec_nat [of "unat val" 9] lt by simp
  then show ?thesis using dec_loop_sends [OF assms, of 10 val 1000000000 1 b] lt by (simp add: print_uart_dec_def)
qed

text \<open>The divisor is the quotient rounded to the nearest.\<close>

lemma uart_divisor:
  assumes small: "unat freq + 8 * unat baud < 2 ^ 32" "16 * unat baud < 2 ^ 32" and pos: "baud \<noteq> 0"
  defines "d \<equiv> unat ((freq + push_bit 3 baud) div push_bit 4 (baud :: u32))"
  shows "unat freq \<le> 16 * unat baud * d + 8 * unat baud" and "16 * unat baud * d \<le> unat freq + 8 * unat baud"
    and "push_bit 4 baud \<noteq> 0"
proof -
  have p: "unat (push_bit 3 baud) = 8 * unat baud" "unat (push_bit 4 baud) = 16 * unat baud"
    using small by (simp_all add: push_bit_eq_mult unat_word_ariths)
  have s: "unat (freq + push_bit 3 baud) = unat freq + 8 * unat baud"
    using small(1) by (simp add: unat_word_ariths p)
  have pb: "0 < unat baud" using pos by (simp add: unat_gt_0)
  have d: "d = (unat freq + 8 * unat baud) div (16 * unat baud)" by (simp add: d_def unat_div s p)
  show "16 * unat baud * d \<le> unat freq + 8 * unat baud" unfolding d by simp
  have "unat freq + 8 * unat baud < 16 * unat baud * d + 16 * unat baud"
    unfolding d using pb dividend_less_div_times [of "16 * unat baud" "unat freq + 8 * unat baud"] by (simp add: mult.commute)
  then show "unat freq \<le> 16 * unat baud * d + 8 * unat baud" by simp
  show "push_bit 4 baud \<noteq> 0" using p(2) pb by (metis mult_eq_0_iff neq0_conv unsigned_0 zero_neq_numeral)
qed

end
