(* ===== verification/BR_Boot.thy ===== *)
theory BR_Boot
  imports BR_Uart
begin

text \<open>
  The boot ROM's loader, \<open>sd.c\<close>, \<open>gpt.c\<close> and \<open>main.c\<close> under
  \<open>src/piton/design/chipset/rv64_platform/bootrom/linux/src/\<close>. The card is mapped into memory: \<open>sd a\<close> is the
  64-bit word at address \<open>a\<close>. A destination is the list of its 64-bit words, and a store behind its end
  is undefined. The local buffers start with contents that are arguments.

  The lemmas show that the copy is exact and that the loader puts the first blocks of the first
  partition at the destination.
\<close>

abbreviation CRLF :: string where "CRLF \<equiv> [CHR 0x0D, CHR 0x0A]"

type_synonym card = "u64 \<Rightarrow> u64"

section \<open>sd.c\<close>

definition PITON_SD_BASE_ADDR :: u64 where "PITON_SD_BASE_ADDR = 0xf000000000"

text \<open>A sequence of calls of the print routines.\<close>

datatype out = Str string | Dec u32 | Hex u32 | Addr u64 | Byte u8

fun print_out :: "device \<Rightarrow> out \<Rightarrow> bus \<Rightarrow> (nat \<times> bus) res" where
  "print_out dev (Str s) b = print_uart dev s b"
| "print_out dev (Dec v) b = print_uart_dec dev v 1 b"
| "print_out dev (Hex v) b = print_uart_int dev v b"
| "print_out dev (Addr v) b = print_uart_addr dev v b"
| "print_out dev (Byte v) b = print_uart_byte dev v b"

fun print_all :: "device \<Rightarrow> out list \<Rightarrow> bus \<Rightarrow> (nat \<times> bus) res" where
  "print_all dev [] b = Inr (0, b)"
| "print_all dev (x # xs) b =
     bindr (print_out dev x b) (\<lambda>(n, b). bindr (print_all dev xs b) (\<lambda>(k, b). Inr (n + k, b)))"

definition init_sd :: "device \<Rightarrow> bus \<Rightarrow> (int \<times> bus) res" where
  "init_sd dev b = bindr (print_all dev [Str (''initializing SD... '' @ CRLF)] b) (\<lambda>(_, b). Inr (0, b))"

text \<open>The message for block \<open>blk\<close>, over the \<open>num\<close> characters of the last one.\<close>

definition progress :: "device \<Rightarrow> u32 \<Rightarrow> u32 \<Rightarrow> nat \<Rightarrow> bus \<Rightarrow> (nat \<times> bus) res" where
  "progress dev blk sz num b =
     bindr (print_all dev (replicate num (Str [CHR 0x08])) b) (\<lambda>(_, b).
       print_all dev [Str ''copying block '', Dec blk, Str '' of '', Dec sz, Str '' blocks ('', Dec ((blk * 100) div sz), Str '' %)''] b)"

definition copy_word :: "card \<Rightarrow> u64 \<Rightarrow> u64 list \<Rightarrow> nat \<Rightarrow> u64 list res" where
  "copy_word sd addr dst i =
     (if i < length dst then Inr (dst[i := sd (addr + of_nat (8 * i))]) else Inl Undef)"

definition sd_block :: "device \<Rightarrow> card \<Rightarrow> u64 \<Rightarrow> u32 \<Rightarrow> u64 list \<times> nat \<times> bus \<Rightarrow> nat \<Rightarrow> (u64 list \<times> nat \<times> bus) res" where
  "sd_block dev sd addr sz s blk =
     (case s of (dst, num, b) \<Rightarrow>
       bindr (if blk mod 100 = 0 then progress dev (of_nat blk) sz num b else Inr (num, b)) (\<lambda>(num, b).
       bindr (foldr_res (\<lambda>dst offset. copy_word sd addr dst (blk * 64 + offset)) dst [0..<64]) (\<lambda>dst.
         Inr (dst, num, b))))"

definition sd_copy :: "device \<Rightarrow> card \<Rightarrow> u64 list \<Rightarrow> u32 \<Rightarrow> u32 \<Rightarrow> bus \<Rightarrow> (int \<times> u64 list \<times> bus) res" where
  "sd_copy dev sd dst src_lba sz b =
     (let addr = PITON_SD_BASE_ADDR + push_bit 9 (ucast src_lba) in
      bindr (foldr_res (sd_block dev sd addr sz) (dst, 0, b) [0..<unat sz]) (\<lambda>(dst, _, b).
      bindr (print_all dev [Str CRLF] b) (\<lambda>(_, b). Inr (0, dst, b))))"

section \<open>gpt.c\<close>

text \<open>Bytes and members of the two structures in a buffer of 64-bit words.\<close>

definition byte_at :: "u64 list \<Rightarrow> nat \<Rightarrow> u8" where
  "byte_at buf n = ucast (drop_bit (8 * (n mod 8)) (buf ! (n div 8)))"

definition low32 :: "u64 \<Rightarrow> u32" where "low32 w = ucast w"
definition high32 :: "u64 \<Rightarrow> u32" where "high32 w = ucast (drop_bit 32 w)"

definition gpt_pth_out :: "u64 list \<Rightarrow> out list" where
  "gpt_pth_out h =
     [Str ''gpt partition table header:'', Str (CRLF @ TAB @ ''signature:'' @ TAB), Addr (h ! 0),
      Str (CRLF @ TAB @ ''revision:'' @ TAB), Hex (low32 (h ! 1)), Str (CRLF @ TAB @ ''size:'' @ TAB @ TAB), Hex (high32 (h ! 1)),
      Str (CRLF @ TAB @ ''crc_header:'' @ TAB), Hex (low32 (h ! 2)), Str (CRLF @ TAB @ ''reserved:'' @ TAB), Hex (high32 (h ! 2)),
      Str (CRLF @ TAB @ ''current lba:'' @ TAB), Addr (h ! 3), Str (CRLF @ TAB @ ''backup lda:'' @ TAB), Addr (h ! 4),
      Str (CRLF @ TAB @ ''partition entries lba:   '' @ TAB), Addr (h ! 9),
      Str (CRLF @ TAB @ ''number partition entries:'' @ TAB), Hex (low32 (h ! 10)),
      Str (CRLF @ TAB @ ''size partition entries:  '' @ TAB), Hex (high32 (h ! 10)), Str CRLF]"

definition partition_out :: "u64 list \<Rightarrow> nat \<Rightarrow> out list" where
  "partition_out p i =
     (let s = i * 128; w = i * 16 in
      [Str ''gpt partition entry '', Byte (of_nat i), Str (CRLF @ TAB @ ''partition type guid:'' @ TAB)] @
      map (\<lambda>j. Byte (byte_at p (s + j))) [0..<16] @ [Str (CRLF @ TAB @ ''partition guid:     '' @ TAB)] @
      map (\<lambda>j. Byte (byte_at p (s + 16 + j))) [0..<16] @
      [Str (CRLF @ TAB @ ''first lba:'' @ TAB), Addr (p ! (w + 4)), Str (CRLF @ TAB @ ''last lba:'' @ TAB), Addr (p ! (w + 5)),
       Str (CRLF @ TAB @ ''attributes:'' @ TAB), Addr (p ! (w + 6)), Str (CRLF @ TAB @ ''name:'' @ TAB)] @
      map (\<lambda>j. Byte (byte_at p (s + 56 + j))) [0..<72] @ [Str CRLF])"

definition sd_failed :: "device \<Rightarrow> int \<Rightarrow> u64 list \<Rightarrow> bus \<Rightarrow> (int \<times> u64 list \<times> bus) res" where
  "sd_failed dev res dest b =
     bindr (print_all dev [Str (''SD card failed!'' @ CRLF), Str ''sd copy return value: '', Addr (of_int res), Str CRLF] b)
       (\<lambda>(_, b). Inr (-2, dest, b))"

definition gpt_find_boot_partition ::
  "device \<Rightarrow> card \<Rightarrow> u64 list \<Rightarrow> u64 list \<Rightarrow> u64 list \<Rightarrow> u32 \<Rightarrow> bus \<Rightarrow> (int \<times> u64 list \<times> bus) res"
where
  "gpt_find_boot_partition dev sd lba1_buf lba2_buf dest sz b =
     bindr (init_sd dev b) (\<lambda>(ret, b).
       if ret \<noteq> 0 then bindr (print_all dev [Str (''could not initialize sd... exiting'' @ CRLF)] b) (\<lambda>(_, b). Inr (-1, dest, b))
       else
         bindr (print_all dev [Str (''sd initialized!'' @ CRLF)] b) (\<lambda>(_, b).
         bindr (sd_copy dev sd lba1_buf 1 1 b) (\<lambda>(res, lba1, b).
           if res \<noteq> 0 then sd_failed dev res dest b
           else
             bindr (print_all dev (gpt_pth_out lba1) b) (\<lambda>(_, b).
             bindr (sd_copy dev sd lba2_buf (ucast (lba1 ! 9)) 1 b) (\<lambda>(res, lba2, b).
               if res \<noteq> 0 then sd_failed dev res dest b
               else
                 bindr (print_all dev (concat (map (partition_out lba2) [0..<4])) b) (\<lambda>(_, b).
                 bindr (print_all dev [Str ''copying boot image '', Str CRLF] b) (\<lambda>(_, b).
                 bindr (sd_copy dev sd dest (ucast (lba2 ! 4)) sz b) (\<lambda>(res, dest, b).
                   if res \<noteq> 0 then sd_failed dev res dest b
                   else bindr (print_all dev [Str ('' done!'' @ CRLF)] b) (\<lambda>(_, b). Inr (0, dest, b))))))))))"

section \<open>main.c\<close>

definition boot_main :: "device \<Rightarrow> u32 \<Rightarrow> string \<Rightarrow> bus \<Rightarrow> (int \<times> bus) res" where
  "boot_main dev uart_freq info b =
     bindr (init_uart uart_freq 115200 b) (\<lambda>b.
     bindr (print_all dev [Str info, Str (''sd initialized!'' @ CRLF)] b) (\<lambda>(_, b). Inr (0, b)))"

section \<open>What is copied\<close>

text \<open>Printing always ends when the transmitter becomes empty again and again.\<close>

lemma print_out_ends: "ready dev \<Longrightarrow> \<exists>n b'. print_out dev x b = Inr (n, b')"
proof (cases x)
  case (Str s)
  assume "ready dev"
  with print_uart_sends [OF this, of s b] Str show ?thesis by auto
next
  case (Dec v)
  assume "ready dev"
  with print_uart_dec_sends [OF this, of v b] Dec show ?thesis by auto
next
  case (Hex v)
  assume "ready dev"
  with hex_loop_sends [OF this, of 4 v b] Hex show ?thesis by (auto simp: print_uart_int_def)
next
  case (Addr v)
  assume "ready dev"
  with hex_loop_sends [OF this, of 8 v b] Addr show ?thesis by (auto simp: print_uart_addr_def)
next
  case (Byte v)
  assume "ready dev"
  with print_uart_sends [OF this, of "bin_to_hex v" b] Byte show ?thesis by (auto simp: print_uart_byte_def)
qed

lemma print_all_ends: "ready dev \<Longrightarrow> \<exists>n b'. print_all dev xs b = Inr (n, b')"
proof (induction xs arbitrary: b)
  case (Cons x xs)
  obtain n b1 where "print_out dev x b = Inr (n, b1)" using print_out_ends [OF Cons.prems] by blast
  moreover obtain k b2 where "print_all dev xs b1 = Inr (k, b2)" using Cons by blast
  ultimately show ?case by simp
qed simp

text \<open>The words of the card from an address on.\<close>

definition card_words :: "card \<Rightarrow> u64 \<Rightarrow> nat \<Rightarrow> u64 list" where
  "card_words sd addr n = map (\<lambda>i. sd (addr + of_nat (8 * i))) [0..<n]"

lemma card_words_Suc: "card_words sd addr (Suc n) = card_words sd addr n @ [sd (addr + of_nat (8 * n))]"
  by (simp add: card_words_def)

lemma length_card_words [simp]: "length (card_words sd addr n) = n"
  by (simp add: card_words_def)

lemma copy_words:
  "k + n \<le> length dst \<Longrightarrow> take k dst = card_words sd addr k \<Longrightarrow>
   foldr_res (\<lambda>dst offset. copy_word sd addr dst (k + offset)) dst [0..<n] =
     Inr (card_words sd addr (k + n) @ drop (k + n) dst)"
proof (induction n)
  case 0
  then show ?case by (metis add.right_neutral append_take_drop_id foldr_res.simps(1) upt_0)
next
  case (Suc n)
  then have IH: "foldr_res (\<lambda>dst offset. copy_word sd addr dst (k + offset)) dst [0..<n] =
      Inr (card_words sd addr (k + n) @ drop (k + n) dst)" by simp
  have "drop (k + n) dst = dst ! (k + n) # drop (k + Suc n) dst" using Suc.prems(1) by (simp add: Cons_nth_drop_Suc)
  then have "copy_word sd addr (card_words sd addr (k + n) @ drop (k + n) dst) (k + n) =
      Inr (card_words sd addr (k + Suc n) @ drop (k + Suc n) dst)"
    using Suc.prems(1) by (simp add: copy_word_def list_update_append card_words_Suc)
  then show ?case using IH by (simp add: foldr_res_append)
qed

lemma sd_block_ok:
  assumes "ready dev" and "64 * blk + 64 \<le> length dst" and "take (64 * blk) dst = card_words sd addr (64 * blk)"
  shows "\<exists>num' b'. sd_block dev sd addr sz (dst, num, b) blk =
    Inr (card_words sd addr (64 * blk + 64) @ drop (64 * blk + 64) dst, num', b')"
proof -
  have pr: "\<exists>n b'. progress dev x sz num b = Inr (n, b')" for x
  proof -
    obtain n1 b1 where "print_all dev (replicate num (Str [CHR 0x08])) b = Inr (n1, b1)" using print_all_ends [OF assms(1)] by blast
    then show ?thesis using print_all_ends [OF assms(1)] by (simp add: progress_def del: print_all.simps)
  qed
  have "foldr_res (\<lambda>dst offset. copy_word sd addr dst (blk * 64 + offset)) dst [0..<64] =
      Inr (card_words sd addr (64 * blk + 64) @ drop (64 * blk + 64) dst)"
    using copy_words [of "64 * blk" 64 dst sd addr] assms(2,3) by (simp add: mult.commute)
  then show ?thesis using pr [of "of_nat blk"] by (auto simp: sd_block_def)
qed

lemma sd_copy_ok:
  assumes ready: "ready dev" and room: "64 * unat sz \<le> length dst"
  shows "\<exists>b'. sd_copy dev sd dst lba sz b =
    Inr (0, card_words sd (PITON_SD_BASE_ADDR + push_bit 9 (ucast lba)) (64 * unat sz) @ drop (64 * unat sz) dst, b')"
proof -
  define addr where "addr = PITON_SD_BASE_ADDR + push_bit 9 (ucast lba)"
  have "k \<le> unat sz \<Longrightarrow> \<exists>num b'. foldr_res (sd_block dev sd addr sz) (dst, 0, b) [0..<k] =
      Inr (card_words sd addr (64 * k) @ drop (64 * k) dst, num, b')" for k
  proof (induction k)
    case 0
    then show ?case by (simp add: card_words_def)
  next
    case (Suc k)
    then obtain num b1 where IH: "foldr_res (sd_block dev sd addr sz) (dst, 0, b) [0..<k] =
      Inr (card_words sd addr (64 * k) @ drop (64 * k) dst, num, b1)" by auto
    let ?d = "card_words sd addr (64 * k) @ drop (64 * k) dst"
    have len: "64 * k + 64 \<le> length ?d" using Suc.prems room by simp
    obtain num' b2 where "sd_block dev sd addr sz (?d, num, b1) k =
        Inr (card_words sd addr (64 * k + 64) @ drop (64 * k + 64) ?d, num', b2)"
      using sd_block_ok [OF ready len, of sd addr sz num b1] by auto
    moreover have "drop (64 * k + 64) ?d = drop (64 * Suc k) dst" by simp
    ultimately show ?case using IH by (simp add: foldr_res_append add.commute)
  qed
  from this [of "unat sz"] obtain num b1 where
    "foldr_res (sd_block dev sd addr sz) (dst, 0, b) [0..<unat sz] =
      Inr (card_words sd addr (64 * unat sz) @ drop (64 * unat sz) dst, num, b1)" by auto
  then show ?thesis using print_all_ends [OF ready, of "[Str CRLF]" b1]
    by (auto simp: sd_copy_def Let_def addr_def [symmetric] simp del: print_all.simps)
qed

text \<open>The address of a block, whose number is cut to 32 bits.\<close>

definition lba_addr :: "u64 \<Rightarrow> u64" where
  "lba_addr lba = PITON_SD_BASE_ADDR + push_bit 9 (ucast (ucast lba :: u32))"

lemma copy_block:
  assumes "ready dev" and "length buf = 64"
  shows "\<exists>b'. sd_copy dev sd buf (ucast lba) 1 b = Inr (0, card_words sd (lba_addr lba) 64, b')"
  using sd_copy_ok [OF assms(1), of 1 buf sd "ucast lba" b] assms(2) by (simp add: lba_addr_def)

definition first_partition :: "card \<Rightarrow> u64" where
  "first_partition sd = sd (lba_addr (sd (lba_addr 1 + 72)) + 32)"

lemma boot_partition_ok:
  assumes ready: "ready dev" and bufs: "length buf1 = 64" "length buf2 = 64" and room: "64 * unat sz \<le> length dest"
  shows "\<exists>b'. gpt_find_boot_partition dev sd buf1 buf2 dest sz b =
    Inr (0, card_words sd (lba_addr (first_partition sd)) (64 * unat sz) @ drop (64 * unat sz) dest, b')"
proof -
  note pr = print_all_ends [OF ready]
  obtain n1 b1 where "print_all dev [Str (''initializing SD... '' @ CRLF)] b = Inr (n1, b1)" using pr by blast
  then have b1: "init_sd dev b = Inr (0, b1)" by (simp only: init_sd_def bindr_simps case_prod_conv)
  obtain n2 b2 where b2: "print_all dev [Str (''sd initialized!'' @ CRLF)] b1 = Inr (n2, b2)" using pr by blast
  define lba1 where "lba1 = card_words sd (lba_addr 1) 64"
  obtain b3 where b3: "sd_copy dev sd buf1 1 1 b2 = Inr (0, lba1, b3)"
    using copy_block [OF ready bufs(1), of sd 1 b2] by (auto simp: lba1_def)
  obtain n4 b4 where b4: "print_all dev (gpt_pth_out lba1) b3 = Inr (n4, b4)" using pr by blast
  have e: "lba1 ! 9 = sd (lba_addr 1 + 72)" by (simp add: lba1_def card_words_def)
  define lba2 where "lba2 = card_words sd (lba_addr (lba1 ! 9)) 64"
  obtain b5 where b5: "sd_copy dev sd buf2 (ucast (lba1 ! 9)) 1 b4 = Inr (0, lba2, b5)"
    using copy_block [OF ready bufs(2), of sd "lba1 ! 9" b4] by (auto simp: lba2_def)
  have f: "lba2 ! 4 = first_partition sd" by (simp add: lba2_def card_words_def first_partition_def e)
  obtain n6 b6 where b6: "print_all dev (concat (map (partition_out lba2) [0..<4])) b5 = Inr (n6, b6)" using pr by blast
  obtain n7 b7 where b7: "print_all dev [Str ''copying boot image '', Str CRLF] b6 = Inr (n7, b7)" using pr by blast
  obtain b8 where b8: "sd_copy dev sd dest (ucast (lba2 ! 4)) sz b7 =
      Inr (0, card_words sd (lba_addr (first_partition sd)) (64 * unat sz) @ drop (64 * unat sz) dest, b8)"
    using sd_copy_ok [OF ready room, of sd "ucast (lba2 ! 4)" b7] by (auto simp: lba_addr_def f)
  obtain n9 b9 where b9: "print_all dev [Str ('' done!'' @ CRLF)] b8 = Inr (n9, b9)" using pr by blast
  show ?thesis
    unfolding gpt_find_boot_partition_def b1 bindr_simps case_prod_conv b2 b3 b4 b5 b6 b7 b8 b9 by simp
qed

text \<open>A transmitter that never becomes empty blocks everything.\<close>

lemma print_blocked:
  assumes "\<forall>n. is_transmit_empty dev n = 0" and "s \<noteq> []"
  shows "print_uart dev s b = Inl Diverge"
proof -
  have "poll (\<lambda>n. is_transmit_empty dev n \<noteq> 0) (bus_reads b) = None" by (rule poll_never) (simp add: assms(1))
  then show ?thesis using assms(2) by (cases s) (simp_all add: write_serial_def)
qed

end
