(* ===== verification/BR_Spi.thy ===== *)
theory BR_Spi
  imports BR_Boot
begin

text \<open>
  The boot ROM's SPI controller, \<open>spi.c\<close> under
  \<open>src/piton/design/chipset/rv64_platform/bootrom/linux/src/\<close>, over the bus of \<open>BR_Uart\<close>; registers are 32 bits
  wide. The delays of \<open>nop\<close>s have no effect on the bus. The lemmas show the writes of a transfer: the slave is
  selected before the first byte and released at the end.
\<close>

section \<open>spi.c\<close>

definition SPI_BASE :: u64 where "SPI_BASE = 0x20000000"
definition SPI_RESET_REG :: u64 where "SPI_RESET_REG = SPI_BASE + 0x40"
definition SPI_CONTROL_REG :: u64 where "SPI_CONTROL_REG = SPI_BASE + 0x60"
definition SPI_STATUS_REG :: u64 where "SPI_STATUS_REG = SPI_BASE + 0x64"
definition SPI_TRANSMIT_REG :: u64 where "SPI_TRANSMIT_REG = SPI_BASE + 0x68"
definition SPI_RECEIVE_REG :: u64 where "SPI_RECEIVE_REG = SPI_BASE + 0x6C"
definition SPI_SLAVE_SELECT_REG :: u64 where "SPI_SLAVE_SELECT_REG = SPI_BASE + 0x70"

definition say :: "device \<Rightarrow> out list \<Rightarrow> bus \<Rightarrow> bus res" where
  "say dev xs b = bindr (print_all dev xs b) (\<lambda>(_, b). Inr b)"

definition spi_init :: "device \<Rightarrow> bus \<Rightarrow> bus res" where
  "spi_init dev b =
     bindr (say dev [Str (''init SPI'' @ CRLF)] b) (\<lambda>b.
     case read_reg dev SPI_STATUS_REG (write_reg SPI_CONTROL_REG 0x104 (write_reg SPI_RESET_REG 0x0a b)) of (status, b) \<Rightarrow>
     bindr (say dev [Str ''status: 0x'', Addr (ucast status), Str CRLF] b) (\<lambda>b.
     case read_reg dev SPI_STATUS_REG (write_reg SPI_CONTROL_REG 0x166 b) of (status, b) \<Rightarrow>
     bindr (say dev [Str ''status: 0x'', Addr (ucast status), Str CRLF] b) (\<lambda>b.
     say dev [Str (''SPI initialized!'' @ CRLF)] (write_reg SPI_CONTROL_REG 0x06 b))))"

text \<open>Bit 0 of the status: the receive queue is empty.\<close>

definition spi_wait :: "device \<Rightarrow> bus \<Rightarrow> bus res" where
  "spi_wait dev b =
     (case poll (\<lambda>n. dev n SPI_STATUS_REG AND 1 \<noteq> 1) (bus_reads b) of
        None \<Rightarrow> Inl Diverge | Some n \<Rightarrow> Inr (b\<lparr>bus_reads := n\<rparr>))"

definition spi_txrx :: "device \<Rightarrow> u8 \<Rightarrow> bus \<Rightarrow> (u8 \<times> bus) res" where
  "spi_txrx dev byte b =
     bindr (spi_wait dev (write_reg SPI_CONTROL_REG 0x106
             (write_reg SPI_TRANSMIT_REG (ucast byte) (write_reg SPI_SLAVE_SELECT_REG 0xfffffffe b)))) (\<lambda>b.
     case read_reg dev SPI_RECEIVE_REG b of (result, b) \<Rightarrow>
     case read_reg dev SPI_STATUS_REG b of (status, b) \<Rightarrow>
     bindr (if status AND 1 \<noteq> 1
            then bindr (say dev [Str ''rx fifo not empty?? ''] b) (\<lambda>b.
                 case read_reg dev SPI_STATUS_REG b of (status, b) \<Rightarrow> say dev [Addr (ucast status), Str CRLF] b)
            else Inr b) (\<lambda>b.
       Inr (ucast result, write_reg SPI_CONTROL_REG 0x06 (write_reg SPI_SLAVE_SELECT_REG 0xffffffff b))))"

definition spi_send :: "u8 list \<Rightarrow> bus \<Rightarrow> nat \<Rightarrow> bus res" where
  "spi_send bytes b i = bindr (nth_res bytes i) (\<lambda>x. Inr (write_reg SPI_TRANSMIT_REG (ucast (x AND 0xff)) b))"

text \<open>Every byte is read once the status says that the queue is not empty.\<close>

definition spi_receive :: "device \<Rightarrow> u8 list \<times> bus \<Rightarrow> nat \<Rightarrow> (u8 list \<times> bus) res" where
  "spi_receive dev s i =
     (case s of (ret, b) \<Rightarrow>
       bindr (spi_wait dev b) (\<lambda>b.
       case read_reg dev SPI_RECEIVE_REG b of (v, b) \<Rightarrow>
         if i < length ret then Inr (ret[i := ucast v], b) else Inl Undef))"

definition spi_write_bytes :: "device \<Rightarrow> u8 list \<Rightarrow> u32 \<Rightarrow> u8 list \<Rightarrow> bus \<Rightarrow> (int \<times> u8 list \<times> bus) res" where
  "spi_write_bytes dev bytes len ret b =
     (if len > 256 then Inr (-1, ret, b)
      else
        bindr (foldr_res (spi_send bytes) (write_reg SPI_SLAVE_SELECT_REG 0xfffffffe b) [0..<unat len]) (\<lambda>b.
        bindr (spi_wait dev (write_reg SPI_CONTROL_REG 0x106 b)) (\<lambda>b.
        bindr (foldr_res (spi_receive dev) (ret, b) [0..<unat len]) (\<lambda>(ret, b).
          Inr (0, ret, write_reg SPI_CONTROL_REG 0x06 (write_reg SPI_SLAVE_SELECT_REG 0xffffffff b))))))"

section \<open>A transfer\<close>

definition spi_ready :: "device \<Rightarrow> bool" where
  "spi_ready dev \<longleftrightarrow> (\<forall>n. \<exists>m\<ge>n. dev m SPI_STATUS_REG AND 1 \<noteq> 1)"

lemma spi_wait_ok:
  assumes "spi_ready dev"
  shows "\<exists>b'. spi_wait dev b = Inr b' \<and> bus_log b' = bus_log b \<and> bus_reads b < bus_reads b'"
proof -
  obtain m where "bus_reads b \<le> m" "dev m SPI_STATUS_REG AND 1 \<noteq> 1" using assms by (auto simp: spi_ready_def)
  then obtain k where "bus_reads b < k" "poll (\<lambda>n. dev n SPI_STATUS_REG AND 1 \<noteq> 1) (bus_reads b) = Some k"
    using poll_ends [of "bus_reads b" m "\<lambda>n. dev n SPI_STATUS_REG AND 1 \<noteq> 1"] by blast
  then show ?thesis by (simp add: spi_wait_def)
qed

lemma spi_send_ok:
  "n \<le> length bytes \<Longrightarrow> \<exists>b'. foldr_res (spi_send bytes) b [0..<n] = Inr b' \<and>
     bus_log b' = bus_log b @ map (\<lambda>x. (SPI_TRANSMIT_REG, ucast x)) (take n bytes) \<and> bus_reads b' = bus_reads b"
proof (induction n)
  case (Suc n)
  then obtain b1 where "foldr_res (spi_send bytes) b [0..<n] = Inr b1"
     "bus_log b1 = bus_log b @ map (\<lambda>x. (SPI_TRANSMIT_REG, ucast x)) (take n bytes)" "bus_reads b1 = bus_reads b" by auto
  moreover have "ucast (x AND 0xff) = (ucast x :: u32)" for x :: u8
  proof -
    have "x AND 0xff = take_bit 8 x" by (simp add: take_bit_eq_mask mask_eq_exp_minus_1)
    then have "x AND 0xff = x" using take_bit_length_eq [of x] by simp
    then show ?thesis by simp
  qed
  then have "spi_send bytes b1 n = Inr (write_reg SPI_TRANSMIT_REG (ucast (bytes ! n)) b1)"
    using Suc.prems by (simp add: spi_send_def)
  ultimately show ?case using Suc.prems
    by (simp add: foldr_res_append take_Suc_conv_app_nth) (simp add: write_reg_def)
qed simp

lemma spi_receive_ok:
  assumes "spi_ready dev"
  shows "n \<le> length ret \<Longrightarrow> \<exists>ret' b'. foldr_res (spi_receive dev) (ret, b) [0..<n] = Inr (ret', b') \<and>
     length ret' = length ret \<and> drop n ret' = drop n ret \<and> bus_log b' = bus_log b \<and> bus_reads b + 2 * n \<le> bus_reads b' \<and>
     (\<forall>i < n. \<exists>m. bus_reads b + 2 * i < m \<and> ret' ! i = ucast (dev m SPI_RECEIVE_REG))"
proof (induction n)
  case (Suc n)
  then obtain ret1 b1 where IH: "foldr_res (spi_receive dev) (ret, b) [0..<n] = Inr (ret1, b1)"
    "length ret1 = length ret" "drop n ret1 = drop n ret" "bus_log b1 = bus_log b" "bus_reads b + 2 * n \<le> bus_reads b1"
    "\<forall>i < n. \<exists>m. bus_reads b + 2 * i < m \<and> ret1 ! i = ucast (dev m SPI_RECEIVE_REG)" by auto
  obtain b2 where b2: "spi_wait dev b1 = Inr b2" "bus_log b2 = bus_log b1" "bus_reads b1 < bus_reads b2"
    using spi_wait_ok [OF assms] by blast
  define v :: u8 where "v = ucast (dev (bus_reads b2) SPI_RECEIVE_REG)"
  define ret2 b3 where "ret2 = ret1[n := v]" and "b3 = b2\<lparr>bus_reads := Suc (bus_reads b2)\<rparr>"
  have step: "spi_receive dev (ret1, b1) n = Inr (ret2, b3)"
    using Suc.prems IH(2) b2(1) by (simp add: spi_receive_def read_reg_def ret2_def b3_def v_def)
  have "drop (Suc n) ret2 = drop (Suc n) ret" using IH(3) by (simp add: ret2_def) (metis drop_Suc tl_drop)
  moreover have "\<exists>m. bus_reads b + 2 * i < m \<and> ret2 ! i = ucast (dev m SPI_RECEIVE_REG)" if "i < Suc n" for i
  proof (cases "i = n")
    case True
    then show ?thesis using IH(2,5) b2(3) Suc.prems by (intro exI [of _ "bus_reads b2"]) (simp add: ret2_def v_def)
  next
    case False
    then show ?thesis using IH(6) that by (simp add: ret2_def)
  qed
  ultimately show ?case using IH b2 step
    by (intro exI [of _ ret2] exI [of _ b3]) (simp add: foldr_res_append, simp add: ret2_def b3_def)
qed simp

lemma spi_transfer:
  assumes "spi_ready dev" and len: "len \<le> 256" and "unat len \<le> length bytes" "unat len \<le> length ret"
  shows "\<exists>ret' b'. spi_write_bytes dev bytes len ret b = Inr (0, ret', b') \<and>
    length ret' = length ret \<and> drop (unat len) ret' = drop (unat len) ret \<and>
    (\<forall>i < unat len. \<exists>m > bus_reads b. ret' ! i = ucast (dev m SPI_RECEIVE_REG)) \<and>
    bus_log b' = bus_log b @ [(SPI_SLAVE_SELECT_REG, 0xfffffffe)] @
      map (\<lambda>x. (SPI_TRANSMIT_REG, ucast x)) (take (unat len) bytes) @
      [(SPI_CONTROL_REG, 0x106), (SPI_SLAVE_SELECT_REG, 0xffffffff), (SPI_CONTROL_REG, 0x06)]"
proof -
  let ?n = "unat len"
  obtain b1 where b1: "foldr_res (spi_send bytes) (write_reg SPI_SLAVE_SELECT_REG 0xfffffffe b) [0..<?n] = Inr b1"
    "bus_log b1 = bus_log b @ [(SPI_SLAVE_SELECT_REG, 0xfffffffe)] @ map (\<lambda>x. (SPI_TRANSMIT_REG, ucast x)) (take ?n bytes)"
    "bus_reads b1 = bus_reads b"
    using spi_send_ok [OF assms(3), of "write_reg SPI_SLAVE_SELECT_REG 0xfffffffe b"] by (auto simp: write_reg_def)
  obtain b2 where b2: "spi_wait dev (write_reg SPI_CONTROL_REG 0x106 b1) = Inr b2"
    "bus_log b2 = bus_log b1 @ [(SPI_CONTROL_REG, 0x106)]" "bus_reads b1 < bus_reads b2"
    using spi_wait_ok [OF assms(1), of "write_reg SPI_CONTROL_REG 0x106 b1"] by (auto simp: write_reg_def)
  obtain ret' b3 where b3: "foldr_res (spi_receive dev) (ret, b2) [0..<?n] = Inr (ret', b3)"
     "length ret' = length ret" "drop ?n ret' = drop ?n ret" "bus_log b3 = bus_log b2"
     "\<forall>i < ?n. \<exists>m. bus_reads b2 + 2 * i < m \<and> ret' ! i = ucast (dev m SPI_RECEIVE_REG)"
    using spi_receive_ok [OF assms(1,4), of b2] by blast
  have "\<exists>m > bus_reads b. ret' ! i = ucast (dev m SPI_RECEIVE_REG)" if i: "i < ?n" for i
  proof -
    obtain m where "bus_reads b2 + 2 * i < m" "ret' ! i = ucast (dev m SPI_RECEIVE_REG)" using b3(5) i by blast
    then show ?thesis using b1(3) b2(3) by (intro exI [of _ m]) simp
  qed
  then show ?thesis using b1 b2 b3 len by (simp add: spi_write_bytes_def not_less) (simp add: write_reg_def)
qed

end
