(* ===== verification/PLI_Event.thy ===== *)
theory PLI_Event
  imports PLI_Load
begin

text \<open>
  The event file of the I/O bridge, \<open>iob::get_event\<close> of \<open>src/piton/tools/pli/iop/iob.cc\<close> and the string
  routines it uses. A line \<open>trig_pc_d(kind, pc) -> intp(thread, type, vector, source, number)\<close> asks for
  \<open>number\<close> interrupts when a thread reaches \<open>pc\<close>. As in \<open>PLI_Bw_Lib\<close>, \<open>prev\<close> is the character in front of the
  line buffer, which the code reads when a line ends too early. The fields of a record are integers in the range
  of \<open>int\<close>; \<open>reg\<close>, \<open>num\<close> and \<open>ch\<close> are never used and left out.

  The lemmas say what a line of tokens is read as.
\<close>

section \<open>Strings\<close>

definition iob_replace :: "string \<Rightarrow> string" where
  "iob_replace = map (\<lambda>c. if c \<in> {CHR ''('', CHR '')'', CHR ''-'', CHR ''>'', CHR 0x22, CHR '',''} then CHR '' '' else c)"

text \<open>\<open>rmSpace\<close> from an index that may be in front of the buffer.\<close>

definition rmSpace_at :: "char \<Rightarrow> string \<Rightarrow> int \<Rightarrow> int res" where
  "rmSpace_at prev buf idx =
     (if 0 \<le> idx then rmSpace buf (nat idx) BUFFER
      else if prev = CHR '' '' \<or> prev = CHR 0x09 then rmSpace buf 0 BUFFER
      else Inr (if prev = CHR 0x0A \<or> prev = CHR 0x00 then -1 else idx))"

text \<open>\<open>copy\<close>: the token that starts at \<open>idx\<close>, and the index behind it.\<close>

definition copy_token :: "char \<Rightarrow> string \<Rightarrow> int \<Rightarrow> string \<times> int" where
  "copy_token prev buf idx =
     (let rest = (if 0 \<le> idx then drop (nat idx) buf else prev # buf);
          tok = takeWhile (\<lambda>c. c \<notin> {CHR 0x00, CHR 0x0A, CHR '' ''}) rest
      in (tok, idx + int (length tok)))"

definition iob_getEight :: "string \<Rightarrow> KeyType" where
  "iob_getEight buf = foldl (\<lambda>k c. push_bit 4 k OR of_int (nibble c)) 0 buf"

definition rmhexa :: "string \<Rightarrow> string" where
  "rmhexa buf = drop 1 (dropWhile (\<lambda>c. c \<noteq> CHR ''h'' \<and> c \<noteq> CHR ''x'') buf)"

text \<open>\<open>atoi\<close> of the C library: undefined when the value is not in the range of \<open>int\<close>.\<close>

definition is_digit :: "char \<Rightarrow> bool" where
  "is_digit c \<longleftrightarrow> 48 \<le> (of_char c :: nat) \<and> (of_char c :: nat) \<le> 57"

definition atoi :: "string \<Rightarrow> int res" where
  "atoi s =
     (let s = dropWhile isspace s;
          neg = starts_with ''-'' s;
          digits = takeWhile is_digit (if neg \<or> starts_with ''+'' s then drop 1 s else s);
          v = (if neg then - int (dec_val digits) else int (dec_val digits))
      in if int_ok v then Inr v else Inl Undef)"

text \<open>The conversion of \<open>KeyType\<close> to \<open>int\<close>.\<close>

definition key_int :: "KeyType \<Rightarrow> int" where
  "key_int k = sint (ucast k :: u32)"

section \<open>Events\<close>

record event_record =
  ev_kind :: int
  ev_type :: int
  ev_thrid :: int
  ev_cpu_id :: int
  ev_true_id :: int
  ev_wait :: int
  ev_src :: int
  ev_vec :: int

type_synonym event_map = "KeyType \<Rightarrow> event_record list option"

text \<open>\<open>idx = rmSpace(buf, idx, BUFFER); copy(buf, &idx, cbuf);\<close>.\<close>

definition next_token :: "char \<Rightarrow> string \<Rightarrow> int \<Rightarrow> (string \<times> int) res" where
  "next_token prev buf idx = bindr (rmSpace_at prev buf idx) (\<lambda>idx. Inr (copy_token prev buf idx))"

text \<open>\<open>idx < strlen(buf)\<close> compares as unsigned, so a negative index is not smaller.\<close>

definition read_event :: "char \<Rightarrow> string \<Rightarrow> (KeyType \<times> event_record) option res" where
  "read_event prev line =
     bindr (rmSpace_at prev line 0) (\<lambda>_.
     let buf = iob_replace line in
     if \<not> starts_with ''trig_pc_d '' buf then Inr None
     else
       bindr (next_token prev buf 10) (\<lambda>(cbuf, idx).
       bindr (atoi cbuf) (\<lambda>kind.
       bindr (next_token prev buf idx) (\<lambda>(cbuf, idx).
       let k = iob_getEight (rmhexa cbuf) in
       bindr (next_token prev buf idx) (\<lambda>(cbuf, idx).
       if \<not> starts_with ''intp'' cbuf then Inr None
       else
         bindr (next_token prev buf idx) (\<lambda>(cbuf, idx).
         let thrid = key_int (iob_getEight cbuf) in
         bindr (next_token prev buf idx) (\<lambda>(cbuf, idx).
         let type = key_int (iob_getEight cbuf) in
         bindr (next_token prev buf idx) (\<lambda>(cbuf, idx).
         let vec = key_int (iob_getEight cbuf) in
         bindr (if 0 \<le> idx \<and> nat idx < length buf
                then bindr (next_token prev buf idx) (\<lambda>(cbuf, idx).
                     let src = key_int (iob_getEight cbuf) in
                     bindr (next_token prev buf idx) (\<lambda>(cbuf, idx).
                       Inr (src, key_int (iob_getEight cbuf))))
                else Inr (33, 0)) (\<lambda>(src, wait).
         Inr (Some (k, \<lparr>ev_kind = kind, ev_type = type, ev_thrid = thrid, ev_cpu_id = drop_bit 2 thrid AND 7,
           ev_true_id = drop_bit 1 thrid, ev_wait = (if wait > 0 then wait else 1), ev_src = src, ev_vec = vec\<rparr>)))))))))))"

definition add_event :: "KeyType \<Rightarrow> event_record \<Rightarrow> event_map \<Rightarrow> event_map" where
  "add_event k e m = m(k \<mapsto> (case m k of None \<Rightarrow> [e] | Some es \<Rightarrow> es @ [e]))"

text \<open>A file that cannot be opened ends the program with \<open>exit(1)\<close>.\<close>

definition get_event :: "char \<Rightarrow> string option \<Rightarrow> event_map \<Rightarrow> event_map res" where
  "get_event prev file m =
     (case file of
        None \<Rightarrow> Inl (Exit M_MISC)
      | Some text \<Rightarrow>
          foldr_res (\<lambda>m line. bindr (read_event prev line) (\<lambda>r.
            Inr (case r of None \<Rightarrow> m | Some (k, e) \<Rightarrow> add_event k e m))) m (fgets_pieces (BUFFER - 2) text))"

section \<open>Lines of tokens\<close>

definition token :: "string \<Rightarrow> bool" where
  "token t \<longleftrightarrow> t \<noteq> [] \<and> list_all (\<lambda>c. c \<notin> {CHR 0x00, CHR 0x09, CHR 0x0A, CHR '' ''}) t"

definition space :: "nat \<Rightarrow> string" where
  "space n = replicate n (CHR '' '')"

lemma space_simps [simp]: "space 0 = []" "space (Suc n) = CHR '' '' # space n" "length (space n) = n"
  by (simp_all add: space_def)

lemma skip_space_at:
  "length pre + n < mx \<Longrightarrow> c \<noteq> CHR '' '' \<Longrightarrow> c \<noteq> CHR 0x09 \<Longrightarrow>
   skip_space (pre @ space n @ c # rest) (length pre) mx = Inr (length pre + n)"
proof (induction n arbitrary: pre)
  case 0
  then show ?case by (subst skip_space.simps) (simp add: char_at_def nth_append)
next
  case (Suc n)
  have "skip_space ((pre @ '' '') @ space n @ c # rest) (length (pre @ '' '')) mx = Inr (length (pre @ '' '') + n)"
    by (rule Suc.IH) (use Suc.prems in auto)
  then show ?case using Suc.prems by (subst skip_space.simps) (simp add: char_at_def nth_append)
qed

lemma next_token_ok:
  assumes "token t" and "length pre + n < BUFFER" and "rest = [] \<or> hd rest \<in> {CHR 0x00, CHR 0x0A, CHR '' ''}"
  shows "next_token prev (pre @ space n @ t @ rest) (int (length pre)) = Inr (t, int (length (pre @ space n @ t)))"
proof -
  obtain c t' where t: "t = c # t'" using assms(1) by (cases t) (auto simp: token_def)
  have c: "c \<noteq> CHR '' ''" "c \<noteq> CHR 0x09" "c \<noteq> CHR 0x0A" "c \<noteq> CHR 0x00" using assms(1) t by (auto simp: token_def)
  have tw: "takeWhile (\<lambda>c. c \<notin> {CHR 0x00, CHR 0x0A, CHR '' ''}) (t @ rest) = t"
    using assms(1,3) by (subst takeWhile_append2) (auto simp: token_def list_all_iff takeWhile_eq_Nil_iff)
  have r: "rmSpace (pre @ space n @ t @ rest) (length pre) BUFFER = Inr (int (length pre + n))"
    using skip_space_at [OF assms(2) c(1,2), of "t' @ rest"] c t by (simp add: rmSpace_def char_at_def nth_append)
  show ?thesis using r tw
    by (simp add: next_token_def rmSpace_at_def copy_token_def Let_def nat_int_add)
qed

text \<open>Behind the last token the code finds the end of the line, steps in front of the buffer and reads the
  first token again, with the character there glued to its front.\<close>

lemma next_token_wraps:
  assumes "rest = [] \<or> hd rest \<in> {CHR 0x00, CHR 0x0A}" and "length pre + n < BUFFER"
    and "pre = t @ CHR '' '' # pre'" and "token t" and "prev \<notin> {CHR 0x00, CHR 0x0A, CHR '' ''}"
  shows "next_token prev (pre @ space n @ rest) (int (length pre)) = Inr (prev # t, int (length t))"
proof -
  let ?buf = "pre @ space n @ rest"
  have "rmSpace ?buf (length pre) BUFFER = Inr (- 1)"
  proof (cases rest)
    case Nil
    have "skip_space (pre @ space n) (length pre) BUFFER = Inr (length pre + n)"
      using assms(2)
    proof (induction n arbitrary: pre)
      case 0
      then show ?case by (subst skip_space.simps) (simp add: char_at_def)
    next
      case (Suc n)
      from Suc.IH [of "pre @ '' ''"] Suc.prems show ?case
        by (subst skip_space.simps) (simp add: char_at_def nth_append)
    qed
    then show ?thesis using Nil by (simp add: rmSpace_def char_at_def)
  next
    case (Cons c r)
    have "skip_space (pre @ space n @ c # r) (length pre) BUFFER = Inr (length pre + n)"
      by (rule skip_space_at) (use assms(1,2) Cons in auto)
    then show ?thesis using Cons assms(1) by (auto simp: rmSpace_def char_at_def nth_append)
  qed
  moreover have "takeWhile (\<lambda>c. c \<notin> {CHR 0x00, CHR 0x0A, CHR '' ''}) (t @ CHR '' '' # pre' @ space n @ rest) = t"
    using assms(4) by (subst takeWhile_append2) (auto simp: token_def list_all_iff)
  moreover have "nat (1 + (int (length t) + int (length pre'))) = Suc (length t + length pre')" by simp
  ultimately show ?thesis
    using assms(3,5) by (simp only: length_append list.size) (simp add: next_token_def rmSpace_at_def copy_token_def Let_def)
qed

section \<open>An event line\<close>

definition plain_token :: "string \<Rightarrow> bool" where
  "plain_token t \<longleftrightarrow> token t \<and> list_all (\<lambda>c. c \<notin> {CHR ''('', CHR '')'', CHR ''-'', CHR ''>'', CHR 0x22, CHR '',''}) t"

lemma iob_replace_simps [simp]:
  "iob_replace [] = []"
  "iob_replace (c # s) = (if c \<in> {CHR ''('', CHR '')'', CHR ''-'', CHR ''>'', CHR 0x22, CHR '',''} then CHR '' '' else c) # iob_replace s"
  "iob_replace (s @ t) = iob_replace s @ iob_replace t"
  by (simp_all add: iob_replace_def)

lemma iob_replace_plain: "plain_token t \<Longrightarrow> iob_replace t = t"
  unfolding iob_replace_def by (rule map_idI) (auto simp: plain_token_def list_all_iff)

definition separated :: "string list \<Rightarrow> string" where
  "separated ts = concat (map (\<lambda>t. '', '' @ t) ts)"

text \<open>The line \<open>trig_pc_d(kind, 64'hpc) -> intp(th, ...)\<close>; \<open>args\<close> are the arguments behind the thread.\<close>

definition event_line :: "string \<Rightarrow> string \<Rightarrow> string \<Rightarrow> string list \<Rightarrow> string" where
  "event_line kind pc th args =
     ''trig_pc_d('' @ kind @ '', '' @ pc @ '') -> intp('' @ th @ separated args @ '')'' @ NL"

definition cleaned_line :: "string \<Rightarrow> string \<Rightarrow> string \<Rightarrow> string list \<Rightarrow> string" where
  "cleaned_line kind pc th args =
     ''trig_pc_d '' @ kind @ space 2 @ pc @ space 5 @ ''intp'' @ space 1 @ th @ concat (map (\<lambda>t. space 2 @ t) args) @ space 1 @ NL"

lemma replace_event_line:
  assumes "list_all plain_token (kind # pc # th # args)"
  shows "iob_replace (event_line kind pc th args) = cleaned_line kind pc th args"
proof -
  have "iob_replace (separated args) = concat (map (\<lambda>t. space 2 @ t) args)"
    using assms by (induction args) (simp_all add: separated_def iob_replace_plain numeral_2_eq_2)
  then show ?thesis
    using assms by (simp add: event_line_def cleaned_line_def iob_replace_plain) (simp add: eval_nat_numeral)
qed

text \<open>The tokens of a line, read one after the other.\<close>

fun read_tokens :: "char \<Rightarrow> string \<Rightarrow> int \<Rightarrow> nat \<Rightarrow> (string list \<times> int) res" where
  "read_tokens prev buf idx 0 = Inr ([], idx)"
| "read_tokens prev buf idx (Suc n) = bindr (next_token prev buf idx) (\<lambda>(t, idx).
     bindr (read_tokens prev buf idx n) (\<lambda>(ts, idx). Inr (t # ts, idx)))"

lemma read_tokens_ok:
  assumes "list_all (\<lambda>(n, t). token t) its" and "length (pre @ concat (map (\<lambda>(n, t). space n @ t) its)) < BUFFER"
    and "list_all (\<lambda>(n, t). n > 0) (drop 1 its)" and "rest \<noteq> [] \<and> hd rest \<in> {CHR 0x00, CHR 0x0A, CHR '' ''}"
  shows "read_tokens prev (pre @ concat (map (\<lambda>(n, t). space n @ t) its) @ rest) (int (length pre)) (length its) =
    Inr (map snd its, int (length (pre @ concat (map (\<lambda>(n, t). space n @ t) its))))"
  using assms
proof (induction its arbitrary: pre)
  case (Cons it its)
  obtain n t where it: "it = (n, t)" by (cases it)
  define more where "more = concat (map (\<lambda>(n, t). space n @ t) its) @ rest"
  have "more = [] \<or> hd more \<in> {CHR 0x00, CHR 0x0A, CHR '' ''}"
  proof (cases its)
    case (Cons jt jts)
    then obtain k u where "jt = (Suc k, u)" using Cons.prems(3) by (cases jt; cases "fst jt") auto
    then show ?thesis using Cons by (simp add: more_def)
  qed (use Cons.prems(4) in \<open>simp add: more_def\<close>)
  then have "next_token prev (pre @ space n @ t @ more) (int (length pre)) = Inr (t, int (length (pre @ space n @ t)))"
    using Cons.prems(1,2) it by (intro next_token_ok) auto
  moreover have "read_tokens prev ((pre @ space n @ t) @ concat (map (\<lambda>(n, t). space n @ t) its) @ rest)
      (int (length (pre @ space n @ t))) (length its) =
      Inr (map snd its, int (length ((pre @ space n @ t) @ concat (map (\<lambda>(n, t). space n @ t) its))))"
    using Cons.prems it by (intro Cons.IH) (cases its; auto)+
  ultimately show ?case by (simp add: it more_def)
qed simp

section \<open>What a line is read as\<close>

definition event_of :: "int \<Rightarrow> string \<Rightarrow> string \<Rightarrow> string \<Rightarrow> int \<Rightarrow> int \<Rightarrow> event_record" where
  "event_of kind th ty ve src wait =
     (let t = key_int (iob_getEight th) in
      \<lparr>ev_kind = kind, ev_type = key_int (iob_getEight ty), ev_thrid = t, ev_cpu_id = drop_bit 2 t AND 7,
       ev_true_id = drop_bit 1 t, ev_wait = (if wait > 0 then wait else 1), ev_src = src, ev_vec = key_int (iob_getEight ve)\<rparr>)"

lemma read_event_tokens:
  assumes "rmSpace_at prev line 0 = Inr j" and "starts_with ''trig_pc_d '' (iob_replace line)"
    and "read_tokens prev (iob_replace line) 10 6 = Inr ([kind, pc, cmd, th, ty, ve], idx)"
    and "atoi kind = Inr k" and "starts_with ''intp'' cmd" and "0 \<le> idx" "nat idx < length (iob_replace line)"
    and "read_tokens prev (iob_replace line) idx 2 = Inr ([so, nu], idx')"
  shows "read_event prev line = Inr (Some (iob_getEight (rmhexa pc),
    event_of k th ty ve (key_int (iob_getEight so)) (key_int (iob_getEight nu))))"
  using assms by (auto simp: read_event_def event_of_def eval_nat_numeral Let_def)

lemma atoi_dec_nat: "n < 2 ^ 31 \<Longrightarrow> atoi (dec_nat n) = Inr (int n)"
proof -
  assume n: "n < 2 ^ 31"
  have all: "list_all (\<lambda>c. is_digit c \<and> \<not> isspace c \<and> c \<noteq> CHR ''-'' \<and> c \<noteq> CHR ''+'') ''0123456789''" by code_simp
  then have d: "\<forall>c \<in> set (dec_nat n). is_digit c \<and> \<not> isspace c \<and> c \<noteq> CHR ''-'' \<and> c \<noteq> CHR ''+''"
    using dec_nat_digits [of n] unfolding list_all_iff by (meson subsetD)
  obtain c cs where c: "dec_nat n = c # cs" by (cases "dec_nat n") simp_all
  have tw: "takeWhile is_digit (dec_nat n) = dec_nat n" using d by simp
  have "dropWhile isspace (dec_nat n) = dec_nat n" "\<not> starts_with ''-'' (dec_nat n)" "\<not> starts_with ''+'' (dec_nat n)"
    using d c by (auto simp: starts_with_def)
  with n show ?thesis by (simp add: atoi_def Let_def int_ok_def tw)
qed

lemma plain_dec_nat: "plain_token (dec_nat n)"
proof -
  have all: "list_all (\<lambda>c. plain_token [c]) ''0123456789''" by code_simp
  then have "\<forall>c \<in> set (dec_nat n). plain_token [c]" using dec_nat_digits [of n] unfolding list_all_iff by (meson subsetD)
  then show ?thesis by (simp add: plain_token_def token_def list_all_iff)
qed

definition pc_text :: "KeyType \<Rightarrow> string" where
  "pc_text pc = ''64'' @ CHR 0x27 # CHR ''h'' # hex_digits 16 pc"

lemma pc_text_value: "iob_getEight (rmhexa (pc_text pc)) = pc"
  using getEight_digits [of 0 16 pc] take_bit_length_eq [of pc] by (simp add: iob_getEight_def rmhexa_def pc_text_def)

lemma plain_pc_text: "plain_token (pc_text pc)"
proof -
  have all: "list_all (\<lambda>d. plain_token [hexdigit d]) [0..<16]" by code_simp
  have "unat (take_bit 4 (drop_bit (4 * k) pc)) < 16" for k
    using take_bit_nat_less_exp [of 4] by (simp add: unsigned_take_bit_eq)
  with all have "\<forall>c \<in> set (hex_digits 16 pc). plain_token [c]" by (auto simp: hex_digits_def list_all_iff)
  moreover have "plain_token ''64''" "plain_token [CHR 0x27]" "plain_token ''h''" by code_simp+
  ultimately show ?thesis by (auto simp: plain_token_def token_def list_all_iff pc_text_def)
qed

definition line_items :: "string \<Rightarrow> string \<Rightarrow> string \<Rightarrow> string list \<Rightarrow> (nat \<times> string) list" where
  "line_items kind pc th args = [(0, kind), (2, pc), (5, ''intp''), (1, th)] @ map (Pair 2) args"

abbreviation spaced :: "(nat \<times> string) list \<Rightarrow> string" where
  "spaced its \<equiv> concat (map (\<lambda>(n, t). space n @ t) its)"

lemma cleaned_line_items: "cleaned_line kind pc th args = ''trig_pc_d '' @ spaced (line_items kind pc th args) @ space 1 @ NL"
proof -
  have "concat (map (\<lambda>t. space 2 @ t) args) = spaced (map (Pair 2) args)" by (induction args) auto
  then show ?thesis by (simp add: cleaned_line_def line_items_def)
qed

lemma event_line_start:
  assumes "list_all plain_token (kind # pc # th # args)"
  shows "rmSpace_at prev (event_line kind pc th args) 0 = Inr 0" "starts_with ''trig_pc_d '' (iob_replace (event_line kind pc th args))"
  by (subst skip_space.simps [of "CHR ''t'' # _"] | simp add: rmSpace_at_def rmSpace_def event_line_def char_at_def BUFFER_def skip_space.simps)+
    (simp add: replace_event_line [OF assms] cleaned_line_def starts_with_def)

text \<open>The first six tokens of a line with at least two arguments.\<close>

lemma first_tokens:
  assumes "list_all plain_token (kind # pc # th # ty # ve # args)" and "length (cleaned_line kind pc th (ty # ve # args)) < BUFFER"
  shows "read_tokens prev (cleaned_line kind pc th (ty # ve # args)) 10 6 =
    Inr ([kind, pc, ''intp'', th, ty, ve], int (length (''trig_pc_d '' @ spaced (line_items kind pc th [ty, ve]))))"
proof -
  let ?its = "line_items kind pc th [ty, ve]" and ?rest = "spaced (map (Pair 2) args) @ space 1 @ NL"
  have l: "cleaned_line kind pc th (ty # ve # args) = ''trig_pc_d '' @ spaced ?its @ ?rest"
    by (simp add: cleaned_line_items line_items_def)
  have "hd ?rest = CHR '' ''" by (cases args) (simp_all add: numeral_2_eq_2)
  then have "read_tokens prev (''trig_pc_d '' @ spaced ?its @ ?rest) (int (length ''trig_pc_d '')) (length ?its) =
    Inr (map snd ?its, int (length (''trig_pc_d '' @ spaced ?its)))"
    using assms unfolding l by (intro read_tokens_ok) (auto simp: line_items_def plain_token_def token_def)
  moreover have "int (length ''trig_pc_d '') = 10" "length ?its = 6" "map snd ?its = [kind, pc, ''intp'', th, ty, ve]"
    by (simp_all add: line_items_def)
  ultimately show ?thesis unfolding l by (simp only:)
qed

lemma read_event_line:
  assumes "list_all plain_token [th, ty, ve, so, nu]" and "k < 2 ^ 31"
    and "length (event_line (dec_nat k) (pc_text pc) th [ty, ve, so, nu]) < BUFFER"
  shows "read_event prev (event_line (dec_nat k) (pc_text pc) th [ty, ve, so, nu]) =
    Inr (Some (pc, event_of (int k) th ty ve (key_int (iob_getEight so)) (key_int (iob_getEight nu))))"
proof -
  have plain: "list_all plain_token (dec_nat k # pc_text pc # th # [ty, ve, so, nu])"
    using assms(1) plain_dec_nat plain_pc_text by simp
  note r = replace_event_line [OF plain]
  have len: "length (cleaned_line (dec_nat k) (pc_text pc) th [ty, ve, so, nu]) < BUFFER"
    using assms(3) by (simp add: r [symmetric]) (simp add: iob_replace_def)
  let ?jts = "[(2, so), (2, nu)] :: (nat \<times> string) list" and ?pre = "''trig_pc_d '' @ spaced (line_items (dec_nat k) (pc_text pc) th [ty, ve])"
  have l: "cleaned_line (dec_nat k) (pc_text pc) th [ty, ve, so, nu] = ?pre @ spaced ?jts @ space 1 @ NL"
    by (simp add: cleaned_line_items line_items_def)
  have "read_tokens prev (?pre @ spaced ?jts @ space 1 @ NL) (int (length ?pre)) (length ?jts) =
    Inr (map snd ?jts, int (length (?pre @ spaced ?jts)))"
    using plain len unfolding l by (intro read_tokens_ok) (auto simp: plain_token_def)
  moreover have "length ?jts = 2" "map snd ?jts = [so, nu]" by simp_all
  ultimately have last: "read_tokens prev (?pre @ spaced ?jts @ space 1 @ NL) (int (length ?pre)) 2 =
    Inr ([so, nu], int (length (?pre @ spaced ?jts)))" by (simp only:)
  have "nat (int (length ?pre)) < length (?pre @ spaced ?jts @ space 1 @ NL)"
    by (simp only: nat_int length_append) simp
  then show ?thesis
    using read_event_tokens [OF event_line_start [OF plain], unfolded r, OF first_tokens [OF plain len] atoi_dec_nat [OF assms(2)] _ _ _ last [folded l]]
    unfolding l pc_text_value by (simp only: starts_with_def) simp
qed

text \<open>A line without the last two arguments: the search for the fourth argument runs into the end of the line, and the
  code reads on in front of the buffer.\<close>

lemma read_short_line:
  assumes "list_all plain_token [th, ty, ve]" and "k < 2 ^ 31" and "prev \<notin> {CHR 0x00, CHR 0x0A, CHR '' ''}"
    and "length (event_line (dec_nat k) (pc_text pc) th [ty, ve]) < BUFFER"
  shows "read_event prev (event_line (dec_nat k) (pc_text pc) th [ty, ve]) =
    Inr (Some (pc, event_of (int k) th ty ve (key_int (iob_getEight (prev # ''trig_pc_d''))) (key_int (iob_getEight (dec_nat k)))))"
proof -
  have plain: "list_all plain_token (dec_nat k # pc_text pc # th # [ty, ve])"
    using assms(1) plain_dec_nat plain_pc_text by simp
  note r = replace_event_line [OF plain]
  have len: "length (cleaned_line (dec_nat k) (pc_text pc) th [ty, ve]) < BUFFER"
    using assms(4) by (simp add: r [symmetric]) (simp add: iob_replace_def)
  let ?its = "line_items (dec_nat k) (pc_text pc) th [ty, ve]"
  let ?pre = "''trig_pc_d '' @ spaced ?its"
  define buf where "buf = cleaned_line (dec_nat k) (pc_text pc) th [ty, ve]"
  have l: "buf = ?pre @ space 1 @ NL" by (simp add: buf_def cleaned_line_items)
  define more where "more = spaced (tl ?its) @ space 1 @ NL"
  have l2: "buf = ''trig_pc_d'' @ space 1 @ dec_nat k @ more" by (simp add: l more_def line_items_def)
  have m: "more = [] \<or> hd more \<in> {CHR 0x00, CHR 0x0A, CHR '' ''}" by (simp add: more_def line_items_def numeral_2_eq_2)
  have "token (dec_nat k)" using plain_dec_nat by (simp add: plain_token_def)
  then have "next_token prev buf (int (length ''trig_pc_d'')) = Inr (dec_nat k, int (length (''trig_pc_d'' @ space 1 @ dec_nat k)))"
    unfolding l2 using m by (intro next_token_ok) (simp_all add: BUFFER_def)
  moreover have "token ''trig_pc_d''" by code_simp
  then have "next_token prev (?pre @ space 1 @ NL) (int (length ?pre)) = Inr (prev # ''trig_pc_d'', int (length ''trig_pc_d''))"
    using assms(3) len by (intro next_token_wraps [where pre' = "spaced ?its"]) (simp_all add: buf_def [symmetric] l)
  then have "next_token prev buf (int (length ?pre)) = Inr (prev # ''trig_pc_d'', int (length ''trig_pc_d''))" by (simp only: l)
  ultimately have last: "read_tokens prev buf (int (length ?pre)) 2 =
      Inr ([prev # ''trig_pc_d'', dec_nat k], int (length (''trig_pc_d'' @ space 1 @ dec_nat k)))"
    by (simp only: numeral_2_eq_2 read_tokens.simps bindr_simps prod.case)
  have "nat (int (length ?pre)) < length buf"
    unfolding l by (simp only: nat_int length_append) simp
  then show ?thesis
    using read_event_tokens [OF event_line_start [OF plain], unfolded r buf_def [symmetric],
        OF first_tokens [OF plain len, folded buf_def] atoi_dec_nat [OF assms(2)] _ _ _ last]
    unfolding pc_text_value by (simp only: starts_with_def) simp
qed

text \<open>A file with one such line.\<close>

lemma fgets_event_line:
  assumes "list_all plain_token (kind # pc # th # args)" and "length (event_line kind pc th args) < BUFFER"
  shows "fgets_pieces (BUFFER - 2) (event_line kind pc th args) = [event_line kind pc th args]"
proof -
  define l where "l = ''trig_pc_d('' @ kind @ '', '' @ pc @ '') -> intp('' @ th @ separated args @ '')''"
  have e: "event_line kind pc th args = l @ NL" by (simp add: event_line_def l_def)
  have plain: "CHR 0x0A \<notin> set t" if "plain_token t" for t
    using that by (auto simp: plain_token_def token_def list_all_iff)
  have "CHR 0x0A \<notin> set (separated args)"
    using assms(1) plain by (induction args) (auto simp: separated_def)
  then have n: "CHR 0x0A \<notin> set l"
    using assms(1) plain by (auto simp: l_def)
  have "length l \<le> 1022" using assms(2) by (simp add: e BUFFER_def)
  then show ?thesis using fgets_pieces_lines [of "[l]" 1022] n by (simp add: e BUFFER_def)
qed

lemma get_event_one:
  assumes "read_event prev line = Inr (Some (pc, e))" and "fgets_pieces (BUFFER - 2) line = [line]"
  shows "get_event prev (Some line) Map.empty = Inr [pc \<mapsto> [e]]"
  using assms by (simp add: get_event_def add_event_def)

lemma event_file_one:
  assumes "list_all plain_token [th, ty, ve, so, nu]" and "k < 2 ^ 31"
    and "length (event_line (dec_nat k) (pc_text pc) th [ty, ve, so, nu]) < BUFFER"
  shows "get_event prev (Some (event_line (dec_nat k) (pc_text pc) th [ty, ve, so, nu])) Map.empty =
    Inr [pc \<mapsto> [event_of (int k) th ty ve (key_int (iob_getEight so)) (key_int (iob_getEight nu))]]"
  using assms plain_dec_nat plain_pc_text
  by (intro get_event_one read_event_line fgets_event_line) simp_all

end
