(* ===== verification/PLI_Interrupt.thy ===== *)
theory PLI_Interrupt
  imports PLI_Bridge
begin

text \<open>
  The I/O bridge as a queue. \<open>pending\<close> is what the bridge still has to deliver, \<open>bridge_ok\<close> its invariant between two
  calls of the simulator, \<open>cycles_left\<close> a bound of the cycles until everything is delivered. A report appends the
  interrupts of the events of its program counter, a cycle delivers at most the first pending one and makes the bound
  smaller; the crossbar queue of a processor is never found full, because every request is granted one cycle later.
\<close>

section \<open>The invariant\<close>

definition cx_common :: "cpx \<Rightarrow> bool" where
  "cx_common c \<longleftrightarrow> 0 \<le> cx_cpu_id c \<and> cx_cpu_id c < 8 \<and> 0 \<le> cx_thrid c \<and> cx_thrid c < 128 \<and>
     cx_req c = schar8 (2 ^ nat (cx_cpu_id c)) \<and> (\<exists>w. cx_pkt c = [0, 0, 0, 0, w])"

definition cx_fresh :: "cpx \<Rightarrow> bool" where
  "cx_fresh c \<longleftrightarrow> cx_common c \<and> cx_req_sent c = 1 \<and> cx_req_wait c \<le> 7 \<and> cx_cpx_wait c = cx_req_wait c + 1"

definition cx_sent :: "cpx \<Rightarrow> bool" where
  "cx_sent c \<longleftrightarrow> cx_common c \<and> cx_req_sent c = 2 \<and> cx_req_wait c = 0 \<and> cx_cpx_wait c = 1"

definition px_ok :: "pcx \<Rightarrow> bool" where
  "px_ok p \<longleftrightarrow> 0 \<le> px_cpu_id p \<and> px_cpu_id p < 8 \<and> 0 \<le> px_thrid p \<and> px_thrid p < 128 \<and> 1 \<le> px_wait p \<and> px_wait p \<le> 3"

definition ev_ok :: "event_record \<Rightarrow> bool" where
  "ev_ok e \<longleftrightarrow> 0 \<le> ev_type e \<and> ev_type e < 2 ^ 16 \<and> 0 \<le> ev_thrid e \<and> ev_thrid e < 128 \<and> ev_cpu_id e = drop_bit 2 (ev_thrid e) AND 7"

definition events_ok :: "event_map \<Rightarrow> bool" where
  "events_ok m \<longleftrightarrow> (\<forall>k es. m k = Some es \<longrightarrow> list_all ev_ok es)"

definition cpx_at :: "iob \<Rightarrow> nat \<Rightarrow> cpx" where
  "cpx_at st i = io_cpx_obj st ! i"

definition heaps_ok :: "iob \<Rightarrow> bool" where
  "heaps_ok st \<longleftrightarrow> distinct (io_cpx_list st @ io_cpx_heap st) \<and>
     (\<forall>i \<in> set (io_cpx_list st @ io_cpx_heap st). i < length (io_cpx_obj st)) \<and>
     list_all px_ok (io_pcx_list st) \<and> events_ok (io_events st)"

text \<open>Between two calls either nothing is requested, or the first packet sent its request in the last cycle.\<close>

definition idle_ok :: "iob \<Rightarrow> bool" where
  "idle_ok st \<longleftrightarrow> \<not> io_next_req st \<and> io_grant st = 0 \<and> list_all (\<lambda>i. cx_fresh (cpx_at st i)) (io_cpx_list st)"

definition sent_ok :: "iob \<Rightarrow> bool" where
  "sent_ok st \<longleftrightarrow> io_next_req st \<and> (\<exists>i is. io_cpx_list st = i # is \<and> cx_sent (cpx_at st i) \<and> list_all (\<lambda>i. cx_fresh (cpx_at st i)) is)"

text \<open>The state inside a cycle, after the grants were taken.\<close>

definition cycle_ok :: "iob \<Rightarrow> bool" where
  "cycle_ok st \<longleftrightarrow> heaps_ok st \<and> io_req st = 0 \<and> \<not> io_pkt_vld st \<and> io_Qsel st = replicate 8 0 \<and> (idle_ok st \<or> sent_ok st)"

definition bridge_ok :: "iob \<Rightarrow> bool" where
  "bridge_ok st \<longleftrightarrow> heaps_ok st \<and> io_req st = 0 \<and> \<not> io_pkt_vld st \<and>
     (idle_ok st \<and> io_Qsel st = replicate 8 0 \<or>
      sent_ok st \<and> (let cpu = nat (cx_cpu_id (cpx_at st (hd (io_cpx_list st)))) in
        io_grant st = schar8 (2 ^ cpu) \<and> io_Qsel st = (replicate 8 0)[cpu := 1]))"

definition pending :: "iob \<Rightarrow> u32 list" where
  "pending st = map (\<lambda>i. cx_pkt (cpx_at st i) ! 4) (io_cpx_list st) @ map (\<lambda>p. px_pkt p ! 3) (io_pcx_list st)"

definition cycles_of :: "cpx \<Rightarrow> nat" where
  "cycles_of c = (if cx_req_sent c = 2 then 1 else max 1 (cx_req_wait c) + 1)"

definition cycles_left :: "iob \<Rightarrow> nat" where
  "cycles_left st = sum_list (map (\<lambda>i. cycles_of (cpx_at st i)) (io_cpx_list st)) +
     sum_list (map (\<lambda>p. nat (px_wait p) + 8) (io_pcx_list st))"

section \<open>A cycle\<close>

lemma grants_taken_all: "list_all (\<lambda>c. snd (take_grants (schar8 (2 ^ c)) ((replicate 8 0)[c := 1])) = replicate 8 0) [0..<8]"
  by code_simp

lemma grants_taken: "c < 8 \<Longrightarrow> snd (take_grants (schar8 (2 ^ c)) ((replicate 8 0)[c := 1])) = replicate 8 0"
  using grants_taken_all by (auto simp: list_all_iff)

lemma grant_nonzero_all: "list_all (\<lambda>c. schar8 (2 ^ c) \<noteq> 0) [0..<8]"
  by code_simp

lemma grant_nonzero: "c < 8 \<Longrightarrow> schar8 (2 ^ c) \<noteq> 0"
  using grant_nonzero_all by (auto simp: list_all_iff)

lemma nth_update: "xs[i := c] ! j = (if i = j \<and> i < length xs then c else xs ! j)"
  by (cases "i < length xs") (auto simp: nth_list_update list_update_beyond)

lemma xlation_ok:
  assumes "px_ok p"
  shows "\<exists>c'. xlation r p c = Inr c' \<and> cx_fresh c' \<and> cx_pkt c' ! 4 = px_pkt p ! 3 \<and> cycles_of c' \<le> 8"
  using assms by (auto simp: xlation_def px_ok_def cx_fresh_def cx_common_def cycles_of_def)

lemma get_delay_ok:
  assumes "px_ok p"
  shows "fst (get_delay p) = px_wait p - 1" "snd (get_delay p) = p\<lparr>px_wait := px_wait p - 1\<rparr>"
proof -
  have "px_wait p = 1 \<or> px_wait p = 2 \<or> px_wait p = 3" using assms by (auto simp: px_ok_def)
  then show "fst (get_delay p) = px_wait p - 1" "snd (get_delay p) = p\<lparr>px_wait := px_wait p - 1\<rparr>"
    by (auto simp: get_delay_def schar8_def)
qed

text \<open>The step from a processor request to a packet for the processor.\<close>

lemma handle_pcx_ok:
  assumes "cycle_ok st" and "io_pcx_list st \<noteq> []"
  shows "\<exists>st'. handle_pcx rnd st = Inr st' \<and> cycle_ok st' \<and> pending st' = pending st \<and> cycles_left st' < cycles_left st \<and>
    io_events st' = io_events st"
proof -
  obtain p ps where l: "io_pcx_list st = p # ps" using assms(2) by (cases "io_pcx_list st") auto
  have p: "px_ok p" "list_all px_ok ps" using assms(1) l by (auto simp: cycle_ok_def heaps_ok_def)
  define q where "q = p\<lparr>px_wait := px_wait p - 1\<rparr>"
  note d = get_delay_ok [OF p(1), folded q_def]
  show ?thesis
  proof (cases "px_wait p = 1")
    case False
    then have q: "px_ok q" "px_wait q = px_wait p - 1" "px_pkt q = px_pkt p" using p(1) by (auto simp: px_ok_def q_def)
    have "handle_pcx rnd st = Inr (st\<lparr>io_pcx_list := q # ps\<rparr>)"
      using False d l by (simp add: handle_pcx_def split_beta)
    then show ?thesis
      using assms(1) l p q by (auto simp: cycle_ok_def heaps_ok_def idle_ok_def sent_ok_def cpx_at_def pending_def cycles_left_def px_ok_def)
  next
    case True
    obtain i st1 where t: "take_cpx (st\<lparr>io_pcx_list := ps\<rparr>) = (i, st1)" by fastforce
    have st1: "i < length (io_cpx_obj st1)" "i \<notin> set (io_cpx_list st)" "io_cpx_list st1 = io_cpx_list st"
      "\<forall>j \<in> set (io_cpx_list st). cpx_at st1 j = cpx_at st j" "io_pcx_list st1 = ps"
      "distinct (io_cpx_list st @ i # io_cpx_heap st1)"
      "\<forall>j \<in> set (io_cpx_list st @ io_cpx_heap st1). j < length (io_cpx_obj st1)"
      "io_events st1 = io_events st" "io_req st1 = io_req st" "io_pkt_vld st1 = io_pkt_vld st" "io_Qsel st1 = io_Qsel st"
      "io_next_req st1 = io_next_req st" "io_grant st1 = io_grant st"
      using t assms(1) by (auto simp: take_cpx_def cycle_ok_def heaps_ok_def cpx_at_def nth_append split: list.splits)
    have "xlation r q c = xlation r p c" for r c by (simp add: xlation_def q_def)
    then obtain c where c: "xlation (rnd (io_calls st1)) q (io_cpx_obj st1 ! i) = Inr c" "cx_fresh c"
      "cx_pkt c ! 4 = px_pkt p ! 3" "cycles_of c \<le> 8"
      using xlation_ok [OF p(1), of "rnd (io_calls st1)" "io_cpx_obj st1 ! i"] by auto
    define st' where "st' = st1\<lparr>io_cpx_obj := (io_cpx_obj st1)[i := c], io_calls := Suc (io_calls st1),
                      io_cpx_list := io_cpx_list st1 @ [i], io_pcx_heap := io_pcx_heap st1 @ [q]\<rparr>"
    have "handle_pcx rnd st = Inr st'"
      using True d l t st1 c by (simp add: handle_pcx_def split_beta st'_def)
    moreover have at: "cpx_at st' i = c" "\<forall>j \<in> set (io_cpx_list st). cpx_at st' j = cpx_at st j"
      using st1 by (auto simp: st'_def cpx_at_def nth_update)
    moreover have "cycle_ok st'"
      using assms(1) st1 c(2) at p(2) unfolding cycle_ok_def heaps_ok_def idle_ok_def sent_ok_def
      by (auto simp: st'_def list_all_iff)
    ultimately show ?thesis
      using l st1 c(3,4) True by (auto simp: pending_def cycles_left_def st'_def cong: map_cong)
  qed
qed

text \<open>The processor side of a cycle.\<close>

definition cpx_cycle :: "iob \<Rightarrow> (bool \<times> iob) res" where
  "cpx_cycle st = bindr (if io_cpx_list st = [] then Inr st else handle_cpx st) (\<lambda>st.
     bindr (drive_cpx st) (\<lambda>(driven, st). Inr (driven, drive_req st)))"

lemma header_word_all:
  "list_all (\<lambda>t. ((push_bit 16 1 OR push_bit 12 7 OR word_of_int (t * 2 ^ 6)) AND 0xfffffffe) AND 0x17000 = (0x17000 :: u32)) [0..127]"
  by code_simp

lemma header_word:
  "0 \<le> t \<Longrightarrow> t < 128 \<Longrightarrow> ((push_bit 16 1 OR push_bit 12 7 OR word_of_int (t * 2 ^ 6)) AND 0xfffffffe) AND 0x17000 = (0x17000 :: u32)"
  using header_word_all by (auto simp: list_all_iff)

lemma sent_packet:
  assumes "cx_sent c"
  shows "get_cpx (dec_wait c) = Inr ((dec_wait c)\<lparr>cx_pkt := [0x17000, 0, 0, 0, cx_pkt c ! 4]\<rparr>)"
proof -
  obtain w where w: "cx_pkt c = [0, 0, 0, 0, w]" using assms by (auto simp: cx_sent_def cx_common_def)
  have t: "0 \<le> cx_thrid c" "cx_thrid c < 128" using assms by (auto simp: cx_sent_def cx_common_def)
  have "shl_signed (cx_thrid c) 6 = Inr (word_of_int (cx_thrid c * 2 ^ 6))" using t by (simp add: shl_signed_def)
  then show ?thesis using header_word [OF t] w by (simp add: get_cpx_def dec_wait_def)
qed

lemma idle_cycle:
  assumes "cycle_ok st" and "idle_ok st" and "io_cpx_list st = i # is"
  shows "\<exists>st'. cpx_cycle st = Inr (False, st') \<and> bridge_ok st' \<and> io_events st' = io_events st \<and>
    pending st' = pending st \<and> cycles_left st' < cycles_left st"
proof -
  define c where "c = cpx_at st i"
  have h: "i < length (io_cpx_obj st)" "i \<notin> set is" and f: "cx_fresh c" "list_all (\<lambda>i. cx_fresh (cpx_at st i)) is"
    using assms by (auto simp: cycle_ok_def heaps_ok_def idle_ok_def c_def)
  have cpu: "0 \<le> cx_cpu_id c" "nat (cx_cpu_id c) < 8" using f(1) by (auto simp: cx_fresh_def cx_common_def)
  define st' where "st' = (if cx_req_wait c \<le> 1
      then st\<lparr>io_cpx_obj := (io_cpx_obj st)[i := snd (get_req (dec_wait c))], io_next_req := True, io_next_cpx := False,
              io_req := 0, io_pkt_vld := False, io_grant := cx_req c, io_Qsel := (replicate 8 0)[nat (cx_cpu_id c) := 1]\<rparr>
      else st\<lparr>io_cpx_obj := (io_cpx_obj st)[i := dec_wait c], io_next_cpx := False, io_pkt_vld := False\<rparr>)"
  have step: "cpx_cycle st = Inr (False, st')"
    using assms h f(1) cpu grant_nonzero [OF cpu(2)]
    by (auto simp: cpx_cycle_def handle_cpx_def drive_cpx_def drive_req_def get_req_wait_def get_cpx_wait_def get_req_def
        dec_wait_def cycle_ok_def idle_ok_def c_def [symmetric] cpx_at_def [symmetric] st'_def cx_fresh_def cx_common_def Let_def)
  have at: "cpx_at st' i = (if cx_req_wait c \<le> 1 then snd (get_req (dec_wait c)) else dec_wait c)"
    "\<forall>j. j \<noteq> i \<longrightarrow> cpx_at st' j = cpx_at st j"
    using h(1) by (auto simp: st'_def cpx_at_def)
  have others: "list_all (\<lambda>i. cx_fresh (cpx_at st' i)) is" using f(2) h(2) at(2) by (auto simp: list_all_iff)
  have "bridge_ok st'"
  proof (cases "cx_req_wait c \<le> 1")
    case True
    have "cx_sent (cpx_at st' i)" "cx_cpu_id (cpx_at st' i) = cx_cpu_id c"
      using True f(1) at(1) by (auto simp: cx_fresh_def cx_sent_def cx_common_def get_req_def dec_wait_def)
    then show ?thesis
      using True assms others f(1) by (auto simp: st'_def bridge_ok_def sent_ok_def cycle_ok_def heaps_ok_def cx_fresh_def cx_common_def)
  next
    case False
    have "cx_fresh (cpx_at st' i)"
      using False f(1) at(1) by (auto simp: cx_fresh_def cx_common_def dec_wait_def)
    then show ?thesis
      using False assms others by (auto simp: st'_def bridge_ok_def idle_ok_def cycle_ok_def heaps_ok_def)
  qed
  moreover have same: "map (\<lambda>i. g (cpx_at st' i)) is = map (\<lambda>i. g (cpx_at st i)) is" for g :: "cpx \<Rightarrow> 'b"
    using h(2) at(2) by auto
  have "pending st' = pending st"
    using assms(3) at(1) same [of "\<lambda>c. cx_pkt c ! 4"] by (auto simp: pending_def st'_def c_def get_req_def dec_wait_def)
  moreover have "cycles_left st' < cycles_left st"
  proof -
    have "io_cpx_list st' = i # is" "io_pcx_list st' = io_pcx_list st" using assms(3) by (simp_all add: st'_def)
    moreover have "cycles_of (cpx_at st' i) < cycles_of (cpx_at st i)"
      using at(1) f(1) by (auto simp: c_def [symmetric] get_req_def dec_wait_def cycles_of_def cx_fresh_def)
    ultimately show ?thesis using assms(3) arg_cong [OF same, of sum_list cycles_of] by (simp add: cycles_left_def)
  qed
  ultimately show ?thesis using step by (auto simp: st'_def)
qed

lemma sent_cycle:
  assumes "cycle_ok st" and "sent_ok st"
  shows "\<exists>st' w. cpx_cycle st = Inr (True, st') \<and> bridge_ok st' \<and> io_events st' = io_events st \<and>
    pending st = w # pending st' \<and> map_res (\<lambda>k. iob_get_cpx_word k st') [0..<5] = Inr [0x17000, 0, 0, 0, w] \<and>
    cycles_left st' < cycles_left st"
proof -
  obtain i "is" where l: "io_cpx_list st = i # is" using assms(2) by (auto simp: sent_ok_def)
  define c where "c = cpx_at st i"
  have h: "i < length (io_cpx_obj st)" "i \<notin> set is" and f: "cx_sent c" "list_all (\<lambda>i. cx_fresh (cpx_at st i)) is"
    using assms l by (auto simp: cycle_ok_def heaps_ok_def sent_ok_def c_def)
  define c' where "c' = (dec_wait c)\<lparr>cx_pkt := [0x17000, 0, 0, 0, cx_pkt c ! 4]\<rparr>"
  define st' where "st' = st\<lparr>io_cpx_list := is, io_cpx_obj := (io_cpx_obj st)[i := c'], io_ptr := Some i,
      io_pkt_vld := False, io_next_cpx := True, io_cpx_heap := io_cpx_heap st @ [i], io_grant := 0, io_next_req := False\<rparr>"
  have step: "cpx_cycle st = Inr (True, st')"
    using assms h f(1) l sent_packet [OF f(1)]
    by (auto simp: cpx_cycle_def handle_cpx_def drive_cpx_def drive_req_def get_req_wait_def get_cpx_wait_def
        cycle_ok_def sent_ok_def c_def [symmetric] cpx_at_def [symmetric] st'_def c'_def cx_sent_def dec_wait_def)
  have at: "cpx_at st' i = c'" "\<forall>j. j \<noteq> i \<longrightarrow> cpx_at st' j = cpx_at st j"
    using h(1) by (auto simp: st'_def cpx_at_def)
  have same: "map (\<lambda>i. g (cpx_at st' i)) is = map (\<lambda>i. g (cpx_at st i)) is" for g :: "cpx \<Rightarrow> 'b"
    using h(2) at(2) by auto
  have "list_all (\<lambda>i. cx_fresh (cpx_at st' i)) is" using f(2) h(2) at(2) by (auto simp: list_all_iff)
  then have "bridge_ok st'"
    using assms l by (auto simp: st'_def bridge_ok_def idle_ok_def cycle_ok_def heaps_ok_def)
  moreover have "pending st = cx_pkt c ! 4 # pending st'"
    using l same [of "\<lambda>c. cx_pkt c ! 4"] by (simp add: pending_def st'_def c_def)
  moreover have "map_res (\<lambda>k. iob_get_cpx_word k st') [0..<5] = Inr [0x17000, 0, 0, 0, cx_pkt c ! 4]"
    using h(1) by (simp add: iob_get_cpx_word_def st'_def c'_def upt_rec)
  moreover have "cycles_left st' < cycles_left st"
  proof -
    have "io_cpx_list st' = is" "io_pcx_list st' = io_pcx_list st" by (simp_all add: st'_def)
    moreover have "cycles_of (cpx_at st i) = 1" using f(1) by (simp add: c_def [symmetric] cycles_of_def cx_sent_def)
    ultimately show ?thesis using l arg_cong [OF same, of sum_list cycles_of] by (simp add: cycles_left_def)
  qed
  ultimately show ?thesis using step by (auto simp: st'_def)
qed

lemma bindr_assoc: "bindr (bindr m f) g = bindr m (\<lambda>x. bindr (f x) g)"
  by (cases m) auto

definition granted :: "iob \<Rightarrow> iob" where
  "granted st = (if io_grant st \<noteq> 0
     then let (g, q) = take_grants (io_grant st) (io_Qsel st) in st\<lparr>io_grant := g, io_Qsel := q\<rparr> else st)"

lemma drive_iob_eq:
  "drive_iob rnd st = bindr (if io_pcx_list (granted st) = [] then Inr (granted st) else handle_pcx rnd (granted st)) cpx_cycle"
  by (simp add: drive_iob_def do_iob_def granted_def [symmetric] Let_def bindr_assoc cpx_cycle_def [abs_def])

lemma granted_fields [simp]:
  "io_pcx_list (granted st) = io_pcx_list st" "io_cpx_list (granted st) = io_cpx_list st" "io_events (granted st) = io_events st"
  "pending (granted st) = pending st" "cycles_left (granted st) = cycles_left st" "cpx_at (granted st) i = cpx_at st i"
  by (simp_all add: granted_def Let_def split_beta pending_def cycles_left_def cpx_at_def)

lemma granted_ok: "bridge_ok st \<Longrightarrow> cycle_ok (granted st)"
proof -
  assume ok: "bridge_ok st"
  show ?thesis
  proof (cases "idle_ok st")
    case True
    then have "granted st = st" "\<not> sent_ok st" by (auto simp: granted_def idle_ok_def sent_ok_def)
    with ok True show ?thesis by (auto simp: bridge_ok_def cycle_ok_def)
  next
    case False
    then have s: "sent_ok st" using ok by (auto simp: bridge_ok_def)
    define cpu where "cpu = nat (cx_cpu_id (cpx_at st (hd (io_cpx_list st))))"
    have cpu: "cpu < 8" using s by (auto simp: sent_ok_def cx_sent_def cx_common_def cpu_def)
    have g: "io_grant st = schar8 (2 ^ cpu)" "io_Qsel st = (replicate 8 0)[cpu := 1]"
      using ok False by (auto simp: bridge_ok_def cpu_def Let_def)
    have "granted st = st\<lparr>io_grant := fst (take_grants (io_grant st) (io_Qsel st)), io_Qsel := replicate 8 0\<rparr>"
      unfolding granted_def using grant_nonzero [OF cpu] grants_taken [OF cpu] g by (simp add: split_beta Let_def)
    then show ?thesis using ok s by (auto simp: bridge_ok_def cycle_ok_def heaps_ok_def sent_ok_def cpx_at_def)
  qed
qed

lemma empty_cycle:
  assumes "cycle_ok st" and "io_cpx_list st = []"
  shows "\<exists>st'. cpx_cycle st = Inr (False, st') \<and> bridge_ok st' \<and> io_events st' = io_events st \<and>
    pending st' = pending st \<and> cycles_left st' = cycles_left st"
proof -
  have "idle_ok st" using assms by (auto simp: cycle_ok_def sent_ok_def)
  then show ?thesis using assms
    by (auto simp: cpx_cycle_def drive_cpx_def drive_req_def cycle_ok_def bridge_ok_def idle_ok_def heaps_ok_def
        pending_def cycles_left_def cpx_at_def)
qed

lemma drive_iob_ok:
  assumes "bridge_ok st"
  shows "\<exists>driven st'. drive_iob rnd st = Inr (driven, st') \<and> bridge_ok st' \<and> io_events st' = io_events st \<and>
    (if driven then \<exists>w. pending st = w # pending st' \<and> map_res (\<lambda>k. iob_get_cpx_word k st') [0..<5] = Inr [0x17000, 0, 0, 0, w]
     else pending st' = pending st) \<and> cycles_left st' \<le> cycles_left st - 1"
proof -
  obtain st1 where st1: "(if io_pcx_list (granted st) = [] then Inr (granted st) else handle_pcx rnd (granted st)) = Inr st1"
    "cycle_ok st1" "pending st1 = pending st" "io_events st1 = io_events st"
    "cycles_left st1 < cycles_left st \<or> io_pcx_list st = [] \<and> cycles_left st1 = cycles_left st \<and> st1 = granted st"
    using handle_pcx_ok [OF granted_ok [OF assms], of rnd] granted_ok [OF assms] by (cases "io_pcx_list st = []") auto
  have d: "drive_iob rnd st = cpx_cycle st1" by (simp only: drive_iob_eq st1(1) bindr_simps)
  show ?thesis
  proof (cases "io_cpx_list st1")
    case Nil
    obtain st' where "cpx_cycle st1 = Inr (False, st')" "bridge_ok st'" "io_events st' = io_events st1"
      "pending st' = pending st1" "cycles_left st' = cycles_left st1" using empty_cycle [OF st1(2) Nil] by blast
    moreover have "cycles_left st1 \<le> cycles_left st - 1"
      using st1(5) Nil by (auto simp: cycles_left_def)
    ultimately show ?thesis using d st1 by auto
  next
    case (Cons i "is")
    consider "idle_ok st1" | "sent_ok st1" using st1(2) by (auto simp: cycle_ok_def)
    then show ?thesis
    proof cases
      case 1
      then show ?thesis using idle_cycle [OF st1(2) 1 Cons] d st1 by fastforce
    next
      case 2
      then show ?thesis using sent_cycle [OF st1(2) 2] d st1 by fastforce
    qed
  qed
qed

section \<open>A report\<close>

definition irq_word :: "event_record \<Rightarrow> u32" where
  "irq_word e = word_of_int (ev_type e * 2 ^ 16) OR push_bit 18 (word_of_int (ev_true_id e AND 0x3fff)) OR
     push_bit 10 (word_of_int (ev_cpu_id e AND 7)) OR push_bit 8 (word_of_int (ev_thrid e AND 3)) OR word_of_int (ev_vec e)"

definition due :: "event_record list \<Rightarrow> u32 list" where
  "due es = map irq_word (filter (\<lambda>e. ev_wait e > 0) es)"

definition served :: "event_record list \<Rightarrow> event_record list" where
  "served es = map (\<lambda>e. if ev_wait e > 0 then e\<lparr>ev_wait := ev_wait e - 1\<rparr> else e) es"

lemma schar8_id: "- 128 \<le> x \<Longrightarrow> x < 128 \<Longrightarrow> schar8 x = x"
  by (simp add: schar8_def sint_sbintrunc' signed_take_bit_int_eq_self)

lemma ev_cpu_id_bounds: "ev_ok e \<Longrightarrow> 0 \<le> ev_cpu_id e \<and> ev_cpu_id e < 8"
proof -
  assume "ev_ok e"
  then have "ev_cpu_id e = drop_bit 2 (ev_thrid e) AND mask 3" by (simp add: ev_ok_def mask_eq_exp_minus_1)
  then show ?thesis by (simp only: take_bit_eq_mask [symmetric]) (simp add: take_bit_eq_mod)
qed

lemma queue_packet:
  assumes "bridge_ok st" and "px_ok p"
  shows "bridge_ok (st\<lparr>io_pcx_list := io_pcx_list st @ [p]\<rparr>)"
  using assms by (auto simp: bridge_ok_def heaps_ok_def idle_ok_def sent_ok_def cpx_at_def Let_def)

lemma take_pcx_ok:
  assumes "take_pcx rnd st = (p, st1)" and "bridge_ok st"
  shows "bridge_ok st1" "pending st1 = pending st" "io_events st1 = io_events st" "cycles_left st1 = cycles_left st"
  using assms by (auto simp: take_pcx_def bridge_ok_def heaps_ok_def idle_ok_def sent_ok_def cpx_at_def Let_def
      pending_def cycles_left_def split: list.splits)

lemma gen_one_ok:
  assumes "bridge_ok st" and "ev_ok e"
  shows "\<exists>st'. gen_one rnd e st = Inr (hd (served [e]), st') \<and> bridge_ok st' \<and> pending st' = pending st @ due [e] \<and>
    io_events st' = io_events st \<and> cycles_left st' = cycles_left st + 11 * length (due [e])"
proof (cases "ev_wait e > 0")
  case True
  obtain p st1 where t: "take_pcx rnd st = (p, st1)" by fastforce
  note ok1 = take_pcx_ok [OF t assms(1)]
  have ev: "0 \<le> ev_type e" "ev_type e < 2 ^ 16" "0 \<le> ev_thrid e" "ev_thrid e < 128" using assms(2) by (auto simp: ev_ok_def)
  define q where "q = p\<lparr>px_cpu_id := schar8 (ev_cpu_id e), px_thrid := schar8 (ev_thrid e),
                    px_pkt := [0, 0, push_bit 31 1 OR word_of_int (drop_bit 16 (ev_true_id e) AND 0xffff), irq_word e], px_wait := 3\<rparr>"
  have q: "px_ok q" using ev_cpu_id_bounds [OF assms(2)] ev by (simp add: px_ok_def q_def schar8_id)
  have "gen_one rnd e st = Inr (e\<lparr>ev_wait := ev_wait e - 1\<rparr>, st1\<lparr>io_pcx_list := io_pcx_list st1 @ [q]\<rparr>)"
    using True ev t by (simp add: gen_one_def shl_signed_def q_def irq_word_def)
  then show ?thesis using True queue_packet [OF ok1(1) q] ok1
    by (auto simp: served_def due_def pending_def cycles_left_def cpx_at_def q_def)
qed (use assms in \<open>simp add: gen_one_def served_def due_def\<close>)

lemma gen_event_ok:
  assumes "list_all ev_ok es" and "bridge_ok st"
  shows "\<exists>st'. gen_event rnd es st = Inr (served es, st') \<and> bridge_ok st' \<and> pending st' = pending st @ due es \<and>
    io_events st' = io_events st \<and> cycles_left st' = cycles_left st + 11 * length (due es)"
proof -
  have "\<exists>st'. foldr_res (\<lambda>(es', st) e. bindr (gen_one rnd e st) (\<lambda>(e', st). Inr (es' @ [e'], st))) (acc, st) es =
      Inr (acc @ served es, st') \<and> bridge_ok st' \<and> pending st' = pending st @ due es \<and>
      io_events st' = io_events st \<and> cycles_left st' = cycles_left st + 11 * length (due es)" for acc
    using assms
  proof (induction es arbitrary: acc st)
    case (Cons e es)
    obtain st1 where st1: "gen_one rnd e st = Inr (hd (served [e]), st1)" "bridge_ok st1" "pending st1 = pending st @ due [e]"
      "io_events st1 = io_events st" "cycles_left st1 = cycles_left st + 11 * length (due [e])"
      using gen_one_ok [of st e rnd] Cons.prems by auto
    have c: "served (e # es) = hd (served [e]) # served es" "due (e # es) = due [e] @ due es"
      by (simp_all add: served_def due_def)
    from Cons.IH [of st1 "acc @ [hd (served [e])]"] Cons.prems st1 show ?case
      by (auto simp: c)
  qed (simp add: served_def due_def)
  from this [of "[]"] show ?thesis by (simp add: gen_event_def)
qed

lemma served_ok: "list_all ev_ok es \<Longrightarrow> list_all ev_ok (served es)"
  by (auto simp: served_def list_all_iff ev_ok_def)

section \<open>Runs\<close>

text \<open>The interrupts a sequence of calls asks for, in order, by the event file alone, and what is left of the events.\<close>

fun interrupts :: "event_map \<Rightarrow> iob_call list \<Rightarrow> u32 list" where
  "interrupts m [] = []"
| "interrupts m (Cycle # calls) = interrupts m calls"
| "interrupts m (Report pc # calls) =
     (case m pc of None \<Rightarrow> interrupts m calls | Some es \<Rightarrow> due es @ interrupts (m(pc \<mapsto> served es)) calls)"

fun remaining :: "event_map \<Rightarrow> iob_call list \<Rightarrow> event_map" where
  "remaining m [] = m"
| "remaining m (Cycle # calls) = remaining m calls"
| "remaining m (Report pc # calls) =
     (case m pc of None \<Rightarrow> remaining m calls | Some es \<Rightarrow> remaining (m(pc \<mapsto> served es)) calls)"

definition packet :: "u32 \<Rightarrow> u32 list" where
  "packet w = [0x17000, 0, 0, 0, w]"

lemma report_ok:
  assumes "bridge_ok st"
  shows "\<exists>st'. trig_pc_event rnd pc st = Inr st' \<and> bridge_ok st' \<and> pending st' = pending st @ interrupts (io_events st) [Report pc] \<and>
    io_events st' = remaining (io_events st) [Report pc] \<and>
    cycles_left st' = cycles_left st + 11 * length (interrupts (io_events st) [Report pc])"
proof (cases "io_events st pc")
  case (Some es)
  have es: "list_all ev_ok es" using assms Some by (auto simp: bridge_ok_def heaps_ok_def events_ok_def)
  obtain st1 where st1: "gen_event rnd es st = Inr (served es, st1)" "bridge_ok st1" "pending st1 = pending st @ due es"
    "io_events st1 = io_events st" "cycles_left st1 = cycles_left st + 11 * length (due es)"
    using gen_event_ok [OF es assms] by blast
  let ?st' = "st1\<lparr>io_events := (io_events st1)(pc \<mapsto> served es)\<rparr>"
  have "bridge_ok ?st'"
    using st1(2) served_ok [OF es]
    by (auto simp: bridge_ok_def heaps_ok_def idle_ok_def sent_ok_def cpx_at_def Let_def events_ok_def)
  then show ?thesis using Some st1 by (auto simp: trig_pc_event_def pending_def cycles_left_def cpx_at_def)
qed (use assms in \<open>simp add: trig_pc_event_def\<close>)

lemma iob_run_append:
  "iob_run rnd (xs @ ys) st = bindr (iob_run rnd xs st) (\<lambda>(o1, st). bindr (iob_run rnd ys st) (\<lambda>(o2, st). Inr (o1 @ o2, st)))"
proof (induction xs arbitrary: st)
  case Nil
  then show ?case by (cases "iob_run rnd ys st") auto
next
  case (Cons x xs)
  then show ?case by (cases "iob_call_step rnd x st") (auto simp: bindr_assoc split_beta)
qed

text \<open>The bridge is a queue: what was delivered and what is pending is what was pending before and what was asked for.\<close>

lemma run_is_queue:
  assumes "bridge_ok st"
  shows "\<exists>ws st'. iob_run rnd calls st = Inr (map packet ws, st') \<and> bridge_ok st' \<and>
    ws @ pending st' = pending st @ interrupts (io_events st) calls \<and> io_events st' = remaining (io_events st) calls \<and>
    cycles_left st' \<le> cycles_left st + 11 * length (interrupts (io_events st) calls)"
  using assms
proof (induction calls arbitrary: st)
  case Nil
  show ?case by (rule exI [of _ "[]"]) (use Nil in simp)
next
  case (Cons call calls)
  show ?case
  proof (cases call)
    case (Report pc)
    obtain st1 where st1: "trig_pc_event rnd pc st = Inr st1" "bridge_ok st1"
      "pending st1 = pending st @ interrupts (io_events st) [Report pc]" "io_events st1 = remaining (io_events st) [Report pc]"
      "cycles_left st1 = cycles_left st + 11 * length (interrupts (io_events st) [Report pc])"
      using report_ok [OF Cons.prems, of rnd pc] by blast
    obtain ws st' where st': "iob_run rnd calls st1 = Inr (map packet ws, st')" "bridge_ok st'"
      "ws @ pending st' = pending st1 @ interrupts (io_events st1) calls" "io_events st' = remaining (io_events st1) calls"
      "cycles_left st' \<le> cycles_left st1 + 11 * length (interrupts (io_events st1) calls)"
      using Cons.IH [OF st1(2)] by blast
    have i: "interrupts (io_events st) (Report pc # calls) = interrupts (io_events st) [Report pc] @ interrupts (io_events st1) calls"
      "remaining (io_events st) (Report pc # calls) = remaining (io_events st1) calls"
      using st1(4) by (auto split: option.splits)
    show ?thesis
      unfolding Report i
      by (rule exI [of _ ws], rule exI [of _ st']) (use st1 st' in \<open>simp add: iob_call_step_def del: interrupts.simps\<close>)
  next
    case Cycle
    obtain driven st1 where st1: "drive_iob rnd st = Inr (driven, st1)" "bridge_ok st1" "io_events st1 = io_events st"
      "if driven then \<exists>w. pending st = w # pending st1 \<and> map_res (\<lambda>k. iob_get_cpx_word k st1) [0..<5] = Inr [0x17000, 0, 0, 0, w]
       else pending st1 = pending st" "cycles_left st1 \<le> cycles_left st - 1"
      using drive_iob_ok [OF Cons.prems, of rnd] by blast
    obtain ws st' where st': "iob_run rnd calls st1 = Inr (map packet ws, st')" "bridge_ok st'"
      "ws @ pending st' = pending st1 @ interrupts (io_events st1) calls" "io_events st' = remaining (io_events st1) calls"
      "cycles_left st' \<le> cycles_left st1 + 11 * length (interrupts (io_events st1) calls)"
      using Cons.IH [OF st1(2)] by blast
    show ?thesis
    proof (cases driven)
      case True
      then obtain w where w: "pending st = w # pending st1" "map_res (\<lambda>k. iob_get_cpx_word k st1) [0..<5] = Inr (packet w)"
        using st1(4) by (auto simp: packet_def)
      show ?thesis
        unfolding Cycle
        by (rule exI [of _ "w # ws"], rule exI [of _ st'])
          (use st1 st' True w in \<open>simp add: iob_call_step_def del: upt_Suc map_res.simps upt.simps upt_rec_numeral\<close>)
    next
      case False
      show ?thesis
        unfolding Cycle
        by (rule exI [of _ ws], rule exI [of _ st']) (use st1 st' False in \<open>simp add: iob_call_step_def\<close>)
    qed
  qed
qed

text \<open>Every cycle makes the bound smaller, so with enough cycles nothing is pending.\<close>

lemma run_cycles_empty:
  "bridge_ok st \<Longrightarrow> cycles_left st \<le> n \<Longrightarrow> iob_run rnd (replicate n Cycle) st = Inr (outs, st') \<Longrightarrow> pending st' = []"
proof (induction n arbitrary: st outs)
  case 0
  have c: "cycles_of c \<noteq> 0" for c by (simp add: cycles_of_def)
  have "io_cpx_list st = []" using 0 c by (cases "io_cpx_list st") (auto simp: cycles_left_def)
  moreover have "io_pcx_list st = []" using 0 by (cases "io_pcx_list st") (auto simp: cycles_left_def)
  ultimately show ?case using 0 by (simp add: pending_def)
next
  case (Suc n)
  obtain driven st1 where st1: "drive_iob rnd st = Inr (driven, st1)" "bridge_ok st1" "cycles_left st1 \<le> cycles_left st - 1"
    using drive_iob_ok [OF Suc.prems(1), of rnd] by blast
  from Suc.prems(3) st1(1) obtain outs' where "iob_run rnd (replicate n Cycle) st1 = Inr (outs', st')"
    by (auto simp: iob_call_step_def split: if_splits)
  with Suc.IH [OF st1(2)] st1(3) Suc.prems(2) show ?case by simp
qed

lemma interrupts_append: "interrupts m (xs @ ys) = interrupts m xs @ interrupts (remaining m xs) ys"
  by (induction m xs rule: interrupts.induct) (auto split: option.splits simp del: fun_upd_apply)

lemma interrupts_cycles [simp]: "interrupts m (replicate n Cycle) = []" "remaining m (replicate n Cycle) = m"
  by (induction n) auto

lemma run_delivers:
  assumes "bridge_ok st" and "cycles_left st + 11 * length (interrupts (io_events st) calls) \<le> n"
  shows "\<exists>st'. iob_run rnd (calls @ replicate n Cycle) st = Inr (map packet (pending st @ interrupts (io_events st) calls), st') \<and>
    bridge_ok st' \<and> pending st' = [] \<and> io_events st' = remaining (io_events st) calls"
proof -
  obtain ws1 st1 where r1: "iob_run rnd calls st = Inr (map packet ws1, st1)" "bridge_ok st1"
    "ws1 @ pending st1 = pending st @ interrupts (io_events st) calls" "io_events st1 = remaining (io_events st) calls"
    "cycles_left st1 \<le> cycles_left st + 11 * length (interrupts (io_events st) calls)"
    using run_is_queue [OF assms(1), of rnd calls] by blast
  obtain ws2 st2 where r2: "iob_run rnd (replicate n Cycle) st1 = Inr (map packet ws2, st2)" "bridge_ok st2"
    "ws2 @ pending st2 = pending st1" "io_events st2 = io_events st1"
    using run_is_queue [OF r1(2), of rnd "replicate n Cycle"] by auto
  have "pending st2 = []" using run_cycles_empty [OF r1(2) _ r2(1)] r1(5) assms(2) by simp
  then show ?thesis using r1 r2 by (auto simp: iob_run_append simp flip: map_append)
qed

section \<open>The start\<close>

definition boot_word :: "int option \<Rightarrow> u32" where
  "boot_word pargs = (let i = boot_scan 128 (case pargs of None \<Rightarrow> 1 | Some m \<Rightarrow> m) in
     push_bit 16 1 OR push_bit 18 (of_nat (i AND 127)) OR push_bit 10 (of_nat (i AND 3)) OR 1)"

lemma and_low: "i AND 7 = i mod 8" "i AND 3 = i mod 4" for i :: nat
  using take_bit_eq_mask [of 3 i] take_bit_eq_mask [of 2 i] by (simp_all add: mask_eq_exp_minus_1 take_bit_eq_mod)

lemma manual_init_ok:
  assumes "manual_init rnd pargs prev ev iob_inst = Inr st" and "events_ok (io_events st)"
  shows "bridge_ok st" "pending st = [boot_word pargs]" "cycles_left st = 9" "get_event prev ev Map.empty = Inr (io_events st)"
proof -
  from assms(1) obtain m where m: "get_event prev ev Map.empty = Inr m"
    and st: "st = (boot rnd pargs (iob_inst\<lparr>io_Qsel := replicate 8 0, io_events := m\<rparr>))
      \<lparr>io_grant := 0, io_req := 0, io_pkt_vld := False, io_next_cpx := False, io_next_req := False\<rparr>"
    by (auto simp: manual_init_def Let_def iob_inst_def)
  have e: "io_events st = m" by (simp add: st boot_def take_pcx_def iob_inst_def Let_def)
  show "bridge_ok st" using assms(2) unfolding e
    by (simp add: st boot_def take_pcx_def iob_inst_def Let_def bridge_ok_def heaps_ok_def idle_ok_def px_ok_def and_low)
  show "pending st = [boot_word pargs]" "cycles_left st = 9"
    by (simp_all add: st boot_def take_pcx_def iob_inst_def Let_def pending_def boot_word_def cycles_left_def)
  show "get_event prev ev Map.empty = Inr (io_events st)" using m e by simp
qed

text \<open>One event asks for as many interrupts as its number says.\<close>

lemma interrupts_of_one_event:
  "interrupts [pc \<mapsto> [e]] (replicate k (Report pc)) = replicate (min k (nat (ev_wait e))) (irq_word e)"
proof (induction k arbitrary: e)
  case (Suc k)
  have same: "irq_word (e\<lparr>ev_wait := w\<rparr>) = irq_word e" for w by (simp add: irq_word_def)
  have "interrupts [pc \<mapsto> [e]] (replicate (Suc k) (Report pc)) = due [e] @ interrupts [pc \<mapsto> served [e]] (replicate k (Report pc))"
    by simp
  also have "\<dots> = replicate (min (Suc k) (nat (ev_wait e))) (irq_word e)"
  proof (cases "ev_wait e > 0")
    case True
    then have "min (Suc k) (nat (ev_wait e)) = Suc (min k (nat (ev_wait e - 1)))" by auto
    with True Suc [of "e\<lparr>ev_wait := ev_wait e - 1\<rparr>"] same show ?thesis by (simp add: due_def served_def del: fun_upd_apply)
  qed (use Suc [of e] in \<open>simp add: due_def served_def del: fun_upd_apply\<close>)
  finally show ?case .
qed simp

lemma manual_init_one:
  assumes "get_event prev ev Map.empty = Inr m" 
  shows "\<exists>st. manual_init rnd pargs prev ev iob_inst = Inr st \<and> io_events st = m"
  using assms by (simp add: manual_init_def iob_inst_def boot_def take_pcx_def Let_def)

end
