(* ===== verification/MM_Topology.thy ===== *)
theory MM_Topology
  imports GF_Prelude
begin

text \<open>
  Which process of a distributed simulation talks to which, \<open>src/piton/tools/verilator/my_metro_tile.cpp\<close>,
  \<open>my_metro_chipset.cpp\<close> and \<open>my_metro_fake_mem.cpp\<close>. Rank 0 is the chipset, the next \<open>T1 * T2\<close> ranks are the tiles of
  a grid, row by row, and the rest are memory controllers, each connected to one port of a tile on the border.
  \<open>T1\<close>, \<open>T2\<close> and the table \<open>mc_map\<close> come from a header that \<open>sims\<close> writes (the numbers of the ports too).

  The lemmas show that the connections are symmetric, that no rank is connected twice, and that the tile ranks simulate
  every core once.
\<close>

section \<open>The code\<close>

text \<open>An entry of \<open>mc_map\<close>; the ports are \<open>PITON_PORT_E\<close>, \<open>N\<close>, \<open>W\<close> and \<open>S\<close>.\<close>

record mc_map_t =
  mc_x :: nat
  mc_y :: nat
  mc_p :: nat

definition PORT_E :: nat where "PORT_E = 1"
definition PORT_N :: nat where "PORT_N = 2"
definition PORT_W :: nat where "PORT_W = 3"
definition PORT_S :: nat where "PORT_S = 4"

definition get_rank_fromXY :: "nat \<Rightarrow> int \<Rightarrow> int \<Rightarrow> int" where
  "get_rank_fromXY T1 x y = 1 + (x + int T1 * y)"

definition getDimX :: "nat \<Rightarrow> int \<Rightarrow> int" where
  "getDimX T1 mpi_rank = (if mpi_rank = 0 then 0 else (mpi_rank - 1) mod int T1)"

definition getDimY :: "nat \<Rightarrow> int \<Rightarrow> int" where
  "getDimY T1 mpi_rank = (if mpi_rank = 0 then 0 else (mpi_rank - 1) div int T1)"

text \<open>The first entry of the table for this tile and port.\<close>

fun edge_index :: "mc_map_t list \<Rightarrow> int \<Rightarrow> int \<Rightarrow> nat \<Rightarrow> nat option" where
  "edge_index [] x y port = None"
| "edge_index (m # ms) x y port =
     (if int (mc_x m) = x \<and> int (mc_y m) = y \<and> mc_p m = port then Some 0 else map_option Suc (edge_index ms x y port))"

definition get_edge_rank :: "nat \<Rightarrow> nat \<Rightarrow> mc_map_t list \<Rightarrow> int \<Rightarrow> int \<Rightarrow> nat \<Rightarrow> int" where
  "get_edge_rank T1 T2 mcs x y port =
     (case edge_index mcs x y port of Some m \<Rightarrow> int m + 1 + int (T1 * T2) | None \<Rightarrow> -1)"

definition getRankN :: "nat \<Rightarrow> nat \<Rightarrow> mc_map_t list \<Rightarrow> int \<Rightarrow> int \<Rightarrow> int" where
  "getRankN T1 T2 mcs x y = (if y = 0 then get_edge_rank T1 T2 mcs x y PORT_N else get_rank_fromXY T1 x (y - 1))"

definition getRankS :: "nat \<Rightarrow> nat \<Rightarrow> mc_map_t list \<Rightarrow> int \<Rightarrow> int \<Rightarrow> int" where
  "getRankS T1 T2 mcs x y = (if y + 1 = int T2 then get_edge_rank T1 T2 mcs x y PORT_S else get_rank_fromXY T1 x (y + 1))"

definition getRankE :: "nat \<Rightarrow> nat \<Rightarrow> mc_map_t list \<Rightarrow> int \<Rightarrow> int \<Rightarrow> int" where
  "getRankE T1 T2 mcs x y = (if x + 1 = int T1 then get_edge_rank T1 T2 mcs x y PORT_E else get_rank_fromXY T1 (x + 1) y)"

definition getRankW :: "nat \<Rightarrow> nat \<Rightarrow> mc_map_t list \<Rightarrow> int \<Rightarrow> int \<Rightarrow> int \<Rightarrow> int" where
  "getRankW T1 T2 mcs mpi_rank x y =
     (if mpi_rank = 1 then 0
      else if x = 0 then get_edge_rank T1 T2 mcs x y PORT_W
      else get_rank_fromXY T1 (x - 1) y)"

text \<open>\<open>MY_RANK\<close>, indexed by \<open>EAST\<close>, \<open>NORTH\<close>, \<open>WEST\<close>, \<open>SOUTH\<close>.\<close>

definition tile_ranks :: "nat \<Rightarrow> nat \<Rightarrow> mc_map_t list \<Rightarrow> int \<Rightarrow> int list" where
  "tile_ranks T1 T2 mcs mpi_rank =
     (let x = getDimX T1 mpi_rank; y = getDimY T1 mpi_rank in
      [getRankE T1 T2 mcs x y, getRankN T1 T2 mcs x y, getRankW T1 T2 mcs mpi_rank x y, getRankS T1 T2 mcs x y])"

definition chipset_dest :: "int \<Rightarrow> int" where
  "chipset_dest mpi_rank = (if mpi_rank = 0 then 1 else 0)"

text \<open>A memory controller whose number is not in the table ends the program with status 1.\<close>

definition fake_mem_dest :: "nat \<Rightarrow> nat \<Rightarrow> mc_map_t list \<Rightarrow> int \<Rightarrow> int res" where
  "fake_mem_dest T1 T2 mcs mpi_rank =
     (let mc_num = mpi_rank - (int (T1 * T2) + 1) in
      if mc_num \<ge> int (length mcs) \<and> length mcs > 0 then Inl (Exit M_MISC)
      else if mc_num < 0 \<or> mc_num \<ge> int (length mcs) then Inl Undef
      else let m = mcs ! nat mc_num in Inr (get_rank_fromXY T1 (int (mc_x m)) (int (mc_y m))))"

section \<open>Connections\<close>

text \<open>The ports of a rank in the order in which it serves them, with the rank at the other end. The channel of the
  chipset and of a memory controller is number 0.\<close>

definition ports :: "nat \<Rightarrow> nat \<Rightarrow> mc_map_t list \<Rightarrow> nat \<Rightarrow> (nat \<times> nat) list" where
  "ports T1 T2 mcs r =
     (if r = 0 then [(0, nat (chipset_dest 0))]
      else if r \<le> T1 * T2
      then map (\<lambda>i. (i, nat (tile_ranks T1 T2 mcs (int r) ! i))) (filter (\<lambda>i. tile_ranks T1 T2 mcs (int r) ! i \<noteq> -1) [0..<4])
      else case fake_mem_dest T1 T2 mcs (int r) of Inl _ \<Rightarrow> [] | Inr d \<Rightarrow> [(0, nat d)])"

definition num_ranks :: "nat \<Rightarrow> nat \<Rightarrow> mc_map_t list \<Rightarrow> nat" where
  "num_ranks T1 T2 mcs = 1 + T1 * T2 + length mcs"

text \<open>A table that fits the grid: every controller at a border port of its own, and not at the port of the chipset.\<close>

definition on_border :: "nat \<Rightarrow> nat \<Rightarrow> mc_map_t \<Rightarrow> bool" where
  "on_border T1 T2 m \<longleftrightarrow> mc_x m < T1 \<and> mc_y m < T2 \<and>
     (mc_p m = PORT_E \<and> mc_x m + 1 = T1 \<or> mc_p m = PORT_N \<and> mc_y m = 0 \<or>
      mc_p m = PORT_W \<and> mc_x m = 0 \<and> mc_y m \<noteq> 0 \<or> mc_p m = PORT_S \<and> mc_y m + 1 = T2)"

definition mc_place :: "mc_map_t \<Rightarrow> nat \<times> nat \<times> nat" where
  "mc_place m = (mc_x m, mc_y m, mc_p m)"

definition mcs_ok :: "nat \<Rightarrow> nat \<Rightarrow> mc_map_t list \<Rightarrow> bool" where
  "mcs_ok T1 T2 mcs \<longleftrightarrow> 0 < T1 \<and> 0 < T2 \<and> list_all (on_border T1 T2) mcs \<and> distinct (map mc_place mcs)"

section \<open>Coordinates\<close>

definition tile_rank :: "nat \<Rightarrow> nat \<Rightarrow> nat \<Rightarrow> nat" where
  "tile_rank T1 x y = 1 + x + T1 * y"

lemma tile_rank_coords:
  assumes "x < T1"
  shows "getDimX T1 (int (tile_rank T1 x y)) = int x" "getDimY T1 (int (tile_rank T1 x y)) = int y"
proof -
  have e: "int (tile_rank T1 x y) - 1 = int (x + T1 * y)" by (simp add: tile_rank_def)
  have "int (x + T1 * y) mod int T1 = int x" "int (x + T1 * y) div int T1 = int y"
    using assms by (simp_all flip: zmod_int zdiv_int)
  then show "getDimX T1 (int (tile_rank T1 x y)) = int x" "getDimY T1 (int (tile_rank T1 x y)) = int y"
    unfolding getDimX_def getDimY_def e by (auto simp: tile_rank_def)
qed

lemma tile_rank_cases:
  assumes "0 < r" "r \<le> T1 * T2"
  obtains x y where "x < T1" "y < T2" "r = tile_rank T1 x y"
proof
  have "0 < T1" using assms by (cases T1) auto
  then show "(r - 1) mod T1 < T1" by simp
  show "(r - 1) div T1 < T2" using assms by (intro div_less_iff_less_mult [THEN iffD2] \<open>0 < T1\<close>) (auto simp: mult.commute)
  show "r = tile_rank T1 ((r - 1) mod T1) ((r - 1) div T1)" using assms by (simp add: tile_rank_def)
qed

lemma tile_rank_bounds: "x < T1 \<Longrightarrow> y < T2 \<Longrightarrow> 0 < tile_rank T1 x y \<and> tile_rank T1 x y \<le> T1 * T2"
proof -
  assume a: "x < T1" "y < T2"
  have "T1 * y + T1 \<le> T1 * T2" using a by (metis mult_Suc_right add.commute Suc_leI mult_le_mono2)
  with a show ?thesis by (simp add: tile_rank_def)
qed

lemma tile_rank_inj: "x < T1 \<Longrightarrow> x' < T1 \<Longrightarrow> tile_rank T1 x y = tile_rank T1 x' y' \<Longrightarrow> x = x' \<and> y = y'"
  by (metis tile_rank_coords int_int_eq)

lemma edge_index_Some:
  "distinct (map mc_place mcs) \<Longrightarrow>
   edge_index mcs (int x) (int y) port = Some m \<longleftrightarrow> m < length mcs \<and> mc_place (mcs ! m) = (x, y, port)"
proof (induction mcs arbitrary: m)
  case (Cons a mcs)
  show ?case
  proof (cases m)
    case 0
    then show ?thesis by (auto simp: mc_place_def)
  next
    case (Suc k)
    have "k < length mcs \<Longrightarrow> mc_place (mcs ! k) \<noteq> mc_place a" using Cons.prems
      by (metis distinct.simps(2) list.simps(9) nth_map nth_mem length_map)
    then show ?thesis using Cons Suc by (auto simp: mc_place_def)
  qed
qed simp

section \<open>Neighbours\<close>

definition mem_at :: "nat \<Rightarrow> nat \<Rightarrow> mc_map_t list \<Rightarrow> nat \<Rightarrow> nat \<Rightarrow> nat \<Rightarrow> nat option" where
  "mem_at T1 T2 mcs x y p = map_option (\<lambda>m. m + 1 + T1 * T2) (edge_index mcs (int x) (int y) p)"

text \<open>The ranks at the four ports of tile \<open>(x, y)\<close>, in the order east, north, west, south.\<close>

definition neighbours :: "nat \<Rightarrow> nat \<Rightarrow> mc_map_t list \<Rightarrow> nat \<Rightarrow> nat \<Rightarrow> nat option list" where
  "neighbours T1 T2 mcs x y =
     [if x + 1 = T1 then mem_at T1 T2 mcs x y PORT_E else Some (tile_rank T1 (x + 1) y),
      if y = 0 then mem_at T1 T2 mcs x y PORT_N else Some (tile_rank T1 x (y - 1)),
      if x = 0 \<and> y = 0 then Some 0 else if x = 0 then mem_at T1 T2 mcs x y PORT_W else Some (tile_rank T1 (x - 1) y),
      if y + 1 = T2 then mem_at T1 T2 mcs x y PORT_S else Some (tile_rank T1 x (y + 1))]"

definition rank_of :: "nat option \<Rightarrow> int" where
  "rank_of n = (case n of None \<Rightarrow> -1 | Some r \<Rightarrow> int r)"

lemma rank_of_simps [simp]: "rank_of (Some r) = int r" "rank_of n = -1 \<longleftrightarrow> n = None"
  by (auto simp: rank_of_def split: option.splits)

lemma edge_rank: "get_edge_rank T1 T2 mcs (int x) (int y) p = rank_of (mem_at T1 T2 mcs x y p)"
  by (auto simp: get_edge_rank_def mem_at_def rank_of_def split: option.splits)

lemma tile_ranks_eq:
  assumes "x < T1" "y < T2"
  shows "tile_ranks T1 T2 mcs (int (tile_rank T1 x y)) = map rank_of (neighbours T1 T2 mcs x y)"
proof -
  note c = tile_rank_coords [OF assms(1), of y]
  have "tile_rank T1 x y = 1 \<longleftrightarrow> x = 0 \<and> y = 0" using assms by (auto simp: tile_rank_def)
  then have one: "int (tile_rank T1 x y) = 1 \<longleftrightarrow> x = 0 \<and> y = 0" by linarith
  have fromXY: "get_rank_fromXY T1 (int a) (int b) = int (tile_rank T1 a b)" for a b
    by (simp add: get_rank_fromXY_def tile_rank_def)
  have "getRankE T1 T2 mcs (int x) (int y) = rank_of (neighbours T1 T2 mcs x y ! 0)"
    using fromXY [of "x + 1" y] edge_rank [of T1 T2 mcs x y PORT_E] by (auto simp: getRankE_def neighbours_def add.commute)
  moreover have "getRankN T1 T2 mcs (int x) (int y) = rank_of (neighbours T1 T2 mcs x y ! 1)"
    using fromXY [of x "y - 1"] edge_rank [of T1 T2 mcs x y PORT_N] by (auto simp: getRankN_def neighbours_def of_nat_diff)
  moreover have "getRankW T1 T2 mcs (int (tile_rank T1 x y)) (int x) (int y) = rank_of (neighbours T1 T2 mcs x y ! 2)"
    using fromXY [of "x - 1" y] one edge_rank [of T1 T2 mcs x y PORT_W] by (auto simp: getRankW_def neighbours_def of_nat_diff)
  moreover have "getRankS T1 T2 mcs (int x) (int y) = rank_of (neighbours T1 T2 mcs x y ! 3)"
    using fromXY [of x "y + 1"] edge_rank [of T1 T2 mcs x y PORT_S] by (auto simp: getRankS_def neighbours_def add.commute)
  ultimately show ?thesis by (simp add: tile_ranks_def c Let_def) (simp add: neighbours_def)
qed

lemma tile_ports:
  assumes "x < T1" "y < T2"
  shows "ports T1 T2 mcs (tile_rank T1 x y) =
    map (\<lambda>i. (i, the (neighbours T1 T2 mcs x y ! i))) (filter (\<lambda>i. neighbours T1 T2 mcs x y ! i \<noteq> None) [0..<4])"
proof -
  have l: "length (neighbours T1 T2 mcs x y) = 4" by (simp add: neighbours_def)
  have "tile_rank T1 x y \<noteq> 0" "tile_rank T1 x y \<le> T1 * T2" using tile_rank_bounds [OF assms] by auto
  then have "ports T1 T2 mcs (tile_rank T1 x y) = map (\<lambda>i. (i, nat (map rank_of (neighbours T1 T2 mcs x y) ! i)))
      (filter (\<lambda>i. map rank_of (neighbours T1 T2 mcs x y) ! i \<noteq> -1) [0..<4])"
    by (simp add: ports_def tile_ranks_eq [OF assms])
  also have "filter (\<lambda>i. map rank_of (neighbours T1 T2 mcs x y) ! i \<noteq> -1) [0..<4] =
      filter (\<lambda>i. neighbours T1 T2 mcs x y ! i \<noteq> None) [0..<4]"
    using l by (intro filter_cong) auto
  finally show ?thesis using l by auto
qed

lemma tile_port_iff:
  assumes "x < T1" "y < T2"
  shows "(i, s) \<in> set (ports T1 T2 mcs (tile_rank T1 x y)) \<longleftrightarrow> i < 4 \<and> neighbours T1 T2 mcs x y ! i = Some s"
  by (force simp: tile_ports [OF assms])

lemma mem_ports:
  assumes "mcs_ok T1 T2 mcs" and "m < length mcs"
  shows "ports T1 T2 mcs (m + 1 + T1 * T2) = [(0, tile_rank T1 (mc_x (mcs ! m)) (mc_y (mcs ! m)))]"
proof -
  have e: "int (m + 1 + T1 * T2) - (int (T1 * T2) + 1) = int m" by simp
  have "fake_mem_dest T1 T2 mcs (int (m + 1 + T1 * T2)) = Inr (int (tile_rank T1 (mc_x (mcs ! m)) (mc_y (mcs ! m))))"
    unfolding fake_mem_dest_def e using assms(2) by (auto simp: Let_def get_rank_fromXY_def tile_rank_def)
  then show ?thesis by (simp add: ports_def)
qed

lemma chipset_ports: "ports T1 T2 mcs 0 = [(0, 1)]"
  by (simp add: ports_def chipset_dest_def)

lemma rank_cases:
  assumes "r < num_ranks T1 T2 mcs"
  obtains (chipset) "r = 0" | (tile) x y where "x < T1" "y < T2" "r = tile_rank T1 x y"
    | (mem) m where "m < length mcs" "r = m + 1 + T1 * T2"
proof -
  consider "r = 0" | "0 < r \<and> r \<le> T1 * T2" | "T1 * T2 < r" by linarith
  then show ?thesis
  proof cases
    case 2
    then show ?thesis using tile by (auto elim: tile_rank_cases)
  next
    case 3
    then show ?thesis using assms mem [of "r - 1 - T1 * T2"] by (simp add: num_ranks_def)
  qed (use chipset in auto)
qed

lemma mem_at_Some:
  assumes "mcs_ok T1 T2 mcs"
  shows "mem_at T1 T2 mcs x y p = Some s \<longleftrightarrow> (\<exists>m < length mcs. s = m + 1 + T1 * T2 \<and> mc_place (mcs ! m) = (x, y, p))"
  using edge_index_Some [of mcs x y p] assms by (auto simp: mem_at_def mcs_ok_def)

text \<open>A controller is at the port of its tile.\<close>

lemma mem_neighbour:
  assumes ok: "mcs_ok T1 T2 mcs" and m: "m < length mcs"
  shows "mc_x (mcs ! m) < T1" "mc_y (mcs ! m) < T2"
    "\<exists>i < 4. neighbours T1 T2 mcs (mc_x (mcs ! m)) (mc_y (mcs ! m)) ! i = Some (m + 1 + T1 * T2)"
proof -
  have b: "on_border T1 T2 (mcs ! m)" using ok m by (auto simp: mcs_ok_def list_all_iff)
  then show "mc_x (mcs ! m) < T1" "mc_y (mcs ! m) < T2" by (auto simp: on_border_def)
  have at: "mem_at T1 T2 mcs (mc_x (mcs ! m)) (mc_y (mcs ! m)) (mc_p (mcs ! m)) = Some (m + 1 + T1 * T2)"
    using mem_at_Some [OF ok] m by (auto simp: mc_place_def)
  from b consider "mc_p (mcs ! m) = PORT_E" "mc_x (mcs ! m) + 1 = T1" | "mc_p (mcs ! m) = PORT_N" "mc_y (mcs ! m) = 0"
    | "mc_p (mcs ! m) = PORT_W" "mc_x (mcs ! m) = 0" "mc_y (mcs ! m) \<noteq> 0" | "mc_p (mcs ! m) = PORT_S" "mc_y (mcs ! m) + 1 = T2"
    by (auto simp: on_border_def)
  then show "\<exists>i < 4. neighbours T1 T2 mcs (mc_x (mcs ! m)) (mc_y (mcs ! m)) ! i = Some (m + 1 + T1 * T2)"
  proof cases
    case 1
    then show ?thesis using at by (intro exI [of _ 0]) (simp add: neighbours_def)
  next
    case 2
    then show ?thesis using at by (intro exI [of _ 1]) (simp add: neighbours_def)
  next
    case 3
    then show ?thesis using at by (intro exI [of _ 2]) (simp add: neighbours_def)
  next
    case 4
    then show ?thesis using at by (intro exI [of _ 3]) (simp add: neighbours_def)
  qed
qed

lemma neighbours_nth:
  "neighbours T1 T2 mcs x y ! 0 = (if x + 1 = T1 then mem_at T1 T2 mcs x y PORT_E else Some (tile_rank T1 (x + 1) y))"
  "neighbours T1 T2 mcs x y ! Suc 0 = (if y = 0 then mem_at T1 T2 mcs x y PORT_N else Some (tile_rank T1 x (y - 1)))"
  "neighbours T1 T2 mcs x y ! 2 = (if x = 0 \<and> y = 0 then Some 0 else if x = 0 then mem_at T1 T2 mcs x y PORT_W
     else Some (tile_rank T1 (x - 1) y))"
  "neighbours T1 T2 mcs x y ! 3 = (if y + 1 = T2 then mem_at T1 T2 mcs x y PORT_S else Some (tile_rank T1 x (y + 1)))"
  by (simp_all add: neighbours_def)

lemma less_4_cases: "i < 4 \<Longrightarrow> i = 0 \<or> i = Suc 0 \<or> i = 2 \<or> i = (3 :: nat)"
  by auto

section \<open>The connections are symmetric\<close>

text \<open>Who is at a port of a tile: the tile next to it, a controller of this place, or the chipset.\<close>

lemma tile_port_cases:
  assumes "mcs_ok T1 T2 mcs" "x < T1" "y < T2" "(i, s) \<in> set (ports T1 T2 mcs (tile_rank T1 x y))"
  obtains (east) "i = 0" "x + 1 < T1" "s = tile_rank T1 (x + 1) y"
    | (north) "i = 1" "0 < y" "s = tile_rank T1 x (y - 1)"
    | (west) "i = 2" "0 < x" "s = tile_rank T1 (x - 1) y"
    | (south) "i = 3" "y + 1 < T2" "s = tile_rank T1 x (y + 1)"
    | (chipset) "i = 2" "x = 0" "y = 0" "s = 0"
    | (mem) m p where "m < length mcs" "s = m + 1 + T1 * T2" "mc_place (mcs ! m) = (x, y, p)" "p = [PORT_E, PORT_N, PORT_W, PORT_S] ! i"
proof -
  have i: "i < 4" "neighbours T1 T2 mcs x y ! i = Some s" using assms(4) tile_port_iff [OF assms(2,3)] by auto
  have m: thesis if "mem_at T1 T2 mcs x y p = Some s" "p = [PORT_E, PORT_N, PORT_W, PORT_S] ! i" for p
    using mem that mem_at_Some [OF assms(1)] by blast
  from less_4_cases [OF i(1)] show ?thesis
  proof (elim disjE)
    assume j: "i = 0"
    show ?thesis
    proof (cases "x + 1 = T1")
      case True
      then show ?thesis using i(2) j m [of PORT_E] by (simp add: neighbours_nth)
    qed (use i(2) j east assms(2) in \<open>simp add: neighbours_nth\<close>)
  next
    assume j: "i = Suc 0"
    show ?thesis
    proof (cases "y = 0")
      case True
      then show ?thesis using i(2) j m [of PORT_N] by (simp add: neighbours_nth)
    qed (use i(2) j north in \<open>simp add: neighbours_nth\<close>)
  next
    assume j: "i = 2"
    consider "x = 0" "y = 0" | "x = 0" "y \<noteq> 0" | "x \<noteq> 0" by blast
    then show ?thesis
    proof cases
      case 1
      then show ?thesis using i(2) j chipset by (simp add: neighbours_nth)
    next
      case 2
      then show ?thesis using i(2) j m [of PORT_W] by (simp add: neighbours_nth)
    next
      case 3
      then show ?thesis using i(2) j west by (simp add: neighbours_nth)
    qed
  next
    assume j: "i = 3"
    show ?thesis
    proof (cases "y + 1 = T2")
      case True
      then show ?thesis using i(2) j m [of PORT_S] by (simp add: neighbours_nth)
    qed (use i(2) j south assms(3) in \<open>simp add: neighbours_nth\<close>)
  qed
qed

lemma tile_opposite:
  assumes "x < T1" "y < T2"
  shows "x + 1 < T1 \<Longrightarrow> (2, tile_rank T1 x y) \<in> set (ports T1 T2 mcs (tile_rank T1 (x + 1) y))"
    and "0 < y \<Longrightarrow> (3, tile_rank T1 x y) \<in> set (ports T1 T2 mcs (tile_rank T1 x (y - 1)))"
    and "0 < x \<Longrightarrow> (0, tile_rank T1 x y) \<in> set (ports T1 T2 mcs (tile_rank T1 (x - 1) y))"
    and "y + 1 < T2 \<Longrightarrow> (1, tile_rank T1 x y) \<in> set (ports T1 T2 mcs (tile_rank T1 x (y + 1)))"
  using assms by (auto simp: tile_port_iff neighbours_nth)

lemma ports_symmetric:
  assumes ok: "mcs_ok T1 T2 mcs" and r: "r < num_ranks T1 T2 mcs" and p: "(i, s) \<in> set (ports T1 T2 mcs r)"
  shows "s < num_ranks T1 T2 mcs \<and> (\<exists>j. (j, r) \<in> set (ports T1 T2 mcs s))"
proof -
  have pos: "0 < T1" "0 < T2" using ok by (auto simp: mcs_ok_def)
  have low: "tile_rank T1 a b < num_ranks T1 T2 mcs" if "a < T1" "b < T2" for a b
    using tile_rank_bounds [OF that] by (simp add: num_ranks_def)
  from r show ?thesis
  proof (cases rule: rank_cases)
    case chipset
    then have "s = tile_rank T1 0 0" using p by (simp add: chipset_ports tile_rank_def)
    then show ?thesis using low [OF pos] chipset tile_port_iff [OF pos] by (auto simp: neighbours_nth intro!: exI [of _ 2])
  next
    case (tile x y)
    show ?thesis
    proof (cases rule: tile_port_cases [OF ok tile(1,2) p [unfolded tile(3)], case_names east north west south chipset mem])
      case east
      then show ?thesis using tile_opposite(1) [OF tile(1,2)] low tile by auto
    next
      case north
      then show ?thesis using tile_opposite(2) [OF tile(1,2)] low tile by auto
    next
      case west
      then show ?thesis using tile_opposite(3) [OF tile(1,2)] low tile by auto
    next
      case south
      then show ?thesis using tile_opposite(4) [OF tile(1,2)] low tile by auto
    next
      case chipset
      then show ?thesis using tile by (auto simp: chipset_ports num_ranks_def tile_rank_def)
    next
      case (mem m q)
      then show ?thesis using mem_ports [OF ok mem(1)] tile(3) by (auto simp: num_ranks_def mc_place_def)
    qed
  next
    case (mem m)
    have s: "s = tile_rank T1 (mc_x (mcs ! m)) (mc_y (mcs ! m))" using p mem_ports [OF ok mem(1)] mem(2) by simp
    obtain i where "i < 4" "neighbours T1 T2 mcs (mc_x (mcs ! m)) (mc_y (mcs ! m)) ! i = Some (m + 1 + T1 * T2)"
      using mem_neighbour(3) [OF ok mem(1)] by blast
    then have "(i, r) \<in> set (ports T1 T2 mcs s)"
      unfolding s mem(2) tile_port_iff [OF mem_neighbour(1,2) [OF ok mem(1)]] by simp
    then show ?thesis using low [OF mem_neighbour(1,2) [OF ok mem(1)]] s by blast
  qed
qed

text \<open>The port a neighbour is at, from its rank.\<close>

lemma tile_port_unique:
  assumes "mcs_ok T1 T2 mcs" "x < T1" "y < T2" "(i, s) \<in> set (ports T1 T2 mcs (tile_rank T1 x y))"
    "(j, s) \<in> set (ports T1 T2 mcs (tile_rank T1 x y))"
  shows "i = j"
proof -
  define f where "f s = (if s = 0 then 2 else if s \<le> T1 * T2
      then if s = tile_rank T1 (x + 1) y \<and> x + 1 < T1 then 0 else if s = tile_rank T1 x (y - 1) \<and> 0 < y then 1
        else if s = tile_rank T1 (x - 1) y \<and> 0 < x then 2 else 3
      else mc_p (mcs ! (s - 1 - T1 * T2)) - 1)" for s
  have "f s = i" if "(i, s) \<in> set (ports T1 T2 mcs (tile_rank T1 x y))" for i
  proof (cases rule: tile_port_cases [OF assms(1-3) that, case_names east north west south chipset mem])
    case east
    then show ?thesis using tile_rank_bounds [of "x + 1" T1 y T2] assms(3) by (simp add: f_def)
  next
    case north
    then have "y - 1 < T2" using assms(3) by simp
    with north show ?thesis using tile_rank_bounds [of x T1 "y - 1" T2] tile_rank_inj [of x T1 "x + 1" "y - 1" y] assms(2)
      by (auto simp: f_def)
  next
    case west
    then have "x - 1 < T1" using assms(2) by simp
    with west show ?thesis
      using tile_rank_bounds [of "x - 1" T1 y T2] tile_rank_inj [of "x - 1" T1 "x + 1" y y] tile_rank_inj [of "x - 1" T1 x y "y - 1"] assms(2,3)
      by (auto simp: f_def)
  next
    case south
    moreover have "x - 1 < T1" using assms(2) by simp
    ultimately show ?thesis
      using tile_rank_bounds [of x T1 "y + 1" T2] tile_rank_inj [of x T1 "x + 1" "y + 1" y] tile_rank_inj [of x T1 "x" "y + 1" "y - 1"]
        tile_rank_inj [of x T1 "x - 1" "y + 1" y] assms(2)
      by (auto simp: f_def)
  next
    case chipset
    then show ?thesis by (simp add: f_def)
  next
    case (mem m p)
    have "i < 4" using that tile_port_iff [OF assms(2,3)] by simp
    then have "p = i + 1" using mem(4) by (auto simp: PORT_E_def PORT_N_def PORT_W_def PORT_S_def dest: less_4_cases)
    then show ?thesis using mem by (simp add: f_def mc_place_def)
  qed
  then show ?thesis using assms(4,5) by metis
qed

lemma ports_distinct:
  assumes ok: "mcs_ok T1 T2 mcs" and r: "r < num_ranks T1 T2 mcs"
  shows "sorted_wrt (<) (map fst (ports T1 T2 mcs r))" "distinct (map snd (ports T1 T2 mcs r))"
proof -
  have "sorted_wrt (<) (map fst (ports T1 T2 mcs r)) \<and> distinct (map snd (ports T1 T2 mcs r))"
    using r
  proof (cases rule: rank_cases)
    case (tile x y)
    have s: "sorted_wrt (<) (map fst (ports T1 T2 mcs r))"
      unfolding tile(3) tile_ports [OF tile(1,2)] by (simp add: comp_def sorted_wrt_filter del: upt_Suc upt_rec_numeral)
    then have "distinct (map fst (ports T1 T2 mcs r))" by (simp add: strict_sorted_iff)
    then have "distinct (ports T1 T2 mcs r)" by (simp add: distinct_map)
    moreover have "inj_on snd (set (ports T1 T2 mcs r))"
      using tile_port_unique [OF ok tile(1,2)] by (auto simp: inj_on_def tile(3))
    ultimately show ?thesis using s by (simp add: distinct_map)
  next
    case (mem m)
    then show ?thesis using mem_ports [OF ok mem(1)] by simp
  qed (simp add: chipset_ports)
  then show "sorted_wrt (<) (map fst (ports T1 T2 mcs r))" "distinct (map snd (ports T1 T2 mcs r))" by auto
qed

section \<open>The order in which waiting ends\<close>

text \<open>A number for every port that grows along the ports of a rank, and is smaller at the ports that the rank at the
  other end serves before it answers.\<close>

definition port_prio :: "nat \<Rightarrow> nat \<Rightarrow> nat \<Rightarrow> nat \<Rightarrow> nat" where
  "port_prio T1 T2 r i =
     (if 0 < r \<and> r \<le> T1 * T2 \<and> i < 3
      then 4 * ((r - 1) div T1 * (T1 + 1) + (T1 - (r - 1) mod T1)) + i
      else 4 * (T2 + 1) * (T1 + 1))"

lemma top_prio: "r = 0 \<or> T1 * T2 < r \<or> 3 \<le> i \<Longrightarrow> port_prio T1 T2 r i = 4 * (T2 + 1) * (T1 + 1)"
  by (auto simp: port_prio_def)

lemma tile_prio: "x < T1 \<Longrightarrow> y < T2 \<Longrightarrow> i < 3 \<Longrightarrow> port_prio T1 T2 (tile_rank T1 x y) i = 4 * (y * (T1 + 1) + (T1 - x)) + i"
  using tile_rank_bounds [of x T1 y T2] by (simp add: port_prio_def) (simp add: tile_rank_def)

lemma prio_below_top: "y < T2 \<Longrightarrow> i < 4 \<Longrightarrow> 4 * (y * (T1 + 1) + (T1 - x)) + i < 4 * (T2 + 1) * (T1 + 1)"
  for T1 T2 x y i :: nat
proof -
  assume a: "y < T2" "i < 4"
  have "T1 - x < T1 + 1" by arith
  then have "y * (T1 + 1) + (T1 - x) < (y + 1) * (T1 + 1)" by (simp only: distrib_right [of y 1] mult_1_left add_less_cancel_left)
  also have "\<dots> \<le> T2 * (T1 + 1)" using a by (intro mult_le_mono1) simp
  finally have l: "y * (T1 + 1) + (T1 - x) < T2 * (T1 + 1)" .
  have "m < n \<Longrightarrow> 4 * m + i < 4 * n" for m n :: nat using a(2) by arith
  from this [OF l] have "4 * (y * (T1 + 1) + (T1 - x)) + i < 4 * (T2 * (T1 + 1))" .
  also have "\<dots> \<le> 4 * (T2 + 1) * (T1 + 1)" by (simp add: algebra_simps)
  finally show ?thesis .
qed

lemma port_prio_less:
  assumes ok: "mcs_ok T1 T2 mcs" and r: "r < num_ranks T1 T2 mcs" and p: "(i, s) \<in> set (ports T1 T2 mcs r)"
    and q: "(j, r) \<in> set (ports T1 T2 mcs s)" and j': "(j', s') \<in> set (ports T1 T2 mcs s)" "j' < j"
  shows "port_prio T1 T2 s j' < port_prio T1 T2 r i"
proof -
  have "s < num_ranks T1 T2 mcs" using ports_symmetric [OF ok r p] by simp
  then show ?thesis
  proof (cases rule: rank_cases)
    case (tile a b)
    note q' = q [unfolded tile(3)]
    have jj: "j' < 3" "j' < 4" using j' q' tile_port_iff [OF tile(1,2)] by auto
    note ps = tile_prio [OF tile(1,2) jj(1)] and top = prio_below_top [OF tile(2) jj(2), of T1 a]
    show ?thesis
    proof (cases rule: tile_port_cases [OF ok tile(1,2) q', case_names east north west south chipset mem])
      case east
      then show ?thesis using j'(2) by simp
    next
      case north
      then have "i = 3" using tile_port_unique [OF ok, of a "b - 1" i s 3] tile_opposite(2) [OF tile(1,2)] p tile by auto
      then show ?thesis using ps top tile(3) top_prio [of r T1 T2 i] by simp
    next
      case west
      then have "i = 0" using tile_port_unique [OF ok, of "a - 1" b i s 0] tile_opposite(3) [OF tile(1,2)] p tile by auto
      then show ?thesis using ps west j'(2) tile tile_prio [of "a - 1" T1 b T2 0] by simp
    next
      case south
      then have "i = 1" using tile_port_unique [OF ok, of a "b + 1" i s 1] tile_opposite(4) [OF tile(1,2)] p tile by auto
      then show ?thesis using ps south jj tile tile_prio [of a T1 "b + 1" T2 1] by simp
    next
      case chipset
      then show ?thesis using ps top tile(3) top_prio [of r T1 T2 i] by simp
    next
      case (mem m q)
      then show ?thesis using ps top tile(3) top_prio [of r T1 T2 i] by simp
    qed
  next
    case chipset
    then show ?thesis using q j' by (simp add: chipset_ports)
  next
    case (mem m)
    then show ?thesis using q j' mem_ports [OF ok mem(1)] by simp
  qed
qed

lemma port_prio_mono:
  assumes "(i, s) \<in> set (ports T1 T2 mcs r)" "(j, t) \<in> set (ports T1 T2 mcs r)" "i \<le> j" "r < num_ranks T1 T2 mcs"
  shows "port_prio T1 T2 r i \<le> port_prio T1 T2 r j"
  using assms(4)
proof (cases rule: rank_cases)
  case (tile x y)
  then have ij: "i < 4" "j < 4" using assms(1,2) tile_port_iff by blast+
  show ?thesis
  proof (cases "j < 3")
    case True
    then show ?thesis using assms(3) tile(3) tile_prio [OF tile(1,2)] by simp
  next
    case False
    then have j: "port_prio T1 T2 r j = 4 * (T2 + 1) * (T1 + 1)" by (intro top_prio) simp
    show ?thesis
    proof (cases "i < 3")
      case True
      then show ?thesis using j tile(3) tile_prio [OF tile(1,2) True] prio_below_top [OF tile(2) ij(1), of T1 x] by simp
    qed (use j top_prio [of r T1 T2 i] in simp)
  qed
qed (auto simp: top_prio)

section \<open>The cores of a rank\<close>

text \<open>Each tile rank simulates \<open>T3\<close> cores of a machine of \<open>X * Y\<close>, and gives each its coordinates; a core beyond the
  machine is not enabled.\<close>

record core_id =
  default_coreid_x :: int
  default_coreid_y :: int
  flat_tileid :: int
  cpu_enable :: bool

definition core_ids :: "nat \<Rightarrow> nat \<Rightarrow> nat \<Rightarrow> int \<Rightarrow> core_id list" where
  "core_ids T3 X Y mpi_rank =
     (let first_tile_id = (mpi_rank - 1) * int T3 in
      map (\<lambda>l. let current_tile_id = first_tile_id + int l in
        \<lparr>default_coreid_x = current_tile_id mod int X, default_coreid_y = current_tile_id div int X, flat_tileid = current_tile_id,
         cpu_enable = (current_tile_id < int (X * Y))\<rparr>) [0..<T3])"

definition core_at :: "nat \<Rightarrow> nat \<Rightarrow> nat \<Rightarrow> core_id" where
  "core_at X Y c = \<lparr>default_coreid_x = int (c mod X), default_coreid_y = int (c div X), flat_tileid = int c, cpu_enable = (c < X * Y)\<rparr>"

lemma core_ids_eq: "core_ids T3 X Y (int (Suc r)) = map (core_at X Y) [r * T3..<Suc r * T3]"
proof -
  have "[r * T3..<Suc r * T3] = map (\<lambda>l. r * T3 + l) [0..<T3]"
    using map_add_upt [of "r * T3" T3] by (simp add: add.commute)
  moreover have "int r * int T3 + int l = int (r * T3 + l)" for l by simp
  ultimately show ?thesis
    by (simp add: core_ids_def core_at_def Let_def zmod_int zdiv_int del: of_nat_add of_nat_mult)
qed

lemma all_core_ids: "concat (map (\<lambda>r. core_ids T3 X Y (int r)) [1..<n + 1]) = map (core_at X Y) [0..<n * T3]"
proof (induction n)
  case (Suc n)
  have "[0..<Suc n * T3] = [0..<n * T3] @ [n * T3..<Suc n * T3]"
    using upt_add_eq_append [of 0 "n * T3" T3] by (simp add: add.commute)
  with Suc show ?case by (simp add: core_ids_eq del: of_nat_Suc)
qed simp

lemma enabled_cores:
  assumes "X * Y \<le> n * T3"
  shows "filter cpu_enable (concat (map (\<lambda>r. core_ids T3 X Y (int r)) [1..<n + 1])) = map (core_at X Y) [0..<X * Y]"
proof -
  have "[0..<n * T3] = [0..<X * Y] @ [X * Y..<n * T3]" using upt_add_eq_append [of 0 "X * Y" "n * T3 - X * Y"] assms by simp
  moreover have "filter (cpu_enable \<circ> core_at X Y) [0..<X * Y] = [0..<X * Y]" by (rule filter_True) (simp add: core_at_def)
  moreover have "filter (cpu_enable \<circ> core_at X Y) [X * Y..<n * T3] = []" by (rule filter_False) (simp add: core_at_def)
  ultimately show ?thesis unfolding all_core_ids filter_map by simp
qed

lemma core_rows:
  assumes "0 < X"
  shows "map (\<lambda>c. (int (c mod X), int (c div X))) [0..<X * Y] = concat (map (\<lambda>y. map (\<lambda>x. (int x, int y)) [0..<X]) [0..<Y])"
proof (induction Y)
  case (Suc Y)
  have "[0..<X * Suc Y] = [0..<X * Y] @ map (\<lambda>x. X * Y + x) [0..<X]"
    using upt_add_eq_append [of 0 "X * Y" X] map_add_upt [of "X * Y" X] by (simp add: add.commute)
  moreover have "map (\<lambda>c. (int (c mod X), int (c div X))) (map (\<lambda>x. X * Y + x) [0..<X]) = map (\<lambda>x. (int x, int Y)) [0..<X]"
    using assms by (simp del: of_nat_mod of_nat_div)
  ultimately show ?case using Suc by simp
qed simp

end
