(* ===== verification/MM_Exchange.thy ===== *)
theory MM_Exchange
  imports MM_Topology
begin

text \<open>
  The exchange of channel messages in a distributed simulation: \<open>mpi_work_opt\<close>, \<open>mpi_work_opt_chipset\<close>,
  \<open>mpi_work_opt_fake_mem\<close> and \<open>mpi_tick\<close> of the three programs \<open>my_metro_*.cpp\<close> under \<open>src/piton/tools/verilator/\<close>,
  and \<open>mpi_send_chan\<close>, \<open>mpi_receive_chan\<close> of \<open>metro_mpi.cpp\<close>. In every round a rank sends and receives once per port,
  then evaluates its part of the design; a tick has \<open>smart_max + 2\<close> rounds and raises the clock before the first.

  The compiled design is the record \<open>verilated\<close>: what it puts on a channel, and \<open>eval\<close>, which computes its next state
  from the clock and the inputs; the inputs are members of the design that only the program writes.
  MPI is a queue of messages for every pair of ranks (messages of one pair do not overtake). \<open>MPI_Recv\<close> waits until there
  is one; \<open>MPI_Send\<close> waits while the queue holds \<open>cap\<close> messages, unless the receiver waits for this one. What MPI stores
  is its own choice, so \<open>cap\<close> is an argument; it may be zero. A state of the system holds the position of every rank: the number of
  rounds it completed, the port it is at, and whether it sent there. \<open>K\<close> is the number of rounds to run. The messages of
  the latency model (\<open>MM_Latency\<close>) and the statistics (\<open>MM_Stats\<close>) are not part of this theory.

  The lemmas show that any interleaving computes what a simulation in lock step computes, that no rank waits for
  ever when MPI stores at least one message per pair, that nothing moves when it stores none, and how many messages are
  ever stored.
\<close>

section \<open>The programs\<close>

record ('v, 'm) verilated =
  noc_out :: "nat \<Rightarrow> nat \<Rightarrow> 'v \<Rightarrow> 'm"
  eval :: "nat \<Rightarrow> nat \<Rightarrow> (nat \<Rightarrow> 'm) \<Rightarrow> 'v \<Rightarrow> 'v"

text \<open>The object \<open>top\<close>: the state of the design and the inputs \<open>noc_chanel_in\<close>.\<close>

record ('v, 'm) node =
  nd_state :: 'v
  nd_in :: "nat \<Rightarrow> 'm"

definition noc_chanel_out :: "('v, 'm) verilated \<Rightarrow> nat \<Rightarrow> nat \<Rightarrow> ('v, 'm) node \<Rightarrow> 'm" where
  "noc_chanel_out M r i tp = noc_out M r i (nd_state tp)"

definition set_noc_in :: "nat \<Rightarrow> 'm \<Rightarrow> ('v, 'm) node \<Rightarrow> ('v, 'm) node" where
  "set_noc_in i m tp = tp\<lparr>nd_in := (nd_in tp)(i := m)\<rparr>"

definition eval_top :: "('v, 'm) verilated \<Rightarrow> nat \<Rightarrow> nat \<Rightarrow> ('v, 'm) node \<Rightarrow> ('v, 'm) node" where
  "eval_top M r clk tp = tp\<lparr>nd_state := eval M r clk (nd_in tp) (nd_state tp)\<rparr>"

text \<open>The first half of \<open>mpi_tick\<close>, up to the exchange of its first round: the clock is raised.\<close>

definition tick_start :: "('v, 'm) verilated \<Rightarrow> nat \<Rightarrow> ('v, 'm) node \<Rightarrow> ('v, 'm) node" where
  "tick_start M r tp = eval_top M r 1 tp"

text \<open>From the end of the exchange of round \<open>t\<close> to the next exchange; the clock is low in the rounds. Every rank reads
  \<open>smart_max\<close> from its own part of the design.\<close>

definition after_work :: "('v, 'm) verilated \<Rightarrow> (nat \<Rightarrow> nat) \<Rightarrow> nat \<Rightarrow> nat \<Rightarrow> ('v, 'm) node \<Rightarrow> ('v, 'm) node" where
  "after_work M smart_max r t tp =
     (let tp = eval_top M r 0 tp in
      if Suc t mod (smart_max r + 2) = 0 then tick_start M r tp else tp)"

record ('v, 'm) proc =
  pr_round :: nat
  pr_at :: nat
  pr_sent :: bool
  pr_top :: "('v, 'm) node"

record ('v, 'm) network =
  nw_proc :: "nat \<Rightarrow> ('v, 'm) proc"
  nw_chan :: "nat \<Rightarrow> nat \<Rightarrow> 'm list"

text \<open>\<open>MPI_Send\<close> returns when the message could be stored or when it is handed to a rank that waits for it. \<open>cap\<close> is how
  many messages MPI stores for a pair of ranks, \<open>waiting\<close> whether the receiver is at its \<open>MPI_Recv\<close>; \<open>None\<close> means that
  the sender must wait.\<close>

definition mpi_send_chan :: "nat \<Rightarrow> bool \<Rightarrow> nat \<Rightarrow> nat \<Rightarrow> 'm \<Rightarrow> (nat \<Rightarrow> nat \<Rightarrow> 'm list) \<Rightarrow> (nat \<Rightarrow> nat \<Rightarrow> 'm list) option" where
  "mpi_send_chan cap waiting r dest m ch =
     (if length (ch r dest) < cap \<or> waiting \<and> ch r dest = [] then Some (ch(r := (ch r)(dest := ch r dest @ [m]))) else None)"

definition mpi_receive_chan :: "nat \<Rightarrow> nat \<Rightarrow> (nat \<Rightarrow> nat \<Rightarrow> 'm list) \<Rightarrow> ('m \<times> (nat \<Rightarrow> nat \<Rightarrow> 'm list)) option" where
  "mpi_receive_chan r origin ch =
     (case ch origin r of [] \<Rightarrow> None | m # ms \<Rightarrow> Some (m, ch(origin := (ch origin)(r := ms))))"

text \<open>Rank \<open>d\<close> is in \<open>mpi_receive_chan\<close> with origin \<open>r\<close>.\<close>

definition receiving :: "(nat \<Rightarrow> (nat \<times> nat) list) \<Rightarrow> nat \<Rightarrow> ('v, 'm) network \<Rightarrow> nat \<Rightarrow> nat \<Rightarrow> bool" where
  "receiving prts K s d r = (let q = nw_proc s d in
     pr_round q < K \<and> pr_at q < length (prts d) \<and> pr_sent q \<and> snd (prts d ! pr_at q) = r)"

text \<open>One step of rank \<open>r\<close>; \<open>None\<close> when it is done or must wait.\<close>

definition rank_step ::
  "('v, 'm) verilated \<Rightarrow> (nat \<Rightarrow> (nat \<times> nat) list) \<Rightarrow> (nat \<Rightarrow> nat) \<Rightarrow> nat \<Rightarrow> nat \<Rightarrow> nat \<Rightarrow> ('v, 'm) network \<Rightarrow> ('v, 'm) network option" where
  "rank_step M prts smart_max cap K r s =
     (let p = nw_proc s r in
      if pr_round p \<ge> K then None
      else if pr_at p < length (prts r)
      then
        let (i, other) = prts r ! pr_at p in
        if \<not> pr_sent p
        then case mpi_send_chan cap (receiving prts K s other r) r other (noc_chanel_out M r i (pr_top p)) (nw_chan s) of
            None \<Rightarrow> None
          | Some ch \<Rightarrow> Some (s\<lparr>nw_proc := (nw_proc s)(r := p\<lparr>pr_sent := True\<rparr>), nw_chan := ch\<rparr>)
        else case mpi_receive_chan r other (nw_chan s) of
            None \<Rightarrow> None
          | Some (m, ch) \<Rightarrow> Some (s\<lparr>nw_proc := (nw_proc s)(r := p\<lparr>pr_sent := False, pr_at := Suc (pr_at p),
                                      pr_top := set_noc_in i m (pr_top p)\<rparr>), nw_chan := ch\<rparr>)
      else Some (s\<lparr>nw_proc := (nw_proc s)(r := p\<lparr>pr_round := Suc (pr_round p), pr_at := 0,
                                      pr_top := after_work M smart_max r (pr_round p) (pr_top p)\<rparr>)\<rparr>))"

inductive mpi_step ::
  "('v, 'm) verilated \<Rightarrow> (nat \<Rightarrow> (nat \<times> nat) list) \<Rightarrow> (nat \<Rightarrow> nat) \<Rightarrow> nat \<Rightarrow> nat \<Rightarrow> nat \<Rightarrow> ('v, 'm) network \<Rightarrow> ('v, 'm) network \<Rightarrow> bool"
  for M prts smart_max cap K n where
  step: "r < n \<Longrightarrow> rank_step M prts smart_max cap K r s = Some s' \<Longrightarrow> mpi_step M prts smart_max cap K n s s'"

inductive_cases mpi_stepE: "mpi_step M prts smart_max cap K n s s'"

definition start_net :: "('v, 'm) verilated \<Rightarrow> (nat \<Rightarrow> ('v, 'm) node) \<Rightarrow> ('v, 'm) network" where
  "start_net M init = \<lparr>nw_proc = (\<lambda>r. \<lparr>pr_round = 0, pr_at = 0, pr_sent = False, pr_top = tick_start M r (init r)\<rparr>),
                    nw_chan = (\<lambda>_ _. [])\<rparr>"

section \<open>The simulation in lock step\<close>

text \<open>The port at which \<open>d\<close> has \<open>r\<close>, and its position in the order of the ports.\<close>

definition pos_of :: "(nat \<Rightarrow> (nat \<times> nat) list) \<Rightarrow> nat \<Rightarrow> nat \<Rightarrow> nat" where
  "pos_of prts d r = length (takeWhile (\<lambda>(i, s). s \<noteq> r) (prts d))"

definition port_of :: "(nat \<Rightarrow> (nat \<times> nat) list) \<Rightarrow> nat \<Rightarrow> nat \<Rightarrow> nat" where
  "port_of prts d r = fst (prts d ! pos_of prts d r)"

definition take_in :: "('v, 'm) verilated \<Rightarrow> (nat \<Rightarrow> (nat \<times> nat) list) \<Rightarrow> (nat \<Rightarrow> ('v, 'm) node) \<Rightarrow> nat \<Rightarrow> (nat \<times> nat) list \<Rightarrow> ('v, 'm) node \<Rightarrow> ('v, 'm) node" where
  "take_in M prts tops r ps tp =
     foldl (\<lambda>tp (i, d). set_noc_in i (noc_chanel_out M d (port_of prts d r) (tops d)) tp) tp ps"

text \<open>All ranks exchange what they have and evaluate, at the same time.\<close>

definition lock_step :: "('v, 'm) verilated \<Rightarrow> (nat \<Rightarrow> (nat \<times> nat) list) \<Rightarrow> (nat \<Rightarrow> nat) \<Rightarrow> nat \<Rightarrow> (nat \<Rightarrow> ('v, 'm) node) \<Rightarrow> (nat \<Rightarrow> ('v, 'm) node)" where
  "lock_step M prts smart_max t tops r = after_work M smart_max r t (take_in M prts tops r (prts r) (tops r))"

primrec lock_run :: "('v, 'm) verilated \<Rightarrow> (nat \<Rightarrow> (nat \<times> nat) list) \<Rightarrow> (nat \<Rightarrow> nat) \<Rightarrow> (nat \<Rightarrow> ('v, 'm) node) \<Rightarrow> nat \<Rightarrow> nat \<Rightarrow> ('v, 'm) node" where
  "lock_run M prts smart_max init 0 = (\<lambda>r. tick_start M r (init r))"
| "lock_run M prts smart_max init (Suc t) = lock_step M prts smart_max t (lock_run M prts smart_max init t)"

text \<open>How many messages \<open>r\<close> has sent to \<open>d\<close>, and received from it.\<close>

definition sent_count :: "(nat \<Rightarrow> (nat \<times> nat) list) \<Rightarrow> ('v, 'm) network \<Rightarrow> nat \<Rightarrow> nat \<Rightarrow> nat" where
  "sent_count prts s r d = (let p = nw_proc s r; k = pos_of prts r d in
     pr_round p + (if k < pr_at p \<or> k = pr_at p \<and> pr_sent p then 1 else 0))"

definition recv_count :: "(nat \<Rightarrow> (nat \<times> nat) list) \<Rightarrow> ('v, 'm) network \<Rightarrow> nat \<Rightarrow> nat \<Rightarrow> nat" where
  "recv_count prts s r d = (let p = nw_proc s r in pr_round p + (if pos_of prts r d < pr_at p then 1 else 0))"

section \<open>The contract of the connections\<close>

text \<open>What the exchange needs of the table of ports; \<open>prio\<close> orders the ports by when waiting at them ends.\<close>

locale connections =
  fixes n :: nat and prts :: "nat \<Rightarrow> (nat \<times> nat) list" and prio :: "nat \<Rightarrow> nat \<Rightarrow> nat"
  assumes sym: "r < n \<Longrightarrow> (i, d) \<in> set (prts r) \<Longrightarrow> d < n \<and> (\<exists>j. (j, r) \<in> set (prts d))"
    and sorted: "r < n \<Longrightarrow> sorted_wrt (<) (map fst (prts r))"
    and dist: "r < n \<Longrightarrow> distinct (map snd (prts r))"
    and prio_less: "r < n \<Longrightarrow> (i, d) \<in> set (prts r) \<Longrightarrow> (j, r) \<in> set (prts d) \<Longrightarrow> (j', d') \<in> set (prts d) \<Longrightarrow> j' < j \<Longrightarrow>
      prio d j' < prio r i"

locale exchange = connections +
  fixes M :: "('v, 'm) verilated" and smart_max :: "nat \<Rightarrow> nat" and cap K :: nat and init :: "nat \<Rightarrow> ('v, 'm) node"

context connections
begin

lemma pos_of_nth:
  assumes "r < n" "k < length (prts r)"
  shows "pos_of prts r (snd (prts r ! k)) = k"
proof -
  have "takeWhile (\<lambda>(i, s). s \<noteq> snd (prts r ! k)) (prts r) = take k (prts r)"
  proof (rule takeWhile_eq_take_P_nth)
    show "case prts r ! i of (j, s) \<Rightarrow> s \<noteq> snd (prts r ! k)" if "i < k" "i < length (prts r)" for i
      using that assms nth_eq_iff_index_eq [OF dist [OF assms(1)], of i k] by (auto simp: case_prod_unfold)
  qed (auto simp: case_prod_unfold)
  then show ?thesis using assms(2) by (simp add: pos_of_def)
qed

lemma linked:
  assumes "r < n" "(i, d) \<in> set (prts r)"
  shows "pos_of prts r d < length (prts r)" "prts r ! pos_of prts r d = (i, d)" "port_of prts r d = i"
proof -
  obtain k where k: "k < length (prts r)" "prts r ! k = (i, d)" using assms(2) by (auto simp: in_set_conv_nth)
  then have "pos_of prts r d = k" using pos_of_nth [OF assms(1) k(1)] by simp
  with k show "pos_of prts r d < length (prts r)" "prts r ! pos_of prts r d = (i, d)" "port_of prts r d = i"
    by (auto simp: port_of_def)
qed

lemma port_less:
  assumes "r < n" "k < l" "l < length (prts r)"
  shows "fst (prts r ! k) < fst (prts r ! l)"
  using sorted [OF assms(1)] assms(2,3) by (auto simp: sorted_wrt_iff_nth_less)

end

context exchange
begin

abbreviation lock :: "nat \<Rightarrow> nat \<Rightarrow> ('v, 'm) node" where
  "lock \<equiv> lock_run M prts smart_max init"

abbreviation next_net :: "('v, 'm) network \<Rightarrow> ('v, 'm) network \<Rightarrow> bool" where
  "next_net \<equiv> mpi_step M prts smart_max cap K n"

definition proc_ok :: "nat \<Rightarrow> ('v, 'm) proc \<Rightarrow> bool" where
  "proc_ok r p \<longleftrightarrow> pr_round p \<le> K \<and> pr_at p \<le> length (prts r) \<and> (pr_sent p \<longrightarrow> pr_at p < length (prts r)) \<and>
     (pr_round p = K \<longrightarrow> pr_at p = 0 \<and> \<not> pr_sent p) \<and>
     pr_top p = take_in M prts (lock (pr_round p)) r (take (pr_at p) (prts r)) (lock (pr_round p) r)"

definition chan_ok :: "('v, 'm) network \<Rightarrow> nat \<Rightarrow> nat \<Rightarrow> nat \<Rightarrow> bool" where
  "chan_ok s r i d \<longleftrightarrow> recv_count prts s d r \<le> sent_count prts s r d \<and>
     nw_chan s r d = map (\<lambda>t. noc_chanel_out M r i (lock t r)) [recv_count prts s d r..<sent_count prts s r d]"

definition net_ok :: "('v, 'm) network \<Rightarrow> bool" where
  "net_ok s \<longleftrightarrow> (\<forall>r < n. proc_ok r (nw_proc s r)) \<and> (\<forall>r < n. \<forall>(i, d) \<in> set (prts r). chan_ok s r i d)"

lemma out_take_in: "noc_chanel_out M r i (take_in M prts tops r ps tp) = noc_chanel_out M r i tp"
  by (induction ps arbitrary: tp) (auto simp: take_in_def noc_chanel_out_def set_noc_in_def)

lemma take_in_snoc:
  "take_in M prts tops r (ps @ [(i, d)]) tp = set_noc_in i (noc_chanel_out M d (port_of prts d r) (tops d)) (take_in M prts tops r ps tp)"
  by (simp add: take_in_def)

lemma start_ok: "net_ok (start_net M init)"
  by (auto simp: net_ok_def start_net_def proc_ok_def chan_ok_def sent_count_def recv_count_def take_in_def)

text \<open>The position of a rank that is not done.\<close>

lemma at_port:
  assumes "net_ok s" "r < n" "pr_at (nw_proc s r) < length (prts r)" "prts r ! pr_at (nw_proc s r) = (i, d)"
  shows "(i, d) \<in> set (prts r)" "pos_of prts r d = pr_at (nw_proc s r)" "chan_ok s r i d"
    "d < n" "(port_of prts d r, r) \<in> set (prts d)" "chan_ok s d (port_of prts d r) r"
proof -
  show id: "(i, d) \<in> set (prts r)" using assms(3,4) by (metis nth_mem)
  show "pos_of prts r d = pr_at (nw_proc s r)" using pos_of_nth [OF assms(2,3)] assms(4) by simp
  show "chan_ok s r i d" using assms(1,2) id by (auto simp: net_ok_def)
  obtain j where j: "d < n" "(j, r) \<in> set (prts d)" using sym [OF assms(2) id] by blast
  then show "d < n" "(port_of prts d r, r) \<in> set (prts d)" "chan_ok s d (port_of prts d r) r"
    using linked(3) [OF j] assms(1) by (auto simp: net_ok_def)
qed

lemma other_chan_ok:
  assumes "chan_ok s a i b" "sent_count prts s' a b = sent_count prts s a b" "recv_count prts s' b a = recv_count prts s b a"
    "nw_chan s' a b = nw_chan s a b"
  shows "chan_ok s' a i b"
  using assms by (simp add: chan_ok_def)

lemma net_okD:
  assumes "net_ok s"
  shows "r < n \<Longrightarrow> proc_ok r (nw_proc s r)" "r < n \<Longrightarrow> (i, d) \<in> set (prts r) \<Longrightarrow> chan_ok s r i d"
  using assms by (auto simp: net_ok_def)

lemma net_okI:
  "(\<And>r. r < n \<Longrightarrow> proc_ok r (nw_proc s r)) \<Longrightarrow> (\<And>r i d. r < n \<Longrightarrow> (i, d) \<in> set (prts r) \<Longrightarrow> chan_ok s r i d) \<Longrightarrow> net_ok s"
  by (auto simp: net_ok_def)

lemma count_upd:
  "sent_count prts (s\<lparr>nw_proc := (nw_proc s)(r := q), nw_chan := c\<rparr>) a b =
     (if a = r then pr_round q + (if pos_of prts r b < pr_at q \<or> pos_of prts r b = pr_at q \<and> pr_sent q then 1 else 0)
      else sent_count prts s a b)"
  "recv_count prts (s\<lparr>nw_proc := (nw_proc s)(r := q), nw_chan := c\<rparr>) a b =
     (if a = r then pr_round q + (if pos_of prts r b < pr_at q then 1 else 0) else recv_count prts s a b)"
  "sent_count prts (s\<lparr>nw_proc := (nw_proc s)(r := q)\<rparr>) a b =
     (if a = r then pr_round q + (if pos_of prts r b < pr_at q \<or> pos_of prts r b = pr_at q \<and> pr_sent q then 1 else 0)
      else sent_count prts s a b)"
  "recv_count prts (s\<lparr>nw_proc := (nw_proc s)(r := q)\<rparr>) a b =
     (if a = r then pr_round q + (if pos_of prts r b < pr_at q then 1 else 0) else recv_count prts s a b)"
  by (simp_all add: sent_count_def recv_count_def Let_def)

lemma count_self:
  assumes "p = nw_proc s r"
  shows "sent_count prts s r b = pr_round p + (if pos_of prts r b < pr_at p \<or> pos_of prts r b = pr_at p \<and> pr_sent p then 1 else 0)"
    "recv_count prts s r b = pr_round p + (if pos_of prts r b < pr_at p then 1 else 0)"
  using assms by (simp_all add: sent_count_def recv_count_def Let_def)

lemma send_ok:
  assumes ok: "net_ok s" and r: "r < n" and p: "p = nw_proc s r" "pr_round p < K" "pr_at p < length (prts r)"
    "prts r ! pr_at p = (i, other)" "\<not> pr_sent p"
  shows "net_ok (s\<lparr>nw_proc := (nw_proc s)(r := p\<lparr>pr_sent := True\<rparr>),
      nw_chan := (nw_chan s)(r := (nw_chan s r)(other := nw_chan s r other @ [noc_chanel_out M r i (pr_top p)]))\<rparr>)" (is "net_ok ?s")
proof -
  note at = at_port [OF ok r p(3) [unfolded p(1)] p(4) [unfolded p(1)], folded p(1)]
  have pr: "proc_ok r p" unfolding p(1) by (rule net_okD(1) [OF ok r])
  have "chan_ok ?s a j b" if ab: "a < n" "(j, b) \<in> set (prts a)" for a j b
  proof (cases "a = r \<and> b = other")
    case True
    then have j: "j = i" using linked(2) [OF ab] linked(2) [OF r at(1)] by simp
    have "noc_chanel_out M r i (pr_top p) = noc_chanel_out M r i (lock (pr_round p) r)"
      using pr by (simp add: proc_ok_def out_take_in)
    moreover have "recv_count prts ?s other r = recv_count prts s other r"
      by (simp add: count_upd count_self [OF p(1)])
    moreover have "sent_count prts s r other = pr_round p" "sent_count prts ?s r other = Suc (pr_round p)"
      using p(5) at(2) by (simp_all add: count_upd count_self [OF p(1)])
    moreover have "nw_chan ?s r other = nw_chan s r other @ [noc_chanel_out M r i (pr_top p)]"
      by simp
    ultimately show ?thesis using at(3) True j by (simp add: chan_ok_def)
  next
    case False
    have "chan_ok s a j b" by (rule net_okD(2) [OF ok ab])
    moreover have "sent_count prts ?s a b = sent_count prts s a b"
    proof (cases "a = r")
      case True
      then have "pos_of prts r b \<noteq> pr_at p" using linked(2) [OF ab] p(4) False by auto
      then show ?thesis using True by (simp add: count_upd count_self [OF p(1)])
    qed (simp add: count_upd)
    moreover have "recv_count prts ?s b a = recv_count prts s b a" by (simp add: count_upd count_self [OF p(1)])
    moreover have "nw_chan ?s a b = nw_chan s a b" using False by auto
    ultimately show ?thesis by (rule other_chan_ok)
  qed
  moreover have "proc_ok a (nw_proc ?s a)" if "a < n" for a
    using net_okD(1) [OF ok that] pr p(2,3) by (cases "a = r") (simp_all add: proc_ok_def)
  ultimately show ?thesis by (intro net_okI)
qed

lemma recv_ok:
  assumes ok: "net_ok s" and r: "r < n" and p: "p = nw_proc s r" "pr_round p < K" "pr_at p < length (prts r)"
    "prts r ! pr_at p = (i, other)" "pr_sent p" and m: "nw_chan s other r = m # ms"
  shows "net_ok (s\<lparr>nw_proc := (nw_proc s)(r := p\<lparr>pr_sent := False, pr_at := Suc (pr_at p), pr_top := set_noc_in i m (pr_top p)\<rparr>),
      nw_chan := (nw_chan s)(other := (nw_chan s other)(r := ms))\<rparr>)" (is "net_ok ?s")
proof -
  note at = at_port [OF ok r p(3) [unfolded p(1)] p(4) [unfolded p(1)], folded p(1)]
  have pr: "proc_ok r p" unfolding p(1) by (rule net_okD(1) [OF ok r])
  have rc: "recv_count prts s r other = pr_round p" using at(2) by (simp add: count_self [OF p(1)])
  have q: "map (\<lambda>t. noc_chanel_out M other (port_of prts other r) (lock t other)) [pr_round p..<sent_count prts s other r] = m # ms"
    using at(6) m rc by (simp add: chan_ok_def)
  have more: "pr_round p < sent_count prts s other r"
    by (rule ccontr) (use q in simp)
  have mm: "m = noc_chanel_out M other (port_of prts other r) (lock (pr_round p) other)"
    "ms = map (\<lambda>t. noc_chanel_out M other (port_of prts other r) (lock t other)) [Suc (pr_round p)..<sent_count prts s other r]"
    using q unfolding upt_conv_Cons [OF more] by simp_all
  have sc: "sent_count prts ?s a b = sent_count prts s a b" for a b
    using p(5) by (auto simp: count_upd count_self [OF p(1)])
  have "chan_ok ?s a j b" if ab: "a < n" "(j, b) \<in> set (prts a)" for a j b
  proof (cases "a = other \<and> b = r")
    case True
    then have j: "j = port_of prts other r" using linked(3) [OF ab] by simp
    have "recv_count prts ?s r other = Suc (pr_round p)" using at(2) by (simp add: count_upd)
    moreover have "nw_chan ?s other r = ms" by simp
    ultimately show ?thesis using True j sc [of other r] mm(2) more by (simp add: chan_ok_def)
  next
    case False
    have "chan_ok s a j b" by (rule net_okD(2) [OF ok ab])
    moreover have "recv_count prts ?s b a = recv_count prts s b a"
    proof (cases "b = r")
      case True
      obtain k where "(k, a) \<in> set (prts r)" using sym [OF ab] True by blast
      then have "prts r ! pos_of prts r a = (k, a)" by (rule linked(2) [OF r])
      then have "pos_of prts r a \<noteq> pr_at p" using p(4) False True by auto
      then show ?thesis using True by (simp add: count_upd count_self [OF p(1)])
    qed (simp add: count_upd)
    moreover have "nw_chan ?s a b = nw_chan s a b" using False by auto
    ultimately show ?thesis by (rule other_chan_ok [OF _ sc])
  qed
  moreover have "proc_ok a (nw_proc ?s a)" if "a < n" for a
  proof (cases "a = r")
    case True
    have "take (Suc (pr_at p)) (prts r) = take (pr_at p) (prts r) @ [(i, other)]"
      using p(3,4) by (simp add: take_Suc_conv_app_nth)
    then show ?thesis using True pr p(2,3) mm(1) by (simp add: proc_ok_def take_in_snoc)
  qed (use net_okD(1) [OF ok that] in simp)
  ultimately show ?thesis by (intro net_okI)
qed

lemma finish_ok:
  assumes ok: "net_ok s" and r: "r < n" and p: "p = nw_proc s r" "pr_round p < K" "\<not> pr_at p < length (prts r)"
  shows "net_ok (s\<lparr>nw_proc := (nw_proc s)(r := p\<lparr>pr_round := Suc (pr_round p), pr_at := 0,
      pr_top := after_work M smart_max r (pr_round p) (pr_top p)\<rparr>)\<rparr>)" (is "net_ok ?s")
proof -
  have pr: "proc_ok r p" unfolding p(1) by (rule net_okD(1) [OF ok r])
  then have fin: "pr_at p = length (prts r)" "\<not> pr_sent p" using p(3) by (auto simp: proc_ok_def)
  have "chan_ok ?s a j b" if ab: "a < n" "(j, b) \<in> set (prts a)" for a j b
  proof (rule other_chan_ok)
    show "chan_ok s a j b" by (rule net_okD(2) [OF ok ab])
    show "sent_count prts ?s a b = sent_count prts s a b"
      using linked(1) [OF ab] fin p(1) by (auto simp: sent_count_def Let_def)
    obtain k where "b < n" "(k, a) \<in> set (prts b)" using sym [OF ab] by blast
    then show "recv_count prts ?s b a = recv_count prts s b a"
      using linked(1) [of b k a] fin p(1) by (auto simp: recv_count_def Let_def)
  qed simp
  moreover have "proc_ok a (nw_proc ?s a)" if "a < n" for a
    using net_okD(1) [OF ok that] pr p(2) fin by (cases "a = r") (simp_all add: proc_ok_def take_in_def lock_step_def)
  ultimately show ?thesis by (intro net_okI)
qed

lemma step_ok: "next_net s s' \<Longrightarrow> net_ok s \<Longrightarrow> net_ok s'"
proof (erule mpi_stepE)
  fix r
  assume ok: "net_ok s" and r: "r < n" and st: "rank_step M prts smart_max cap K r s = Some s'"
  define p where "p = nw_proc s r"
  have k: "pr_round p < K" using st by (auto simp: rank_step_def p_def Let_def split: if_splits)
  show "net_ok s'"
  proof (cases "pr_at p < length (prts r)")
    case True
    obtain i other where io: "prts r ! pr_at p = (i, other)" by fastforce
    show ?thesis
    proof (cases "pr_sent p")
      case True
      obtain m ms where m: "nw_chan s other r = m # ms"
        using st k \<open>pr_at p < length (prts r)\<close> True io
        by (cases "nw_chan s other r") (auto simp: rank_step_def p_def [symmetric] mpi_receive_chan_def)
      have "s' = s\<lparr>nw_proc := (nw_proc s)(r := p\<lparr>pr_sent := False, pr_at := Suc (pr_at p), pr_top := set_noc_in i m (pr_top p)\<rparr>),
          nw_chan := (nw_chan s)(other := (nw_chan s other)(r := ms))\<rparr>"
        using st k \<open>pr_at p < length (prts r)\<close> True io m by (simp add: rank_step_def p_def [symmetric] mpi_receive_chan_def)
      then show ?thesis using recv_ok [OF ok r p_def k \<open>pr_at p < length (prts r)\<close> io True m] by simp
    next
      case False
      then show ?thesis
        using st k \<open>pr_at p < length (prts r)\<close> io send_ok [OF ok r p_def k \<open>pr_at p < length (prts r)\<close> io False]
        by (auto simp: rank_step_def p_def [symmetric] mpi_send_chan_def split: if_splits)
    qed
  next
    case False
    then show ?thesis using st k finish_ok [OF ok r p_def k False] by (auto simp: rank_step_def p_def [symmetric])
  qed
qed

text \<open>A rank that is not done waits for a message, or with its own until an earlier one is received.\<close>

lemma blocked:
  assumes ok: "net_ok s" and r: "r < n" and cap: "0 < cap" and "pr_round (nw_proc s r) < K" and "rank_step M prts smart_max cap K r s = None"
  shows "\<exists>i d. pr_at (nw_proc s r) < length (prts r) \<and> prts r ! pr_at (nw_proc s r) = (i, d) \<and>
    (if pr_sent (nw_proc s r) then nw_chan s d r = [] else nw_chan s r d \<noteq> [])"
  using assms(3-5)
  by (auto simp: rank_step_def Let_def mpi_receive_chan_def mpi_send_chan_def split: if_splits prod.splits option.splits list.splits)

text \<open>When MPI stores at least one message, in every state some rank can go on, or all are done.\<close>

lemma all_done:
  assumes ok: "net_ok s" and cap: "0 < cap" and stuck: "\<And>r. r < n \<Longrightarrow> rank_step M prts smart_max cap K r s = None" and r: "r < n"
  shows "pr_round (nw_proc s r) = K"
proof -
  let ?at = "\<lambda>r. prts r ! pr_at (nw_proc s r)"
  have "\<not> pr_round (nw_proc s r) < K" if "r < n" for r
    using that
  proof (induction "(pr_round (nw_proc s r), prio r (fst (?at r)))" arbitrary: r
      rule: wf_induct_rule [OF wf_lex_prod [OF wf_less_than wf_less_than]])
    case (1 r)
    show ?case
    proof
      assume k: "pr_round (nw_proc s r) < K"
      obtain i d where b: "pr_at (nw_proc s r) < length (prts r)" "?at r = (i, d)"
        "if pr_sent (nw_proc s r) then nw_chan s d r = [] else nw_chan s r d \<noteq> []"
        using blocked [OF ok 1(2) cap k stuck [OF 1(2)]] by blast
      note at = at_port [OF ok 1(2) b(1,2)]
      have earlier: False if "pr_round (nw_proc s d) < pr_round (nw_proc s r)"
        using 1(1) [of d] at(4) that k by simp
      show False
      proof (cases "pr_sent (nw_proc s r)")
        case False
        then have "recv_count prts s d r < sent_count prts s r d" using at(3) b(3) by (auto simp: chan_ok_def)
        moreover have "sent_count prts s r d = pr_round (nw_proc s r)" using at(2) False by (simp add: sent_count_def Let_def)
        ultimately show False by (intro earlier) (auto simp: recv_count_def Let_def split: if_splits)
      next
        case True
        have "recv_count prts s r d = pr_round (nw_proc s r)" using at(2) by (simp add: recv_count_def Let_def)
        then have sd: "sent_count prts s d r = pr_round (nw_proc s r)" using at(6) b(3) True by (auto simp: chan_ok_def)
        then have "pr_round (nw_proc s d) \<le> pr_round (nw_proc s r)" by (auto simp: sent_count_def Let_def split: if_splits)
        with earlier have eq: "pr_round (nw_proc s d) = pr_round (nw_proc s r)" by fastforce
        then have kd: "pr_round (nw_proc s d) < K" using k by simp
        obtain i' d' where bd: "pr_at (nw_proc s d) < length (prts d)" "?at d = (i', d')"
          using blocked [OF ok at(4) cap kd stuck [OF at(4)]] by blast
        have not_past: "\<not> pos_of prts d r < pr_at (nw_proc s d)" "\<not> (pos_of prts d r = pr_at (nw_proc s d) \<and> pr_sent (nw_proc s d))"
          using sd eq by (auto simp: sent_count_def Let_def split: if_splits)
        show False
        proof (cases "pr_at (nw_proc s d) = pos_of prts d r")
          case False
          with not_past have "pr_at (nw_proc s d) < pos_of prts d r" by simp
          then have "i' < port_of prts d r"
            using port_less [OF at(4), of "pr_at (nw_proc s d)" "pos_of prts d r"] linked(1) [OF at(4,5)] bd(2)
            by (simp add: port_of_def)
          then have "prio d i' < prio r i" using prio_less [OF 1(2) at(1,5)] bd by (metis nth_mem)
          then show False using 1(1) [of d] at(4) kd eq b(2) bd(2) by simp
        next
          case same: True
          then have "?at d = (port_of prts d r, r)" "\<not> pr_sent (nw_proc s d)"
            using linked(2) [OF at(4,5)] not_past(2) by simp_all
          then have "nw_chan s d r \<noteq> []" using blocked [OF ok at(4) cap kd stuck [OF at(4)]] by auto
          with b(3) True show False by simp
        qed
      qed
    qed
  qed
  moreover have "pr_round (nw_proc s r) \<le> K" using ok r by (auto simp: net_ok_def proc_ok_def)
  ultimately show ?thesis using r by (meson linorder_not_less order_antisym)
qed

lemma chan_bound:
  assumes "net_ok s" "r < n" "(i, d) \<in> set (prts r)"
  shows "length (nw_chan s r d) \<le> 2"
proof -
  have c: "chan_ok s r i d" using assms by (auto simp: net_ok_def)
  obtain j where j: "d < n" "(j, r) \<in> set (prts d)" using sym [OF assms(2,3)] by blast
  have c': "chan_ok s d j r" using assms(1) j by (auto simp: net_ok_def)
  have "sent_count prts s r d \<le> Suc (recv_count prts s r d)" "sent_count prts s d r \<le> Suc (recv_count prts s d r)"
    by (auto simp: sent_count_def recv_count_def Let_def)
  then show ?thesis using c c' by (auto simp: chan_ok_def)
qed

lemma reachable_ok: "next_net\<^sup>*\<^sup>* (start_net M init) s \<Longrightarrow> net_ok s"
  by (induction rule: rtranclp_induct) (auto intro: start_ok step_ok)

text \<open>Every step uses up one of the \<open>2 * ports + 1\<close> steps of a round.\<close>

definition steps_done :: "('v, 'm) network \<Rightarrow> nat" where
  "steps_done s = (\<Sum>r < n. pr_round (nw_proc s r) * (2 * length (prts r) + 1) + 2 * pr_at (nw_proc s r)
     + (if pr_sent (nw_proc s r) then 1 else 0))"

lemma steps_done_step:
  assumes "next_net s s'" "net_ok s"
  shows "steps_done s' = Suc (steps_done s)"
proof -
  let ?w = "\<lambda>s r. pr_round (nw_proc s r) * (2 * length (prts r) + 1) + 2 * pr_at (nw_proc s r) + (if pr_sent (nw_proc s r) then 1 else 0)"
  obtain r where r: "r < n" "rank_step M prts smart_max cap K r s = Some s'" using assms(1) by (auto elim: mpi_stepE)
  have p: "proc_ok r (nw_proc s r)" by (rule net_okD(1) [OF assms(2) r(1)])
  have "?w s' r = Suc (?w s r)"
    using r(2) p by (auto simp: rank_step_def Let_def proc_ok_def split: if_splits prod.splits option.splits)
  moreover have "?w s' a = ?w s a" if "a \<noteq> r" for a
    using r(2) that by (auto simp: rank_step_def Let_def split: if_splits prod.splits option.splits)
  then have "(\<Sum>a \<in> {..<n} - {r}. ?w s' a) = (\<Sum>a \<in> {..<n} - {r}. ?w s a)" by (intro sum.cong) auto
  ultimately show ?thesis
    using r(1) by (simp add: steps_done_def sum.remove [of "{..<n}" r])
qed

lemma steps_done_bound:
  assumes "net_ok s"
  shows "steps_done s \<le> (\<Sum>r < n. K * (2 * length (prts r) + 1))"
  unfolding steps_done_def
proof (rule sum_mono)
  fix r
  assume "r \<in> {..<n}"
  then have p: "proc_ok r (nw_proc s r)" using net_okD(1) [OF assms] by simp
  define q where "q = nw_proc s r"
  show "pr_round (nw_proc s r) * (2 * length (prts r) + 1) + 2 * pr_at (nw_proc s r) + (if pr_sent (nw_proc s r) then 1 else 0)
      \<le> K * (2 * length (prts r) + 1)"
  proof (cases "pr_round (nw_proc s r) = K")
    case True
    then show ?thesis using p by (simp add: proc_ok_def)
  next
    case False
    then have "Suc (pr_round (nw_proc s r)) \<le> K" using p by (simp add: proc_ok_def)
    then have "Suc (pr_round (nw_proc s r)) * (2 * length (prts r) + 1) \<le> K * (2 * length (prts r) + 1)" by (rule mult_le_mono1)
    then show ?thesis using p by (auto simp: proc_ok_def)
  qed
qed

lemma run_length:
  "(next_net ^^ k) (start_net M init) s \<Longrightarrow> net_ok s \<and> steps_done s = k"
proof (induction k arbitrary: s)
  case 0
  then show ?case using start_ok by (auto simp: steps_done_def start_net_def)
next
  case (Suc k)
  from Suc.prems obtain u where "(next_net ^^ k) (start_net M init) u" "next_net u s" by auto
  with Suc.IH [of u] show ?case using step_ok [of u s] steps_done_step [of u s] by auto
qed

text \<open>Between two rounds a rank has what the simulation in lock step has; a run cannot go on for ever; and when it cannot
  go on, all ranks have done their rounds.\<close>

lemma same_as_lock:
  assumes "net_ok s" "r < n" "pr_at (nw_proc s r) = 0"
  shows "pr_top (nw_proc s r) = lock (pr_round (nw_proc s r)) r"
  using net_okD(1) [OF assms(1,2)] assms(3) by (simp add: proc_ok_def take_in_def)

lemma final_state:
  assumes "next_net\<^sup>*\<^sup>* (start_net M init) s" and "0 < cap" and "\<nexists>s'. next_net s s'" and "r < n"
  shows "pr_round (nw_proc s r) = K" "pr_top (nw_proc s r) = lock K r"
proof -
  have ok: "net_ok s" by (rule reachable_ok [OF assms(1)])
  have "rank_step M prts smart_max cap K a s = None" if "a < n" for a
    using assms(3) that by (cases "rank_step M prts smart_max cap K a s") (auto intro: mpi_step.step)
  then show k: "pr_round (nw_proc s r) = K" by (rule all_done [OF ok assms(2) _ assms(4)])
  then have "pr_at (nw_proc s r) = 0" using net_okD(1) [OF ok assms(4)] by (simp add: proc_ok_def)
  with same_as_lock [OF ok assms(4)] k show "pr_top (nw_proc s r) = lock K r" by simp
qed

end

section \<open>The grid\<close>

text \<open>The grids whose table fits, as a type, so that the contract holds for every grid.\<close>

typedef mesh_grid = "{(T1, T2, mcs). mcs_ok T1 T2 mcs}"
  by (rule exI [of _ "(1, 1, [])"]) (simp add: mcs_ok_def)

definition grid_ranks :: "mesh_grid \<Rightarrow> nat" where
  "grid_ranks g = (case Rep_mesh_grid g of (T1, T2, mcs) \<Rightarrow> num_ranks T1 T2 mcs)"

definition grid_ports :: "mesh_grid \<Rightarrow> nat \<Rightarrow> (nat \<times> nat) list" where
  "grid_ports g = (case Rep_mesh_grid g of (T1, T2, mcs) \<Rightarrow> ports T1 T2 mcs)"

definition grid_prio :: "mesh_grid \<Rightarrow> nat \<Rightarrow> nat \<Rightarrow> nat" where
  "grid_prio g = (case Rep_mesh_grid g of (T1, T2, mcs) \<Rightarrow> port_prio T1 T2)"

lemma grid_ok: "Rep_mesh_grid g = (T1, T2, mcs) \<Longrightarrow> mcs_ok T1 T2 mcs"
  using Rep_mesh_grid [of g] by auto

interpretation grid: connections "grid_ranks g" "grid_ports g" "grid_prio g" for g
proof unfold_locales
  obtain T1 T2 mcs where g: "Rep_mesh_grid g = (T1, T2, mcs)" by (cases "Rep_mesh_grid g")
  note ok = grid_ok [OF g] and d = grid_ranks_def grid_ports_def grid_prio_def g prod.case
  fix r i d j j' d'
  assume r: "r < grid_ranks g"
  show "sorted_wrt (<) (map fst (grid_ports g r))" "distinct (map snd (grid_ports g r))"
    using ports_distinct [OF ok] r by (simp_all add: d)
  assume p: "(i, d) \<in> set (grid_ports g r)"
  show "d < grid_ranks g \<and> (\<exists>j. (j, r) \<in> set (grid_ports g d))"
    using ports_symmetric [OF ok] r p by (simp add: d)
  assume "(j, r) \<in> set (grid_ports g d)" "(j', d') \<in> set (grid_ports g d)" "j' < j"
  then show "grid_prio g d j' < grid_prio g r i"
    using port_prio_less [OF ok] r p by (simp add: d)
qed

interpretation mesh: exchange "grid_ranks g" "grid_ports g" "grid_prio g" M smart_max cap K init for g M smart_max cap K init
  by unfold_locales

lemma Abs_grid:
  assumes "mcs_ok T1 T2 mcs"
  shows "grid_ranks (Abs_mesh_grid (T1, T2, mcs)) = num_ranks T1 T2 mcs" "grid_ports (Abs_mesh_grid (T1, T2, mcs)) = ports T1 T2 mcs"
  using assms by (simp_all add: grid_ranks_def grid_ports_def Abs_mesh_grid_inverse)

section \<open>Sends without a buffer\<close>

text \<open>When MPI stores no message every rank waits at its first send: nobody receives yet.\<close>

lemma has_port:
  assumes "mcs_ok T1 T2 mcs" "r < num_ranks T1 T2 mcs"
  shows "ports T1 T2 mcs r \<noteq> []"
  using assms(2)
proof (cases rule: rank_cases)
  case (tile x y)
  define i :: nat where "i = (if x = 0 \<and> y \<noteq> 0 then Suc 0 else 2)"
  have "\<exists>s. neighbours T1 T2 mcs x y ! i = Some s" by (auto simp: i_def neighbours_nth)
  then obtain s where s: "neighbours T1 T2 mcs x y ! i = Some s" ..
  have "i < 4" by (simp add: i_def)
  with s have "(i, s) \<in> set (ports T1 T2 mcs r)" using tile_port_iff [OF tile(1,2)] tile(3) by blast
  then show ?thesis by auto
next
  case (mem m)
  then show ?thesis using mem_ports [OF assms(1) mem(1)] by simp
qed (simp add: chipset_ports)

lemma nothing_moves_unbuffered:
  assumes "mcs_ok T1 T2 mcs"
  shows "\<not> mpi_step M (ports T1 T2 mcs) smart_max 0 K (num_ranks T1 T2 mcs) (start_net M init) s'"
  using has_port [OF assms]
  by (auto elim!: mpi_stepE simp: rank_step_def start_net_def mpi_send_chan_def receiving_def Let_def split: if_splits prod.splits)

section \<open>Schedules\<close>

text \<open>A schedule: which rank takes the next step.\<close>

definition schedule ::
  "('v, 'm) verilated \<Rightarrow> (nat \<Rightarrow> (nat \<times> nat) list) \<Rightarrow> (nat \<Rightarrow> nat) \<Rightarrow> nat \<Rightarrow> nat \<Rightarrow> nat list \<Rightarrow> ('v, 'm) network \<Rightarrow> ('v, 'm) network option" where
  "schedule M prts smart_max cap K rs s = foldl (\<lambda>s r. Option.bind s (rank_step M prts smart_max cap K r)) (Some s) rs"

lemma schedule_steps:
  "schedule M prts smart_max cap K rs s = Some s' \<Longrightarrow> list_all (\<lambda>r. r < n) rs \<Longrightarrow> (mpi_step M prts smart_max cap K n ^^ length rs) s s'"
proof (induction rs arbitrary: s' rule: rev_induct)
  case (snoc r rs)
  then obtain u where "schedule M prts smart_max cap K rs s = Some u" "rank_step M prts smart_max cap K r u = Some s'"
    by (auto simp: schedule_def split: bind_splits)
  with snoc show ?case by (auto intro: mpi_step.step)
qed (simp add: schedule_def)

end
