(* ===== verification/MM_Harness.thy ===== *)
theory MM_Harness
  imports C_Stdio PLI_Load
begin

text \<open>
  How a distributed simulation ends: the traps, \<open>src/piton/tools/verilator/metro_mpi.cpp\<close> (\<open>get_traps\<close>,
  \<open>mpi_check_trap\<close>, \<open>get_mem_image_full_path\<close>, \<open>get_lat_model_full_path\<close>) and the main loops of
  \<open>my_metro_tile.cpp\<close>, \<open>my_metro_chipset.cpp\<close> and \<open>my_metro_fake_mem.cpp\<close>. A tile that commits an instruction at a
  trap address remembers the verdict; every so many ticks all ranks combine what they have with \<open>MPI_Allreduce\<close>, and
  leave the loop when the result is a verdict. What the design commits in a tick is an argument; \<open>$finish\<close> is
  not modelled.

  The lemmas show that the ranks always call the reduction together and so leave the loop in the same tick with the
  same verdict, and which one.
\<close>

section \<open>Arguments of the command line\<close>

text \<open>\<open>get_mem_image_full_path\<close> and \<open>get_lat_model_full_path\<close>: the last argument with the prefix counts.\<close>

definition last_arg :: "string \<Rightarrow> string list \<Rightarrow> string" where
  "last_arg prefix args = foldl (\<lambda>path it. if starts_with prefix it then drop (length prefix) it else path) ''./'' args"

definition get_mem_image_full_path :: "string list \<Rightarrow> string" where
  "get_mem_image_full_path = last_arg ''+mem_image=''"

definition get_lat_model_full_path :: "string list \<Rightarrow> string" where
  "get_lat_model_full_path = last_arg ''+lat_model=''"

text \<open>\<open>std::stoull(st, nullptr, 16)\<close>: blanks, a sign, \<open>0x\<close>, digits; \<open>None\<close> is one of its two exceptions.\<close>

definition hex_val :: "char \<Rightarrow> nat option" where
  "hex_val c =
     (let n = of_char c :: nat in
      if 48 \<le> n \<and> n \<le> 57 then Some (n - 48)
      else if 97 \<le> n \<and> n \<le> 102 then Some (n - 87)
      else if 65 \<le> n \<and> n \<le> 70 then Some (n - 55)
      else None)"

definition hex_prefix :: "string \<Rightarrow> string" where
  "hex_prefix s =
     (if (starts_with ''0x'' s \<or> starts_with ''0X'' s) \<and> (case drop 2 s of [] \<Rightarrow> False | c # _ \<Rightarrow> hex_val c \<noteq> None)
      then drop 2 s else s)"

definition stoull16 :: "string \<Rightarrow> u64 option" where
  "stoull16 st =
     (let s = dropWhile isspace st;
          neg = starts_with ''-'' s;
          digits = takeWhile (\<lambda>c. hex_val c \<noteq> None) (hex_prefix (if neg \<or> starts_with ''+'' s then drop 1 s else s));
          v = foldl (\<lambda>v c. 16 * v + the (hex_val c)) 0 digits
      in if digits = [] \<or> v \<ge> 2 ^ 64 then None else Some (if neg then - of_nat v else of_nat v))"

definition trap_str :: "bool \<Rightarrow> nat \<Rightarrow> string" where
  "trap_str bad i = (if bad then ''+bad_trap'' else ''+good_trap'') @ dec_nat i @ ''=''"

definition get_traps :: "string list \<Rightarrow> bool \<Rightarrow> u64 list" where
  "get_traps args bad =
     foldl (\<lambda>trap it.
       foldl (\<lambda>trap i.
         if starts_with (trap_str bad i) it
         then case stoull16 (drop (length (trap_str bad i)) it) of None \<Rightarrow> trap | Some v \<Rightarrow> trap @ [v]
         else trap) trap [0..<32]) [] args"

section \<open>Traps\<close>

definition CONTINUE :: int where "CONTINUE = 0"
definition GOOD_EXIT :: int where "GOOD_EXIT = 1"
definition BAD_EXIT :: int where "BAD_EXIT = 2"

definition TRAP_INITIAL_CHECK_DELAY :: u64 where "TRAP_INITIAL_CHECK_DELAY = 14000"
definition TRAP_CHECK_INTERVAL :: u64 where "TRAP_CHECK_INTERVAL = 2000"

definition check_trap_per_commit :: "u64 list \<Rightarrow> u64 list \<Rightarrow> u8 \<Rightarrow> u64 \<Rightarrow> int" where
  "check_trap_per_commit good_traps bad_traps inst_done phy_pc_w =
     (if inst_done = 0 then CONTINUE
      else if phy_pc_w \<in> set bad_traps then BAD_EXIT
      else if phy_pc_w \<in> set good_traps then GOOD_EXIT
      else CONTINUE)"

text \<open>The commits of one tick: the flags \<open>inst_done\<close> and the addresses \<open>phy_pc_w\<close>.\<close>

definition check_trap :: "u64 list \<Rightarrow> u64 list \<Rightarrow> (u8 \<times> u64) list \<Rightarrow> int" where
  "check_trap good_traps bad_traps commits =
     foldl (\<lambda>trap (inst_done, pc).
       if trap = CONTINUE then check_trap_per_commit good_traps bad_traps inst_done pc else trap) CONTINUE commits"

text \<open>\<open>MPI_Allreduce\<close> with \<open>MPI_MAX\<close>.\<close>

definition mpi_check_trap :: "int list \<Rightarrow> int" where
  "mpi_check_trap locals = foldl max (hd locals) (tl locals)"

section \<open>The main loops\<close>

record rank_st =
  checkTestEnd :: u64
  local_trap :: int
  global_trap :: int
  ticks :: nat

definition start_rank :: rank_st where
  "start_rank = \<lparr>checkTestEnd = TRAP_INITIAL_CHECK_DELAY, local_trap = CONTINUE, global_trap = CONTINUE, ticks = 0\<rparr>"

text \<open>The part of the body up to the test of \<open>checkTestEnd\<close>. Only tiles look for traps; \<open>found\<close> is \<open>None\<close> for the chipset
  and the memories.\<close>

definition local_part :: "int option \<Rightarrow> rank_st \<Rightarrow> rank_st" where
  "local_part found h =
     h\<lparr>ticks := Suc (ticks h),
       local_trap := (case found of None \<Rightarrow> local_trap h | Some t \<Rightarrow> if local_trap h = CONTINUE then t else local_trap h)\<rparr>"

text \<open>One turn of the loop in all ranks. The ranks are in the loop together, as \<open>mpi_tick\<close> waits for the neighbours. The
  reduction returns when all ranks called it; \<open>None\<close> is a rank that waits for ever.\<close>

definition main_tick :: "int option list \<Rightarrow> rank_st list \<Rightarrow> rank_st list option" where
  "main_tick founds hs =
     (if list_all (\<lambda>h. global_trap h \<noteq> CONTINUE) hs then Some hs
      else if \<not> list_all (\<lambda>h. global_trap h = CONTINUE) hs then None
      else
        let hs = map2 local_part founds hs in
        if list_all (\<lambda>h. checkTestEnd h = 0) hs
        then let g = mpi_check_trap (map local_trap hs) in
             Some (map (\<lambda>h. h\<lparr>global_trap := g, checkTestEnd := TRAP_CHECK_INTERVAL\<rparr>) hs)
        else if list_ex (\<lambda>h. checkTestEnd h = 0) hs then None
        else Some (map (\<lambda>h. h\<lparr>checkTestEnd := checkTestEnd h - 1\<rparr>) hs))"

text \<open>The first \<open>n\<close> turns with \<open>N\<close> ranks; \<open>found r t\<close> is what rank \<open>r\<close> finds in turn \<open>t\<close>.\<close>

fun main_run :: "(nat \<Rightarrow> nat \<Rightarrow> int option) \<Rightarrow> nat \<Rightarrow> nat \<Rightarrow> rank_st list option" where
  "main_run found N 0 = Some (replicate N start_rank)"
| "main_run found N (Suc n) =
     (case main_run found N n of
        None \<Rightarrow> None
      | Some hs \<Rightarrow> main_tick (map (\<lambda>r. found r n) [0..<N]) hs)"

section \<open>All ranks stop together\<close>

text \<open>What a rank knows after \<open>n\<close> turns: the first verdict it found.\<close>

fun first_trap :: "(nat \<Rightarrow> int option) \<Rightarrow> nat \<Rightarrow> int" where
  "first_trap f 0 = CONTINUE"
| "first_trap f (Suc n) = (case f n of None \<Rightarrow> first_trap f n | Some t \<Rightarrow> if first_trap f n = CONTINUE then t else first_trap f n)"

definition check_turn :: "nat \<Rightarrow> bool" where
  "check_turn n \<longleftrightarrow> 14001 \<le> n \<and> (n - 14001) mod 2001 = 0"

text \<open>The turns until the loop is left, at most \<open>n\<close>.\<close>

fun turns_done :: "(nat \<Rightarrow> nat \<Rightarrow> int option) \<Rightarrow> nat \<Rightarrow> nat \<Rightarrow> nat" where
  "turns_done found N 0 = 0"
| "turns_done found N (Suc n) =
     (let k = turns_done found N n in
      if check_turn k \<and> list_ex (\<lambda>r. first_trap (found r) k \<noteq> CONTINUE) [0..<N] then k else Suc k)"

definition verdict :: "(nat \<Rightarrow> nat \<Rightarrow> int option) \<Rightarrow> nat \<Rightarrow> nat \<Rightarrow> int" where
  "verdict found N k = (if check_turn k then mpi_check_trap (map (\<lambda>r. first_trap (found r) k) [0..<N]) else CONTINUE)"

text \<open>The counter in front of turn \<open>k\<close>.\<close>

definition counter :: "nat \<Rightarrow> u64" where
  "counter k = of_nat (if k \<le> 14000 then 14000 - k else 2000 - (k - 14001) mod 2001)"

lemma of_nat_zero: "n < 2 ^ 64 \<Longrightarrow> (of_nat n :: u64) = 0 \<longleftrightarrow> n = 0"
  by (auto simp: word_of_nat_eq_0_iff dest: dvd_imp_le)

lemma counter_zero: "counter k = 0 \<longleftrightarrow> check_turn (Suc k)"
proof -
  have b: "(if k \<le> 14000 then 14000 - k else 2000 - (k - 14001) mod 2001) < 2 ^ 64" (is "?c < _")
  proof -
    have "?c \<le> 14000" by auto
    then show ?thesis by simp
  qed
  have "counter k = 0 \<longleftrightarrow> ?c = 0"
    unfolding counter_def by (rule of_nat_zero [OF b])
  also have "\<dots> \<longleftrightarrow> check_turn (Suc k)"
  proof (cases "k \<le> 14000")
    case False
    define m where "m = k - 14001"
    have k: "k = 14001 + m" using False by (simp add: m_def)
    have "m mod 2001 < 2001" by simp
    then have "2000 - m mod 2001 = 0 \<longleftrightarrow> m mod 2001 = 2000" by linarith
    also have "\<dots> \<longleftrightarrow> Suc m mod 2001 = 0" by (simp add: mod_Suc)
    finally show ?thesis by (simp add: k check_turn_def)
  qed (auto simp: check_turn_def)
  finally show ?thesis .
qed

lemma counter_Suc:
  "counter (Suc k) = (if check_turn (Suc k) then 2000 else counter k - 1)"
proof (cases "k < 14000")
  case True
  then have "(of_nat (14000 - k) :: u64) = of_nat (Suc (14000 - Suc k))" by simp
  then show ?thesis using True by (simp add: counter_def check_turn_def del: of_nat_Suc)
next
  case False
  show ?thesis
  proof (cases "k = 14000")
    case True
    then show ?thesis by (simp add: counter_def check_turn_def)
  next
    case k: False
    define m where "m = k - 14001"
    have k: "k = 14001 + m" using False k by (simp add: m_def)
    show ?thesis
    proof (cases "Suc m mod 2001 = 0")
      case True
      then show ?thesis by (simp add: k counter_def check_turn_def)
    next
      case False
      then have s: "Suc m mod 2001 = Suc (m mod 2001)" by (simp add: mod_Suc split: if_splits)
      have "m mod 2001 < 2000" using False by (simp add: mod_Suc split: if_splits)
      then have "2000 - m mod 2001 = Suc (2000 - Suc (m mod 2001))" by simp
      then have "(of_nat (2000 - m mod 2001) :: u64) = of_nat (2000 - Suc (m mod 2001)) + 1" by (simp only: of_nat_Suc add.commute)
      then show ?thesis using False s by (simp add: k counter_def check_turn_def)
    qed
  qed
qed

text \<open>The state of all ranks after \<open>n\<close> turns.\<close>

definition state_after :: "(nat \<Rightarrow> nat \<Rightarrow> int option) \<Rightarrow> nat \<Rightarrow> nat \<Rightarrow> rank_st list" where
  "state_after found N n =
     (let k = turns_done found N n; g = verdict found N k in
      map (\<lambda>r. \<lparr>checkTestEnd = counter k, local_trap = first_trap (found r) k, global_trap = g, ticks = k\<rparr>) [0..<N])"

lemma mpi_check_trap_Max: "xs \<noteq> [] \<Longrightarrow> mpi_check_trap xs = Max (set xs)"
proof -
  assume "xs \<noteq> []"
  have "(\<lambda>x s. max s x) = (max :: int \<Rightarrow> int \<Rightarrow> int)" by (intro ext) (rule max.commute)
  then have "foldl max a ys = Max (set (a # ys))" for a and ys :: "int list"
    by (simp only: foldl_conv_fold Max.set_eq_fold)
  then show ?thesis using \<open>xs \<noteq> []\<close> by (cases xs) (auto simp: mpi_check_trap_def)
qed

definition stops :: "(nat \<Rightarrow> nat \<Rightarrow> int option) \<Rightarrow> nat \<Rightarrow> nat \<Rightarrow> bool" where
  "stops found N k \<longleftrightarrow> check_turn k \<and> list_ex (\<lambda>r. first_trap (found r) k \<noteq> CONTINUE) [0..<N]"

lemma turns_done_Suc: "turns_done found N (Suc n) = (if stops found N (turns_done found N n) then turns_done found N n else Suc (turns_done found N n))"
  by (simp add: stops_def Let_def)

lemma turns_done_cases: "turns_done found N n = n \<or> stops found N (turns_done found N n)"
  by (induction n) (auto simp: turns_done_Suc simp del: turns_done.simps(2))

lemma turns_done_le: "turns_done found N n \<le> n"
  by (induction n) (auto simp: turns_done_Suc simp del: turns_done.simps(2))

lemma before_turns_done: "j < turns_done found N n \<Longrightarrow> \<not> stops found N j"
proof (induction n)
  case (Suc n)
  then show ?case by (cases "j = turns_done found N n") (auto simp: turns_done_Suc simp del: turns_done.simps(2) split: if_splits)
qed simp

lemma first_trap_nonneg: "(\<And>t v. f t = Some v \<Longrightarrow> 0 \<le> v) \<Longrightarrow> 0 \<le> first_trap f n"
  by (induction n) (auto simp: CONTINUE_def split: option.splits)

lemma verdict_stops:
  assumes "0 < N" and "\<And>r t v. found r t = Some v \<Longrightarrow> 0 \<le> v"
  shows "verdict found N k \<noteq> CONTINUE \<longleftrightarrow> stops found N k"
proof (cases "check_turn k")
  case True
  let ?xs = "map (\<lambda>r. first_trap (found r) k) [0..<N]"
  have ne: "?xs \<noteq> []" using assms(1) by simp
  have pos: "0 \<le> first_trap (found r) k" for r using assms(2) by (rule first_trap_nonneg)
  have "Max (set ?xs) \<noteq> 0 \<longleftrightarrow> (\<exists>r < N. first_trap (found r) k \<noteq> 0)"
  proof
    assume m: "Max (set ?xs) \<noteq> 0"
    have "Max (set ?xs) \<in> set ?xs" using ne by (intro Max_in) auto
    with m show "\<exists>r < N. first_trap (found r) k \<noteq> 0" by auto
  next
    assume "\<exists>r < N. first_trap (found r) k \<noteq> 0"
    then obtain r where r: "r < N" "0 < first_trap (found r) k" using pos by (metis order_less_le)
    then have "first_trap (found r) k \<le> Max (set ?xs)" by (intro Max_ge) auto
    with r show "Max (set ?xs) \<noteq> 0" by linarith
  qed
  then show ?thesis using True mpi_check_trap_Max [OF ne]
    by (auto simp: verdict_def stops_def CONTINUE_def list_ex_iff)
qed (simp add: verdict_def stops_def)

lemma main_run_state:
  assumes N: "0 < N" and nonneg: "\<And>r t v. found r t = Some v \<Longrightarrow> 0 \<le> v"
  shows "main_run found N n = Some (state_after found N n)"
proof (induction n)
  case 0
  have "check_turn 0 = False" by (simp add: check_turn_def)
  then show ?case
    by (simp add: state_after_def start_rank_def verdict_def counter_def TRAP_INITIAL_CHECK_DELAY_def map_replicate_const)
next
  case (Suc n)
  let ?k = "turns_done found N n"
  have v: "verdict found N k \<noteq> CONTINUE \<longleftrightarrow> stops found N k" for k
    by (rule verdict_stops [OF N]) (rule nonneg)
  show ?case
  proof (cases "stops found N ?k")
    case True
    then have "turns_done found N (Suc n) = ?k" by (simp only: turns_done_Suc if_True)
    then have same: "state_after found N (Suc n) = state_after found N n" by (simp only: state_after_def)
    have "list_all (\<lambda>h. global_trap h \<noteq> CONTINUE) (state_after found N n)"
      using v [of ?k] True by (simp add: state_after_def Let_def list_all_iff)
    then show ?thesis by (simp only: main_run.simps Suc option.case main_tick_def if_True same)
  next
    case False
    then have k: "?k = n" using turns_done_cases by blast
    have s: "turns_done found N (Suc n) = Suc n" using False k by (simp only: turns_done_Suc if_False)
    have g: "verdict found N n = CONTINUE" using v [of n] False k by simp
    define hs where "hs = map (\<lambda>r. \<lparr>checkTestEnd = counter n, local_trap = first_trap (found r) (Suc n), global_trap = CONTINUE, ticks = Suc n\<rparr>) [0..<N]"
    have st: "state_after found N n = map (\<lambda>r. \<lparr>checkTestEnd = counter n, local_trap = first_trap (found r) n, global_trap = CONTINUE, ticks = n\<rparr>) [0..<N]"
      by (simp add: state_after_def k g)
    have hs: "map2 local_part (map (\<lambda>r. found r n) [0..<N]) (state_after found N n) = hs"
      unfolding st hs_def by (intro nth_equalityI) (auto simp: local_part_def split: option.splits)
    have all: "list_all (\<lambda>h. global_trap h = CONTINUE) (state_after found N n)" "\<not> list_all (\<lambda>h. global_trap h \<noteq> CONTINUE) (state_after found N n)"
      using N by (auto simp: st list_all_iff)
    have "main_tick (map (\<lambda>r. found r n) [0..<N]) (state_after found N n) = Some (state_after found N (Suc n))"
    proof (cases "check_turn (Suc n)")
      case True
      then have c: "counter n = 0" "counter (Suc n) = 2000" by (simp_all add: counter_zero counter_Suc)
      then have "list_all (\<lambda>h. checkTestEnd h = 0) hs" by (simp add: hs_def list_all_iff)
      then have "main_tick (map (\<lambda>r. found r n) [0..<N]) (state_after found N n) =
          Some (map (\<lambda>h. h\<lparr>global_trap := mpi_check_trap (map local_trap hs), checkTestEnd := TRAP_CHECK_INTERVAL\<rparr>) hs)"
        using all by (simp add: main_tick_def hs Let_def)
      also have "mpi_check_trap (map local_trap hs) = verdict found N (Suc n)" using True by (simp add: verdict_def hs_def comp_def)
      finally show ?thesis using s c by (simp add: state_after_def hs_def TRAP_CHECK_INTERVAL_def comp_def)
    next
      case f: False
      then have c: "counter n \<noteq> 0" "counter (Suc n) = counter n - 1" by (simp_all add: counter_zero counter_Suc)
      then have "\<not> list_all (\<lambda>h. checkTestEnd h = 0) hs" "\<not> list_ex (\<lambda>h. checkTestEnd h = 0) hs" using N by (auto simp: hs_def list_all_iff list_ex_iff)
      then have "main_tick (map (\<lambda>r. found r n) [0..<N]) (state_after found N n) = Some (map (\<lambda>h. h\<lparr>checkTestEnd := checkTestEnd h - 1\<rparr>) hs)"
        using all by (simp add: main_tick_def hs Let_def)
      then show ?thesis using s c f by (simp add: state_after_def hs_def comp_def verdict_def)
    qed
    then show ?thesis by (simp only: main_run.simps Suc option.case)
  qed
qed

lemma check_trap_per_commit_values: "check_trap_per_commit good bad d pc \<in> {CONTINUE, GOOD_EXIT, BAD_EXIT}"
  by (simp add: check_trap_per_commit_def)

lemma check_trap_values: "check_trap good bad commits \<in> {CONTINUE, GOOD_EXIT, BAD_EXIT}"
proof -
  have "foldl (\<lambda>trap (d, pc). if trap = CONTINUE then check_trap_per_commit good bad d pc else trap) t commits
      \<in> {CONTINUE, GOOD_EXIT, BAD_EXIT}" if "t \<in> {CONTINUE, GOOD_EXIT, BAD_EXIT}" for t
    using that
  proof (induction commits arbitrary: t)
    case (Cons c commits)
    obtain d pc where c: "c = (d, pc)" by (cases c)
    have "(if t = CONTINUE then check_trap_per_commit good bad d pc else t) \<in> {CONTINUE, GOOD_EXIT, BAD_EXIT}"
      using Cons.prems check_trap_per_commit_values [of good bad d pc] by (cases "t = CONTINUE") simp_all
    from Cons.IH [OF this] show ?case by (simp add: c)
  qed simp
  then show ?thesis by (simp add: check_trap_def)
qed

section \<open>The arguments are read back\<close>

lemma starts_with_append: "starts_with p x \<longleftrightarrow> (\<exists>r. x = p @ r)"
  by (auto simp: starts_with_def) (metis append_take_drop_id)

lemma dec_nat_no_eq: "CHR ''='' \<notin> set (dec_nat n)"
  using dec_nat_digits [of n] by auto

lemma trap_str_same: "starts_with (trap_str bad j) (trap_str bad i @ s) \<longleftrightarrow> j = i"
proof
  assume "starts_with (trap_str bad j) (trap_str bad i @ s)"
  then obtain r where "trap_str bad i @ s = trap_str bad j @ r" by (auto simp: starts_with_append)
  then have "dec_nat i @ CHR ''='' # s = dec_nat j @ CHR ''='' # r" by (simp add: trap_str_def)
  then have "takeWhile (\<lambda>c. c \<noteq> CHR ''='') (dec_nat i @ CHR ''='' # s) = takeWhile (\<lambda>c. c \<noteq> CHR ''='') (dec_nat j @ CHR ''='' # r)" by simp
  moreover have "takeWhile (\<lambda>c. c \<noteq> CHR ''='') (dec_nat n @ CHR ''='' # t) = dec_nat n" for n t
    using dec_nat_no_eq [of n] by (subst takeWhile_append2) auto
  ultimately show "j = i" using dec_nat_inj by simp
qed (auto simp: starts_with_append)

lemma hexdigit_chars:
  "list_all (\<lambda>d. hex_val (hexdigit d) = Some d \<and> \<not> isspace (hexdigit d) \<and>
     hexdigit d \<notin> {CHR ''-'', CHR ''+'', CHR ''x'', CHR ''X''}) [0..<16]"
  by code_simp

lemma hex_digits_plain:
  "c \<in> set (hex_digits k w) \<Longrightarrow> hex_val c \<noteq> None \<and> \<not> isspace c \<and> c \<notin> {CHR ''-'', CHR ''+'', CHR ''x'', CHR ''X''}"
proof -
  assume "c \<in> set (hex_digits k w)"
  then obtain i where "c = hexdigit (unat (take_bit 4 (drop_bit (4 * i) w)))" by (auto simp: hex_digits_def)
  moreover have "unat (take_bit 4 (drop_bit (4 * i) w)) < 16"
    using take_bit_nat_less_exp [of 4] by (simp add: unsigned_take_bit_eq)
  ultimately show ?thesis using hexdigit_chars by (auto simp: list_all_iff)
qed

lemma hex_digits_val:
  "foldl (\<lambda>v c. 16 * v + the (hex_val c)) acc (hex_digits k w) = 16 ^ k * acc + unat (take_bit (4 * k) (w :: u64))"
proof (induction k arbitrary: acc)
  case (Suc k)
  define d where "d = unat (take_bit 4 (drop_bit (4 * k) w))"
  have "d < 16" using take_bit_nat_less_exp [of 4] by (simp add: d_def unsigned_take_bit_eq)
  then have "the (hex_val (hexdigit d)) = d" using hexdigit_chars by (auto simp: list_all_iff)
  moreover have "unat (take_bit (4 * Suc k) w) = 16 ^ k * d + unat (take_bit (4 * k) w)"
  proof -
    have "unat w mod 2 ^ (4 * k + 4) = 2 ^ (4 * k) * (unat w div 2 ^ (4 * k) mod 2 ^ 4) + unat w mod 2 ^ (4 * k)"
      by (simp add: power_add mod_mult2_eq)
    then show ?thesis by (simp add: d_def unat_take_bit unat_drop_bit power_mult add.commute)
  qed
  ultimately show ?case unfolding hex_digits_Suc foldl_Cons Suc.IH d_def [symmetric] by (simp add: algebra_simps)
qed (simp add: hex_digits_def)

lemma stoull16_hex_digits: "stoull16 (hex_digits 16 pc) = Some pc"
proof -
  let ?s = "hex_digits 16 pc"
  obtain c d cs where s: "?s = c # d # cs"
    by (cases ?s; cases "tl ?s") (auto dest: arg_cong [where f = length])
  have in_s: "c \<in> set ?s" "d \<in> set ?s" by (simp_all add: s)
  have "dropWhile isspace ?s = ?s" using hex_digits_plain [OF in_s(1)] s by simp
  moreover have "\<not> starts_with ''-'' ?s" "\<not> starts_with ''+'' ?s" "\<not> starts_with ''0x'' ?s" "\<not> starts_with ''0X'' ?s"
    using hex_digits_plain [OF in_s(1)] hex_digits_plain [OF in_s(2)] by (auto simp: starts_with_def s)
  moreover have "takeWhile (\<lambda>c. hex_val c \<noteq> None) ?s = ?s" by (auto simp: takeWhile_eq_all_conv dest: hex_digits_plain)
  moreover have "foldl (\<lambda>v c. 16 * v + the (hex_val c)) 0 ?s = unat pc" using hex_digits_val [of 0 16 pc] take_bit_length_eq [of pc] by simp
  moreover have "unat pc < 2 ^ 64" using unsigned_less [of pc] by simp
  ultimately show ?thesis using s by (simp add: stoull16_def hex_prefix_def Let_def not_le)
qed

text \<open>An argument for trap \<open>i\<close>, or one that has nothing to do with traps.\<close>

definition arg_text :: "bool \<Rightarrow> string + nat \<times> u64 \<Rightarrow> string" where
  "arg_text bad a = (case a of Inl s \<Rightarrow> s | Inr (i, pc) \<Rightarrow> trap_str bad i @ hex_digits 16 pc)"

fun arg_ok :: "bool \<Rightarrow> string + nat \<times> u64 \<Rightarrow> bool" where
  "arg_ok bad (Inl s) \<longleftrightarrow> \<not> starts_with (if bad then ''+bad_trap'' else ''+good_trap'') s"
| "arg_ok bad (Inr (i, pc)) \<longleftrightarrow> i < 32"

fun arg_traps :: "string + nat \<times> u64 \<Rightarrow> u64 list" where
  "arg_traps (Inl s) = []"
| "arg_traps (Inr (i, pc)) = [pc]"

lemma inner_once:
  assumes "i < n"
  shows "foldl (\<lambda>trap j. if j = i then trap @ [v] else trap) acc [0..<n] = acc @ [v]"
proof -
  have "foldl (\<lambda>trap j. if j = i then trap @ [v] else trap) acc [0..<m] = (if i < m then acc @ [v] else acc)" for m
    by (induction m) auto
  with assms show ?thesis by simp
qed

lemma get_traps_args:
  assumes "list_all (arg_ok bad) as"
  shows "get_traps (map (arg_text bad) as) bad = concat (map arg_traps as)"
proof -
  define one where "one trap it = foldl (\<lambda>trap i. if starts_with (trap_str bad i) it
         then case stoull16 (drop (length (trap_str bad i)) it) of None \<Rightarrow> trap | Some v \<Rightarrow> trap @ [v] else trap) trap [0..<32]"
    for trap it
  have "one trap (arg_text bad a) = trap @ arg_traps a" if ok: "arg_ok bad a" for a trap
  proof (cases a)
    case (Inl s)
    have "\<not> starts_with (trap_str bad i) s" for i
      using ok Inl by (auto simp: trap_str_def starts_with_append split: if_splits)
    then have "foldl (\<lambda>trap i. if starts_with (trap_str bad i) s
         then case stoull16 (drop (length (trap_str bad i)) s) of None \<Rightarrow> trap | Some v \<Rightarrow> trap @ [v] else trap) trap is = trap" for "is"
      by (induction "is") simp_all
    then show ?thesis using Inl by (simp add: one_def arg_text_def)
  next
    case (Inr p)
    obtain i pc where p: "p = (i, pc)" by (cases p)
    have "(if starts_with (trap_str bad j) (trap_str bad i @ hex_digits 16 pc)
         then case stoull16 (drop (length (trap_str bad j)) (trap_str bad i @ hex_digits 16 pc)) of None \<Rightarrow> trap | Some v \<Rightarrow> trap @ [v] else trap)
      = (if j = i then trap @ [pc] else trap)" for j trap
      by (simp add: trap_str_same stoull16_hex_digits)
    then show ?thesis using ok Inr p inner_once [of i 32 pc] by (simp add: one_def arg_text_def)
  qed
  then have "foldl one acc (map (arg_text bad) as) = acc @ concat (map arg_traps as)" for acc
    using assms by (induction as arbitrary: acc) simp_all
  moreover have "get_traps (map (arg_text bad) as) bad = foldl one [] (map (arg_text bad) as)"
    by (simp add: get_traps_def one_def [abs_def])
  ultimately show ?thesis by simp
qed

section \<open>Traps of the tiles\<close>

text \<open>What the ranks find: rank \<open>r\<close> is a tile when \<open>1 \<le> r \<le> tiles\<close>, and \<open>commits r t\<close> is what it commits in turn \<open>t\<close>.\<close>

definition tile_traps :: "nat \<Rightarrow> u64 list \<Rightarrow> u64 list \<Rightarrow> (nat \<Rightarrow> nat \<Rightarrow> (u8 \<times> u64) list) \<Rightarrow> nat \<Rightarrow> nat \<Rightarrow> int option" where
  "tile_traps tiles good bad commits r t =
     (if 1 \<le> r \<and> r \<le> tiles then Some (check_trap good bad (commits r t)) else None)"

lemma tile_traps_nonneg: "tile_traps tiles good bad commits r t = Some v \<Longrightarrow> 0 \<le> v"
  using check_trap_values [of good bad "commits r t"]
  by (auto simp: tile_traps_def CONTINUE_def GOOD_EXIT_def BAD_EXIT_def split: if_splits)

lemma first_trap_stays: "f t = Some v \<Longrightarrow> v \<noteq> CONTINUE \<Longrightarrow> t < m \<Longrightarrow> first_trap f m \<noteq> CONTINUE"
  by (induction m) (auto simp: less_Suc_eq split: option.splits)

lemma next_check_turn: "\<exists>m. t < m \<and> m \<le> max 14001 (t + 2001) \<and> check_turn m"
proof (cases "t < 14001")
  case True
  then show ?thesis by (intro exI [of _ 14001]) (simp add: check_turn_def)
next
  case False
  define q where "q = (t - 14001) div 2001"
  define d where "d = (t - 14001) mod 2001"
  have "d < 2001" by (simp add: d_def)
  moreover have "t - 14001 = 2001 * q + d" by (simp add: q_def d_def)
  ultimately have "t < 14001 + 2001 * Suc q" "14001 + 2001 * Suc q \<le> t + 2001" using False by simp_all
  moreover have "check_turn (14001 + 2001 * Suc q)" unfolding check_turn_def by simp
  ultimately show ?thesis by (intro exI [of _ "14001 + 2001 * Suc q"]) simp
qed

end
