(* ===== verification/MM_Stats.thy ===== *)
theory MM_Stats
  imports MM_Harness
begin

text \<open>
  The statistics at the end of a distributed simulation: the tail of \<open>main\<close> of \<open>my_metro_tile.cpp\<close>,
  \<open>my_metro_fake_mem.cpp\<close> and \<open>my_metro_chipset.cpp\<close>, and \<open>print_static\<close> of \<open>metro_mpi.cpp\<close>, all under
  \<open>src/piton/tools/verilator/\<close>, in the build without the latency model. Tiles and memories send their counters to the
  chipset, which receives them rank by rank and kind by kind and prints a report.

  A message for the chipset is a tag and the data sent; \<open>MPI_Recv\<close> takes the first message of its origin with its tag,
  and \<open>No_Message\<close> is a receive for which there is none. The output is the list of its lines. \<open>percent\<close> is the text
  \<open>printf\<close> gives for a quotient of two counters, as single precision arithmetic is not modelled.

  The lemmas show what the report holds when there is one tile per rank, and that the chipset waits for ranks that do
  not exist when there are more.
\<close>

section \<open>Messages\<close>

definition PRINT_STAT :: nat where "PRINT_STAT = 2"
definition PRINT_CACHE :: nat where "PRINT_CACHE = 3"
definition CHACH_ST_SIZ :: nat where "CHACH_ST_SIZ = 12"
definition MAX_PCK_SIZ :: nat where "MAX_PCK_SIZ = 12"
definition HPM_CNT_NUM :: nat where "HPM_CNT_NUM = 47"
definition HPM_ROW_WIDTH :: nat where "HPM_ROW_WIDTH = 10"

definition HPM_ROW_NUM :: nat where
  "HPM_ROW_NUM = (if HPM_CNT_NUM mod HPM_ROW_WIDTH \<noteq> 0 then HPM_CNT_NUM div HPM_ROW_WIDTH + 1 else HPM_CNT_NUM div HPM_ROW_WIDTH)"

record MEM_STAT =
  flit_in_num :: u64
  flit_out_num :: u64
  ms_rank :: int
  ms_mc_num :: int
  ms_dest :: int

datatype report =
    Mem_Stat MEM_STAT
  | Cache_St "u32 list"
  | Flit_St "u64 list"
  | Pck_St "u64 list list"
  | Hpm_St "u32 list"

type_synonym mailbox = "nat \<Rightarrow> (nat \<times> report) list"

datatype stop = No_Message | Undefined

type_synonym 'a recv = "stop + 'a"

definition bindm :: "'a recv \<Rightarrow> ('a \<Rightarrow> 'b recv) \<Rightarrow> 'b recv" where
  "bindm m f = (case m of Inl e \<Rightarrow> Inl e | Inr x \<Rightarrow> f x)"

fun take_tag :: "nat \<Rightarrow> (nat \<times> report) list \<Rightarrow> (report \<times> (nat \<times> report) list) option" where
  "take_tag tag [] = None"
| "take_tag tag ((t, m) # ms) = (if t = tag then Some (m, ms) else map_option (\<lambda>(m', ms'). (m', (t, m) # ms')) (take_tag tag ms))"

definition receive :: "nat \<Rightarrow> nat \<Rightarrow> mailbox \<Rightarrow> (report \<times> mailbox) recv" where
  "receive origin tag ch =
     (case take_tag tag (ch origin) of None \<Rightarrow> Inl No_Message | Some (m, ms) \<Rightarrow> Inr (m, ch(origin := ms)))"

section \<open>What the tiles and the memories send\<close>

text \<open>The counters of a tile, arrays of the compiled design.\<close>

record tile_counters =
  tc_cache_st :: "nat \<Rightarrow> u32"
  tc_flit_st :: "nat \<Rightarrow> u64"
  tc_pck_st :: "nat \<Rightarrow> nat \<Rightarrow> u64"
  tc_hpm_st :: "nat \<Rightarrow> u32"

definition hpm_row :: "tile_counters \<Rightarrow> nat \<Rightarrow> u32 list" where
  "hpm_row c r = map (\<lambda>i. if i + r * HPM_ROW_WIDTH < HPM_CNT_NUM then tc_hpm_st c (i + r * HPM_ROW_WIDTH) else 0) [0..<HPM_ROW_WIDTH]"

definition tile_sends :: "tile_counters \<Rightarrow> (nat \<times> report) list" where
  "tile_sends c =
     [(PRINT_CACHE, Cache_St (map (tc_cache_st c) [0..<CHACH_ST_SIZ])),
      (PRINT_CACHE + 1, Flit_St (map (tc_flit_st c) [0..<6])),
      (PRINT_CACHE + 2, Pck_St (map (\<lambda>i. map (tc_pck_st c i) [0..<MAX_PCK_SIZ]) [0..<6]))] @
     map (\<lambda>r. (PRINT_CACHE + 3, Hpm_St (hpm_row c r))) [0..<HPM_ROW_NUM]"

definition mem_sends :: "u64 \<Rightarrow> u64 \<Rightarrow> int \<Rightarrow> int \<Rightarrow> int \<Rightarrow> (nat \<times> report) list" where
  "mem_sends flit_i_cnts flit_o_cnts mpi_rank mc_num dest =
     [(PRINT_STAT, Mem_Stat \<lparr>flit_in_num = flit_i_cnts, flit_out_num = flit_o_cnts, ms_rank = mpi_rank, ms_mc_num = mc_num, ms_dest = dest\<rparr>)]"

section \<open>What the chipset prints\<close>

definition dec_u :: "'a::len word \<Rightarrow> string" where
  "dec_u w = dec_nat (unat w)"

definition print_static :: "MEM_STAT \<Rightarrow> u64 \<Rightarrow> string" where
  "print_static stat now =
     (if ms_mc_num stat = -1 then ''chipset, '' else dec_int (ms_mc_num stat) @ '', '') @
     dec_int (ms_rank stat) @ '', '' @ dec_int (ms_dest stat) @ '', '' @ dec_u (flit_in_num stat) @ '', '' @
     dec_u (flit_out_num stat) @ '', '' @ dec_u now @ '', '' @ dec_u (now div 500) @ '', ''"

text \<open>\<open>cache_st[10] / cache_st[11]\<close> is undefined when the divisor is zero.\<close>

definition cache_line :: "(u32 \<Rightarrow> u32 \<Rightarrow> string) \<Rightarrow> nat \<Rightarrow> u32 list \<Rightarrow> string recv" where
  "cache_line percent i cache_st =
     (if cache_st ! 11 = 0 then Inl Undefined
      else Inr (dec_nat (i - 1) @ concat (map (\<lambda>k. '', '' @ percent (cache_st ! k) (cache_st ! (k + 1))) [0, 2, 4, 6]) @
        '', '' @ dec_u (cache_st ! 8) @ '', '' @ dec_u (cache_st ! 9) @ '', '' @ dec_u (cache_st ! 10 div cache_st ! 11)))"

definition flit_line :: "nat \<Rightarrow> u64 list \<Rightarrow> string" where
  "flit_line i flit_st = dec_nat (i - 1) @ concat (map (\<lambda>j. '', '' @ dec_u (flit_st ! j)) [0..<6])"

text \<open>One loop over the ranks: receive a message of each and handle it.\<close>

fun each :: "nat \<Rightarrow> (nat \<Rightarrow> report \<Rightarrow> 'b recv) \<Rightarrow> nat list \<Rightarrow> mailbox \<Rightarrow> ('b list \<times> mailbox) recv" where
  "each tag g [] ch = Inr ([], ch)"
| "each tag g (r # rs) ch =
     bindm (receive r tag ch) (\<lambda>(m, ch).
     bindm (g r m) (\<lambda>y.
     bindm (each tag g rs ch) (\<lambda>(ys, ch). Inr (y # ys, ch))))"

definition on_mem :: "u64 \<Rightarrow> nat \<Rightarrow> report \<Rightarrow> string recv" where
  "on_mem now r m = (case m of Mem_Stat s \<Rightarrow> Inr (print_static s now) | _ \<Rightarrow> Inl Undefined)"

definition on_cache :: "(u32 \<Rightarrow> u32 \<Rightarrow> string) \<Rightarrow> nat \<Rightarrow> report \<Rightarrow> string recv" where
  "on_cache percent r m = (case m of Cache_St c \<Rightarrow> cache_line percent r c | _ \<Rightarrow> Inl Undefined)"

definition on_flit :: "nat \<Rightarrow> report \<Rightarrow> string recv" where
  "on_flit r m = (case m of Flit_St f \<Rightarrow> Inr (flit_line r f) | _ \<Rightarrow> Inl Undefined)"

definition on_pck :: "nat \<Rightarrow> report \<Rightarrow> u64 list list recv" where
  "on_pck r m = (case m of Pck_St p \<Rightarrow> Inr p | _ \<Rightarrow> Inl Undefined)"

definition on_hpm :: "nat \<Rightarrow> nat \<Rightarrow> report \<Rightarrow> string recv" where
  "on_hpm row c m =
     (case m of
        Hpm_St h \<Rightarrow> Inr (dec_nat (c - 1) @
          concat (map (\<lambda>i. if i + row * HPM_ROW_WIDTH < HPM_CNT_NUM then '', '' @ dec_u (h ! i) else []) [0..<HPM_ROW_WIDTH]))
      | _ \<Rightarrow> Inl Undefined)"

definition titled :: "string \<Rightarrow> string list \<Rightarrow> string list" where
  "titled name ls = (let t = ''---------'' @ name @ ''-------------'' in [t] @ ls @ [t])"

text \<open>The sums and the flags of \<open>pck_st_sum\<close> and \<open>pck_st_print_en\<close>.\<close>

definition add_pck :: "(nat \<Rightarrow> nat \<Rightarrow> u64) \<times> (nat \<Rightarrow> bool) \<Rightarrow> u64 list list \<Rightarrow> (nat \<Rightarrow> nat \<Rightarrow> u64) \<times> (nat \<Rightarrow> bool)" where
  "add_pck st p =
     foldl (\<lambda>st j. foldl (\<lambda>(sum, en) k. (sum(j := (sum j)(k := sum j k + p ! j ! k)), if p ! j ! k > 0 then en(k := True) else en))
       st [0..<MAX_PCK_SIZ]) st [0..<6]"

definition noc_names :: "string list" where
  "noc_names = [''NoC1_out'', ''NoC2_out'', ''NoC3_out'', ''NoC1_in'', ''NoC2_in'', ''NoC3_in'']"

definition packet_lines :: "u64 list list list \<Rightarrow> string list" where
  "packet_lines ps =
     (let (sum, en) = foldl add_pck ((\<lambda>_ _. 0), (\<lambda>_. False)) ps in
      (''NoC name'' @ concat (map (\<lambda>k. if en k then '','' @ dec_nat ((k + 1) * 8) @ ''B'' else []) [0..<MAX_PCK_SIZ])) #
      map (\<lambda>j. noc_names ! j @ concat (map (\<lambda>k. if en k then '', '' @ dec_u (sum j k) else []) [0..<MAX_PCK_SIZ])) [0..<6])"

definition hpm_str :: "string list" where
  "hpm_str = [''branch_miss'', ''is_branch'', ''branch_taken'', ''exe_st'', ''exe_ld'', ''icache_req'', ''icache_kill'',
     ''stall_if'', ''stall_id'', ''stall_rr'', ''stall_exe'', ''stall_wb'', ''icache_miss_l2_hit'', ''icache_miss_kill'',
     ''icache_busy'', ''icache_miss_time'', ''ld_st'', ''data_depend'', ''struct_depend'', ''grad_list_full'',
     ''free_list_empty'', ''itlb_acc'', ''itlb_miss'', ''dtlb_acc'', ''dtlb_miss'', ''ptw_buf_hit'', ''ptw_buf_miss'',
     ''itlb_stall'', ''dcache_stall'', ''dcache_stall_refill'', ''dcache_rtab_rollback'', ''dcache_req_onhold'',
     ''dcache_prefetch_req'', ''dcache_rd_req'', ''dcache_wr_req'', ''dcache_cmo_req'', ''dcache_uncached_req'',
     ''dcache_miss_rd_req'', ''dcache_miss_wr_req'', ''stall_ir'', ''l2_miss'', ''l2_acc'', ''l15_miss'', ''l15_acc'',
     ''roi_cycles'', ''dcache_wbf_wr'', ''dcache_wbf_rdy'']"

definition hpm_head :: "nat \<Rightarrow> string" where
  "hpm_head row = ''Tile num'' @
     concat (map (\<lambda>i. if i + row * HPM_ROW_WIDTH < HPM_CNT_NUM then '','' @ hpm_str ! (i + row * HPM_ROW_WIDTH) else []) [0..<HPM_ROW_WIDTH])"

fun hpm_rows :: "nat list \<Rightarrow> nat list \<Rightarrow> mailbox \<Rightarrow> (string list \<times> mailbox) recv" where
  "hpm_rows [] ranks ch = Inr ([], ch)"
| "hpm_rows (r # rs) ranks ch =
     bindm (each (PRINT_CACHE + 3) (on_hpm r) ranks ch) (\<lambda>(ls, ch).
     bindm (hpm_rows rs ranks ch) (\<lambda>(more, ch). Inr (titled (''HPM Stats '' @ dec_nat r) (hpm_head r # ls) @ more, ch)))"

definition verdict_line :: "int \<Rightarrow> string" where
  "verdict_line trap =
     (if trap = GOOD_EXIT then ''Simulation -> PASS (HIT GOOD TRAP)''
      else if trap = BAD_EXIT then ''Simulation -> FAIL (HIT BAD TRAP)''
      else ''Simulation -> UNKNOWN (HIT NO TRAP)'')"

text \<open>\<open>cores\<close> is \<open>PITON_X_TILES * PITON_Y_TILES\<close>, \<open>mcs\<close> is \<open>MCS_NUM\<close>.\<close>

definition chipset_report ::
  "(u32 \<Rightarrow> u32 \<Rightarrow> string) \<Rightarrow> nat \<Rightarrow> nat \<Rightarrow> MEM_STAT \<Rightarrow> u64 \<Rightarrow> int \<Rightarrow> mailbox \<Rightarrow> (string list \<times> mailbox) recv" where
  "chipset_report percent cores mcs stat now trap ch =
     (let mc_start_rank = cores + 1; tiles = [1..<mc_start_rank] in
      bindm (each PRINT_STAT (on_mem now) [mc_start_rank..<mc_start_rank + mcs] ch) (\<lambda>(mems, ch).
      bindm (each PRINT_CACHE (on_cache percent) tiles ch) (\<lambda>(caches, ch).
      bindm (each (PRINT_CACHE + 1) on_flit tiles ch) (\<lambda>(flits, ch).
      bindm (each (PRINT_CACHE + 2) on_pck tiles ch) (\<lambda>(pcks, ch).
      bindm (hpm_rows [0..<HPM_ROW_NUM] tiles ch) (\<lambda>(hpms, ch).
        Inr (titled ''Memory Stats'' (''Mem num, MPI Rank, MPI Dest Rank, #flit_in, #flit_out, ticks, cycles '' # print_static stat now # mems) @
          titled ''Cache Stats'' (''Tile num, l15_tag_indx, l15_dat_indx, l2_tag_indx, l2_dat_indx, l2_access, l2_miss, avg_lat'' # caches) @
          titled ''Flit Stats'' (''Tile num, NoC1_out, NoC2_out, NoC3_out, NoC1_in, NoC2_in, NoC3_in'' # flits) @
          titled ''Packet Stats'' (packet_lines pcks) @ hpms @ [verdict_line trap], ch)))))))"

section \<open>Receiving from all ranks\<close>

definition heads_off :: "nat list \<Rightarrow> mailbox \<Rightarrow> mailbox" where
  "heads_off rs ch = (\<lambda>r. if r \<in> set rs then tl (ch r) else ch r)"

lemma bindm_simps [simp]: "bindm (Inl e) f = Inl e" "bindm (Inr x) f = f x"
  by (simp_all add: bindm_def)

lemma receive_head: "ch r = (tag, m) # ms \<Longrightarrow> receive r tag ch = Inr (m, ch(r := ms))"
  by (simp add: receive_def)

lemma receive_empty: "ch r = [] \<Longrightarrow> receive r tag ch = Inl No_Message"
  by (simp add: receive_def)

lemma each_ok:
  assumes "distinct rs" and "\<And>r. r \<in> set rs \<Longrightarrow> \<exists>ms. ch r = (tag, m r) # ms" and "\<And>r. r \<in> set rs \<Longrightarrow> g r (m r) = Inr (y r)"
  shows "each tag g rs ch = Inr (map y rs, heads_off rs ch)"
  using assms
proof (induction rs arbitrary: ch)
  case (Cons r rs)
  obtain ms where ms: "ch r = (tag, m r) # ms" using Cons.prems(2) by auto
  have "each tag g rs (ch(r := ms)) = Inr (map y rs, heads_off rs (ch(r := ms)))"
    using Cons.prems by (intro Cons.IH) auto
  moreover have "heads_off rs (ch(r := ms)) = heads_off (r # rs) ch"
    using Cons.prems(1) ms by (auto simp: heads_off_def)
  ultimately show ?case using Cons.prems(3) by (simp add: receive_head [of ch r tag "m r" ms] ms)
qed (simp add: heads_off_def)

lemma each_fails:
  assumes "distinct rs" and "\<And>r. r \<in> set rs \<Longrightarrow> \<exists>ms. ch r = (tag, m r) # ms"
    and "\<And>r. r \<in> set rs \<Longrightarrow> g r (m r) = (if bad r then Inl Undefined else Inr (y r))" and "\<exists>r \<in> set rs. bad r"
  shows "each tag g rs ch = Inl Undefined"
  using assms
proof (induction rs arbitrary: ch)
  case (Cons r rs)
  obtain ms where ms: "ch r = (tag, m r) # ms" using Cons.prems(2) by auto
  show ?case
  proof (cases "bad r")
    case False
    have "each tag g rs (ch(r := ms)) = Inl Undefined"
      using Cons.prems False by (intro Cons.IH) auto
    then show ?thesis using Cons.prems(3) False by (simp add: receive_head [of ch r tag "m r" ms] ms)
  qed (use Cons.prems(3) ms in \<open>simp add: receive_head [of ch r tag "m r" ms]\<close>)
qed simp

lemma each_missing:
  assumes "distinct rs" and "\<exists>r \<in> set rs. ch r = []"
    and "\<And>r. r \<in> set rs \<Longrightarrow> ch r \<noteq> [] \<Longrightarrow> \<exists>m ms y. ch r = (tag, m) # ms \<and> g r m = Inr y"
  shows "each tag g rs ch = Inl No_Message"
  using assms
proof (induction rs arbitrary: ch)
  case (Cons r rs)
  show ?case
  proof (cases "ch r = []")
    case False
    then obtain m ms y where m: "ch r = (tag, m) # ms" "g r m = Inr y" using Cons.prems(3) [of r] by auto
    have "each tag g rs (ch(r := ms)) = Inl No_Message"
    proof (rule Cons.IH)
      show "\<exists>a \<in> set rs. (ch(r := ms)) a = []" using Cons.prems(1,2) False by auto
      show "\<exists>m' ms' y. (ch(r := ms)) a = (tag, m') # ms' \<and> g a m' = Inr y" if "a \<in> set rs" "(ch(r := ms)) a \<noteq> []" for a
        using Cons.prems that by auto
    qed (use Cons.prems in simp)
    then show ?thesis by (simp add: receive_head [of ch r tag m ms] m)
  qed (simp add: receive_empty)
qed simp

section \<open>The tables\<close>

text \<open>The counters of row \<open>r\<close>.\<close>

definition slice :: "nat \<Rightarrow> 'a list \<Rightarrow> 'a list" where
  "slice r xs = take HPM_ROW_WIDTH (drop (HPM_ROW_WIDTH * r) xs)"

lemma slice_concat:
  assumes "length xs = HPM_CNT_NUM" and "r < HPM_ROW_NUM"
  shows "concat (map (\<lambda>i. if i + r * HPM_ROW_WIDTH < HPM_CNT_NUM then f (xs ! (i + r * HPM_ROW_WIDTH)) else []) [0..<HPM_ROW_WIDTH]) =
    concat (map f (slice r xs))"
proof -
  let ?W = HPM_ROW_WIDTH
  define n where "n = length (slice r xs)"
  have n: "n = min ?W (HPM_CNT_NUM - ?W * r)" using assms(1) by (simp add: n_def slice_def)
  have "?W * r < HPM_CNT_NUM" using assms(2) by (simp add: HPM_ROW_NUM_def HPM_CNT_NUM_def HPM_ROW_WIDTH_def)
  then have lt: "i + r * ?W < HPM_CNT_NUM \<longleftrightarrow> i < n" if "i < ?W" for i using n that by (auto simp: mult.commute)
  have le: "n \<le> ?W" using n by simp
  have u: "[0..<?W] = [0..<n] @ [n..<?W]" using upt_add_eq_append [of 0 n "?W - n"] le by simp
  have "map (\<lambda>i. if i + r * ?W < HPM_CNT_NUM then f (xs ! (i + r * ?W)) else []) [0..<?W] =
      map (\<lambda>i. if i < n then f (xs ! (i + r * ?W)) else []) [0..<?W]"
    using lt by (intro map_cong) auto
  also have "\<dots> = map (\<lambda>i. if i < n then f (xs ! (i + r * ?W)) else []) [0..<n] @ map (\<lambda>i. if i < n then f (xs ! (i + r * ?W)) else []) [n..<?W]"
    by (simp only: u map_append)
  finally have "map (\<lambda>i. if i + r * ?W < HPM_CNT_NUM then f (xs ! (i + r * ?W)) else []) [0..<?W] =
      map (\<lambda>i. if i < n then f (xs ! (i + r * ?W)) else []) [0..<n] @ map (\<lambda>i. if i < n then f (xs ! (i + r * ?W)) else []) [n..<?W]" .
  moreover have "concat (map (\<lambda>i. if i < n then f (xs ! (i + r * ?W)) else []) [n..<?W]) = []" by auto
  moreover have "map (\<lambda>i. if i < n then f (xs ! (i + r * ?W)) else []) [0..<n] = map f (slice r xs)"
    using assms(1) n lt by (intro nth_equalityI) (auto simp: n_def slice_def mult.commute add.commute)
  ultimately show ?thesis by simp
qed

lemma slices_all: "length xs = HPM_CNT_NUM \<Longrightarrow> concat (map (\<lambda>r. slice r xs) [0..<HPM_ROW_NUM]) = xs"
proof -
  assume l: "length xs = HPM_CNT_NUM"
  have "concat (map (\<lambda>r. slice r xs) [0..<n]) = take (HPM_ROW_WIDTH * n) xs" for n
    by (induction n) (simp_all add: slice_def add.commute [of HPM_ROW_WIDTH] take_add)
  moreover have "length xs \<le> HPM_ROW_WIDTH * HPM_ROW_NUM" using l by (simp add: HPM_ROW_NUM_def HPM_CNT_NUM_def HPM_ROW_WIDTH_def)
  ultimately show ?thesis by simp
qed

definition hpm_values :: "tile_counters \<Rightarrow> u32 list" where
  "hpm_values c = map (tc_hpm_st c) [0..<HPM_CNT_NUM]"

definition hpm_line :: "nat \<Rightarrow> nat \<Rightarrow> tile_counters \<Rightarrow> string" where
  "hpm_line row c t = dec_nat (c - 1) @ concat (map (\<lambda>v. '', '' @ dec_u v) (slice row (hpm_values t)))"

lemma on_hpm_row: "row < HPM_ROW_NUM \<Longrightarrow> on_hpm row c (Hpm_St (hpm_row t row)) = Inr (hpm_line row c t)"
proof -
  assume r: "row < HPM_ROW_NUM"
  have "(if i + row * HPM_ROW_WIDTH < HPM_CNT_NUM then '', '' @ dec_u (hpm_row t row ! i) else []) =
      (if i + row * HPM_ROW_WIDTH < HPM_CNT_NUM then '', '' @ dec_u (hpm_values t ! (i + row * HPM_ROW_WIDTH)) else [])" if "i < HPM_ROW_WIDTH" for i
    using that by (simp add: hpm_row_def hpm_values_def)
  then have "concat (map (\<lambda>i. if i + row * HPM_ROW_WIDTH < HPM_CNT_NUM then '', '' @ dec_u (hpm_row t row ! i) else []) [0..<HPM_ROW_WIDTH]) =
      concat (map (\<lambda>i. if i + row * HPM_ROW_WIDTH < HPM_CNT_NUM then '', '' @ dec_u (hpm_values t ! (i + row * HPM_ROW_WIDTH)) else []) [0..<HPM_ROW_WIDTH])"
    by (intro arg_cong [of _ _ concat] map_cong) simp_all
  then show ?thesis using slice_concat [of "hpm_values t" row "\<lambda>v. '', '' @ dec_u v"] r
    by (simp add: on_hpm_def hpm_line_def hpm_values_def)
qed

lemma hpm_head_slice: "row < HPM_ROW_NUM \<Longrightarrow> hpm_head row = ''Tile num'' @ concat (map (\<lambda>s. '','' @ s) (slice row hpm_str))"
proof -
  have "length hpm_str = HPM_CNT_NUM" by (simp add: hpm_str_def HPM_CNT_NUM_def)
  from slice_concat [OF this, of row "\<lambda>s. '','' @ s"] show "row < HPM_ROW_NUM \<Longrightarrow> ?thesis" by (simp add: hpm_head_def)
qed

text \<open>The sums over the tiles.\<close>

lemma fold_updates:
  "foldl (\<lambda>(sum, en) k. (sum(j := (sum j)(k := sum j k + f k)), if f k > 0 then en(k := True) else en)) (s, en) [0..<n] =
   ((\<lambda>j' k. if j' = j \<and> k < n then s j' k + f k else s j' k), (\<lambda>k. en k \<or> k < n \<and> f k > (0 :: u64)))"
  by (induction n) (auto simp: fun_eq_iff less_Suc_eq)

lemma add_pck_eq:
  "add_pck (s, en) p = ((\<lambda>j k. if j < 6 \<and> k < MAX_PCK_SIZ then s j k + p ! j ! k else s j k),
     (\<lambda>k. en k \<or> k < MAX_PCK_SIZ \<and> (\<exists>j < 6. p ! j ! k > 0)))"
proof -
  have "foldl (\<lambda>st j. foldl (\<lambda>(sum, en) k. (sum(j := (sum j)(k := sum j k + p ! j ! k)), if p ! j ! k > 0 then en(k := True) else en))
       st [0..<MAX_PCK_SIZ]) (s, en) [0..<n] =
     ((\<lambda>j k. if j < n \<and> k < MAX_PCK_SIZ then s j k + p ! j ! k else s j k),
      (\<lambda>k. en k \<or> k < MAX_PCK_SIZ \<and> (\<exists>j < n. p ! j ! k > 0)))" for n
  proof (induction n)
    case (Suc n)
    then show ?case by (simp only: upt_Suc foldl_append foldl.simps fold_updates if_True le0) (auto simp: fun_eq_iff less_Suc_eq)
  qed simp
  then show ?thesis by (simp add: add_pck_def)
qed

lemma add_pcks:
  "foldl add_pck (s, en) ps = ((\<lambda>j k. if j < 6 \<and> k < MAX_PCK_SIZ then s j k + sum_list (map (\<lambda>p. p ! j ! k) ps) else s j k),
     (\<lambda>k. en k \<or> k < MAX_PCK_SIZ \<and> (\<exists>p \<in> set ps. \<exists>j < 6. p ! j ! k > 0)))"
  by (induction ps arbitrary: s en) (auto simp: add_pck_eq fun_eq_iff add.assoc)

definition pck_values :: "tile_counters \<Rightarrow> u64 list list" where
  "pck_values c = map (\<lambda>i. map (tc_pck_st c i) [0..<MAX_PCK_SIZ]) [0..<6]"

definition packet_table :: "tile_counters list \<Rightarrow> string list" where
  "packet_table cs =
     (let used = filter (\<lambda>k. list_ex (\<lambda>c. list_ex (\<lambda>j. tc_pck_st c j k > 0) [0..<6]) cs) [0..<MAX_PCK_SIZ] in
      (''NoC name'' @ concat (map (\<lambda>k. '','' @ dec_nat ((k + 1) * 8) @ ''B'') used)) #
      map (\<lambda>j. noc_names ! j @ concat (map (\<lambda>k. '', '' @ dec_u (sum_list (map (\<lambda>c. tc_pck_st c j k) cs))) used)) [0..<6])"

lemma concat_filter: "concat (map (\<lambda>x. if P x then f x else []) xs) = concat (map f (filter P xs))"
  by (induction xs) auto

lemma packet_lines_table: "packet_lines (map pck_values cs) = packet_table cs"
proof -
  have v: "pck_values c ! j ! k = tc_pck_st c j k" if "j < 6" "k < MAX_PCK_SIZ" for c j k
    using that by (simp add: pck_values_def)
  have en: "(\<exists>p \<in> set (map pck_values cs). \<exists>j < 6. p ! j ! k > 0) \<longleftrightarrow> list_ex (\<lambda>c. list_ex (\<lambda>j. tc_pck_st c j k > 0) [0..<6]) cs"
    if "k < MAX_PCK_SIZ" for k
  proof -
    have "(\<exists>j < 6. pck_values c ! j ! k > 0) \<longleftrightarrow> list_ex (\<lambda>j. tc_pck_st c j k > 0) [0..<6]" for c
      using v that by (auto simp: list_ex_iff)
    then show ?thesis by (simp add: list_ex_iff)
  qed
  have f: "filter (\<lambda>k. k < MAX_PCK_SIZ \<and> (\<exists>p \<in> set (map pck_values cs). \<exists>j < 6. p ! j ! k > 0)) [0..<MAX_PCK_SIZ] =
      filter (\<lambda>k. list_ex (\<lambda>c. list_ex (\<lambda>j. tc_pck_st c j k > 0) [0..<6]) cs) [0..<MAX_PCK_SIZ]"
    using en by (intro filter_cong) auto
  have s: "sum_list (map (\<lambda>p. p ! j ! k) (map pck_values cs)) = sum_list (map (\<lambda>c. tc_pck_st c j k) cs)" if "j < 6" "k < MAX_PCK_SIZ" for j k
    using v that by (induction cs) auto
  show ?thesis
    unfolding packet_lines_def packet_table_def add_pcks Let_def prod.case concat_filter simp_thms f
    using s by (auto intro!: arg_cong [of _ _ concat] map_cong)
qed

section \<open>The report\<close>

definition mem_stat :: "nat \<Rightarrow> (nat \<Rightarrow> u64 \<times> u64 \<times> int) \<Rightarrow> nat \<Rightarrow> MEM_STAT" where
  "mem_stat tiles mem r = \<lparr>flit_in_num = fst (mem r), flit_out_num = fst (snd (mem r)), ms_rank = int r,
     ms_mc_num = int r - int (tiles + 1), ms_dest = snd (snd (mem r))\<rparr>"

text \<open>All messages for the chipset: ranks 1 to \<open>tiles\<close> are tiles, the next \<open>mcs\<close> are memories.\<close>

definition all_reports :: "nat \<Rightarrow> nat \<Rightarrow> (nat \<Rightarrow> tile_counters) \<Rightarrow> (nat \<Rightarrow> u64 \<times> u64 \<times> int) \<Rightarrow> mailbox" where
  "all_reports tiles mcs tops mem r =
     (if 1 \<le> r \<and> r \<le> tiles then tile_sends (tops r)
      else if tiles < r \<and> r \<le> tiles + mcs
      then mem_sends (fst (mem r)) (fst (snd (mem r))) (int r) (int r - int (tiles + 1)) (snd (snd (mem r)))
      else [])"

definition cache_text :: "(u32 \<Rightarrow> u32 \<Rightarrow> string) \<Rightarrow> nat \<Rightarrow> tile_counters \<Rightarrow> string" where
  "cache_text percent r c =
     dec_nat (r - 1) @ concat (map (\<lambda>k. '', '' @ percent (tc_cache_st c k) (tc_cache_st c (k + 1))) [0, 2, 4, 6]) @
     '', '' @ dec_u (tc_cache_st c 8) @ '', '' @ dec_u (tc_cache_st c 9) @ '', '' @ dec_u (tc_cache_st c 10 div tc_cache_st c 11)"

definition full_report ::
  "(u32 \<Rightarrow> u32 \<Rightarrow> string) \<Rightarrow> nat \<Rightarrow> nat \<Rightarrow> (nat \<Rightarrow> tile_counters) \<Rightarrow> (nat \<Rightarrow> u64 \<times> u64 \<times> int) \<Rightarrow> MEM_STAT \<Rightarrow> u64 \<Rightarrow> int \<Rightarrow> string list" where
  "full_report percent tiles mcs tops mem stat now trap =
     titled ''Memory Stats'' (''Mem num, MPI Rank, MPI Dest Rank, #flit_in, #flit_out, ticks, cycles '' # print_static stat now #
       map (\<lambda>r. print_static (mem_stat tiles mem r) now) [tiles + 1..<tiles + 1 + mcs]) @
     titled ''Cache Stats'' (''Tile num, l15_tag_indx, l15_dat_indx, l2_tag_indx, l2_dat_indx, l2_access, l2_miss, avg_lat'' #
       map (\<lambda>r. cache_text percent r (tops r)) [1..<tiles + 1]) @
     titled ''Flit Stats'' (''Tile num, NoC1_out, NoC2_out, NoC3_out, NoC1_in, NoC2_in, NoC3_in'' #
       map (\<lambda>r. dec_nat (r - 1) @ concat (map (\<lambda>j. '', '' @ dec_u (tc_flit_st (tops r) j)) [0..<6])) [1..<tiles + 1]) @
     titled ''Packet Stats'' (packet_table (map tops [1..<tiles + 1])) @
     concat (map (\<lambda>row. titled (''HPM Stats '' @ dec_nat row) ((''Tile num'' @ concat (map (\<lambda>s. '','' @ s) (slice row hpm_str))) #
       map (\<lambda>r. hpm_line row r (tops r)) [1..<tiles + 1])) [0..<HPM_ROW_NUM]) @
     [verdict_line trap]"

lemma hpm_rows_ok:
  assumes "distinct rs" and "b \<le> HPM_ROW_NUM"
    and "\<And>r. r \<in> set rs \<Longrightarrow> ch r = map (\<lambda>k. (PRINT_CACHE + 3, Hpm_St (hpm_row (tops r) k))) [a..<b]" and "a \<le> b"
  shows "hpm_rows [a..<b] rs ch =
    Inr (concat (map (\<lambda>row. titled (''HPM Stats '' @ dec_nat row) ((''Tile num'' @ concat (map (\<lambda>s. '','' @ s) (slice row hpm_str))) #
       map (\<lambda>r. hpm_line row r (tops r)) rs)) [a..<b]), \<lambda>r. if r \<in> set rs then [] else ch r)"
  using assms(3,4)
proof (induction "b - a" arbitrary: a ch)
  case 0
  then show ?case by (auto simp: fun_eq_iff)
next
  case (Suc n)
  then have ab: "a < b" by simp
  then have a: "a < HPM_ROW_NUM" using assms(2) by simp
  have u: "[a..<b] = a # [Suc a..<b]" using ab by (rule upt_conv_Cons)
  have e: "each (PRINT_CACHE + 3) (on_hpm a) rs ch = Inr (map (\<lambda>r. hpm_line a r (tops r)) rs, heads_off rs ch)"
  proof (rule each_ok [OF assms(1)])
    fix r
    assume "r \<in> set rs"
    then show "\<exists>ms. ch r = (PRINT_CACHE + 3, Hpm_St (hpm_row (tops r) a)) # ms" using Suc.prems(1) by (simp add: u)
    show "on_hpm a r (Hpm_St (hpm_row (tops r) a)) = Inr (hpm_line a r (tops r))" by (rule on_hpm_row [OF a])
  qed
  have "hpm_rows [Suc a..<b] rs (heads_off rs ch) =
    Inr (concat (map (\<lambda>row. titled (''HPM Stats '' @ dec_nat row) ((''Tile num'' @ concat (map (\<lambda>s. '','' @ s) (slice row hpm_str))) #
       map (\<lambda>r. hpm_line row r (tops r)) rs)) [Suc a..<b]), \<lambda>r. if r \<in> set rs then [] else heads_off rs ch r)"
  proof (rule Suc.hyps(1))
    fix r
    assume "r \<in> set rs"
    then show "heads_off rs ch r = map (\<lambda>k. (PRINT_CACHE + 3, Hpm_St (hpm_row (tops r) k))) [Suc a..<b]"
      using Suc.prems(1) by (simp add: heads_off_def u)
  qed (use Suc.hyps(2) ab in auto)
  note ih = this
  have same: "(\<lambda>r. if r \<in> set rs then [] else heads_off rs ch r) = (\<lambda>r. if r \<in> set rs then [] else ch r)"
    by (auto simp: heads_off_def)
  show ?case by (simp only: u hpm_rows.simps e ih same bindm_simps prod.case hpm_head_slice [OF a] list.map concat.simps)
qed

lemma tile_mail: "1 \<le> r \<Longrightarrow> r \<le> tiles \<Longrightarrow> all_reports tiles mcs tops mem r = tile_sends (tops r)"
  by (simp add: all_reports_def)

lemma mem_mail: "tiles < r \<Longrightarrow> r \<le> tiles + mcs \<Longrightarrow> all_reports tiles mcs tops mem r = [(PRINT_STAT, Mem_Stat (mem_stat tiles mem r))]"
  by (simp add: all_reports_def mem_sends_def mem_stat_def)

lemma memories_read:
  "each PRINT_STAT (on_mem now) [tiles + 1..<tiles + 1 + mcs] (all_reports tiles mcs tops mem) =
   Inr (map (\<lambda>r. print_static (mem_stat tiles mem r) now) [tiles + 1..<tiles + 1 + mcs],
     \<lambda>r. if 1 \<le> r \<and> r \<le> tiles then tile_sends (tops r) else [])"
proof -
  have "each PRINT_STAT (on_mem now) [tiles + 1..<tiles + 1 + mcs] (all_reports tiles mcs tops mem) =
     Inr (map (\<lambda>r. print_static (mem_stat tiles mem r) now) [tiles + 1..<tiles + 1 + mcs],
       heads_off [tiles + 1..<tiles + 1 + mcs] (all_reports tiles mcs tops mem))"
    by (rule each_ok [where m = "\<lambda>r. Mem_Stat (mem_stat tiles mem r)"]) (auto simp: mem_mail on_mem_def)
  moreover have "heads_off [tiles + 1..<tiles + 1 + mcs] (all_reports tiles mcs tops mem) r =
      (if 1 \<le> r \<and> r \<le> tiles then tile_sends (tops r) else [])" for r
    by (auto simp: heads_off_def mem_mail) (auto simp: all_reports_def)
  ultimately show ?thesis by (simp add: fun_eq_iff)
qed

lemma on_cache_sent:
  "on_cache percent r (Cache_St (map (tc_cache_st c) [0..<CHACH_ST_SIZ])) =
     (if tc_cache_st c 11 = 0 then Inl Undefined else Inr (cache_text percent r c))"
  by (simp add: on_cache_def cache_line_def cache_text_def CHACH_ST_SIZ_def numeral_2_eq_2 del: upt_Suc upt_rec_numeral)

lemma flit_sent: "flit_line i (map f [0..<6]) = dec_nat (i - 1) @ concat (map (\<lambda>j. '', '' @ dec_u (f j)) [0..<6])"
  unfolding flit_line_def by (intro arg_cong [of _ _ "\<lambda>x. dec_nat (i - 1) @ concat x"] map_cong) simp_all

lemma chipset_report_ok:
  "chipset_report percent tiles mcs stat now trap (all_reports tiles mcs tops mem) =
     (if \<exists>r. 1 \<le> r \<and> r \<le> tiles \<and> tc_cache_st (tops r) 11 = 0 then Inl Undefined
      else Inr (full_report percent tiles mcs tops mem stat now trap, \<lambda>_. []))"
proof -
  define rs where "rs = [1..<tiles + 1]"
  have rs: "distinct rs" "r \<in> set rs \<longleftrightarrow> 1 \<le> r \<and> r \<le> tiles" for r by (auto simp: rs_def)
  define mail where "mail k r = (if r \<in> set rs then drop k (tile_sends (tops r)) else [])" for k r
  have off: "heads_off rs (mail k) = mail (Suc k)" for k
    by (auto simp: heads_off_def mail_def fun_eq_iff drop_Suc tl_drop)
  have mems: "each PRINT_STAT (on_mem now) [tiles + 1..<tiles + 1 + mcs] (all_reports tiles mcs tops mem) =
      Inr (map (\<lambda>r. print_static (mem_stat tiles mem r) now) [tiles + 1..<tiles + 1 + mcs], mail 0)"
  proof -
    have "mail 0 = (\<lambda>r. if 1 \<le> r \<and> r \<le> tiles then tile_sends (tops r) else [])" by (auto simp: mail_def rs(2) fun_eq_iff)
    then show ?thesis by (simp only: memories_read)
  qed
  show ?thesis
  proof (cases "\<exists>r. 1 \<le> r \<and> r \<le> tiles \<and> tc_cache_st (tops r) 11 = 0")
    case True
    then have "\<exists>r \<in> set rs. tc_cache_st (tops r) 11 = 0" by (auto simp: rs(2))
    then have u: "each PRINT_CACHE (on_cache percent) rs (mail 0) = Inl Undefined"
      by (intro each_fails [OF rs(1), where m = "\<lambda>r. Cache_St (map (tc_cache_st (tops r)) [0..<CHACH_ST_SIZ])"
            and y = "\<lambda>r. cache_text percent r (tops r)" and bad = "\<lambda>r. tc_cache_st (tops r) 11 = 0"])
        (simp_all add: mail_def tile_sends_def on_cache_sent)
    have "chipset_report percent tiles mcs stat now trap (all_reports tiles mcs tops mem) = Inl Undefined"
      by (simp only: chipset_report_def rs_def [symmetric] Let_def mems u bindm_simps prod.case)
    then show ?thesis using True by simp
  next
    case False
    then have c: "each PRINT_CACHE (on_cache percent) rs (mail 0) = Inr (map (\<lambda>r. cache_text percent r (tops r)) rs, mail 1)"
      using off [of 0] rs(2)
      by (subst each_ok [OF rs(1), where m = "\<lambda>r. Cache_St (map (tc_cache_st (tops r)) [0..<CHACH_ST_SIZ])"
            and y = "\<lambda>r. cache_text percent r (tops r)"]) (simp_all add: mail_def tile_sends_def on_cache_sent)
    have f: "each (PRINT_CACHE + 1) on_flit rs (mail 1) =
        Inr (map (\<lambda>r. dec_nat (r - 1) @ concat (map (\<lambda>j. '', '' @ dec_u (tc_flit_st (tops r) j)) [0..<6])) rs, mail 2)"
      using off [of 1]
      by (subst each_ok [OF rs(1), where m = "\<lambda>r. Flit_St (map (tc_flit_st (tops r)) [0..<6])"
            and y = "\<lambda>r. dec_nat (r - 1) @ concat (map (\<lambda>j. '', '' @ dec_u (tc_flit_st (tops r) j)) [0..<6])"])
        (simp_all add: mail_def tile_sends_def on_flit_def flit_sent numeral_2_eq_2)
    have p: "each (PRINT_CACHE + 2) on_pck rs (mail 2) = Inr (map (\<lambda>r. pck_values (tops r)) rs, mail 3)"
      using off [of 2]
      by (subst each_ok [OF rs(1), where m = "\<lambda>r. Pck_St (pck_values (tops r))" and y = "\<lambda>r. pck_values (tops r)"])
        (simp_all add: mail_def tile_sends_def on_pck_def pck_values_def numeral_2_eq_2 numeral_3_eq_3)
    have h: "hpm_rows [0..<HPM_ROW_NUM] rs (mail 3) =
      Inr (concat (map (\<lambda>row. titled (''HPM Stats '' @ dec_nat row) ((''Tile num'' @ concat (map (\<lambda>s. '','' @ s) (slice row hpm_str))) #
         map (\<lambda>r. hpm_line row r (tops r)) rs)) [0..<HPM_ROW_NUM]), \<lambda>r. if r \<in> set rs then [] else mail 3 r)"
      by (rule hpm_rows_ok [OF rs(1)]) (simp_all add: mail_def tile_sends_def numeral_3_eq_3)
    have t: "packet_lines (map (\<lambda>r. pck_values (tops r)) rs) = packet_table (map tops rs)"
      using packet_lines_table [of "map tops rs"] by (simp add: comp_def)
    have e: "(\<lambda>r. if r \<in> set rs then [] else mail 3 r) = (\<lambda>_. [])" by (auto simp: mail_def)
    have "chipset_report percent tiles mcs stat now trap (all_reports tiles mcs tops mem) =
        Inr (full_report percent tiles mcs tops mem stat now trap, \<lambda>_. [])"
      by (simp only: chipset_report_def full_report_def rs_def [symmetric] Let_def mems c f p h t e bindm_simps prod.case)
    then show ?thesis using False by simp
  qed
qed

text \<open>With more cores than tile ranks the chipset asks for the report of a rank that does not exist.\<close>

lemma chipset_report_waits:
  assumes "tiles < cores" and "0 < mcs"
  shows "chipset_report percent cores mcs stat now trap (all_reports tiles mcs tops mem) = Inl No_Message"
proof -
  have "each PRINT_STAT (on_mem now) [cores + 1..<cores + 1 + mcs] (all_reports tiles mcs tops mem) = Inl No_Message"
  proof (rule each_missing)
    show "\<exists>r \<in> set [cores + 1..<cores + 1 + mcs]. all_reports tiles mcs tops mem r = []"
      using assms by (intro bexI [of _ "cores + mcs"]) (auto simp: all_reports_def)
    show "\<exists>m ms y. all_reports tiles mcs tops mem r = (PRINT_STAT, m) # ms \<and> on_mem now r m = Inr y"
      if "r \<in> set [cores + 1..<cores + 1 + mcs]" "all_reports tiles mcs tops mem r \<noteq> []" for r
      using that assms(1) by (auto simp: all_reports_def mem_sends_def on_mem_def split: if_splits)
  qed simp
  then show ?thesis by (simp add: chipset_report_def Let_def)
qed

end
