(* ===== verification/LAT_Control.thy ===== *)
theory LAT_Control
  imports Complex_Main GF_Prelude
begin

text \<open>
  The latency model of the memory, the class \<open>BwLatMemCtrl\<close> of \<open>src/piton/tools/pli/Realistic_lat/bw_lat_mem_ctrl.cc\<close>
  and its header, and the calls of \<open>lat.cc\<close> in the DPI build. It counts accesses in windows, and at the end of a window
  moves its latency towards the one that measured curves give for the bandwidth and the share of reads of the window.

  A \<open>double\<close> is a rational number, and \<open>fl\<close> rounds the exact result of an operation; it is an argument of the model, and
  \<open>fl_ok\<close> states what IEEE arithmetic guarantees of it within the range of the model (monotone, exact for multiples
  of 1/256 that fit the mantissa, idempotent, and a difference of two different numbers is not rounded to zero). An infinite bandwidth
  (a window of no cycles) is \<open>None\<close>; any other division by zero, and a conversion to an integer of a value out of range,
  is \<open>Inl Undef\<close>; a failed assertion ends the program and is \<open>Inl (Exit M_MISC)\<close>. The curve files are arguments, \<open>None\<close>
  when they cannot be opened. \<open>MaxTheoreticalBW\<close> is never used and left out.

  The lemmas show that the assertions hold and that every access returns as long as the latency fits 32 bits, and bound
  the latency from below and above.
\<close>

section \<open>Conversions\<close>

type_synonym double = rat

definition to_u32 :: "double \<Rightarrow> u32 res" where
  "to_u32 x = (if -1 < x \<and> x < 2 ^ 32 then Inr (of_int \<lfloor>max 0 x\<rfloor>) else Inl Undef)"

definition to_u64 :: "double \<Rightarrow> u64 res" where
  "to_u64 x = (if -1 < x \<and> x < 2 ^ 64 then Inr (of_int \<lfloor>max 0 x\<rfloor>) else Inl Undef)"

definition dbl :: "(double \<Rightarrow> double) \<Rightarrow> 'a::len word \<Rightarrow> double" where
  "dbl fl w = fl (of_nat (unat w))"

definition assertion :: "bool \<Rightarrow> 'a res \<Rightarrow> 'a res" where
  "assertion b rest = (if b then rest else Inl (Exit M_MISC))"

definition div_res :: "(double \<Rightarrow> double) \<Rightarrow> double \<Rightarrow> double \<Rightarrow> double res" where
  "div_res fl x y = (if y = 0 then Inl Undef else Inr (fl (x / y)))"

section \<open>The controller\<close>

record bw_ctrl =
  bc_latency :: u32
  bc_outputBW :: "double option"
  bc_leadOffLatency :: double
  bc_maxBandwidth :: double
  bc_maxLatency :: double
  bc_lastEstimatedBandwidth :: double
  bc_lastEstimatedLatency :: double
  bc_overflowFactor :: double
  bc_frequencyCPU :: double
  bc_curves_data :: "(double \<times> double) list list"
  bc_maxBandwidthPerRdRatio :: "double list"
  bc_maxLatencyPerRdRatio :: "u32 list"
  bc_count :: u32
  bc_count_wr :: u32
  bc_count_rd :: u32
  bc_window_size :: u32
  bc_window_start :: u64
  bc_lastIntReadPercentage :: "u32 option"

text \<open>A point of a curve; the state holds the lead-off latency and the largest latency and bandwidth, of all curves
  and of this one.\<close>

definition curve_point ::
  "(double \<Rightarrow> double) \<Rightarrow> double \<times> double \<Rightarrow> double \<times> double \<times> double \<times> double \<times> double \<times> (double \<times> double) list \<Rightarrow>
    double \<times> double \<times> double \<times> double \<times> double \<times> (double \<times> double) list" where
  "curve_point fl pt st =
     (let (inputBandwidth, inputLatency) = pt;
          (lead, maxLat, maxLatTemp, maxBW, maxBWTemp, data) = st;
          bw = fl (fl (inputBandwidth / 64) / fl (fl (21 / 10) * 1000))
      in (if lead > inputLatency then inputLatency else lead,
          if maxLat < inputLatency then inputLatency else maxLat,
          if maxLatTemp < inputLatency then inputLatency else maxLatTemp,
          if maxBW < bw then bw else maxBW,
          if maxBWTemp < bw then bw else maxBWTemp,
          data @ [(bw, inputLatency)]))"

definition read_curve :: "(double \<Rightarrow> double) \<Rightarrow> (double \<times> double) list option \<Rightarrow> bw_ctrl \<Rightarrow> bw_ctrl res" where
  "read_curve fl file bc =
     (case file of
        None \<Rightarrow> Inl (Exit M_MISC)
      | Some pts \<Rightarrow>
          let (lead, maxLat, maxLatTemp, maxBW, maxBWTemp, data) =
                foldl (\<lambda>st pt. curve_point fl pt st) (bc_leadOffLatency bc, bc_maxLatency bc, 0, bc_maxBandwidth bc, 0, []) pts
          in bindr (to_u32 maxLatTemp) (\<lambda>m.
               Inr (bc\<lparr>bc_leadOffLatency := lead, bc_maxLatency := maxLat, bc_maxBandwidth := maxBW,
                       bc_maxBandwidthPerRdRatio := bc_maxBandwidthPerRdRatio bc @ [maxBWTemp],
                       bc_maxLatencyPerRdRatio := bc_maxLatencyPerRdRatio bc @ [m],
                       bc_curves_data := bc_curves_data bc @ [data]\<rparr>)))"

text \<open>The constructor; \<open>files\<close> are the 51 curves for 0, 2, ..., 100 percent reads. \<open>outputBW\<close> and
  \<open>lastIntReadPercentage\<close> are not set before the end of the first window: \<open>None\<close>, and reading them is undefined.\<close>

definition new_ctrl :: "(double \<Rightarrow> double) \<Rightarrow> (double \<times> double) list option list \<Rightarrow> u32 \<Rightarrow> double \<Rightarrow> bw_ctrl res" where
  "new_ctrl fl files curveWindowSize frequencyRate =
     bindr (foldr_res (\<lambda>bc file. read_curve fl file bc)
       \<lparr>bc_latency = 0, bc_outputBW = None, bc_leadOffLatency = 100000, bc_maxBandwidth = 0, bc_maxLatency = 0,
        bc_lastEstimatedBandwidth = 0, bc_lastEstimatedLatency = 0, bc_overflowFactor = 0, bc_frequencyCPU = frequencyRate,
        bc_curves_data = [], bc_maxBandwidthPerRdRatio = [], bc_maxLatencyPerRdRatio = [], bc_count = 0, bc_count_wr = 0,
        bc_count_rd = 0, bc_window_size = curveWindowSize, bc_window_start = 0, bc_lastIntReadPercentage = None\<rparr> files)
     (\<lambda>bc. bindr (to_u32 (bc_leadOffLatency bc)) (\<lambda>l.
       Inr (bc\<lparr>bc_lastEstimatedBandwidth := 0, bc_lastEstimatedLatency := bc_leadOffLatency bc, bc_latency := l\<rparr>)))"

definition convergeSpeed :: "(double \<Rightarrow> double) \<Rightarrow> double" where
  "convergeSpeed fl = fl (5 / 100)"

text \<open>\<open>convergeSpeed * new + (1-convergeSpeed) * old\<close>\<close>

definition converge :: "(double \<Rightarrow> double) \<Rightarrow> double \<Rightarrow> double \<Rightarrow> double" where
  "converge fl new old = fl (fl (convergeSpeed fl * new) + fl (fl (1 - convergeSpeed fl) * old))"

definition read_percentage :: "(double \<Rightarrow> double) \<Rightarrow> double \<Rightarrow> u32 res" where
  "read_percentage fl readPercentage =
     to_u32 (fl (of_int \<lfloor>fl (fl (fl (100 * readPercentage) * (1 / 2)) + 1 / 2)\<rfloor> * 2))"

text \<open>The loop over the points of a curve: the index where it stops, and the point it found last.\<close>

fun curve_loop :: "(double \<times> double) list \<Rightarrow> double \<Rightarrow> nat \<Rightarrow> double \<Rightarrow> double \<Rightarrow> nat \<times> double \<times> double" where
  "curve_loop [] bandwidth j finalBW finalLatency = (j, finalBW, finalLatency)"
| "curve_loop ((bw, lat) # pts) bandwidth j finalBW finalLatency =
     (let (finalBW, finalLatency) = (if finalBW = 0 then (bw, lat) else (finalBW, finalLatency)) in
      if bw \<ge> bandwidth then curve_loop pts bandwidth (Suc j) bw lat else (j, finalBW, finalLatency))"

text \<open>The two ends of the search: the bandwidth is above the curve, or the latency is found on it.\<close>

definition over_curve :: "(double \<Rightarrow> double) \<Rightarrow> double \<Rightarrow> u32 \<Rightarrow> u32 \<Rightarrow> bw_ctrl \<Rightarrow> (u32 \<times> bw_ctrl) res" where
  "over_curve fl maxBW maxLat lead bc =
     (let finalBW = converge fl maxBW (bc_lastEstimatedBandwidth bc);
          overflowFactor = fl (bc_overflowFactor bc + fl (2 / 100));
          finalLatency = fl (fl (1 + overflowFactor) * dbl fl maxLat);
          finalLatency = converge fl finalLatency (bc_lastEstimatedLatency bc);
          bc = bc\<lparr>bc_overflowFactor := overflowFactor, bc_lastEstimatedBandwidth := finalBW,
                  bc_lastEstimatedLatency := finalLatency, bc_outputBW := Some (fl (fl (finalBW * 64) * fl (21 / 10)))\<rparr>;
          finalLatency = (if finalLatency < dbl fl lead then dbl fl lead else finalLatency)
      in assertion (finalLatency \<ge> dbl fl lead) (bindr (to_u32 finalLatency) (\<lambda>l. Inr (l, bc))))"

definition interpolate :: "(double \<Rightarrow> double) \<Rightarrow> double \<times> double \<Rightarrow> double \<times> double \<Rightarrow> double \<Rightarrow> double res" where
  "interpolate fl p1 p2 x =
     bindr (div_res fl (fl (x - fst p1)) (fl (fst p2 - fst p1))) (\<lambda>q.
       Inr (fl (snd p1 + fl (q * fl (snd p2 - snd p1)))))"

definition less_overflow :: "(double \<Rightarrow> double) \<Rightarrow> double \<Rightarrow> double" where
  "less_overflow fl ov = (if ov > fl (1 / 100) then fl (ov - fl (1 / 100)) else ov)"

definition on_curve :: "(double \<Rightarrow> double) \<Rightarrow> (double \<times> double) list \<Rightarrow> double \<Rightarrow> u32 \<Rightarrow> bw_ctrl \<Rightarrow> (u32 \<times> bw_ctrl) res" where
  "on_curve fl curve bandwidth lead bc =
     (let (j, finalBW, finalLatency) = curve_loop curve bandwidth 0 0 (bc_leadOffLatency bc);
          j = (of_nat j :: u32);
          j = (if unat j = length curve then j - 1 else j)
      in bindr (if j \<noteq> 0
                then bindr (nth_res curve (unat j)) (\<lambda>p1. bindr (nth_res curve (unat (j - 1))) (\<lambda>p2. interpolate fl p1 p2 bandwidth))
                else Inr finalLatency) (\<lambda>finalLatency.
         let finalLatency = fl (finalLatency + fl (bc_overflowFactor bc * finalLatency));
             finalLatency = converge fl finalLatency (bc_lastEstimatedLatency bc);
             overflowFactor = less_overflow fl (bc_overflowFactor bc);
             overflowFactor = (if j = 0 \<and> overflowFactor < 0 then 0 else overflowFactor);
             bc = bc\<lparr>bc_overflowFactor := overflowFactor, bc_lastEstimatedBandwidth := bandwidth,
                     bc_lastEstimatedLatency := finalLatency, bc_outputBW := Some (fl (fl (bandwidth * 64) * fl (21 / 10)))\<rparr>;
             finalLatency = (if finalLatency \<le> dbl fl lead then dbl fl lead else finalLatency)
         in assertion (finalLatency \<ge> dbl fl lead) (bindr (to_u32 finalLatency) (\<lambda>l. Inr (l, bc)))))"

definition searchForLatencyOnCurve :: "(double \<Rightarrow> double) \<Rightarrow> double option \<Rightarrow> double \<Rightarrow> bw_ctrl \<Rightarrow> (u32 \<times> bw_ctrl) res" where
  "searchForLatencyOnCurve fl measuredBandwidth readPercentage bc =
     bindr (read_percentage fl readPercentage) (\<lambda>pct.
     let bc = bc\<lparr>bc_lastIntReadPercentage := Some pct\<rparr> in
     assertion (pct \<le> 100) (assertion (pct mod 2 = 0) (
     let curveDataIndex = unat (pct div 2) in
     bindr (nth_res (bc_maxBandwidthPerRdRatio bc) curveDataIndex) (\<lambda>maxBW.
     bindr (to_u32 (bc_leadOffLatency bc)) (\<lambda>lead.
     case measuredBandwidth of
       None \<Rightarrow> bindr (nth_res (bc_maxLatencyPerRdRatio bc) curveDataIndex) (\<lambda>maxLat. over_curve fl maxBW maxLat lead bc)
     | Some b \<Rightarrow>
         if fl (maxBW * fl (985 / 1000)) < b
         then bindr (nth_res (bc_maxLatencyPerRdRatio bc) curveDataIndex) (\<lambda>maxLat. over_curve fl maxBW maxLat lead bc)
         else bindr (nth_res (bc_curves_data bc) curveDataIndex) (\<lambda>curve.
                on_curve fl curve (converge fl b (bc_lastEstimatedBandwidth bc)) lead bc))))))"

definition updateLatency :: "(double \<Rightarrow> double) \<Rightarrow> u64 \<Rightarrow> bw_ctrl \<Rightarrow> bw_ctrl res" where
  "updateLatency fl currentWindowEndCycle bc =
     (let cycles = dbl fl (currentWindowEndCycle - bc_window_start bc);
          accesses = fl (fl (bc_frequencyCPU bc / fl (21 / 10)) * dbl fl (bc_count bc))
      in bindr (if cycles \<noteq> 0 then Inr (Some (fl (accesses / cycles))) else if accesses > 0 then Inr None else Inl Undef)
           (\<lambda>bandwidth.
         bindr (div_res fl (dbl fl (bc_count_rd bc)) (dbl fl (bc_count_rd bc + bc_count_wr bc))) (\<lambda>readPercentage.
         bindr (searchForLatencyOnCurve fl bandwidth readPercentage bc) (\<lambda>(l, bc). Inr (bc\<lparr>bc_latency := l\<rparr>)))))"

definition access :: "(double \<Rightarrow> double) \<Rightarrow> u64 \<Rightarrow> bool \<Rightarrow> bw_ctrl \<Rightarrow> (u64 \<times> bw_ctrl) res" where
  "access fl accessCycle isWrite bc =
     (let bc = (if bc_count bc = 0 then bc\<lparr>bc_window_start := accessCycle\<rparr> else bc);
          bc = bc\<lparr>bc_count := bc_count bc + 1\<rparr>;
          bc = (if isWrite then bc\<lparr>bc_count_wr := bc_count_wr bc + 1\<rparr> else bc\<lparr>bc_count_rd := bc_count_rd bc + 1\<rparr>)
      in bindr (if bc_count bc = bc_window_size bc
                then bindr (updateLatency fl accessCycle bc) (\<lambda>bc. Inr (bc\<lparr>bc_count := 0, bc_count_wr := 0, bc_count_rd := 0\<rparr>))
                else Inr bc) (\<lambda>bc.
         bindr (to_u64 (fl (fl (bc_frequencyCPU bc * dbl fl (bc_latency bc)) / fl (21 / 10)))) (\<lambda>r. Inr (r, bc))))"

definition GetQsMemLoadCycleLimit :: "bw_ctrl \<Rightarrow> u64 res" where
  "GetQsMemLoadCycleLimit bc =
     bindr (the_res (bc_lastIntReadPercentage bc)) (\<lambda>pct.
     bindr (nth_res (bc_maxLatencyPerRdRatio bc) (unat (pct div 2))) (\<lambda>m.
       Inr (if bc_latency bc > m then ucast (bc_latency bc - m) else 0)))"

definition getLeadOffLatency :: "bw_ctrl \<Rightarrow> u32 res" where
  "getLeadOffLatency bc = to_u32 (bc_leadOffLatency bc)"

definition getBandwidth :: "bw_ctrl \<Rightarrow> double res" where
  "getBandwidth bc = the_res (bc_outputBW bc)"

section \<open>The calls of the simulator\<close>

text \<open>A second call of \<open>delay_init_call\<close> does nothing; \<open>freq\<close> is in MHz.\<close>

definition delay_init_call :: "(double \<Rightarrow> double) \<Rightarrow> (double \<times> double) list option list \<Rightarrow> int \<Rightarrow> bw_ctrl option \<Rightarrow> bw_ctrl option res" where
  "delay_init_call fl files freq bc =
     (if bc \<noteq> None then Inr bc
      else bindr (new_ctrl fl files 1000 (fl (of_int freq / 1000))) (\<lambda>bc. Inr (Some bc)))"

definition got_a_read_req_call :: "(double \<Rightarrow> double) \<Rightarrow> u64 \<Rightarrow> bw_ctrl \<Rightarrow> (u64 \<times> bw_ctrl) res" where
  "got_a_read_req_call fl accessCycle bc = access fl accessCycle False bc"

definition got_a_write_req_call :: "(double \<Rightarrow> double) \<Rightarrow> u64 \<Rightarrow> bw_ctrl \<Rightarrow> (u64 \<times> bw_ctrl) res" where
  "got_a_write_req_call fl accessCycle bc = access fl accessCycle True bc"

section \<open>Rounding\<close>

definition fl_ok :: "(double \<Rightarrow> double) \<Rightarrow> bool" where
  "fl_ok fl \<longleftrightarrow> mono fl \<and> (\<forall>n :: int. \<bar>n\<bar> \<le> 2 ^ 53 \<longrightarrow> fl (of_int n / 256) = of_int n / 256) \<and> (\<forall>x. fl (fl x) = fl x) \<and>
     (\<forall>x y. fl x = x \<longrightarrow> fl y = y \<longrightarrow> x \<noteq> y \<longrightarrow> fl (x - y) \<noteq> 0)"

lemma fl_exact:
  assumes "fl_ok fl" and "\<bar>n\<bar> \<le> 2 ^ 45"
  shows "fl (of_int n) = of_int n"
proof -
  have "\<bar>n * 256\<bar> \<le> 2 ^ 53" using assms(2) by simp
  then have "fl (of_int (n * 256) / 256) = of_int (n * 256) / 256" using assms(1) unfolding fl_ok_def by blast
  then show ?thesis by simp
qed

lemma fl_dyadic: "fl_ok fl \<Longrightarrow> \<bar>n\<bar> \<le> 2 ^ 53 \<Longrightarrow> fl (of_int n / 256) = of_int n / 256"
  by (simp add: fl_ok_def)

lemma fl_mono: "fl_ok fl \<Longrightarrow> x \<le> y \<Longrightarrow> fl x \<le> fl y"
  by (auto simp: fl_ok_def mono_def)

lemma fl_idem: "fl_ok fl \<Longrightarrow> fl (fl x) = fl x"
  by (simp add: fl_ok_def)

lemma fl_le: "fl_ok fl \<Longrightarrow> x \<le> of_int n \<Longrightarrow> \<bar>n\<bar> \<le> 2 ^ 45 \<Longrightarrow> fl x \<le> of_int n"
  using fl_mono [of fl x "of_int n"] fl_exact [of fl n] by simp

lemma fl_ge: "fl_ok fl \<Longrightarrow> of_int n \<le> x \<Longrightarrow> \<bar>n\<bar> \<le> 2 ^ 45 \<Longrightarrow> of_int n \<le> fl x"
  using fl_mono [of fl "of_int n" x] fl_exact [of fl n] by simp

lemma fl_nonneg: "fl_ok fl \<Longrightarrow> 0 \<le> x \<Longrightarrow> 0 \<le> fl x"
  using fl_ge [of fl 0 x] by simp

lemma fl_nonpos: "fl_ok fl \<Longrightarrow> x \<le> 0 \<Longrightarrow> fl x \<le> 0"
  using fl_le [of fl x 0] by simp

lemma fl_id: "fl_ok (\<lambda>x. x)"
  by (simp add: fl_ok_def mono_def)

lemma dbl_u32: "fl_ok fl \<Longrightarrow> dbl fl (w :: u32) = of_nat (unat w)"
proof -
  assume ok: "fl_ok fl"
  have "int (unat w) \<le> 2 ^ 45" using unsigned_less [of w, where ?'a = int] by simp
  then show ?thesis using fl_exact [OF ok, of "int (unat w)"] by (simp add: dbl_def)
qed

lemma dbl_nonneg: "fl_ok fl \<Longrightarrow> 0 \<le> dbl fl w"
  unfolding dbl_def by (rule fl_nonneg) (simp_all only: of_nat_0_le_iff)

lemma to_u32_ok:
  assumes "0 \<le> x" and "x \<le> of_int n" and "n < 2 ^ 32"
  shows "\<exists>w. to_u32 x = Inr w \<and> int (unat w) = \<lfloor>x\<rfloor> \<and> int (unat w) \<le> n"
proof -
  have x: "x < 2 ^ 32"
  proof -
    have "(of_int n :: rat) < of_int (2 ^ 32)" using assms(3) by (simp only: of_int_less_iff)
    with assms(2) show ?thesis by simp
  qed
  then have f: "0 \<le> \<lfloor>x\<rfloor>" "\<lfloor>x\<rfloor> \<le> n" using assms by (simp_all add: floor_le_iff) 
  then have "\<lfloor>x\<rfloor> < 2 ^ 32" using assms(3) by linarith
  then have "int (unat (of_int \<lfloor>x\<rfloor> :: u32)) = \<lfloor>x\<rfloor>" using f(1) by (simp add: unsigned_of_int take_bit_int_eq_self)
  then show ?thesis using assms(1) x f by (simp add: to_u32_def)
qed

lemma dbl_pos: "fl_ok fl \<Longrightarrow> 0 < unat (w :: u32) \<Longrightarrow> 0 < dbl fl w"
  by (simp only: dbl_u32 of_nat_0_less_iff)

lemma to_u64_ok:
  assumes "0 \<le> x" and "x \<le> of_int n" and "n < 2 ^ 64"
  shows "\<exists>w. to_u64 x = Inr w \<and> int (unat w) = \<lfloor>x\<rfloor> \<and> int (unat w) \<le> n"
proof -
  have x: "x < 2 ^ 64"
  proof -
    have "(of_int n :: rat) < of_int (2 ^ 64)" using assms(3) by (simp only: of_int_less_iff)
    with assms(2) show ?thesis by simp
  qed
  then have f: "0 \<le> \<lfloor>x\<rfloor>" "\<lfloor>x\<rfloor> \<le> n" using assms by (simp_all add: floor_le_iff) 
  then have "\<lfloor>x\<rfloor> < 2 ^ 64" using assms(3) by linarith
  then have "int (unat (of_int \<lfloor>x\<rfloor> :: u64)) = \<lfloor>x\<rfloor>" using f(1) by (simp add: unsigned_of_int take_bit_int_eq_self)
  then show ?thesis using assms(1) x f by (simp add: to_u64_def)
qed

lemma to_u32_int: "0 \<le> n \<Longrightarrow> n < 2 ^ 32 \<Longrightarrow> to_u32 (of_int n) = Inr (of_int n)"
proof -
  assume n: "0 \<le> n" "n < 2 ^ 32"
  have "(0 :: rat) \<le> of_int n" using n by simp
  moreover have "(of_int n :: rat) < of_int (2 ^ 32)" using n by (simp only: of_int_less_iff)
  ultimately show ?thesis by (simp add: to_u32_def)
qed

section \<open>The share of reads\<close>

lemma read_percentage_ok:
  assumes ok: "fl_ok fl" and p: "0 \<le> p" "p \<le> 1"
  shows "\<exists>k \<le> 50. read_percentage fl p = Inr (of_nat (2 * k))"
proof -
  define a where "a = fl (100 * p)"
  have a: "0 \<le> a" "a \<le> of_int 100"
    unfolding a_def using p by (intro fl_nonneg [OF ok] fl_le [OF ok]; simp)+
  define b where "b = fl (a * (1 / 2))"
  have b: "0 \<le> b" "b \<le> of_int 50"
    unfolding b_def using a by (intro fl_nonneg [OF ok] fl_le [OF ok]; simp)+
  define c where "c = fl (b + 1 / 2)"
  have "fl (of_int 12928 / 256) = (of_int 12928 / 256 :: rat)" by (rule fl_dyadic [OF ok]) simp
  then have c: "0 \<le> c" "c \<le> 101 / 2"
    unfolding c_def using b fl_mono [OF ok, of "b + 1 / 2" "of_int 12928 / 256"] by (auto intro!: fl_nonneg [OF ok])
  then have k: "0 \<le> \<lfloor>c\<rfloor>" "\<lfloor>c\<rfloor> \<le> 50" by (simp_all add: floor_le_iff)
  have "fl (of_int (\<lfloor>c\<rfloor> * 2)) = of_int (\<lfloor>c\<rfloor> * 2)" by (rule fl_exact [OF ok]) (use k in simp)
  moreover have "to_u32 (of_int (\<lfloor>c\<rfloor> * 2)) = Inr (of_int (\<lfloor>c\<rfloor> * 2))" using k by (intro to_u32_int) simp_all
  ultimately have "to_u32 (fl (of_int \<lfloor>c\<rfloor> * 2)) = Inr (of_int (\<lfloor>c\<rfloor> * 2))" by simp
  moreover have "(of_int (\<lfloor>c\<rfloor> * 2) :: u32) = of_nat (2 * nat \<lfloor>c\<rfloor>)" using k by (simp add: mult.commute)
  ultimately have "read_percentage fl p = Inr (of_nat (2 * nat \<lfloor>c\<rfloor>))"
    by (simp only: read_percentage_def a_def [symmetric] b_def [symmetric] c_def [symmetric])
  moreover have "nat \<lfloor>c\<rfloor> \<le> 50" using k by linarith
  ultimately show ?thesis by blast
qed

section \<open>Bounds of the estimates\<close>

lemma speed_bounds:
  assumes ok: "fl_ok fl"
  shows "12 / 256 \<le> convergeSpeed fl" "convergeSpeed fl \<le> 13 / 256"
    "0 \<le> fl (1 - convergeSpeed fl)" "fl (1 - convergeSpeed fl) \<le> 244 / 256"
proof -
  have e: "fl (of_int 12 / 256) = (of_int 12 / 256 :: rat)" "fl (of_int 13 / 256) = (of_int 13 / 256 :: rat)"
    "fl (of_int 244 / 256) = (of_int 244 / 256 :: rat)" by (rule fl_dyadic [OF ok]; simp)+
  show c: "12 / 256 \<le> convergeSpeed fl" "convergeSpeed fl \<le> 13 / 256"
    using fl_mono [OF ok, of "12 / 256" "5 / 100"] fl_mono [OF ok, of "5 / 100" "13 / 256"] e by (simp_all add: convergeSpeed_def)
  show "0 \<le> fl (1 - convergeSpeed fl)" using c by (intro fl_nonneg [OF ok]) simp
  show "fl (1 - convergeSpeed fl) \<le> 244 / 256" using fl_mono [OF ok, of "1 - convergeSpeed fl" "244 / 256"] c e by simp
qed

text \<open>The estimate stays below twice the bound of the new values.\<close>

lemma converge_le:
  assumes ok: "fl_ok fl" and new: "x \<le> of_int (256 * b)" and old: "y \<le> of_int (512 * b)" and b: "0 \<le> b" "b \<le> 2 ^ 32"
  shows "converge fl x y \<le> of_int (512 * b)"
proof -
  note c = speed_bounds [OF ok]
  have prod: "s * z \<le> t * u" if "0 \<le> s" "s \<le> t" "z \<le> u" "0 \<le> u" for s t z u :: rat
    using that by (meson mult_left_mono mult_right_mono order_trans)
  have b': "(0 :: rat) \<le> of_int (256 * b)" "(0 :: rat) \<le> of_int (512 * b)" using b(1) by simp_all
  have "convergeSpeed fl * x \<le> 13 / 256 * of_int (256 * b)"
    using c(1,2) new b'(1) by (intro prod) auto
  then have p1: "convergeSpeed fl * x \<le> of_int (13 * b)" by simp
  have "fl (1 - convergeSpeed fl) * y \<le> 244 / 256 * of_int (512 * b)"
    using c(3,4) old b'(2) by (intro prod) auto
  then have p2: "fl (1 - convergeSpeed fl) * y \<le> of_int (488 * b)" by simp
  have p3: "fl (convergeSpeed fl * x) \<le> of_int (13 * b)" "fl (fl (1 - convergeSpeed fl) * y) \<le> of_int (488 * b)"
    using b by (intro fl_le [OF ok] p1 p2; simp)+
  have "fl (convergeSpeed fl * x) + fl (fl (1 - convergeSpeed fl) * y) \<le> of_int (13 * b) + of_int (488 * b)"
    using p3 by (rule add_mono)
  also have "\<dots> \<le> of_int (512 * b)" using b(1) by simp
  finally show ?thesis unfolding converge_def using b by (intro fl_le [OF ok]) simp_all
qed

lemma converge_nonneg:
  assumes ok: "fl_ok fl" and "0 \<le> x" "0 \<le> y"
  shows "0 \<le> converge fl x y"
proof -
  have "0 \<le> convergeSpeed fl" using speed_bounds(1) [OF ok] by simp
  then show ?thesis using assms(2,3) speed_bounds(3) [OF ok]
    by (auto simp: converge_def intro!: fl_nonneg [OF ok] add_nonneg_nonneg mult_nonneg_nonneg)
qed

text \<open>What the search needs of a curve, a list of points from the largest bandwidth down: the last segment goes down,
  and its slope does not point far up when it is extended to a bandwidth of zero. The bandwidth of the points before may
  go up and down, as in the curves of the repository.\<close>

definition end_ok :: "(double \<Rightarrow> double) \<Rightarrow> int \<Rightarrow> double \<times> double \<Rightarrow> double \<times> double \<Rightarrow> bool" where
  "end_ok fl m p2 p1 \<longleftrightarrow> fst p1 < fst p2 \<and>
     (snd p1 \<le> snd p2 \<or> (- 2 * fl (fst p2 - fst p1) \<le> fl (- fst p1) \<and> snd p1 - snd p2 \<le> of_int (128 * m)))"

definition curve_ok :: "(double \<Rightarrow> double) \<Rightarrow> int \<Rightarrow> (double \<times> double) list \<Rightarrow> bool" where
  "curve_ok fl m c \<longleftrightarrow> c \<noteq> [] \<and> length c < 2 ^ 31 \<and>
     list_all (\<lambda>(bw, lat). fl bw = bw \<and> 0 \<le> lat \<and> lat \<le> of_int (256 * m)) c \<and>
     (2 \<le> length c \<longrightarrow> end_ok fl m (c ! (length c - 2)) (c ! (length c - 1)))"

lemma curve_okD:
  assumes "curve_ok fl m c" and "i < length c"
  shows "fl (fst (c ! i)) = fst (c ! i)" "0 \<le> snd (c ! i)" "snd (c ! i) \<le> of_int (256 * m)"
  using assms by (auto simp: curve_ok_def list_all_length split_beta)

lemma curve_loop_ok:
  "curve_loop pts x j fb lat = (j', fb', lat') \<Longrightarrow>
   j' = j + length (takeWhile (\<lambda>p. x \<le> fst p) pts) \<and> lat' \<in> insert lat (snd ` set pts)"
proof (induction pts arbitrary: j fb lat)
  case (Cons p pts)
  obtain bw l where p: "p = (bw, l)" by (cases p)
  show ?case
  proof (cases "x \<le> bw")
    case True
    then have "curve_loop pts x (Suc j) bw l = (j', fb', lat')" using Cons.prems p by (simp add: split_beta Let_def)
    from Cons.IH [OF this] True p show ?thesis by auto
  qed (use Cons.prems p in \<open>auto split: if_splits\<close>)
qed simp

text \<open>A value between two points of the curve, or beyond its last point.\<close>

lemma interpolate_ok:
  assumes ok: "fl_ok fl" and c: "curve_ok fl m curve" and j: "0 < j" "j < length curve" and x: "fl x = x" "0 \<le> x" "x \<le> fst (curve ! (j - 1))"
    and last: "x \<le> fst (curve ! j) \<longrightarrow> j = length curve - 1" and m: "0 \<le> m" "m \<le> 2 ^ 24"
  shows "\<exists>y. interpolate fl (curve ! j) (curve ! (j - 1)) x = Inr y \<and> y \<le> of_int (512 * m)"
proof -
  let ?p1 = "curve ! j" and ?p2 = "curve ! (j - 1)"
  have e: "end_ok fl m ?p2 ?p1" if "x \<le> fst ?p1"
    using c j last that by (auto simp: curve_ok_def numeral_2_eq_2)
  have lt: "fst ?p1 < fst ?p2" using e x(3) by (cases "x \<le> fst ?p1") (auto simp: end_ok_def)
  have d: "fl (fst ?p1) = fst ?p1" "fl (fst ?p2) = fst ?p2" "0 \<le> snd ?p1" "snd ?p1 \<le> of_int (256 * m)" "0 \<le> snd ?p2" "snd ?p2 \<le> of_int (256 * m)"
    using curve_okD [OF c, of j] curve_okD [OF c, of "j - 1"] j by auto
  have pos: "0 < fl (fst ?p2 - fst ?p1)"
  proof -
    have "fl (fst ?p2 - fst ?p1) \<noteq> 0" using ok d(1,2) lt by (auto simp: fl_ok_def)
    moreover have "0 \<le> fl (fst ?p2 - fst ?p1)" using lt by (intro fl_nonneg [OF ok]) simp
    ultimately show ?thesis by simp
  qed
  define q where "q = fl (fl (x - fst ?p1) / fl (fst ?p2 - fst ?p1))"
  define dy where "dy = fl (snd ?p2 - snd ?p1)"
  have i: "interpolate fl ?p1 ?p2 x = Inr (fl (snd ?p1 + fl (q * dy)))"
    using pos by (simp add: interpolate_def div_res_def q_def dy_def)
  have "q * dy \<le> of_int (256 * m)"
  proof (cases "x \<le> fst ?p1")
    case True
    have "fl (x - fst ?p1) \<le> 0" using True by (intro fl_nonpos [OF ok]) simp
    then have q: "q \<le> 0" unfolding q_def using pos by (intro fl_nonpos [OF ok]) (simp add: divide_le_0_iff)
    show ?thesis
    proof (cases "snd ?p1 \<le> snd ?p2")
      case up: True
      then have "0 \<le> dy" unfolding dy_def by (intro fl_nonneg [OF ok]) simp
      then have "q * dy \<le> 0" using q by (simp add: mult_nonpos_nonneg)
      also have "0 \<le> (of_int (256 * m) :: rat)" using m by simp
      finally show ?thesis .
    next
      case False
      then have s: "- 2 * fl (fst ?p2 - fst ?p1) \<le> fl (- fst ?p1)" "snd ?p1 - snd ?p2 \<le> of_int (128 * m)"
        using e [OF True] by (auto simp: end_ok_def)
      have "fl (- fst ?p1) \<le> fl (x - fst ?p1)" using x(2) by (intro fl_mono [OF ok]) simp
      then have "of_int (- 2) \<le> fl (x - fst ?p1) / fl (fst ?p2 - fst ?p1)" using s(1) pos by (simp add: pos_le_divide_eq)
      then have q2: "- 2 \<le> q" unfolding q_def using fl_ge [OF ok, of "- 2"] by simp
      have "of_int (- 128 * m) \<le> dy" unfolding dy_def using s(2) m by (intro fl_ge [OF ok]) auto
      moreover have "dy \<le> 0" unfolding dy_def using False by (intro fl_nonpos [OF ok]) simp
      ultimately have "(- q) * (- dy) \<le> 2 * of_int (128 * m)" using q q2 by (intro mult_mono) auto
      then show ?thesis by simp
    qed
  next
    case False
    have le: "fl (x - fst ?p1) \<le> fl (fst ?p2 - fst ?p1)" using x(3) by (intro fl_mono [OF ok]) simp
    have ge: "0 \<le> fl (x - fst ?p1)" using False by (intro fl_nonneg [OF ok]) simp
    have q: "0 \<le> q" "q \<le> 1"
      unfolding q_def using le ge pos fl_le [OF ok, of "fl (x - fst ?p1) / fl (fst ?p2 - fst ?p1)" 1]
      by (auto intro!: fl_nonneg [OF ok] simp: divide_le_eq)
    have "dy \<le> of_int (256 * m)" unfolding dy_def using d m by (intro fl_le [OF ok]) auto
    show ?thesis
    proof (cases "0 \<le> dy")
      case True
      then have "q * dy \<le> dy" using q(2) by (simp add: mult_left_le_one_le q(1))
      with \<open>dy \<le> of_int (256 * m)\<close> show ?thesis by simp
    next
      case False
      then have "q * dy \<le> 0" using q(1) by (simp add: mult_nonneg_nonpos)
      also have "0 \<le> (of_int (256 * m) :: rat)" using m by simp
      finally show ?thesis .
    qed
  qed
  then have "fl (q * dy) \<le> of_int (256 * m)" using m by (intro fl_le [OF ok]) auto
  then have "snd ?p1 + fl (q * dy) \<le> of_int (512 * m)" using d(4) by simp
  then have "fl (snd ?p1 + fl (q * dy)) \<le> of_int (512 * m)" using m by (intro fl_le [OF ok]) auto
  with i show ?thesis by blast
qed

section \<open>The invariant\<close>

text \<open>\<open>256 * m\<close> bounds the latencies of the curves, \<open>w\<close> is the number of windows so far.\<close>

definition model_ok :: "(double \<Rightarrow> double) \<Rightarrow> int \<Rightarrow> int \<Rightarrow> bw_ctrl \<Rightarrow> bool" where
  "model_ok fl m w bc \<longleftrightarrow>
     length (bc_curves_data bc) = 51 \<and> list_all (curve_ok fl m) (bc_curves_data bc) \<and>
     length (bc_maxBandwidthPerRdRatio bc) = 51 \<and> list_all ((\<le>) 0) (bc_maxBandwidthPerRdRatio bc) \<and>
     length (bc_maxLatencyPerRdRatio bc) = 51 \<and> list_all (\<lambda>l. int (unat l) \<le> 256 * m) (bc_maxLatencyPerRdRatio bc) \<and>
     0 \<le> bc_leadOffLatency bc \<and> bc_leadOffLatency bc \<le> of_int (256 * m) \<and>
     0 \<le> bc_overflowFactor bc \<and> bc_overflowFactor bc \<le> of_int w \<and>
     bc_lastEstimatedLatency bc \<le> of_int (1024 * m * (w + 1)) \<and> 0 \<le> bc_lastEstimatedBandwidth bc \<and>
     1 / 64 \<le> bc_frequencyCPU bc \<and> bc_frequencyCPU bc \<le> 1024 \<and>
     \<lfloor>bc_leadOffLatency bc\<rfloor> \<le> int (unat (bc_latency bc)) \<and> int (unat (bc_latency bc)) \<le> 1024 * m * (w + 1)"

definition ctrl_ok :: "(double \<Rightarrow> double) \<Rightarrow> int \<Rightarrow> int \<Rightarrow> bw_ctrl \<Rightarrow> bool" where
  "ctrl_ok fl m w bc \<longleftrightarrow> model_ok fl m w bc \<and> unat (bc_count bc) < unat (bc_window_size bc) \<and>
     unat (bc_count bc) = unat (bc_count_rd bc) + unat (bc_count_wr bc)"

text \<open>What a search leaves: a latency in its bounds and new estimates.\<close>

definition search_found :: "(double \<Rightarrow> double) \<Rightarrow> int \<Rightarrow> int \<Rightarrow> bw_ctrl \<Rightarrow> u32 \<Rightarrow> bw_ctrl \<Rightarrow> bool" where
  "search_found fl m w bc l bc' \<longleftrightarrow>
     (\<exists>ov bw lat out pct. bc' = bc\<lparr>bc_overflowFactor := ov, bc_lastEstimatedBandwidth := bw, bc_lastEstimatedLatency := lat,
         bc_outputBW := out, bc_lastIntReadPercentage := pct\<rparr> \<and>
       0 \<le> ov \<and> ov \<le> of_int (w + 1) \<and> 0 \<le> bw \<and> lat \<le> of_int (1024 * m * (w + 2))) \<and>
     \<lfloor>bc_leadOffLatency bc\<rfloor> \<le> int (unat l) \<and> int (unat l) \<le> 1024 * m * (w + 2)"

lemma found_intro:
  assumes "0 \<le> ov" "ov \<le> of_int (w + 1)" "0 \<le> bw" "lat \<le> of_int (1024 * m * (w + 2))"
    and "\<lfloor>bc_leadOffLatency bc\<rfloor> \<le> int (unat l)" "int (unat l) \<le> 1024 * m * (w + 2)"
  shows "search_found fl m w bc l (bc\<lparr>bc_overflowFactor := ov, bc_lastEstimatedBandwidth := bw, bc_lastEstimatedLatency := lat, bc_outputBW := out\<rparr>)"
  unfolding search_found_def using assms by (intro conjI exI [of _ ov] exI [of _ bw] exI [of _ lat] exI [of _ out] exI [of _ "bc_lastIntReadPercentage bc"]) simp_all

lemma clamp_ok:
  assumes ok: "fl_ok fl" and x: "x \<le> of_int n" and lead: "int (unat (lead :: u32)) \<le> n" and n: "n < 2 ^ 32"
    and y: "y = (if x < dbl fl lead then dbl fl lead else x) \<or> y = (if x \<le> dbl fl lead then dbl fl lead else x)"
  shows "\<exists>l. assertion (y \<ge> dbl fl lead) (bindr (to_u32 y) (\<lambda>l. Inr (l, bc))) = Inr (l, bc) \<and>
    int (unat lead) \<le> int (unat l) \<and> int (unat l) \<le> n"
proof -
  have d: "dbl fl lead = of_int (int (unat lead))" using dbl_u32 [OF ok, of lead] by simp
  have ge: "of_int (int (unat lead)) \<le> y" using y d by auto
  have "(of_int (int (unat lead)) :: rat) \<le> of_int n" using lead by (simp only: of_int_le_iff)
  then have le: "y \<le> of_int n" using y d x by auto
  have "(0 :: rat) \<le> of_int (int (unat lead))" by (simp only: of_int_0_le_iff of_nat_0_le_iff)
  then have "0 \<le> y" using ge by (rule order_trans)
  from to_u32_ok [OF this le n] obtain l where l: "to_u32 y = Inr l" "int (unat l) = \<lfloor>y\<rfloor>" "int (unat l) \<le> n" by blast
  moreover have "int (unat lead) \<le> \<lfloor>y\<rfloor>" using ge by (simp only: le_floor_iff)
  ultimately show ?thesis using ge d by (simp add: assertion_def)
qed

lemma over_curve_ok:
  assumes ok: "fl_ok fl" and st: "model_ok fl m w bc" and lat: "int (unat maxLat) \<le> 256 * m" and bw: "0 \<le> maxBW" and lead: "int (unat lead) = \<lfloor>bc_leadOffLatency bc\<rfloor>"
    and m: "0 < m" "0 \<le> w" "1024 * m * (w + 2) < 2 ^ 32"
  shows "\<exists>l bc'. over_curve fl maxBW maxLat lead bc = Inr (l, bc') \<and> search_found fl m w bc l bc'"
proof -
  have mw: "w + 2 < 2 ^ 22" "m < 2 ^ 22" "2 * m * (w + 2) \<le> 2 ^ 32"
  proof -
    have "1 * (w + 2) \<le> m * (w + 2)" "m * 1 \<le> m * (w + 2)" using m by (intro mult_right_mono mult_left_mono; simp)+
    then show "w + 2 < 2 ^ 22" "m < 2 ^ 22" "2 * m * (w + 2) \<le> 2 ^ 32" using m(3) by auto
  qed
  define ov where "ov = fl (bc_overflowFactor bc + fl (2 / 100))"
  have ov0: "0 \<le> bc_overflowFactor bc" "bc_overflowFactor bc \<le> of_int w" using st by (auto simp: model_ok_def)
  have "0 \<le> fl (2 / 100)" "fl (2 / 100) \<le> of_int 1" by (intro fl_nonneg [OF ok] fl_le [OF ok]; simp)+
  then have ov: "0 \<le> ov" "ov \<le> of_int (w + 1)"
    unfolding ov_def using ov0 mw(1) m(2) by (intro fl_nonneg [OF ok] fl_le [OF ok]; simp)+
  have o1: "fl (1 + ov) \<le> of_int (w + 2)" "0 \<le> fl (1 + ov)"
    using ov mw(1) m(2) by (intro fl_nonneg [OF ok] fl_le [OF ok]; simp)+
  have d: "dbl fl maxLat = of_int (int (unat maxLat))" using dbl_u32 [OF ok, of maxLat] by simp
  have "(of_int (int (unat maxLat)) :: rat) \<le> of_int (256 * m)" using lat by (simp only: of_int_le_iff)
  moreover have "(0 :: rat) \<le> of_int (int (unat maxLat))" by (simp only: of_int_0_le_iff of_nat_0_le_iff)
  ultimately have "fl (1 + ov) * dbl fl maxLat \<le> of_int (w + 2) * of_int (256 * m)"
    unfolding d using o1(1) m(2) \<open>(0 :: rat) \<le> of_int (int (unat maxLat))\<close> by (intro mult_mono) simp_all
  also have "\<dots> \<le> of_int (256 * (2 * m * (w + 2)))" using m by simp
  finally have F: "fl (fl (1 + ov) * dbl fl maxLat) \<le> of_int (256 * (2 * m * (w + 2)))"
    using mw m by (intro fl_le [OF ok]) auto
  have "bc_lastEstimatedLatency bc \<le> of_int (1024 * m * (w + 1))" using st by (simp add: model_ok_def)
  also have "(of_int (1024 * m * (w + 1)) :: rat) \<le> of_int (512 * (2 * m * (w + 2)))" using m by (simp only: of_int_le_iff) simp
  finally have L: "bc_lastEstimatedLatency bc \<le> of_int (512 * (2 * m * (w + 2)))" .
  define lat where "lat = converge fl (fl (fl (1 + ov) * dbl fl maxLat)) (bc_lastEstimatedLatency bc)"
  have lat: "lat \<le> of_int (1024 * m * (w + 2))"
    using converge_le [OF ok F L _ mw(3)] m by (simp add: lat_def mult.assoc)
  have "\<lfloor>bc_leadOffLatency bc\<rfloor> \<le> 256 * m" using st by (simp add: model_ok_def floor_le_iff)
  also have "256 * m \<le> 1024 * m * (w + 2)" using m by simp
  finally have "int (unat lead) \<le> 1024 * m * (w + 2)" using lead by simp
  define fbw where "fbw = converge fl maxBW (bc_lastEstimatedBandwidth bc)"
  have fbw: "0 \<le> fbw" using converge_nonneg [OF ok bw] st by (simp add: fbw_def model_ok_def)
  let ?bc = "bc\<lparr>bc_overflowFactor := ov, bc_lastEstimatedBandwidth := fbw, bc_lastEstimatedLatency := lat,
    bc_outputBW := Some (fl (fl (fbw * 64) * fl (21 / 10)))\<rparr>"
  obtain l where l: "over_curve fl maxBW maxLat lead bc = Inr (l, ?bc)" "int (unat lead) \<le> int (unat l)" "int (unat l) \<le> 1024 * m * (w + 2)"
    using clamp_ok [OF ok lat \<open>int (unat lead) \<le> _\<close> m(3) disjI1 [OF refl], of ?bc]
    unfolding over_curve_def Let_def ov_def [symmetric] lat_def [symmetric] fbw_def [symmetric] by blast
  have "search_found fl m w bc l ?bc" using found_intro [OF ov fbw lat] l(2,3) lead by simp
  with l(1) show ?thesis by blast
qed

lemma loop_index:
  assumes ok: "fl_ok fl" and c: "curve_ok fl m curve" and x: "fl x = x" "0 \<le> x" and m: "0 \<le> m" "m \<le> 2 ^ 24" and lead: "lead \<le> of_int (512 * m)"
    and run: "curve_loop curve x 0 0 lead = (j0, fb, lat)" and j: "j = (if unat (of_nat j0 :: u32) = length curve then of_nat j0 - 1 else (of_nat j0 :: u32))"
  shows "\<exists>y. (if j \<noteq> 0
      then bindr (nth_res curve (unat j)) (\<lambda>p1. bindr (nth_res curve (unat (j - 1))) (\<lambda>p2. interpolate fl p1 p2 x))
      else Inr lat) = Inr y \<and> y \<le> of_int (512 * m)"
proof -
  define t where "t = length (takeWhile (\<lambda>p. x \<le> fst p) curve)"
  have j0: "j0 = t" "lat \<in> insert lead (snd ` set curve)" using curve_loop_ok [OF run] by (simp_all add: t_def)
  have len: "0 < length curve" "length curve < 2 ^ 31" "t \<le> length curve"
    using c by (auto simp: curve_ok_def t_def length_takeWhile_le)
  have u: "unat (of_nat n :: u32) = n" if "n \<le> length curve" for n
    using that len(2) by (simp add: unsigned_of_nat take_bit_nat_eq_self)
  define k where "k = (if t = length curve then t - 1 else t)"
  have k: "k < length curve" using len by (auto simp: k_def)
  have "j = of_nat k"
  proof (cases "t = length curve")
    case True
    then have "of_nat t - (1 :: u32) = of_nat (t - 1)" using len(1) by (cases t) simp_all
    then show ?thesis using j j0(1) u [of t] True by (simp add: k_def)
  qed (use j j0(1) u [of t] len(3) in \<open>simp add: k_def\<close>)
  then have uj: "unat j = k" using u [of k] k by simp
  show ?thesis
  proof (cases "j = 0")
    case True
    have "lat \<le> of_int (512 * m)"
    proof (cases "lat = lead")
      case False
      then obtain i where "i < length curve" "lat = snd (curve ! i)" using j0(2) by (auto simp: in_set_conv_nth)
      then have "lat \<le> of_int (256 * m)" using curve_okD(3) [OF c] by simp
      also have "(of_int (256 * m) :: rat) \<le> of_int (512 * m)" using m by (simp only: of_int_le_iff)
      finally show ?thesis .
    qed (use lead in simp)
    then show ?thesis using True by simp
  next
    case False
    then have k0: "0 < k" using uj by (metis gr0I unsigned_0 word_unat_eq_iff)
    then have uj1: "unat (j - 1) = k - 1" using uj False by (simp add: unat_minus_one)
    have before: "x \<le> fst (curve ! i)" if "i < t" for i
      using that nth_mem [of i "takeWhile (\<lambda>p. x \<le> fst p) curve"] by (auto simp: t_def takeWhile_nth dest: set_takeWhileD)
    have at: "\<not> x \<le> fst (curve ! t)" if "t < length curve"
      using that nth_length_takeWhile [of "\<lambda>p. x \<le> fst p" curve] by (simp add: t_def)
    have "x \<le> fst (curve ! (k - 1))" using k0 len(3) by (intro before) (auto simp: k_def split: if_splits)
    moreover have "x \<le> fst (curve ! k) \<longrightarrow> k = length curve - 1" using at len(3) by (auto simp: k_def)
    ultimately obtain y where "interpolate fl (curve ! k) (curve ! (k - 1)) x = Inr y" "y \<le> of_int (512 * m)"
      using interpolate_ok [OF ok c k0 k x _ _ m] by blast
    then show ?thesis using False k k0 uj uj1 by simp
  qed
qed

lemma on_curve_ok:
  assumes ok: "fl_ok fl" and st: "model_ok fl m w bc" and c: "curve_ok fl m curve" and x: "fl x = x" "0 \<le> x" and lead: "int (unat lead) = \<lfloor>bc_leadOffLatency bc\<rfloor>"
    and m: "0 < m" "0 \<le> w" "1024 * m * (w + 2) < 2 ^ 32"
  shows "\<exists>l bc'. on_curve fl curve x lead bc = Inr (l, bc') \<and> search_found fl m w bc l bc'"
proof -
  have mw: "w + 2 < 2 ^ 22" "m < 2 ^ 22" "2 * m * (w + 2) \<le> 2 ^ 32" "512 * m * w \<le> 2 ^ 45"
  proof -
    have "1 * (w + 2) \<le> m * (w + 2)" "m * 1 \<le> m * (w + 2)" "m * w \<le> m * (w + 2)" using m by (intro mult_right_mono mult_left_mono; simp)+
    then show "w + 2 < 2 ^ 22" "m < 2 ^ 22" "2 * m * (w + 2) \<le> 2 ^ 32" "512 * m * w \<le> 2 ^ 45" using m(3) by auto
  qed
  have ov: "0 \<le> bc_overflowFactor bc" "bc_overflowFactor bc \<le> of_int w" using st by (auto simp: model_ok_def)
  obtain j0 fb lat0 where run: "curve_loop curve x 0 0 (bc_leadOffLatency bc) = (j0, fb, lat0)" by (metis prod_cases3)
  define j where "j = (if unat (of_nat j0 :: u32) = length curve then of_nat j0 - 1 else (of_nat j0 :: u32))"
  have "bc_leadOffLatency bc \<le> of_int (256 * m)" using st by (simp add: model_ok_def)
  also have "(of_int (256 * m) :: rat) \<le> of_int (512 * m)" using m by (simp only: of_int_le_iff)
  finally have l512: "bc_leadOffLatency bc \<le> of_int (512 * m)" .
  obtain y where y: "(if j \<noteq> 0
      then bindr (nth_res curve (unat j)) (\<lambda>p1. bindr (nth_res curve (unat (j - 1))) (\<lambda>p2. interpolate fl p1 p2 x))
      else Inr lat0) = Inr y" "y \<le> of_int (512 * m)"
    using loop_index [OF ok c x _ _ l512 run j_def] m mw(2) by auto
  define F where "F = fl (y + fl (bc_overflowFactor bc * y))"
  have "fl (bc_overflowFactor bc * y) \<le> of_int (512 * m * w)"
  proof (rule fl_le [OF ok])
    show "bc_overflowFactor bc * y \<le> of_int (512 * m * w)"
    proof (cases "0 \<le> y")
      case True
      then have "bc_overflowFactor bc * y \<le> of_int w * of_int (512 * m)" using ov y(2) m(2) by (intro mult_mono) auto
      then show ?thesis by (simp add: mult.commute)
    next
      case False
      then have "bc_overflowFactor bc * y \<le> 0" using ov by (simp add: mult_nonneg_nonpos)
      also have "(0 :: rat) \<le> of_int (512 * m * w)" using m by simp
      finally show ?thesis .
    qed
  qed (use mw(4) m in simp)
  then have "y + fl (bc_overflowFactor bc * y) \<le> of_int (512 * m) + of_int (512 * m * w)" using y(2) by (rule add_mono [rotated])
  also have "\<dots> = of_int (512 * m * (w + 1))" by (simp add: algebra_simps)
  also have "\<dots> \<le> of_int (256 * (2 * m * (w + 2)))" using m by (simp only: of_int_le_iff) simp
  finally have F: "F \<le> of_int (256 * (2 * m * (w + 2)))"
    unfolding F_def using mw m by (intro fl_le [OF ok]) auto
  have "bc_lastEstimatedLatency bc \<le> of_int (1024 * m * (w + 1))" using st by (simp add: model_ok_def)
  also have "(of_int (1024 * m * (w + 1)) :: rat) \<le> of_int (512 * (2 * m * (w + 2)))" using m by (simp only: of_int_le_iff) simp
  finally have L: "bc_lastEstimatedLatency bc \<le> of_int (512 * (2 * m * (w + 2)))" .
  define lat where "lat = converge fl F (bc_lastEstimatedLatency bc)"
  have lat: "lat \<le> of_int (1024 * m * (w + 2))"
    using converge_le [OF ok F L _ mw(3)] m by (simp add: lat_def mult.assoc)
  define ov' where "ov' = (if j = 0 \<and> less_overflow fl (bc_overflowFactor bc) < 0 then 0 else less_overflow fl (bc_overflowFactor bc))"
  have p01: "0 \<le> fl (1 / 100)" by (rule fl_nonneg [OF ok]) simp
  have "0 \<le> less_overflow fl (bc_overflowFactor bc)" "less_overflow fl (bc_overflowFactor bc) \<le> of_int (w + 1)"
    using ov p01 mw(1) m(2) fl_le [OF ok, of "bc_overflowFactor bc - fl (1 / 100)" "w + 1"]
    by (auto simp: less_overflow_def intro!: fl_nonneg [OF ok])
  then have ov': "0 \<le> ov'" "ov' \<le> of_int (w + 1)" by (simp_all add: ov'_def)
  have "\<lfloor>bc_leadOffLatency bc\<rfloor> \<le> 256 * m" using st by (simp add: model_ok_def floor_le_iff)
  also have "256 * m \<le> 1024 * m * (w + 2)" using m by simp
  finally have "int (unat lead) \<le> 1024 * m * (w + 2)" using lead by simp
  let ?bc = "bc\<lparr>bc_overflowFactor := ov', bc_lastEstimatedBandwidth := x, bc_lastEstimatedLatency := lat,
    bc_outputBW := Some (fl (fl (x * 64) * fl (21 / 10)))\<rparr>"
  obtain l where l: "on_curve fl curve x lead bc = Inr (l, ?bc)" "int (unat lead) \<le> int (unat l)" "int (unat l) \<le> 1024 * m * (w + 2)"
    using clamp_ok [OF ok lat \<open>int (unat lead) \<le> _\<close> m(3) disjI2 [OF refl], of ?bc]
    unfolding on_curve_def run prod.case Let_def j_def [symmetric] y(1) bindr_simps F_def [symmetric] lat_def [symmetric] ov'_def [symmetric]
    by blast
  have "search_found fl m w bc l ?bc" using found_intro [OF ov' x(2) lat] l(2,3) lead by simp
  with l(1) show ?thesis by blast
qed

section \<open>A window\<close>

lemma found_pct:
  "search_found fl m w (bc\<lparr>bc_lastIntReadPercentage := p\<rparr>) l bc' \<Longrightarrow> search_found fl m w bc l bc'"
  by (auto simp: search_found_def)

lemma model_ok_pct: "model_ok fl m w (bc\<lparr>bc_lastIntReadPercentage := p\<rparr>) = model_ok fl m w bc"
  by (simp add: model_ok_def)

lemma lead_off_ok:
  assumes ok: "model_ok fl m w bc" and m: "0 < m" "m < 2 ^ 22"
  shows "\<exists>lead. to_u32 (bc_leadOffLatency bc) = Inr lead \<and> int (unat lead) = \<lfloor>bc_leadOffLatency bc\<rfloor>"
  using to_u32_ok [of "bc_leadOffLatency bc" "256 * m"] ok m by (auto simp: model_ok_def)

lemma search_ok:
  assumes ok: "fl_ok fl" and st: "model_ok fl m w bc" and b: "\<And>b. bw = Some b \<Longrightarrow> 0 \<le> b" and p: "0 \<le> p" "p \<le> 1"
    and m: "0 < m" "0 \<le> w" "1024 * m * (w + 2) < 2 ^ 32"
  shows "\<exists>l bc'. searchForLatencyOnCurve fl bw p bc = Inr (l, bc') \<and> search_found fl m w bc l bc'"
proof -
  obtain k where k: "k \<le> 50" "read_percentage fl p = Inr (of_nat (2 * k))" using read_percentage_ok [OF ok p] by blast
  define pct :: u32 where "pct = of_nat (2 * k)"
  have u: "unat pct = 2 * k" using k(1) by (simp add: pct_def unsigned_of_nat take_bit_nat_eq_self del: of_nat_mult)
  then have pct: "pct \<le> 100" "pct mod 2 = 0" "unat (pct div 2) = k"
    using k(1) by (simp_all add: word_le_nat_alt unat_div word_unat_eq_iff unat_mod)
  let ?bc = "bc\<lparr>bc_lastIntReadPercentage := Some pct\<rparr>"
  have len: "k < length (bc_curves_data bc)" "k < length (bc_maxBandwidthPerRdRatio bc)" "k < length (bc_maxLatencyPerRdRatio bc)"
    using st k(1) by (auto simp: model_ok_def)
  have c: "curve_ok fl m (bc_curves_data bc ! k)" "0 \<le> bc_maxBandwidthPerRdRatio bc ! k"
    "int (unat (bc_maxLatencyPerRdRatio bc ! k)) \<le> 256 * m"
    using st len by (auto simp: model_ok_def list_all_length)
  have "m * 1 \<le> m * (w + 2)" using m by (intro mult_left_mono) simp_all
  then have "m < 2 ^ 22" using m(3) by simp
  from lead_off_ok [OF st m(1) this] obtain lead
    where lead: "to_u32 (bc_leadOffLatency bc) = Inr lead" "int (unat lead) = \<lfloor>bc_leadOffLatency bc\<rfloor>" by blast
  have st': "model_ok fl m w ?bc" using st by (simp add: model_ok_pct)
  have over: "\<exists>l bc'. over_curve fl (bc_maxBandwidthPerRdRatio bc ! k) (bc_maxLatencyPerRdRatio bc ! k) lead ?bc = Inr (l, bc') \<and>
      search_found fl m w bc l bc'"
    using over_curve_ok [OF ok st' c(3,2) _ m, of lead] lead(2) found_pct by (metis (no_types, lifting) bw_ctrl.select_convs(3) bw_ctrl.surjective bw_ctrl.update_convs(18))
  have on: "\<exists>l bc'. on_curve fl (bc_curves_data bc ! k) (converge fl b (bc_lastEstimatedBandwidth bc)) lead ?bc = Inr (l, bc') \<and>
      search_found fl m w bc l bc'" if "bw = Some b" for b
  proof -
    have "fl (converge fl b (bc_lastEstimatedBandwidth bc)) = converge fl b (bc_lastEstimatedBandwidth bc)"
      using fl_idem [OF ok] by (simp add: converge_def)
    moreover have "0 \<le> converge fl b (bc_lastEstimatedBandwidth bc)"
      using converge_nonneg [OF ok b [OF that]] st by (simp add: model_ok_def)
    ultimately show ?thesis using on_curve_ok [OF ok st' c(1) _ _ _ m, of _ lead] lead(2) found_pct by fastforce
  qed
  show ?thesis
    using over on len lead(1) pct
    by (cases bw) (simp_all add: searchForLatencyOnCurve_def k(2) pct_def [symmetric] assertion_def Let_def del: of_nat_mult)
qed

lemma found_model_ok:
  assumes "model_ok fl m w bc" "search_found fl m w bc l bc'"
  shows "model_ok fl m (w + 1) (bc'\<lparr>bc_latency := l, bc_count := c, bc_count_wr := cw, bc_count_rd := cr\<rparr>)"
    and "bc_window_size bc' = bc_window_size bc"
  using assms by (auto simp: model_ok_def search_found_def add.assoc)

lemma accesses_pos:
  assumes ok: "fl_ok fl" and F: "1 / 64 \<le> F" and n: "0 < unat (n :: u32)"
  shows "0 < fl (fl (F / fl (21 / 10)) * dbl fl n)"
proof -
  have g: "fl (21 / 10) \<le> of_int 3" "of_int 2 \<le> fl (21 / 10)" by (intro fl_le [OF ok] fl_ge [OF ok]; simp)+
  have q: "1 / 256 \<le> F / fl (21 / 10)"
  proof -
    have "1 / 256 \<le> (1 / 64) / (3 :: rat)" by simp
    also have "\<dots> \<le> F / fl (21 / 10)" using F g by (intro frac_le) auto
    finally show ?thesis .
  qed
  have e: "fl (1 / 256) = 1 / 256" using fl_dyadic [OF ok, of 1] by simp
  then have q: "1 / 256 \<le> fl (F / fl (21 / 10))" using fl_mono [OF ok q] by simp
  have "of_nat 1 \<le> (of_nat (unat n) :: rat)" using n by (simp only: of_nat_le_iff)
  then have "(1 :: rat) \<le> dbl fl n" by (simp add: dbl_u32 [OF ok])
  then have "1 / 256 * 1 \<le> fl (F / fl (21 / 10)) * dbl fl n" using q by (intro mult_mono) auto
  then have "1 / 256 \<le> fl (fl (F / fl (21 / 10)) * dbl fl n)" using fl_mono [OF ok, of "1 / 256"] e by simp
  then show ?thesis by simp
qed

lemma share_ok:
  assumes ok: "fl_ok fl" and "a \<le> b" "0 < b"
  shows "0 \<le> fl (of_nat a / of_nat b)" "fl (of_nat a / of_nat b) \<le> 1"
  using assms fl_le [OF ok, of "of_nat a / of_nat b" 1] by (auto simp: divide_le_eq intro!: fl_nonneg [OF ok])

lemma updateLatency_ok:
  assumes ok: "fl_ok fl" and st: "model_ok fl m w bc" and n: "0 < unat (bc_count bc)" "unat (bc_count bc) = unat (bc_count_rd bc) + unat (bc_count_wr bc)"
    and m: "0 < m" "0 \<le> w" "1024 * m * (w + 2) < 2 ^ 32"
  shows "\<exists>bc' l. updateLatency fl t bc = Inr (bc'\<lparr>bc_latency := l\<rparr>) \<and> search_found fl m w bc l bc'"
proof -
  define cycles where "cycles = dbl fl (t - bc_window_start bc)"
  define acc where "acc = fl (fl (bc_frequencyCPU bc / fl (21 / 10)) * dbl fl (bc_count bc))"
  define bw where "bw = (if cycles \<noteq> 0 then Some (fl (acc / cycles)) else None)"
  have acc: "0 < acc" using accesses_pos [OF ok _ n(1)] st by (simp add: acc_def model_ok_def)
  have "0 \<le> cycles" by (simp add: cycles_def dbl_nonneg [OF ok])
  then have b: "\<And>b. bw = Some b \<Longrightarrow> 0 \<le> b"
    using acc fl_nonneg [OF ok, of "acc / cycles"] by (auto simp: bw_def split: if_splits)
  have "unat (bc_count_rd bc) + unat (bc_count_wr bc) < 2 ^ 32"
    using n(2) unsigned_less [of "bc_count bc", where ?'a = nat] by simp
  then have tot: "unat (bc_count_rd bc + bc_count_wr bc) = unat (bc_count bc)"
    using n(2) by (simp add: unat_word_ariths)
  define p where "p = fl (dbl fl (bc_count_rd bc) / dbl fl (bc_count_rd bc + bc_count_wr bc))"
  have p: "0 \<le> p" "p \<le> 1"
    unfolding p_def dbl_u32 [OF ok] tot n(2) by (rule share_ok [OF ok]; use n in simp)+
  have d: "div_res fl (dbl fl (bc_count_rd bc)) (dbl fl (bc_count_rd bc + bc_count_wr bc)) = Inr p"
    using n(1) tot dbl_pos [OF ok, of "bc_count_rd bc + bc_count_wr bc"] by (simp add: div_res_def p_def)
  obtain l bc' where "searchForLatencyOnCurve fl bw p bc = Inr (l, bc')" "search_found fl m w bc l bc'"
    using search_ok [OF ok st b p m] by blast
  moreover have "(if cycles \<noteq> 0 then Inr (Some (fl (acc / cycles))) else if acc > 0 then Inr None else Inl Undef) = Inr bw"
    using acc by (simp add: bw_def)
  ultimately show ?thesis
    unfolding updateLatency_def Let_def cycles_def [symmetric] acc_def [symmetric] d by auto
qed

lemma answer_ok:
  assumes ok: "fl_ok fl" and st: "model_ok fl m w bc" and m: "0 < m" "0 \<le> w" "1024 * m * (w + 1) < 2 ^ 32"
  shows "\<exists>r. to_u64 (fl (fl (bc_frequencyCPU bc * dbl fl (bc_latency bc)) / fl (21 / 10))) = Inr r \<and>
    int (unat r) \<le> 524288 * m * (w + 1)"
proof -
  let ?B = "1024 * m * (w + 1)"
  have F: "0 \<le> bc_frequencyCPU bc" "bc_frequencyCPU bc \<le> 1024" and l: "int (unat (bc_latency bc)) \<le> ?B"
    using st by (auto simp: model_ok_def)
  have "(of_int (int (unat (bc_latency bc))) :: rat) \<le> of_int ?B" using l by (simp only: of_int_le_iff)
  then have l1: "dbl fl (bc_latency bc) \<le> of_int ?B" by (simp add: dbl_u32 [OF ok])
  have l0: "0 \<le> dbl fl (bc_latency bc)" by (rule dbl_nonneg [OF ok])
  note l = l1 l0
  have "bc_frequencyCPU bc * dbl fl (bc_latency bc) \<le> 1024 * of_int ?B" using F l by (intro mult_mono) auto
  then have x: "fl (bc_frequencyCPU bc * dbl fl (bc_latency bc)) \<le> of_int (1024 * ?B)"
    using m by (intro fl_le [OF ok]) auto
  have x0: "0 \<le> fl (bc_frequencyCPU bc * dbl fl (bc_latency bc))" using F l by (intro fl_nonneg [OF ok]) simp
  have g: "of_int 2 \<le> fl (21 / 10)" by (intro fl_ge [OF ok]) simp_all
  have "fl (bc_frequencyCPU bc * dbl fl (bc_latency bc)) / fl (21 / 10) \<le> of_int (1024 * ?B) / 2"
    using x x0 g m by (intro frac_le) auto
  also have "\<dots> = of_int (512 * ?B)" by simp
  finally have y: "fl (fl (bc_frequencyCPU bc * dbl fl (bc_latency bc)) / fl (21 / 10)) \<le> of_int (512 * ?B)"
    using m by (intro fl_le [OF ok]) auto
  have y0: "0 \<le> fl (fl (bc_frequencyCPU bc * dbl fl (bc_latency bc)) / fl (21 / 10))"
    using x0 g by (intro fl_nonneg [OF ok]) simp
  from to_u64_ok [OF y0 y] m show ?thesis by auto
qed

section \<open>Accesses\<close>

fun run_accesses :: "(double \<Rightarrow> double) \<Rightarrow> bw_ctrl \<Rightarrow> (u64 \<times> bool) list \<Rightarrow> (u64 list \<times> bw_ctrl) res" where
  "run_accesses fl bc [] = Inr ([], bc)"
| "run_accesses fl bc ((t, isWrite) # accs) =
     bindr (if isWrite then got_a_write_req_call fl t bc else got_a_read_req_call fl t bc) (\<lambda>(r, bc).
     bindr (run_accesses fl bc accs) (\<lambda>(rs, bc). Inr (r # rs, bc)))"

text \<open>The accesses so far, when \<open>w\<close> windows have ended.\<close>

definition accesses_so_far :: "int \<Rightarrow> bw_ctrl \<Rightarrow> int" where
  "accesses_so_far w bc = w * int (unat (bc_window_size bc)) + int (unat (bc_count bc))"

lemma access_ok:
  assumes ok: "fl_ok fl" and st: "ctrl_ok fl m w bc" and m: "0 < m" "0 \<le> w" "1024 * m * (w + 1) < 2 ^ 32"
    and close: "unat (bc_count bc) + 1 = unat (bc_window_size bc) \<Longrightarrow> 1024 * m * (w + 2) < 2 ^ 32"
  shows "\<exists>r bc' w'. access fl t wr bc = Inr (r, bc') \<and> ctrl_ok fl m w' bc' \<and> w \<le> w' \<and> accesses_so_far w' bc' = accesses_so_far w bc + 1 \<and>
    bc_window_size bc' = bc_window_size bc \<and> int (unat r) \<le> 524288 * m * (w' + 1)"
proof -
  define bc0 where "bc0 = (if bc_count bc = 0 then bc\<lparr>bc_window_start := t\<rparr> else bc)"
  define bc1 where "bc1 = bc0\<lparr>bc_count := bc_count bc0 + 1\<rparr>"
  define bc2 where "bc2 = (if wr then bc1\<lparr>bc_count_wr := bc_count_wr bc1 + 1\<rparr> else bc1\<lparr>bc_count_rd := bc_count_rd bc1 + 1\<rparr>)"
  have c: "unat (bc_count bc) < unat (bc_window_size bc)" "unat (bc_count bc) = unat (bc_count_rd bc) + unat (bc_count_wr bc)"
    and mo: "model_ok fl m w bc" using st by (auto simp: ctrl_ok_def)
  have W: "unat (bc_window_size bc) < 2 ^ 32" using unsigned_less [of "bc_window_size bc", where ?'a = nat] by simp
  have inc: "unat (x + 1) = unat x + 1" if "unat x \<le> unat (bc_count bc)" for x :: u32
    using that c(1) W by (simp add: unat_word_ariths)
  have m2: "model_ok fl m w bc2" using mo by (simp add: bc2_def bc1_def bc0_def model_ok_def)
  have fields: "bc_count bc2 = bc_count bc + 1" "bc_count_rd bc2 = (if wr then bc_count_rd bc else bc_count_rd bc + 1)"
    "bc_count_wr bc2 = (if wr then bc_count_wr bc + 1 else bc_count_wr bc)" "bc_window_size bc2 = bc_window_size bc"
    by (auto simp: bc2_def bc1_def bc0_def)
  have n2: "unat (bc_count bc2) = unat (bc_count bc) + 1" "unat (bc_count bc2) = unat (bc_count_rd bc2) + unat (bc_count_wr bc2)"
    "bc_window_size bc2 = bc_window_size bc"
    using c(2) inc [of "bc_count bc"] inc [of "bc_count_rd bc"] inc [of "bc_count_wr bc"] fields by simp_all
  have acc: "access fl t wr bc = bindr (if bc_count bc2 = bc_window_size bc2
        then bindr (updateLatency fl t bc2) (\<lambda>bc. Inr (bc\<lparr>bc_count := 0, bc_count_wr := 0, bc_count_rd := 0\<rparr>))
        else Inr bc2) (\<lambda>bc.
      bindr (to_u64 (fl (fl (bc_frequencyCPU bc * dbl fl (bc_latency bc)) / fl (21 / 10)))) (\<lambda>r. Inr (r, bc)))"
    unfolding access_def Let_def bc0_def bc1_def bc2_def by (rule refl)
  show ?thesis
  proof (cases "bc_count bc2 = bc_window_size bc2")
    case True
    then have w2: "1024 * m * (w + 2) < 2 ^ 32" using close n2 by simp
    obtain bc' l where u: "updateLatency fl t bc2 = Inr (bc'\<lparr>bc_latency := l\<rparr>)" "search_found fl m w bc2 l bc'"
      using updateLatency_ok [OF ok m2 _ n2(2) m(1,2) w2, of t] n2(1) by (metis add_gr_0 zero_less_one)
    let ?bc = "bc'\<lparr>bc_latency := l, bc_count := 0, bc_count_wr := 0, bc_count_rd := 0\<rparr>"
    note f = found_model_ok [OF m2 u(2)]
    obtain r where r: "to_u64 (fl (fl (bc_frequencyCPU ?bc * dbl fl (bc_latency ?bc)) / fl (21 / 10))) = Inr r"
      "int (unat r) \<le> 524288 * m * (w + 1 + 1)"
      using answer_ok [OF ok f(1) m(1)] m(2) w2 by (auto simp: add.assoc)
    have "unat (bc_window_size bc) = unat (bc_count bc) + 1" using True n2(1,3) by simp
    then have "accesses_so_far (w + 1) ?bc = accesses_so_far w bc + 1"
      by (simp add: accesses_so_far_def f(2) n2(3) algebra_simps)
    moreover have "ctrl_ok fl m (w + 1) ?bc" using f n2(3) c(1) by (simp add: ctrl_ok_def)
    moreover have "access fl t wr bc = Inr (r, ?bc)" using acc True u(1) r(1) by simp
    ultimately show ?thesis using r(2) f(2) n2(3) by (intro exI [of _ r] exI [of _ ?bc] exI [of _ "w + 1"]) simp
  next
    case False
    then have "unat (bc_count bc2) < unat (bc_window_size bc)" using c(1) n2(1,3) by (metis Suc_eq_plus1 Suc_lessI word_unat_eq_iff)
    moreover obtain r where "to_u64 (fl (fl (bc_frequencyCPU bc2 * dbl fl (bc_latency bc2)) / fl (21 / 10))) = Inr r"
      "int (unat r) \<le> 524288 * m * (w + 1)"
      using answer_ok [OF ok m2 m] by blast
    ultimately show ?thesis using acc False m2 n2
      by (intro exI [of _ r] exI [of _ bc2] exI [of _ w]) (simp add: ctrl_ok_def accesses_so_far_def)
  qed
qed

lemma run_ok:
  assumes ok: "fl_ok fl" and m: "0 < m"
  shows "ctrl_ok fl m w bc \<Longrightarrow> 0 \<le> w \<Longrightarrow>
    1024 * m * ((accesses_so_far w bc + int (length accs)) div int (unat (bc_window_size bc)) + 1) < 2 ^ 32 \<Longrightarrow>
    \<exists>rs bc' w'. run_accesses fl bc accs = Inr (rs, bc') \<and> ctrl_ok fl m w' bc' \<and> w \<le> w' \<and> length rs = length accs \<and>
      accesses_so_far w' bc' = accesses_so_far w bc + int (length accs) \<and> bc_window_size bc' = bc_window_size bc \<and>
      (\<forall>r \<in> set rs. int (unat r) \<le> 524288 * m * (w' + 1))"
proof (induction accs arbitrary: w bc)
  case Nil
  then show ?case by (intro exI [of _ "[]"] exI [of _ bc] exI [of _ w]) simp
next
  case (Cons a accs)
  obtain t wr where a: "a = (t, wr)" by (cases a)
  let ?W = "int (unat (bc_window_size bc))" and ?N = "accesses_so_far w bc + int (length (a # accs))"
  have c: "unat (bc_count bc) < unat (bc_window_size bc)" using Cons.prems(1) by (simp add: ctrl_ok_def)
  have bound: "1024 * m * (v + 1) < 2 ^ 32" if "v * ?W \<le> ?N" for v
  proof -
    have W: "0 < ?W" using c by linarith
    have "v * ?W div ?W \<le> ?N div ?W" using that W by (rule zdiv_mono1)
    then have "v \<le> ?N div ?W" using W by simp
    then have "1024 * m * (v + 1) \<le> 1024 * m * (?N div ?W + 1)" using m by (intro mult_left_mono) auto
    with Cons.prems(3) show ?thesis by simp
  qed
  have "1024 * m * (w + 1) < 2 ^ 32" by (rule bound) (simp add: accesses_so_far_def)
  moreover have "1024 * m * (w + 2) < 2 ^ 32" if "unat (bc_count bc) + 1 = unat (bc_window_size bc)"
  proof -
    have "(w + 1) * ?W \<le> ?N" unfolding accesses_so_far_def that [symmetric] by (simp add: algebra_simps)
    from bound [OF this] show ?thesis by (simp add: add.assoc)
  qed
  ultimately obtain r bc1 w1 where s: "access fl t wr bc = Inr (r, bc1)" "ctrl_ok fl m w1 bc1" "w \<le> w1"
    "accesses_so_far w1 bc1 = accesses_so_far w bc + 1" "bc_window_size bc1 = bc_window_size bc" "int (unat r) \<le> 524288 * m * (w1 + 1)"
    using access_ok [OF ok Cons.prems(1) m Cons.prems(2), of t wr] by blast
  have "1024 * m * ((accesses_so_far w1 bc1 + int (length accs)) div int (unat (bc_window_size bc1)) + 1) < 2 ^ 32"
    using Cons.prems(3) s(4,5) by (simp add: ac_simps)
  from Cons.IH [OF s(2) _ this] s(3) Cons.prems(2) obtain rs bc2 w2 where
    i: "run_accesses fl bc1 accs = Inr (rs, bc2)" "ctrl_ok fl m w2 bc2" "w1 \<le> w2" "length rs = length accs"
    "accesses_so_far w2 bc2 = accesses_so_far w1 bc1 + int (length accs)" "bc_window_size bc2 = bc_window_size bc1"
    "\<forall>r \<in> set rs. int (unat r) \<le> 524288 * m * (w2 + 1)" by auto
  have "524288 * m * (w1 + 1) \<le> 524288 * m * (w2 + 1)" using m i(3) by (intro mult_left_mono) auto
  then have "\<forall>r' \<in> set (r # rs). int (unat r') \<le> 524288 * m * (w2 + 1)" using s(6) i(7) by auto
  moreover have "run_accesses fl bc (a # accs) = Inr (r # rs, bc2)"
    using s(1) i(1) a by (cases wr) (simp_all add: got_a_write_req_call_def got_a_read_req_call_def)
  ultimately show ?case using i s
    by (intro exI [of _ "r # rs"] exI [of _ bc2] exI [of _ w2]) simp
qed

section \<open>The constructor\<close>

definition scaled_point :: "(double \<Rightarrow> double) \<Rightarrow> double \<times> double \<Rightarrow> double \<times> double" where
  "scaled_point fl pt = (fl (fl (fst pt / 64) / fl (fl (21 / 10) * 1000)), snd pt)"

lemma curve_points_ok:
  assumes "foldl (\<lambda>st pt. curve_point fl pt st) (lead, maxLat, mt, maxBW, mb, data) pts = (lead', maxLat', mt', maxBW', mb', data')"
    and "list_all (\<lambda>pt. 0 \<le> snd pt \<and> snd pt \<le> M) pts" "0 \<le> lead" "0 \<le> mt" "mt \<le> M" "0 \<le> mb"
  shows "0 \<le> lead' \<and> lead' \<le> lead \<and> (pts \<noteq> [] \<longrightarrow> lead' \<le> M) \<and> 0 \<le> mt' \<and> mt' \<le> M \<and> 0 \<le> mb' \<and> data' = data @ map (scaled_point fl) pts"
  using assms
proof (induction pts arbitrary: lead maxLat mt maxBW mb data)
  case (Cons pt pts)
  obtain b l where pt: "pt = (b, l)" by (cases pt)
  let ?bw = "fl (fl (b / 64) / fl (fl (21 / 10) * 1000))"
  have "0 \<le> lead' \<and> lead' \<le> (if lead > l then l else lead) \<and> (pts \<noteq> [] \<longrightarrow> lead' \<le> M) \<and> 0 \<le> mt' \<and> mt' \<le> M \<and> 0 \<le> mb' \<and>
    data' = (data @ [(?bw, l)]) @ map (scaled_point fl) pts"
    using Cons.prems pt
    by (intro Cons.IH [where maxLat = "if maxLat < l then l else maxLat" and mt = "if mt < l then l else mt"
          and maxBW = "if maxBW < ?bw then ?bw else maxBW" and mb = "if mb < ?bw then ?bw else mb"])
      (simp_all add: curve_point_def Let_def)
  then show ?case using Cons.prems(2) pt by (auto simp: scaled_point_def split: if_splits)
qed simp

lemma read_curve_ok:
  assumes c: "curve_ok fl m (map (scaled_point fl) pts)" and lead: "0 \<le> bc_leadOffLatency bc" and m: "0 < m" "m < 2 ^ 22"
  shows "\<exists>lead ml mb x y. read_curve fl (Some pts) bc = Inr (bc\<lparr>bc_leadOffLatency := lead, bc_maxLatency := ml, bc_maxBandwidth := mb,
      bc_maxBandwidthPerRdRatio := bc_maxBandwidthPerRdRatio bc @ [x], bc_maxLatencyPerRdRatio := bc_maxLatencyPerRdRatio bc @ [y],
      bc_curves_data := bc_curves_data bc @ [map (scaled_point fl) pts]\<rparr>) \<and>
    0 \<le> lead \<and> lead \<le> of_int (256 * m) \<and> 0 \<le> x \<and> int (unat y) \<le> 256 * m"
proof -
  obtain lead ml mt mb x data where run: "foldl (\<lambda>st pt. curve_point fl pt st)
      (bc_leadOffLatency bc, bc_maxLatency bc, 0, bc_maxBandwidth bc, 0, []) pts = (lead, ml, mt, mb, x, data)"
    by (metis prod_cases6)
  have l: "list_all (\<lambda>pt. 0 \<le> snd pt \<and> snd pt \<le> of_int (256 * m)) pts" and ne: "pts \<noteq> []"
    using c by (auto simp: curve_ok_def list_all_iff scaled_point_def)
  have "(0 :: rat) \<le> of_int (256 * m)" using m by simp
  from curve_points_ok [OF run l lead _ this]
  have p: "0 \<le> lead" "lead \<le> of_int (256 * m)" "0 \<le> mt" "mt \<le> of_int (256 * m)" "0 \<le> x" "data = map (scaled_point fl) pts"
    using ne by auto
  obtain y where "to_u32 mt = Inr y" "int (unat y) \<le> 256 * m" using to_u32_ok [OF p(3,4)] m by auto
  then show ?thesis using p by (auto simp: read_curve_def run intro!: exI)
qed

lemma read_curves_ok:
  assumes "list_all (\<lambda>c. curve_ok fl m (map (scaled_point fl) c)) cs" and "0 \<le> bc_leadOffLatency bc"
    and "cs = [] \<Longrightarrow> bc_leadOffLatency bc \<le> of_int (256 * m)" and m: "0 < m" "m < 2 ^ 22"
  shows "\<exists>lead ml mb xs ys. foldr_res (\<lambda>bc file. read_curve fl file bc) bc (map Some cs) =
      Inr (bc\<lparr>bc_leadOffLatency := lead, bc_maxLatency := ml, bc_maxBandwidth := mb,
        bc_maxBandwidthPerRdRatio := bc_maxBandwidthPerRdRatio bc @ xs, bc_maxLatencyPerRdRatio := bc_maxLatencyPerRdRatio bc @ ys,
        bc_curves_data := bc_curves_data bc @ map (map (scaled_point fl)) cs\<rparr>) \<and>
    0 \<le> lead \<and> lead \<le> of_int (256 * m) \<and> length xs = length cs \<and> length ys = length cs \<and>
    list_all ((\<le>) 0) xs \<and> list_all (\<lambda>l. int (unat l) \<le> 256 * m) ys"
  using assms(1-3)
proof (induction cs arbitrary: bc)
  case Nil
  have "bc = bc\<lparr>bc_leadOffLatency := bc_leadOffLatency bc, bc_maxLatency := bc_maxLatency bc, bc_maxBandwidth := bc_maxBandwidth bc,
    bc_maxBandwidthPerRdRatio := bc_maxBandwidthPerRdRatio bc @ [], bc_maxLatencyPerRdRatio := bc_maxLatencyPerRdRatio bc @ [],
    bc_curves_data := bc_curves_data bc @ []\<rparr>" by simp
  with Nil show ?case
    by (intro exI [of _ "bc_leadOffLatency bc"] exI [of _ "bc_maxLatency bc"] exI [of _ "bc_maxBandwidth bc"] exI [of _ "[]"]) auto
next
  case (Cons c cs)
  have c: "curve_ok fl m (map (scaled_point fl) c)" and cs: "list_all (\<lambda>c. curve_ok fl m (map (scaled_point fl) c)) cs"
    using Cons.prems(1) by simp_all
  obtain lead ml mb x y where r: "read_curve fl (Some c) bc = Inr (bc\<lparr>bc_leadOffLatency := lead, bc_maxLatency := ml, bc_maxBandwidth := mb,
      bc_maxBandwidthPerRdRatio := bc_maxBandwidthPerRdRatio bc @ [x], bc_maxLatencyPerRdRatio := bc_maxLatencyPerRdRatio bc @ [y],
      bc_curves_data := bc_curves_data bc @ [map (scaled_point fl) c]\<rparr>)" (is "_ = Inr ?bc")
    "0 \<le> lead" "lead \<le> of_int (256 * m)" "0 \<le> x" "int (unat y) \<le> 256 * m"
    using read_curve_ok [OF c Cons.prems(2) m] by blast
  have h: "0 \<le> bc_leadOffLatency ?bc" "cs = [] \<Longrightarrow> bc_leadOffLatency ?bc \<le> of_int (256 * m)" using r(2,3) by simp_all
  from Cons.IH [OF cs h] obtain lead' ml' mb' xs ys where i: "foldr_res (\<lambda>bc file. read_curve fl file bc) ?bc (map Some cs) =
      Inr (?bc\<lparr>bc_leadOffLatency := lead', bc_maxLatency := ml', bc_maxBandwidth := mb',
        bc_maxBandwidthPerRdRatio := bc_maxBandwidthPerRdRatio ?bc @ xs, bc_maxLatencyPerRdRatio := bc_maxLatencyPerRdRatio ?bc @ ys,
        bc_curves_data := bc_curves_data ?bc @ map (map (scaled_point fl)) cs\<rparr>)"
    "0 \<le> lead'" "lead' \<le> of_int (256 * m)" "length xs = length cs" "length ys = length cs"
    "list_all ((\<le>) 0) xs" "list_all (\<lambda>l. int (unat l) \<le> 256 * m) ys" by blast
  show ?case
    by (rule exI [of _ lead'], rule exI [of _ ml'], rule exI [of _ mb'], rule exI [of _ "x # xs"], rule exI [of _ "y # ys"])
      (use r i in simp)
qed

lemma new_ctrl_ok:
  assumes "list_all (\<lambda>c. curve_ok fl m (map (scaled_point fl) c)) cs" "length cs = 51" and m: "0 < m" "m < 2 ^ 22"
    and F: "1 / 64 \<le> F" "F \<le> 1024" and W: "0 < unat W"
  shows "\<exists>bc. new_ctrl fl (map Some cs) W F = Inr bc \<and> ctrl_ok fl m 0 bc \<and> accesses_so_far 0 bc = 0 \<and> bc_window_size bc = W \<and>
    bc_outputBW bc = None \<and> bc_lastIntReadPercentage bc = None"
proof -
  let ?bc0 = "\<lparr>bc_latency = 0, bc_outputBW = None, bc_leadOffLatency = 100000, bc_maxBandwidth = 0, bc_maxLatency = 0,
        bc_lastEstimatedBandwidth = 0, bc_lastEstimatedLatency = 0, bc_overflowFactor = 0, bc_frequencyCPU = F,
        bc_curves_data = [], bc_maxBandwidthPerRdRatio = [], bc_maxLatencyPerRdRatio = [], bc_count = 0, bc_count_wr = 0,
        bc_count_rd = 0, bc_window_size = W, bc_window_start = 0, bc_lastIntReadPercentage = None\<rparr>"
  have ne: "cs \<noteq> []" using assms(2) by auto
  obtain lead ml mb xs ys where r: "foldr_res (\<lambda>bc file. read_curve fl file bc) ?bc0 (map Some cs) =
      Inr (?bc0\<lparr>bc_leadOffLatency := lead, bc_maxLatency := ml, bc_maxBandwidth := mb, bc_maxBandwidthPerRdRatio := xs,
        bc_maxLatencyPerRdRatio := ys, bc_curves_data := map (map (scaled_point fl)) cs\<rparr>)"
    "0 \<le> lead" "lead \<le> of_int (256 * m)" "length xs = 51" "length ys = 51" "list_all ((\<le>) 0) xs" "list_all (\<lambda>l. int (unat l) \<le> 256 * m) ys"
    using read_curves_ok [OF assms(1) _ _ m, of ?bc0] ne assms(2) by auto
  obtain l where l: "to_u32 lead = Inr l" "int (unat l) = \<lfloor>lead\<rfloor>" "int (unat l) \<le> 256 * m"
    using to_u32_ok [OF r(2,3)] m(2) by auto
  have "lead \<le> of_int (1024 * m)" using r(3) m(1) by (rule_tac order_trans) (simp_all only: of_int_le_iff, simp)
  then show ?thesis using r l assms
    by (simp add: new_ctrl_def ctrl_ok_def model_ok_def accesses_so_far_def list_all_iff)
qed

lemma delay_init_ok:
  assumes ok: "fl_ok fl" and "list_all (\<lambda>c. curve_ok fl m (map (scaled_point fl) c)) cs" "length cs = 51" "0 < m" "m < 2 ^ 22"
    and f: "16 \<le> freq" "freq \<le> 1024000"
  shows "\<exists>bc. delay_init_call fl (map Some cs) freq None = Inr (Some bc) \<and> ctrl_ok fl m 0 bc \<and> accesses_so_far 0 bc = 0 \<and>
    bc_window_size bc = 1000 \<and> bc_outputBW bc = None \<and> bc_lastIntReadPercentage bc = None"
proof -
  let ?F = "fl (of_int freq / 1000)"
  have r: "(of_int 16 :: rat) \<le> of_int freq" "(of_int freq :: rat) \<le> of_int 1024000" using f by (simp_all only: of_int_le_iff)
  have "fl (of_int 4 / 256) = (of_int 4 / 256 :: rat)" by (rule fl_dyadic [OF ok]) simp
  moreover have "of_int 4 / 256 \<le> (of_int freq / 1000 :: rat)" using r by simp
  ultimately have "1 / 64 \<le> ?F" using fl_mono [OF ok, of "of_int 4 / 256" "of_int freq / 1000"] by simp
  moreover have "?F \<le> 1024" using fl_le [OF ok, of "of_int freq / 1000" 1024] r by simp
  ultimately show ?thesis
    using new_ctrl_ok [OF assms(2-5), of ?F 1000] by (auto simp: delay_init_call_def)
qed

lemma lead_off_latency:
  assumes "model_ok fl m w bc" "0 < m" "m < 2 ^ 22"
  shows "\<exists>lead. getLeadOffLatency bc = Inr lead \<and> lead \<le> bc_latency bc"
proof -
  obtain lead where lead: "to_u32 (bc_leadOffLatency bc) = Inr lead" "int (unat lead) = \<lfloor>bc_leadOffLatency bc\<rfloor>"
    using lead_off_ok [OF assms] by blast
  have "\<lfloor>bc_leadOffLatency bc\<rfloor> \<le> int (unat (bc_latency bc))" using assms(1) by (simp add: model_ok_def)
  then have "unat lead \<le> unat (bc_latency bc)" unfolding lead(2) [symmetric] by (simp only: of_nat_le_iff)
  then show ?thesis using lead(1) by (simp add: getLeadOffLatency_def word_le_nat_alt)
qed

lemma model_returns:
  assumes ok: "fl_ok fl" and cs: "length cs = 51" "list_all (\<lambda>c. curve_ok fl m (map (scaled_point fl) c)) cs"
    and f: "16 \<le> freq" "freq \<le> 1024000" and m: "0 < m" "1024 * m * (int (length accs) div 1000 + 1) < 2 ^ 32"
  shows "\<exists>bc rs bc' lead. delay_init_call fl (map Some cs) freq None = Inr (Some bc) \<and> run_accesses fl bc accs = Inr (rs, bc') \<and>
    length rs = length accs \<and> (\<forall>r \<in> set rs. int (unat r) \<le> 524288 * m * (int (length accs) div 1000 + 1)) \<and>
    getLeadOffLatency bc' = Inr lead \<and> lead \<le> bc_latency bc' \<and>
    int (unat (bc_latency bc')) \<le> 1024 * m * (int (length accs) div 1000 + 1)"
proof -
  let ?n = "int (length accs)"
  have "m * 1 \<le> m * (?n div 1000 + 1)" using m(1) by (intro mult_left_mono) simp_all
  then have m22: "m < 2 ^ 22" using m(2) by simp
  obtain bc where d: "delay_init_call fl (map Some cs) freq None = Inr (Some bc)" "ctrl_ok fl m 0 bc" "accesses_so_far 0 bc = 0"
    "bc_window_size bc = 1000" using delay_init_ok [OF ok cs(2,1) m(1) m22 f] by blast
  obtain rs bc' w where r: "run_accesses fl bc accs = Inr (rs, bc')" "ctrl_ok fl m w bc'" "length rs = length accs"
    "accesses_so_far w bc' = ?n" "bc_window_size bc' = 1000" "\<forall>r \<in> set rs. int (unat r) \<le> 524288 * m * (w + 1)"
    using run_ok [OF ok m(1) d(2), of accs] d(3,4) m(2) by auto
  have c: "unat (bc_count bc') < 1000" "w * 1000 + int (unat (bc_count bc')) = ?n"
    using r(2,4,5) by (simp_all add: ctrl_ok_def accesses_so_far_def)
  have w: "w = ?n div 1000" using c by linarith
  obtain lead where "getLeadOffLatency bc' = Inr lead" "lead \<le> bc_latency bc'"
    using lead_off_latency [of fl m w bc'] r(2) m(1) m22 by (auto simp: ctrl_ok_def)
  moreover have "int (unat (bc_latency bc')) \<le> 1024 * m * (w + 1)" using r(2) by (simp add: ctrl_ok_def model_ok_def)
  ultimately show ?thesis using d(1) r(1,3,6) unfolding w by blast
qed

text \<open>Rounding to multiples of 1/256 is one that \<open>fl_ok\<close> describes.\<close>

definition fl256 :: "double \<Rightarrow> double" where
  "fl256 x = of_int \<lfloor>x * 256 + 1 / 2\<rfloor> / 256"

lemma fl256_ok: "fl_ok fl256"
proof -
  have e: "fl256 (of_int n / 256) = of_int n / 256" for n
  proof -
    have "\<lfloor>of_int n + 1 / 2 :: rat\<rfloor> = n" by (simp add: floor_eq_iff)
    then show ?thesis by (simp add: fl256_def)
  qed
  have "fl256 x \<le> fl256 y" if "x \<le> y" for x y
    using that by (simp add: fl256_def divide_right_mono floor_mono)
  then have "mono fl256" by (simp add: mono_def)
  moreover have "fl256 (fl256 x) = fl256 x" for x using e by (metis fl256_def)
  moreover have "fl256 (x - y) \<noteq> 0" if "fl256 x = x" "fl256 y = y" "x \<noteq> y" for x y
  proof -
    have "\<exists>a. x = of_int a / 256" "\<exists>b. y = of_int b / 256" using that(1,2) by (metis fl256_def)+
    then obtain a b where "x = of_int a / 256" "y = of_int b / 256" by blast
    then have "x - y = of_int (a - b) / 256" by (simp add: diff_divide_distrib)
    then have "fl256 (x - y) = x - y" using e by (simp only:)
    with that(3) show ?thesis by simp
  qed
  ultimately show ?thesis using e by (simp add: fl_ok_def)
qed

lemma floor_fractions:
  "\<lfloor>numeral a / numeral b :: rat\<rfloor> = numeral a div numeral b"
  "\<lfloor>1 / numeral b :: rat\<rfloor> = 1 div numeral b"
  "\<lfloor>- (numeral a / numeral b) :: rat\<rfloor> = - numeral a div numeral b"
  using floor_divide_of_int_eq [of "numeral a" "numeral b", where ?'a = rat] floor_divide_of_int_eq [of 1 "numeral b", where ?'a = rat]
    floor_divide_of_int_eq [of "- numeral a" "numeral b", where ?'a = rat] by simp_all

lemma example_curve_ok: "curve_ok fl256 2 (map (scaled_point fl256) [(134400, 512), (147840, 300), (67200, 200)])"
  by (simp add: curve_ok_def end_ok_def scaled_point_def fl256_def floor_fractions)

end
