(* ===== verification/MM_Latency.thy ===== *)
theory MM_Latency
  imports LAT_Control
begin

text \<open>
  The latency model in the distributed simulation: \<open>mpi_work_on_latmodel\<close> of \<open>my_metro_fake_mem.cpp\<close>,
  \<open>mpi_work_latmodel_chipset\<close>, the start and the report of the model in \<open>my_metro_chipset.cpp\<close>, under
  \<open>src/piton/tools/verilator/\<close>, in the build with \<open>PITON_LATMODEL\<close>. Every memory controller writes down its requests for
  128 cycles and sends them to the chipset, which asks the one model for each of them and sends the last latency back.

  One tick of all ranks is one step, as every rank sends its requests before it waits for the latency. The \<open>i\<close>-th
  memory is the one the chipset calls \<open>mc_start_rank + i\<close>, which is right with one tile per rank. Ticks while the reset
  is active are left out: no clock counts then, and the memories have no requests. The requests of the design are an
  argument, what \<open>cout\<close> prints of a \<open>double\<close> is \<open>show\<close>.

  The lemmas show that the clocks agree, that the shared model is the model of \<open>LAT_Control\<close> run on the requests of all
  memories in the order of their ranks in every 128 cycles, and that all memories work with the same latency.
\<close>

section \<open>The memory controllers\<close>

definition DELAY_MODEL_SYNC_CYCLES :: nat where "DELAY_MODEL_SYNC_CYCLES = 128"
definition NO_REQ :: u8 where "NO_REQ = 0"
definition RD_REQ :: u8 where "RD_REQ = 1"
definition WR_REQ :: u8 where "WR_REQ = 2"
definition OP_FRQ_MHZ :: int where "OP_FRQ_MHZ = 1500"

record lat_mem =
  lm_clk_cnt :: u64
  lm_mem_valid_req :: "u8 list"
  lm_mem_lat :: u64
  lm_rd_lat_in :: u32

definition new_mem :: lat_mem where
  "new_mem = \<lparr>lm_clk_cnt = 0, lm_mem_valid_req = replicate DELAY_MODEL_SYNC_CYCLES NO_REQ, lm_mem_lat = 150, lm_rd_lat_in = 150\<rparr>"

definition sync_index :: "u64 \<Rightarrow> nat" where
  "sync_index clk = unat (clk mod of_nat DELAY_MODEL_SYNC_CYCLES)"

definition mem_request :: "u8 \<times> u8 \<Rightarrow> u8" where
  "mem_request r = (case r of (got_rd, got_wr) \<Rightarrow> if odd (unat got_rd) then RD_REQ else if odd (unat got_wr) then WR_REQ else NO_REQ)"

text \<open>A clock and the first half of \<open>mpi_work_on_latmodel\<close>, then the latency received.\<close>

definition mem_record :: "u8 \<times> u8 \<Rightarrow> lat_mem \<Rightarrow> lat_mem" where
  "mem_record r m =
     (let m = m\<lparr>lm_clk_cnt := lm_clk_cnt m + 1\<rparr>
      in m\<lparr>lm_mem_valid_req := (lm_mem_valid_req m)[sync_index (lm_clk_cnt m) := mem_request r]\<rparr>)"

definition mem_receive :: "u64 \<Rightarrow> lat_mem \<Rightarrow> lat_mem" where
  "mem_receive lat m = (if sync_index (lm_clk_cnt m) = DELAY_MODEL_SYNC_CYCLES - 1 then m\<lparr>lm_mem_lat := lat, lm_rd_lat_in := ucast lat\<rparr> else m)"

section \<open>The chipset\<close>

record LATMODEL_t =
  ls_sum :: double
  ls_count :: int
  ls_min :: u64
  ls_max :: u64
  ls_rd_cnt :: u64
  ls_wr_cnt :: u64

record lat_chipset =
  lc_clk_cnt :: u64
  lc_mem_lat :: u64
  lc_model :: bw_ctrl
  lc_st :: LATMODEL_t

definition latmodel_init :: "(double \<Rightarrow> double) \<Rightarrow> (double \<times> double) list option list \<Rightarrow> lat_chipset res" where
  "latmodel_init fl files =
     bindr (delay_init_call fl files OP_FRQ_MHZ None) (\<lambda>bc.
     bindr (the_res bc) (\<lambda>bc.
     bindr (got_a_read_req_call fl 1 bc) (\<lambda>(lat, bc).
       Inr \<lparr>lc_clk_cnt = 0, lc_mem_lat = lat, lc_model = bc,
            lc_st = \<lparr>ls_sum = 0, ls_count = 0, ls_min = 0xFFFFFFFF, ls_max = 0, ls_rd_cnt = 0, ls_wr_cnt = 0\<rparr>\<rparr>)))"

definition chipset_request :: "(double \<Rightarrow> double) \<Rightarrow> nat \<Rightarrow> u8 \<Rightarrow> lat_chipset \<Rightarrow> lat_chipset res" where
  "chipset_request fl k req c =
     (let cycle = lc_clk_cnt c - of_nat DELAY_MODEL_SYNC_CYCLES + of_nat k in
      bindr (if req = RD_REQ
             then bindr (got_a_read_req_call fl cycle (lc_model c)) (\<lambda>(lat, bc).
                    Inr (c\<lparr>lc_mem_lat := lat, lc_model := bc, lc_st := (lc_st c)\<lparr>ls_rd_cnt := ls_rd_cnt (lc_st c) + 1\<rparr>\<rparr>))
             else Inr c) (\<lambda>c.
      if req = WR_REQ
      then bindr (got_a_write_req_call fl cycle (lc_model c)) (\<lambda>(lat, bc).
             Inr (c\<lparr>lc_mem_lat := lat, lc_model := bc, lc_st := (lc_st c)\<lparr>ls_wr_cnt := ls_wr_cnt (lc_st c) + 1\<rparr>\<rparr>))
      else Inr c))"

definition chipset_requests :: "(double \<Rightarrow> double) \<Rightarrow> nat list \<Rightarrow> u8 list \<Rightarrow> lat_chipset \<Rightarrow> lat_chipset res" where
  "chipset_requests fl ks reqs c = foldr_res (\<lambda>c k. bindr (nth_res reqs k) (\<lambda>req. chipset_request fl k req c)) c ks"

definition lat_statistics :: "(double \<Rightarrow> double) \<Rightarrow> u64 \<Rightarrow> LATMODEL_t \<Rightarrow> LATMODEL_t res" where
  "lat_statistics fl lat st =
     (if int_ok (ls_count st + 1)
      then Inr (st\<lparr>ls_count := ls_count st + 1, ls_sum := fl (ls_sum st + dbl fl lat),
                   ls_min := (if lat < ls_min st then lat else ls_min st), ls_max := (if lat > ls_max st then lat else ls_max st)\<rparr>)
      else Inl Undef)"

text \<open>\<open>msgs\<close> are the requests received, one list for every memory controller.\<close>

definition mpi_work_latmodel_chipset :: "(double \<Rightarrow> double) \<Rightarrow> u8 list list \<Rightarrow> lat_chipset \<Rightarrow> lat_chipset res" where
  "mpi_work_latmodel_chipset fl msgs c =
     (if sync_index (lc_clk_cnt c) = DELAY_MODEL_SYNC_CYCLES - 1
      then bindr (foldr_res (\<lambda>c reqs. chipset_requests fl [0..<DELAY_MODEL_SYNC_CYCLES] reqs c) c msgs) (\<lambda>c.
           bindr (lat_statistics fl (lc_mem_lat c) (lc_st c)) (\<lambda>st. Inr (c\<lparr>lc_st := st\<rparr>)))
      else Inr c)"

text \<open>A tick of all ranks; \<open>reqs\<close> are \<open>got_rd\<close> and \<open>got_wr\<close> of the memories.\<close>

definition latmodel_tick :: "(double \<Rightarrow> double) \<Rightarrow> (u8 \<times> u8) list \<Rightarrow> lat_chipset \<times> lat_mem list \<Rightarrow> (lat_chipset \<times> lat_mem list) res" where
  "latmodel_tick fl reqs s =
     (case s of (c, ms) \<Rightarrow>
        let ms = map2 mem_record reqs ms in
        bindr (mpi_work_latmodel_chipset fl (map lm_mem_valid_req ms) (c\<lparr>lc_clk_cnt := lc_clk_cnt c + 1\<rparr>)) (\<lambda>c.
          Inr (c, map (mem_receive (lc_mem_lat c)) ms)))"

fun latmodel_run :: "(double \<Rightarrow> double) \<Rightarrow> (double \<times> double) list option list \<Rightarrow> nat \<Rightarrow> (nat \<Rightarrow> nat \<Rightarrow> u8 \<times> u8) \<Rightarrow> nat \<Rightarrow>
    (lat_chipset \<times> lat_mem list) res" where
  "latmodel_run fl files n req 0 = bindr (latmodel_init fl files) (\<lambda>c. Inr (c, replicate n new_mem))"
| "latmodel_run fl files n req (Suc t) =
     bindr (latmodel_run fl files n req t) (\<lambda>s. latmodel_tick fl (map (\<lambda>i. req i (Suc t)) [0..<n]) s)"

text \<open>The line of the report.\<close>

definition latmodel_line :: "(double \<Rightarrow> double) \<Rightarrow> (double \<Rightarrow> string) \<Rightarrow> lat_chipset \<Rightarrow> string res" where
  "latmodel_line fl show c =
     (let st = lc_st c; rd = ls_rd_cnt st; wr = ls_wr_cnt st; ns = (lc_clk_cnt c * 1000) div of_int OP_FRQ_MHZ;
          num = (\<lambda>w :: u64. dec_nat (unat w)) in
      bindr (div_res fl (ls_sum st) (of_int (ls_count st))) (\<lambda>q.
      bindr (to_u64 q) (\<lambda>mean.
      bindr (getBandwidth (lc_model c)) (\<lambda>bw.
      bindr (if wr + rd = 0 then Inl Undef else Inr (dbl fl ((rd * 100) div (wr + rd)))) (\<lambda>Ratio.
      bindr (div_res fl (dbl fl (rd * 64)) (dbl fl ns)) (\<lambda>RD_BW.
      bindr (div_res fl (dbl fl (wr * 64)) (dbl fl ns)) (\<lambda>WR_BW.
        Inr (concat (map (\<lambda>x. x @ '', '') [num (ls_min st), num mean, num (ls_max st), show bw, num rd, num wr, show Ratio,
                num (lc_clk_cnt c), show RD_BW, show WR_BW]) @ show (fl (RD_BW + WR_BW))))))))))"

section \<open>The requests as accesses of one model\<close>

definition access_of :: "u64 \<Rightarrow> nat \<Rightarrow> u8 \<Rightarrow> (u64 \<times> bool) list" where
  "access_of clk k req =
     (if req = RD_REQ then [(clk - of_nat DELAY_MODEL_SYNC_CYCLES + of_nat k, False)]
      else if req = WR_REQ then [(clk - of_nat DELAY_MODEL_SYNC_CYCLES + of_nat k, True)] else [])"

definition accesses_of :: "u64 \<Rightarrow> nat list \<Rightarrow> u8 list \<Rightarrow> (u64 \<times> bool) list" where
  "accesses_of clk ks reqs = concat (map (\<lambda>k. access_of clk k (reqs ! k)) ks)"

text \<open>The requests the \<open>i\<close>-th memory wrote down for the \<open>q\<close>-th 128 cycles; no memory counts a clock 0.\<close>

definition requests_of :: "(nat \<Rightarrow> nat \<Rightarrow> u8 \<times> u8) \<Rightarrow> nat \<Rightarrow> nat \<Rightarrow> u8 list" where
  "requests_of req q i = map (\<lambda>k. if 128 * q + k = 0 then NO_REQ else mem_request (req i (128 * q + k))) [0..<128]"

definition sync_accesses :: "nat \<Rightarrow> (nat \<Rightarrow> nat \<Rightarrow> u8 \<times> u8) \<Rightarrow> nat \<Rightarrow> (u64 \<times> bool) list" where
  "sync_accesses n req q = concat (map (\<lambda>i. accesses_of (of_nat (128 * q + 127)) [0..<128] (requests_of req q i)) [0..<n])"

definition all_accesses :: "nat \<Rightarrow> (nat \<Rightarrow> nat \<Rightarrow> u8 \<times> u8) \<Rightarrow> nat \<Rightarrow> (u64 \<times> bool) list" where
  "all_accesses n req t = (1, False) # concat (map (sync_accesses n req) [0..<Suc t div 128])"

lemma run_accesses_append:
  "run_accesses fl bc (xs @ ys) =
   bindr (run_accesses fl bc xs) (\<lambda>(rs, bc). bindr (run_accesses fl bc ys) (\<lambda>(rs', bc). Inr (rs @ rs', bc)))"
proof (induction xs arbitrary: bc)
  case Nil
  show ?case by (cases "run_accesses fl bc ys") auto
next
  case (Cons x xs)
  obtain t wr where x: "x = (t, wr)" by (cases x)
  show ?case
    by (cases "if wr then got_a_write_req_call fl t bc else got_a_read_req_call fl t bc")
      (auto simp: x Cons.IH split: prod.splits sum.splits simp: bindr_def)
qed

lemma run_accesses_appendE:
  assumes "run_accesses fl bc (xs @ ys) = Inr (rs, bc')"
  obtains rs1 bc1 rs2 where "run_accesses fl bc xs = Inr (rs1, bc1)" "run_accesses fl bc1 ys = Inr (rs2, bc')" "rs = rs1 @ rs2"
  using assms by (auto simp: run_accesses_append split: prod.splits)

lemma run_accesses_length: "run_accesses fl bc accs = Inr (rs, bc') \<Longrightarrow> length rs = length accs"
  by (induction accs arbitrary: bc rs) (auto split: prod.splits)

text \<open>What answers to a list of accesses do to the chipset.\<close>

definition answered :: "lat_chipset \<Rightarrow> u64 list \<Rightarrow> bw_ctrl \<Rightarrow> lat_chipset \<Rightarrow> bool" where
  "answered c rs bc c' \<longleftrightarrow> lc_clk_cnt c' = lc_clk_cnt c \<and> lc_model c' = bc \<and> lc_mem_lat c' = last (lc_mem_lat c # rs) \<and>
     ls_count (lc_st c') = ls_count (lc_st c) \<and>
     ls_rd_cnt (lc_st c') + ls_wr_cnt (lc_st c') = ls_rd_cnt (lc_st c) + ls_wr_cnt (lc_st c) + of_nat (length rs)"

lemma answered_trans:
  "answered c rs bc c' \<Longrightarrow> answered c' rs' bc' c'' \<Longrightarrow> answered c (rs @ rs') bc' c''"
  by (auto simp: answered_def)

lemma chipset_request_ok:
  assumes "run_accesses fl (lc_model c) (access_of (lc_clk_cnt c) k req) = Inr (rs, bc)"
  shows "\<exists>c'. chipset_request fl k req c = Inr c' \<and> answered c rs bc c'"
  using assms
  by (auto simp: chipset_request_def access_of_def answered_def RD_REQ_def WR_REQ_def Let_def split: if_splits prod.splits)

lemma chipset_requests_ok:
  assumes "run_accesses fl (lc_model c) (accesses_of (lc_clk_cnt c) ks reqs) = Inr (rs, bc)" and "\<forall>k \<in> set ks. k < length reqs"
  shows "\<exists>c'. chipset_requests fl ks reqs c = Inr c' \<and> answered c rs bc c'"
  using assms
proof (induction ks arbitrary: c rs)
  case Nil
  then show ?case by (simp add: accesses_of_def chipset_requests_def answered_def)
next
  case (Cons k ks)
  have "run_accesses fl (lc_model c) (access_of (lc_clk_cnt c) k (reqs ! k) @ accesses_of (lc_clk_cnt c) ks reqs) = Inr (rs, bc)"
    using Cons.prems(1) by (simp add: accesses_of_def)
  then obtain rs1 bc1 rs2 where r: "run_accesses fl (lc_model c) (access_of (lc_clk_cnt c) k (reqs ! k)) = Inr (rs1, bc1)"
    "run_accesses fl bc1 (accesses_of (lc_clk_cnt c) ks reqs) = Inr (rs2, bc)" "rs = rs1 @ rs2" by (rule run_accesses_appendE)
  obtain c1 where c1: "chipset_request fl k (reqs ! k) c = Inr c1" "answered c rs1 bc1 c1" using chipset_request_ok [OF r(1)] by blast
  have "run_accesses fl (lc_model c1) (accesses_of (lc_clk_cnt c1) ks reqs) = Inr (rs2, bc)"
    using r(2) c1(2) by (simp add: answered_def)
  from Cons.IH [OF this] Cons.prems(2) obtain c2 where "chipset_requests fl ks reqs c1 = Inr c2" "answered c1 rs2 bc c2" by auto
  then show ?case using c1 r(3) Cons.prems(2) answered_trans by (auto simp: chipset_requests_def)
qed

lemma chipset_messages_ok:
  assumes "run_accesses fl (lc_model c) (concat (map (accesses_of (lc_clk_cnt c) [0..<128]) msgs)) = Inr (rs, bc)"
    and "\<forall>reqs \<in> set msgs. length reqs = 128"
  shows "\<exists>c'. foldr_res (\<lambda>c reqs. chipset_requests fl [0..<DELAY_MODEL_SYNC_CYCLES] reqs c) c msgs = Inr c' \<and> answered c rs bc c'"
  using assms
proof (induction msgs arbitrary: c rs)
  case Nil
  then show ?case by (simp add: answered_def)
next
  case (Cons reqs msgs)
  obtain rs1 bc1 rs2 where r: "run_accesses fl (lc_model c) (accesses_of (lc_clk_cnt c) [0..<128] reqs) = Inr (rs1, bc1)"
    "run_accesses fl bc1 (concat (map (accesses_of (lc_clk_cnt c) [0..<128]) msgs)) = Inr (rs2, bc)" "rs = rs1 @ rs2"
    using Cons.prems(1) by (auto elim: run_accesses_appendE)
  obtain c1 where c1: "chipset_requests fl [0..<128] reqs c = Inr c1" "answered c rs1 bc1 c1"
    using chipset_requests_ok [OF r(1)] Cons.prems(2) by auto
  have "run_accesses fl (lc_model c1) (concat (map (accesses_of (lc_clk_cnt c1) [0..<128]) msgs)) = Inr (rs2, bc)"
    using r(2) c1(2) by (simp add: answered_def)
  from Cons.IH [OF this] Cons.prems(2) obtain c2
    where "foldr_res (\<lambda>c reqs. chipset_requests fl [0..<DELAY_MODEL_SYNC_CYCLES] reqs c) c1 msgs = Inr c2" "answered c1 rs2 bc c2" by auto
  then show ?case using c1 r(3) answered_trans by (auto simp: DELAY_MODEL_SYNC_CYCLES_def)
qed

section \<open>All ranks\<close>

lemma sync_index_of_nat: "sync_index (of_nat t) = t mod 128"
  by (simp add: sync_index_def DELAY_MODEL_SYNC_CYCLES_def unat_mod unsigned_of_nat take_bit_eq_mod mod_mod_cancel)

lemma clock_index:
  "Suc t mod 128 = 0 \<Longrightarrow> Suc t div 128 = Suc (t div 128)"
  "Suc t mod 128 \<noteq> 0 \<Longrightarrow> Suc t div 128 = t div 128 \<and> Suc t mod 128 = Suc (t mod 128)"
  by (simp_all add: div_Suc mod_Suc split: if_splits)

lemma all_accesses_Suc:
  "all_accesses n req (Suc t) = all_accesses n req t @ (if Suc t mod 128 = 127 then sync_accesses n req (Suc t div 128) else [])"
proof (cases "Suc t mod 128 = 127")
  case True
  then have "Suc (Suc t) div 128 = Suc (Suc t div 128)" by (simp add: clock_index(1) mod_Suc)
  then show ?thesis using True by (simp add: all_accesses_def)
next
  case False
  then have "Suc (Suc t) mod 128 \<noteq> 0" by (simp add: mod_Suc split: if_splits)
  then have "Suc (Suc t) div 128 = Suc t div 128" using clock_index(2) by blast
  then show ?thesis using False by (simp add: all_accesses_def)
qed

text \<open>A memory after \<open>t\<close> ticks: what it wrote down since the last message, and the latency it works with.\<close>

definition mem_at :: "(nat \<Rightarrow> nat \<Rightarrow> u8 \<times> u8) \<Rightarrow> nat \<Rightarrow> nat \<Rightarrow> u64 \<Rightarrow> lat_mem \<Rightarrow> bool" where
  "mem_at req t i lat m \<longleftrightarrow> lm_clk_cnt m = of_nat t \<and> length (lm_mem_valid_req m) = 128 \<and>
     (\<forall>k \<le> t mod 128. lm_mem_valid_req m ! k = requests_of req (t div 128) i ! k) \<and>
     lm_mem_lat m = (if t < 127 then 150 else lat) \<and> lm_rd_lat_in m = ucast (lm_mem_lat m)"

definition ranks_at :: "nat \<Rightarrow> (nat \<Rightarrow> nat \<Rightarrow> u8 \<times> u8) \<Rightarrow> nat \<Rightarrow> u64 list \<Rightarrow> bw_ctrl \<Rightarrow> lat_chipset \<Rightarrow> lat_mem list \<Rightarrow> bool" where
  "ranks_at n req t rs bc c ms \<longleftrightarrow> lc_clk_cnt c = of_nat t \<and> lc_model c = bc \<and> lc_mem_lat c = last rs \<and>
     ls_count (lc_st c) = int (Suc t div 128) \<and> ls_rd_cnt (lc_st c) + ls_wr_cnt (lc_st c) + 1 = of_nat (length rs) \<and>
     length ms = n \<and> (\<forall>i < n. mem_at req t i (last rs) (ms ! i))"

lemma requests_of_nth:
  "k < 128 \<Longrightarrow> requests_of req q i ! k = (if 128 * q + k = 0 then NO_REQ else mem_request (req i (128 * q + k)))"
  by (simp add: requests_of_def)

lemma mem_record_ok:
  assumes "mem_at req t i lat m"
  shows "mem_at req (Suc t) i lat (mem_record (req i (Suc t)) m) \<or> Suc t = 127"
    and "lm_clk_cnt (mem_record (req i (Suc t)) m) = of_nat (Suc t)"
    and "length (lm_mem_valid_req (mem_record (req i (Suc t)) m)) = 128"
    and "\<forall>k \<le> Suc t mod 128. lm_mem_valid_req (mem_record (req i (Suc t)) m) ! k = requests_of req (Suc t div 128) i ! k"
proof -
  let ?m = "mem_record (req i (Suc t)) m"
  have c: "lm_clk_cnt m + 1 = of_nat (Suc t)" using assms by (simp add: mem_at_def)
  have v: "lm_mem_valid_req ?m = (lm_mem_valid_req m)[Suc t mod 128 := mem_request (req i (Suc t))]"
    by (simp add: mem_record_def Let_def c sync_index_of_nat del: of_nat_Suc)
  show clk: "lm_clk_cnt ?m = of_nat (Suc t)" using c by (simp add: mem_record_def Let_def)
  show len: "length (lm_mem_valid_req ?m) = 128" using assms v by (simp add: mem_at_def)
  show ok: "\<forall>k \<le> Suc t mod 128. lm_mem_valid_req ?m ! k = requests_of req (Suc t div 128) i ! k"
  proof (intro allI impI)
    fix k assume k: "k \<le> Suc t mod 128"
    have m128: "Suc t mod 128 < 128" by simp
    show "lm_mem_valid_req ?m ! k = requests_of req (Suc t div 128) i ! k"
    proof (cases "k = Suc t mod 128")
      case True
      have "128 * (Suc t div 128) + k = Suc t" using True by simp
      then have "requests_of req (Suc t div 128) i ! k = mem_request (req i (Suc t))"
        using m128 True by (simp only: requests_of_nth) simp
      then show ?thesis using v True m128 assms by (simp add: mem_at_def)
    next
      case False
      then have "Suc t mod 128 \<noteq> 0" using k by auto
      from clock_index(2) [OF this] show ?thesis using v False k m128 assms by (simp add: mem_at_def)
    qed
  qed
  have "lm_mem_lat ?m = lm_mem_lat m" "lm_rd_lat_in ?m = lm_rd_lat_in m" by (simp_all add: mem_record_def Let_def)
  then show "mem_at req (Suc t) i lat ?m \<or> Suc t = 127" using assms clk len ok by (auto simp: mem_at_def)
qed

lemma int_ok_count: "n \<le> 2 ^ 30 \<Longrightarrow> int_ok (int n + 1)"
  by (simp add: int_ok_def)

lemma tick_ok:
  assumes r: "run_accesses fl bc0 (all_accesses n req t) = Inr (rs, bc)" "run_accesses fl bc0 (all_accesses n req (Suc t)) = Inr (rs', bc')"
    and st: "ranks_at n req t rs bc c ms" and t: "t < 2 ^ 37"
  shows "\<exists>c' ms'. latmodel_tick fl (map (\<lambda>i. req i (Suc t)) [0..<n]) (c, ms) = Inr (c', ms') \<and> ranks_at n req (Suc t) rs' bc' c' ms'"
proof -
  let ?ms = "map2 mem_record (map (\<lambda>i. req i (Suc t)) [0..<n]) ms" and ?c = "c\<lparr>lc_clk_cnt := lc_clk_cnt c + 1\<rparr>"
  have len: "length ms = n" "length ?ms = n" and nth: "\<And>i. i < n \<Longrightarrow> ?ms ! i = mem_record (req i (Suc t)) (ms ! i)"
    using st by (auto simp: ranks_at_def)
  have at: "\<And>i. i < n \<Longrightarrow> mem_at req t i (last rs) (ms ! i)" using st by (simp add: ranks_at_def)
  have clk: "lc_clk_cnt ?c = of_nat (Suc t)" using st by (simp add: ranks_at_def)
  have ne: "rs \<noteq> []" using r(1) by (auto simp: all_accesses_def split: prod.splits)
  show ?thesis
  proof (cases "Suc t mod 128 = 127")
    case False
    have same: "rs' = rs" "bc' = bc" using r False by (simp_all add: all_accesses_Suc)
    have "Suc (Suc t) div 128 = Suc t div 128" using False by (simp add: div_Suc mod_Suc split: if_splits)
    moreover have "mem_receive lat (?ms ! i) = ?ms ! i" "mem_at req (Suc t) i (last rs) (?ms ! i)" if "i < n" for i lat
      using mem_record_ok [OF at [OF that]] nth [OF that] False that
      by (auto simp: mem_receive_def sync_index_of_nat DELAY_MODEL_SYNC_CYCLES_def simp del: of_nat_Suc)
    ultimately show ?thesis using st clk len False unfolding same
      by (auto simp: latmodel_tick_def mpi_work_latmodel_chipset_def sync_index_of_nat DELAY_MODEL_SYNC_CYCLES_def ranks_at_def Let_def simp del: of_nat_Suc)
  next
    case True
    define q where "q = Suc t div 128"
    have q: "128 * q + 127 = Suc t" using mult_div_mod_eq [of 128 "Suc t"] unfolding True q_def .
    have ge: "\<not> t < 126" using q by linarith
    have reqs: "lm_mem_valid_req (?ms ! i) = requests_of req q i" if "i < n" for i
      using mem_record_ok(3,4) [OF at [OF that]] nth [OF that] True
      by (intro nth_equalityI) (auto simp: q_def requests_of_def)
    have msgs: "map lm_mem_valid_req ?ms = map (requests_of req q) [0..<n]"
      using len reqs by (intro nth_equalityI) auto
    have clk': "lc_clk_cnt ?c = of_nat (128 * q + 127)" using clk unfolding q .
    have "all_accesses n req (Suc t) = all_accesses n req t @ sync_accesses n req q" using True by (simp add: all_accesses_Suc q_def)
    then obtain rs2 where r2: "run_accesses fl bc (sync_accesses n req q) = Inr (rs2, bc')" "rs' = rs @ rs2"
      using r by (auto elim!: run_accesses_appendE)
    have "sync_accesses n req q = concat (map (accesses_of (lc_clk_cnt ?c) [0..<128]) (map (requests_of req q) [0..<n]))"
      unfolding clk' sync_accesses_def by (simp add: comp_def)
    then have "run_accesses fl (lc_model ?c) (concat (map (accesses_of (lc_clk_cnt ?c) [0..<128]) (map (requests_of req q) [0..<n]))) = Inr (rs2, bc')"
      using r2(1) st by (simp add: ranks_at_def)
    from chipset_messages_ok [OF this] obtain c1 where c1:
      "foldr_res (\<lambda>c reqs. chipset_requests fl [0..<DELAY_MODEL_SYNC_CYCLES] reqs c) ?c (map lm_mem_valid_req ?ms) = Inr c1"
      "answered ?c rs2 bc' c1" unfolding msgs by (auto simp: requests_of_def)
    have cnt: "ls_count (lc_st c1) = int (Suc t div 128)" using c1(2) st by (simp add: answered_def ranks_at_def)
    have "Suc t div 128 \<le> 2 ^ 37 div 128" by (rule div_le_mono) (use t in simp)
    also have "(2 :: nat) ^ 37 div 128 = 2 ^ 30" by simp
    finally have "int_ok (ls_count (lc_st c1) + 1)" unfolding cnt by (rule int_ok_count)
    then obtain st' where st': "lat_statistics fl (lc_mem_lat c1) (lc_st c1) = Inr st'" "ls_count st' = ls_count (lc_st c1) + 1"
      "ls_rd_cnt st' = ls_rd_cnt (lc_st c1)" "ls_wr_cnt st' = ls_wr_cnt (lc_st c1)" by (simp add: lat_statistics_def)
    let ?c' = "c1\<lparr>lc_st := st'\<rparr>"
    have lat: "lc_mem_lat c1 = last rs'" using c1(2) st r2(2) ne by (auto simp: answered_def ranks_at_def)
    have tick: "latmodel_tick fl (map (\<lambda>i. req i (Suc t)) [0..<n]) (c, ms) = Inr (?c', map (mem_receive (last rs')) ?ms)"
      using c1(1) st'(1) clk True lat
      by (simp add: latmodel_tick_def mpi_work_latmodel_chipset_def sync_index_of_nat DELAY_MODEL_SYNC_CYCLES_def Let_def del: of_nat_Suc)
    have "mem_at req (Suc t) i (last rs') (mem_receive (last rs') (?ms ! i))" if "i < n" for i
      using mem_record_ok(2-4) [OF at [OF that]] nth [OF that] True ge
      by (simp add: mem_receive_def sync_index_of_nat DELAY_MODEL_SYNC_CYCLES_def mem_at_def del: of_nat_Suc)
    moreover have "Suc (Suc t) div 128 = Suc (Suc t div 128)" using True by (simp add: clock_index(1) mod_Suc)
    moreover have "ls_rd_cnt st' + ls_wr_cnt st' + 1 = of_nat (length rs')"
      using st'(3,4) c1(2) st r2(2) by (simp add: answered_def ranks_at_def algebra_simps)
    ultimately have "ranks_at n req (Suc t) rs' bc' ?c' (map (mem_receive (last rs')) ?ms)"
      using c1(2) clk cnt st'(2) lat len by (simp add: ranks_at_def answered_def del: of_nat_Suc)
    with tick show ?thesis by blast
  qed
qed

lemma latmodel_refines:
  assumes "delay_init_call fl files OP_FRQ_MHZ None = Inr (Some bc0)" "run_accesses fl bc0 (all_accesses n req t) = Inr (rs, bc)" "t \<le> 2 ^ 37"
  shows "\<exists>c ms. latmodel_run fl files n req t = Inr (c, ms) \<and> ranks_at n req t rs bc c ms"
  using assms(2,3)
proof (induction t arbitrary: rs bc)
  case 0
  obtain lat where l: "got_a_read_req_call fl 1 bc0 = Inr (lat, bc)" "rs = [lat]"
    using 0(1) by (auto simp: all_accesses_def split: prod.splits)
  have "mem_at req 0 i lat new_mem" for i
    by (simp add: mem_at_def new_mem_def DELAY_MODEL_SYNC_CYCLES_def requests_of_nth)
  then show ?case using assms(1) l by (simp add: latmodel_init_def ranks_at_def)
next
  case (Suc t)
  obtain rs1 bc1 where r: "run_accesses fl bc0 (all_accesses n req t) = Inr (rs1, bc1)"
    using Suc.prems(1) unfolding all_accesses_Suc by (auto elim: run_accesses_appendE)
  obtain c ms where "latmodel_run fl files n req t = Inr (c, ms)" "ranks_at n req t rs1 bc1 c ms"
    using Suc.IH [OF r] Suc.prems(2) by auto
  moreover from tick_ok [OF r Suc.prems(1) this(2)] Suc.prems(2) obtain c' ms'
    where "latmodel_tick fl (map (\<lambda>i. req i (Suc t)) [0..<n]) (c, ms) = Inr (c', ms')" "ranks_at n req (Suc t) rs bc c' ms'" by auto
  ultimately show ?case by auto
qed

section \<open>The report\<close>

lemma access_keeps_bandwidth:
  assumes "access fl t wr bc = Inr (r, bc')" "bc_count bc + 1 \<noteq> bc_window_size bc"
  shows "bc_outputBW bc' = bc_outputBW bc \<and> bc_count bc' = bc_count bc + 1 \<and> bc_window_size bc' = bc_window_size bc"
  using assms by (auto simp: access_def Let_def split: if_splits)

lemma run_keeps_bandwidth:
  assumes "run_accesses fl bc accs = Inr (rs, bc')" "unat (bc_count bc) + length accs < unat (bc_window_size bc)"
  shows "bc_outputBW bc' = bc_outputBW bc"
  using assms
proof (induction accs arbitrary: bc rs)
  case (Cons a accs)
  obtain t wr where a: "a = (t, wr)" by (cases a)
  obtain r bc1 rs1 where s: "access fl t wr bc = Inr (r, bc1)" "run_accesses fl bc1 accs = Inr (rs1, bc')"
    using Cons.prems(1) by (cases wr) (auto simp: a got_a_read_req_call_def got_a_write_req_call_def split: prod.splits)
  have W: "unat (bc_window_size bc) < 2 ^ 32" using unsigned_less [of "bc_window_size bc", where ?'a = nat] by simp
  then have inc: "unat (bc_count bc + 1) = unat (bc_count bc) + 1" using Cons.prems(2) by (simp add: unat_word_ariths)
  then have "bc_count bc + 1 \<noteq> bc_window_size bc" using Cons.prems(2) by auto
  note k = access_keeps_bandwidth [OF s(1) this]
  then show ?case using Cons.IH [OF s(2)] Cons.prems(2) inc by simp
qed simp

lemma line_needs_bandwidth:
  "bc_outputBW (lc_model c) = None \<Longrightarrow> latmodel_line fl show c = Inl Undef"
  by (auto simp: latmodel_line_def getBandwidth_def Let_def div_res_def to_u64_def bindr_def split: sum.splits if_splits)

end
