(* ===== verification/Spec2Isabelle.thy ===== *)
theory Spec2Isabelle
  imports GF_Layout GF_Tail PLI_Image PLI_Mem BR_Spi PLI_Interrupt MM_Exchange MM_Stats MM_Latency
begin

text \<open>
  A verification library for the memory-image tools, the simulated memory, the I/O bridge, the distributed simulation,
  the latency model of the memory and the boot ROM of OpenPiton. Its largest part is \<open>goldfinger\<close>, the program that
  turns a linked ELF file and a description of its blocks into the memory image a simulation
  starts from, with the translation storage buffers (TSBs) the processor walks on a TLB miss.

  \<^bold>\<open>The program.\<close> \<open>goldfinger.c\<close> reads its options, splits a diag into sections (\<open>split.c\<close>) or
  reads a .goldfinger file: the yacc parser creates applications with blocks (\<open>app.c\<close>, \<open>block.c\<close>),
  TSBs (\<open>tsb.c\<close>) and link areas (\<open>tsb_link.c\<close>). Then every ELF file is read twice: once to bind
  linked sections and collect their symbols (\<open>linked_section.c\<close>, \<open>symtab.c\<close>), once to compute the
  range of each block and write its bytes. At last every page of every block is added to the TSBs
  the block names (\<open>block_tsb.c\<close>), and TSBs and link areas are written. Every region written is
  recorded in \<open>physmap.c\<close>, which stops the program when two of the recorded regions overlap. Collections are the
  growable arrays of \<open>vector.c\<close>; errors go through \<open>gf_error.c\<close>.

  \<^bold>\<open>The theories\<close>, in the order of the program's layers; file names are under
  \<open>src/piton/tools/src/goldfinger/\<close> unless a path is given:

  \<^item> \<open>GF_Prelude\<close>: results (\<open>Inl (Exit c)\<close> is \<open>gf_error\<close> or \<open>exit\<close>, \<open>Inl Undef\<close> is undefined
    behaviour of C), the bind of results and its rules, checked shifts, hexadecimal and decimal text.
  \<^item> \<open>GF_Error\<close>: \<open>gf_error.c\<close>, \<open>gf_error.h\<close>: codes and texts, \<open>log2\<close>, \<open>is_pow2\<close>, \<open>is_aligned\<close>.
  \<^item> \<open>GF_Vector\<close>: \<open>vector.c\<close>; the locale of a growable array and its interpretation on
    \<open>add_vector_elements\<close>.
  \<^item> \<open>GF_Symtab\<close>, \<open>GF_Physmap\<close>, \<open>GF_Linked_Section\<close>: the files of the same names.
  \<^item> \<open>GF_Chain\<close>: linked lists over an array of \<open>next\<close> indices, and the locale of a link area as
    the TSBs see it.
  \<^item> \<open>GF_Tsb_Link\<close>, \<open>GF_Tsb\<close>: \<open>tsb_link.c\<close>, \<open>tsb.c\<close>; the interpretation of the locale on
    \<open>start_new_chain\<close> and \<open>add_to_chain\<close>, and the buckets a TSB stands for. \<open>GF_Shared\<close>: several TSBs on
    one link area, and the buckets of a \<open>tsbcsm\<close> table.
  \<^item> \<open>GF_Image\<close>: the text of the image as items, its rendering, and the meaning of its lines (what a
    loader puts into memory). \<open>GF_Hardware\<close>: the table walk over such a memory.
  \<^item> \<open>GF_Block_Tsb\<close>, \<open>GF_Block\<close>, \<open>GF_App\<close>: \<open>block_tsb.c\<close>, \<open>block.c\<close>, \<open>app.c\<close>; the step relation
    of the parser's calls (\<open>app_step\<close>). \<open>GF_Tail\<close>: blocks that end in a partial line.
  \<^item> \<open>GF_Split\<close>, \<open>GF_Goldfinger\<close>: \<open>split.c\<close> and \<open>goldfinger.c\<close> up to \<open>main\<close>.
  \<^item> \<open>GF_Layout\<close>: every writer of the image against the physical map, up to the whole run (\<open>laid_out\<close>).

  \<^bold>\<open>How state corresponds.\<close> A C struct is a record with the source's members. A pointer to an
  element of a collection is its index; a pointer that may be NULL is an option. Global variables
  (the vectors, the open index, the physical map, the options) are arguments and results. Integers
  keep their width: \<open>uint64_t\<close> is \<open>64 word\<close> and wraps; an \<open>int\<close> that must not overflow is checked by
  \<open>int_ok\<close>. What is written to a file is the list of its items. \<open>malloc\<close>, the files, the parser and
  libelf are arguments: \<open>mem n\<close> tells whether \<open>n\<close> bytes can be had, \<open>gf_env\<close> holds the rest. \<open>mem\<close> is
  asked where \<open>vector.c\<close> and \<open>gf_malloc\<close> are modelled (vectors of symbols and regions, the tables of TSBs, image buffers); the
  vectors of objects the parser fills and of the nodes of a link area are lists, whose growth is taken to succeed, so
  their \<open>M_MEMORY\<close> exits are left out.

  \<^bold>\<open>What the lemmas show.\<close> The vector and chain lemmas show that the arrays and the lists refine
  lists; the TSB lemmas that insertion refines insertion into a multimap, for TSBs, \<open>tsbcsm\<close> tables and TSBs that
  share a link area, and the hardware lemmas
  that the walk over the written image reads that multimap back. The block lemmas show which words
  the pages get, that the image has the bytes of the section, and that ranges stay in the section;
  the physical-map lemmas that regions are disjoint, and the layout lemmas that every word of the image is in the region
  of its object when the addresses fit the PA size; the application lemmas that the parser's calls
  keep their invariant; the splitter lemmas that every line goes to exactly one side, where an \<open>APPLICATION\<close> line is cut
  behind the name, and that no file is shared. Where the
  code does not do what it means to, the property says what it does.

  \<^bold>\<open>Bounds and fuel.\<close> \<open>chase\<close> and \<open>hw_walk\<close> follow chains with the length of the array plus one
  as fuel; \<open>shared_area_keeps_tables_apart\<close> and \<open>add_entry_returns\<close> show that it is enough. Every other loop is
  structural or has a measure. Properties that need an address computation not to wrap say so
  (\<open>2^26\<close> nodes of a link area, \<open>2^59\<close> entries of a TSB, \<open>2^32\<close> or \<open>2^33\<close> bytes of a block).

  \<^bold>\<open>The reader of the image\<close> is the memory model of the simulator, under \<open>src/piton/tools/pli/iop/\<close>:

  \<^item> \<open>C_Stdio\<close>: \<open>fgets\<close> and the characters of the C library that both tools use.
  \<^item> \<open>PLI_B_Ary\<close>, \<open>PLI_B_Tree\<close>: \<open>b_ary.c\<close>, the B-tree of 64-byte lines, and its refinement of a sorted list of
    atoms; the locale of a store of lines and its interpretation.
  \<^item> \<open>PLI_Bw_Lib\<close>, \<open>PLI_Load\<close>: \<open>bw_lib.c\<close>, the loader, and what it reads from the pieces of \<open>GF_Image\<close>.
  \<^item> \<open>PLI_Iob\<close>: the reads and writes of \<open>iob_main.cc\<close>; the locale of a memory of words and its interpretation.
    A pointer to an atom is the key of the atom, since keys are unique in the tree.
  \<^item> \<open>PLI_Memory\<close>, \<open>PLI_Image\<close>: from an image file to the words read back, and goldfinger and loader together.
  \<^item> \<open>PLI_Mem\<close>: \<open>src/piton/tools/pli/mem/mem.c\<close>, the random filling of register files and the distance of
    their check bytes.

  \<^bold>\<open>The boot ROM\<close>, under \<open>src/piton/design/chipset/rv64_platform/bootrom/linux/src/\<close>: \<open>BR_Uart\<close> (\<open>uart.c\<close> and the
    bus of device registers), \<open>BR_Boot\<close> (\<open>sd.c\<close>, \<open>gpt.c\<close>, \<open>main.c\<close>), \<open>BR_Spi\<close> (\<open>spi.c\<close>). What a device answers is an argument;
    loops that wait for a device are \<open>partial_function (option)\<close>, and the properties that they end assume that the
    device becomes ready again and again.

  \<^bold>\<open>The I/O bridge\<close>, under \<open>src/piton/tools/pli/iop/\<close>, sends interrupts to the simulated processor:

  \<^item> \<open>PLI_Event\<close>: \<open>iob::get_event\<close> of \<open>iob.cc\<close> and its string routines; what a line of tokens is read as.
  \<^item> \<open>PLI_Bridge\<close>: the packets (\<open>pcx.*\<close>, \<open>cpx.*\<close>) and the other operations of \<open>iob.cc\<close>, in the DPI build.
  \<^item> \<open>PLI_Interrupt\<close>: the invariant \<open>bridge_ok\<close>, the abstraction \<open>pending\<close> to a queue of words, and the bound
    \<open>cycles_left\<close> of the cycles until the queue is empty. A \<open>cpx\<close> is an index into a store of objects, because the
    words of the last packet are read after it went back to the heap. \<open>rnd\<close> is what \<open>random\<close> answers, \<open>prev\<close> the
    character in front of a line buffer, \<open>pargs\<close> the plusarg \<open>bootthread\<close>.

  \<^bold>\<open>The distributed simulation\<close>, under \<open>src/piton/tools/verilator/\<close>: one process (rank) for the chipset, for every tile and
  for every memory controller, each with its part of the compiled design, exchanges channel values over MPI.

  \<^item> \<open>MM_Topology\<close>: which rank is connected to which (\<open>my_metro_tile.cpp\<close>, \<open>my_metro_chipset.cpp\<close>,
    \<open>my_metro_fake_mem.cpp\<close>); the connections are symmetric, and \<open>port_prio\<close> orders them so that waiting ends.
  \<^item> \<open>MM_Exchange\<close>: the steps of a rank in \<open>mpi_work_opt\<close> and \<open>mpi_tick\<close>, all interleavings as the step relation
    \<open>mpi_step\<close>, and the simulation in lock step it refines. The locale \<open>connections\<close> states what the exchange needs
    of the table of ports, \<open>exchange\<close> extends it by a design; both are interpreted on the grids of \<open>MM_Topology\<close>,
    for which the type \<open>mesh_grid\<close> holds the grids whose table of controllers fits. The design (\<open>noc_out\<close>, \<open>eval\<close>) is
    a parameter; MPI is a queue for every pair of ranks, as its messages do not overtake. \<open>MPI_Send\<close> may wait: a send
    is taken when fewer than \<open>cap\<close> messages of the pair are stored or when its receiver waits for it. Results and bounds
    hold for every \<open>cap\<close>, that the simulation goes on for every \<open>cap\<close> but 0, for which no rank moves.
  \<^item> \<open>MM_Harness\<close>: the arguments, the traps and the main loops with the reduction (\<open>metro_mpi.cpp\<close>). The first check
    is in turn 14001, then one every 2001 turns.
  \<^item> \<open>MM_Stats\<close>: the reports the ranks send to the chipset at the end, and the text it prints. \<open>percent\<close> is what
    \<open>printf\<close> makes of a quotient in single precision.
  \<^bold>\<open>The latency model of the memory\<close>, under \<open>src/piton/tools/pli/Realistic_lat/\<close>:

  \<^item> \<open>LAT_Control\<close>: the class of \<open>bw_lat_mem_ctrl.cc\<close> and the calls of \<open>lat.cc\<close>. A \<open>double\<close> is a rational number and
    \<open>fl\<close>, an argument, rounds the result of an operation. \<open>fl_ok\<close> says what is used of it: it is monotone, it keeps the
    multiples of 1/256 that fit a mantissa of 53 bits, rounding twice changes nothing, and two different numbers never have
    the difference zero. \<open>fl256_ok\<close> shows that a rounding can be so. The invariant \<open>model_ok\<close> bounds the estimates by the number of
    windows, since every window may add to the overflow factor; \<open>curve_ok\<close> is what it needs of a curve.
  \<^item> \<open>MM_Latency\<close>: the memory controllers of the distributed simulation send their requests to the chipset every 128
    cycles and get a latency back; \<open>ranks_at\<close> relates all ranks to the single model.
  \<^bold>\<open>Not modelled.\<close> The yacc grammar and the scanner (their calls are \<open>app_step\<close>), libelf, the
  debug printers, \<open>free\<close>, and \<open>csmtag2va\<close>, which only fills a message and reads bit ranges that no
  caller sets. Outside the tools modelled: the diags under \<open>verif/\<close>, headers that hold only
  constants or generated byte tables, the registration tables of the simulator interface, the perl
  extension of \<open>pal\<close>, and the hardware description itself, which is not C. Of the distributed simulation: the
  reset sequence, which sets pins of the compiled design, and the finish flag of the design. Of floating-point numbers:
  their range, infinities other than an infinite bandwidth, and how a curve file is parsed. \<open>my_top.cpp\<close> and \<open>my_cmp_top.cpp\<close> only clock a
  compiled design.
\<close>

lemma returns_ex: "\<not> isl x \<Longrightarrow> \<exists>r. x = Inr r"
  by (cases x) auto

section \<open>Translation storage buffers\<close>

lemma add_entries_frame:
  "add_entries allow ls t ps = Inr (ls', t') \<Longrightarrow>
     t_num_entries t' = t_num_entries t \<and> t_start_addr t' = t_start_addr t"
proof (induction ps arbitrary: ls t)
  case (Cons p ps)
  obtain ix tg d b bt where p: "p = (ix, tg, d, b, bt)" by (cases p)
  with Cons.prems obtain ls1 t1 where "add_entry allow ls t ix tg d b bt = Inr (ls1, t1)"
    and rest: "add_entries allow ls1 t1 ps = Inr (ls', t')"
    by (auto simp: add_entries_def bindr_Inr_iff)
  from this(1) have "t_num_entries t1 = t_num_entries t \<and> t_start_addr t1 = t_start_addr t"
    by (rule add_entry_cases) auto
  with Cons.IH [OF rest] show ?case by simp
qed (simp add: add_entries_def)

lemma alloc_exact: "unat n < 2 ^ 59 \<Longrightarrow> unat (n * 32 :: u64) div 32 = unat n"
  by (simp add: unat_word_ariths)

text \<open>C1: The hardware finds exactly what was added. Take a TSB as initialisation leaves it, with an
  empty, 32-byte aligned link area; add any sequence of translations to it, colliding or not; write
  the TSB and the area to the image and load the image into zeroed memory. Then a table walk that
  starts at the slot of index \<open>i\<close> and follows link slots through memory reads the pairs added at
  \<open>i\<close>, all of them, in the order they were added, and ends.\<close>

theorem hardware_finds_added_entries:
  assumes fin: "finish_single_tsb_init mem links t = Inr t0"
    and area: "t_link_ptr t0 = Some li" "li < length ls" "tl_entries (ls ! li) = []"
      "tl_start_addr (ls ! li) AND 31 = 0"
    and size: "even (unat (t_num_entries t))" "unat (t_num_entries t) < 2 ^ 59"
    and plain: "list_all (\<lambda>(_, tag, data, _). plain_pair tag data) ps"
    and add: "add_entries allow ls t0 ps = Inr (ls', t')"
    and image: "physmap_ok pm" "write_tsb mem' su ez pm t' = Inr (pm1, out1)"
      "write_tsb_link mem' pm1 (ls' ! li) = Inr (pm2, out2)"
    and i: "i < unat (t_num_entries t)"
  shows "mem_slot (Suc (length (tl_entries (ls' ! li)))) (memory_of (load_items 0 (out1 @ out2)))
           (t_start_addr t + of_nat (16 * i)) = Some (added_at ps i)"
proof -
  note fin' = finish_single_tsb_init_fields [OF fin]
  have a0: "area_ok (ls ! li)" by (rule init_area_ok [OF area(3)])
  note fresh = fresh_tsb [OF fin'(1) a0]
  have pl: "plain_pair tg d" if "(ix, tg, d, b, bt) \<in> set ps" for ix tg d b bt
    using plain that by (auto simp: list_all_iff)
  note spec = add_entries_spec [OF area(1,2) fresh(1,2) pl add] and frame = add_entries_frame [OF add]
  have n: "t_num_entries t' = t_num_entries t" "t_start_addr t' = t_start_addr t"
    "length (t_entries t') = unat (t_num_entries t')" "length (t_entries t0) = unat (t_num_entries t)"
    using frame fin'(2-4) spec size(2) by (simp_all add: alloc_exact)
  have "mem_slot (Suc (length (tl_entries (ls' ! li)))) (memory_of (load_items 0 (out1 @ out2)))
      (t_start_addr t' + of_nat (16 * i)) = Some (tsb_bucket (ls' ! li) (t_entries t' ! i))"
    by (rule image_walk [OF image(1) _ _ _ _ n(3) _ image(2,3)]) (use spec area(4) size n i in auto)
  moreover have "tsb_bucket (ls' ! li) (t_entries t' ! i) = tsb_buckets (ls' ! li) t' ! i"
    using i n by (simp add: tsb_buckets_def)
  moreover have "tsb_buckets (ls' ! li) t' ! i = added_at ps i"
    using spec fresh(3) i n by simp
  ultimately show ?thesis using n by simp
qed

definition demo_link :: tsb_link where
  "demo_link = init_tsb_link\<lparr>tl_name := ''ovf'', tl_start_addr := 0x2000\<rparr>"

definition demo_links :: link_vector_st where
  "demo_links = \<lparr>lv_vector = [demo_link], lv_open = NO_OPEN_TSB_LINK\<rparr>"

definition demo_tsb :: tsb where
  "demo_tsb = init_tsb\<lparr>t_name := ''tsb0'', t_num_entries := 4, t_start_addr := 0x1000,
                       t_link_area := Some ''ovf''\<rparr>"

definition demo_adds :: "addition list" where
  "demo_adds = [(1, 5, 7, (0, 0), (0, 0, 0)), (1, 6, 8, (0, 0), (0, 0, 0)), (2, 9, 9, (0, 0), (0, 0, 0))]"

definition demo_run :: "(tsb \<times> tsb_link list \<times> tsb \<times> physmap_t \<times> physmap_t \<times> physmap_t \<times> img_item list \<times> img_item list) res" where
  "demo_run = bindr (init_physmap (\<lambda>_. True)) (\<lambda>pm.
     bindr (finish_single_tsb_init (\<lambda>_. True) demo_links demo_tsb) (\<lambda>t0.
     bindr (add_entries True [demo_link] t0 demo_adds) (\<lambda>(ls', t').
     bindr (write_tsb (\<lambda>_. True) True True pm t') (\<lambda>(pm1, out1).
     bindr (write_tsb_link (\<lambda>_. True) pm1 (ls' ! 0)) (\<lambda>(pm2, out2).
       Inr (t0, ls', t', pm, pm1, pm2, out1, out2))))))"

lemma demo_run_returns: "\<not> isl demo_run"
  by code_simp

lemma demo_added: "added_at demo_adds 1 = [(5, 7), (6, 8)]"
  by code_simp

theorem hardware_finds_added_entries_witness:
  "\<exists>t0 ls' t' pm pm1 pm2 out1 out2. demo_run = Inr (t0, ls', t', pm, pm1, pm2, out1, out2) \<and>
     mem_slot (Suc (length (tl_entries (ls' ! 0)))) (memory_of (load_items 0 (out1 @ out2))) 0x1010 = Some [(5, 7), (6, 8)]"
proof -
  obtain r where r: "demo_run = Inr r" using returns_ex [OF demo_run_returns] by blast
  then obtain t0 ls' t' pm pm1 pm2 out1 out2 where
    pm: "init_physmap (\<lambda>_. True) = Inr pm" and
    fin: "finish_single_tsb_init (\<lambda>_. True) demo_links demo_tsb = Inr t0" and
    add: "add_entries True [demo_link] t0 demo_adds = Inr (ls', t')" and
    w1: "write_tsb (\<lambda>_. True) True True pm t' = Inr (pm1, out1)" and
    w2: "write_tsb_link (\<lambda>_. True) pm1 (ls' ! 0) = Inr (pm2, out2)" and
    eq: "r = (t0, ls', t', pm, pm1, pm2, out1, out2)"
    by (auto simp: demo_run_def bindr_Inr_iff)
  have "t_link_ptr t0 = Some 0"
    using finish_single_tsb_init_fields(5) [OF fin, of "''ovf''"]
    by (simp add: demo_tsb_def demo_links_def demo_link_def get_tsb_link_ptr_by_name_def)
  moreover have "physmap_ok pm" using init_physmap_ok [OF pm] by simp
  moreover have "list_all (\<lambda>(_, tag, data, _). plain_pair tag data) demo_adds" by code_simp
  ultimately have m: "mem_slot (Suc (length (tl_entries (ls' ! 0)))) (memory_of (load_items 0 (out1 @ out2)))
      (t_start_addr demo_tsb + of_nat (16 * 1)) = Some (added_at demo_adds 1)"
    using fin add w1 w2
    by (intro hardware_finds_added_entries [of "\<lambda>_. True" demo_links demo_tsb t0 0 "[demo_link]"])
      (simp_all add: demo_link_def demo_tsb_def init_tsb_link_def)
  have "t_start_addr demo_tsb + of_nat (16 * 1) = 0x1010" by (simp add: demo_tsb_def)
  from m [unfolded this demo_added] r [unfolded eq] show ?thesis by blast
qed

text \<open>C2: Adding a pair refines insertion into a multimap. When \<open>add_entry\<close> returns, the bucket of the
  index has the pair at its end and every other bucket of the TSB is as before; only the TSB's own
  link area changed, and the TSB still satisfies its invariant.\<close>

theorem add_entry_refines_multimap:
  assumes "t_link_ptr t = Some li" "li < length ls" "tsb_ok (ls ! li) t" "plain_pair tag data"
    and "add_entry allow ls t index tag data b bt = Inr (ls', t')"
  shows "tsb_ok (ls' ! li) t' \<and> ls' = ls[li := ls' ! li] \<and>
    tsb_buckets (ls' ! li) t' = (tsb_buckets (ls ! li) t)
      [unat index := tsb_buckets (ls ! li) t ! unat index @ [(tag, data)]]"
  using add_entry_spec [OF assms] by simp

definition full_tsb :: tsb where
  "full_tsb = demo_tsb\<lparr>t_link_ptr := Some 0,
     t_entries := [zero_tsb_entry, \<lparr>te_tag = 5, te_data = 7, te_block = Some (0, 0), te_block_tsb = Some (0, 0, 0)\<rparr>,
                   zero_tsb_entry, zero_tsb_entry]\<rparr>"

lemma full_tsb_ok: "tsb_ok demo_link full_tsb"
proof -
  have "te_tag e \<noteq> TSB_LINK_TAG" if "e \<in> set (t_entries full_tsb)" for e
    using that by (auto simp: full_tsb_def zero_tsb_entry_def TSB_LINK_TAG_def)
  moreover have "area_ok demo_link" by (rule init_area_ok) (simp add: demo_link_def init_tsb_link_def)
  ultimately show ?thesis by (auto simp: tsb_ok_def)
qed

lemma full_tsb_add: "\<not> isl (add_entry True [demo_link] full_tsb 1 6 8 (0, 1) (0, 1, 0))"
  by code_simp

lemma full_tsb_buckets: "tsb_buckets demo_link full_tsb = [[], [(5, 7)], [], []]"
  by code_simp

theorem add_entry_refines_multimap_witness:
  "\<exists>ls' t'. add_entry True [demo_link] full_tsb 1 6 8 (0, 1) (0, 1, 0) = Inr (ls', t') \<and>
     tsb_buckets (ls' ! 0) t' = [[], [(5, 7), (6, 8)], [], []]"
proof -
  obtain ls' t' where add: "add_entry True [demo_link] full_tsb 1 6 8 (0, 1) (0, 1, 0) = Inr (ls', t')"
    using returns_ex [OF full_tsb_add] by auto
  have "plain_pair 6 8" by code_simp
  then have "tsb_buckets (ls' ! 0) t' = (tsb_buckets ([demo_link] ! 0) full_tsb)
      [unat (1 :: u64) := tsb_buckets ([demo_link] ! 0) full_tsb ! unat (1 :: u64) @ [(6, 8)]]"
    using add_entry_refines_multimap [of full_tsb 0 "[demo_link]" 6 8 True 1 "(0, 1)" "(0, 1, 0)" ls' t'] add full_tsb_ok
    by (simp add: full_tsb_def)
  with add show ?thesis by (simp add: full_tsb_buckets)
qed



text \<open>C4: A \<open>tsbcsm\<close> table is a multimap from indices to (tag, clump number) pairs. When
  \<open>add_entry_csm\<close> returns, the bucket of the index has the pair at its end and every other bucket
  is as before, whether the slot was free, held one entry or was a link already; only the
  table's own link area changed, and table and area still satisfy the invariant.\<close>

theorem add_entry_csm_refines_multimap:
  assumes "t_link_ptr t = Some li" "li < length ls" "csm_ok (ls ! li) t" "plain_pair tag data"
    and "add_entry_csm allow ls t index tag data clump_num b bt = Inr (ls', t')"
  shows "csm_ok (ls' ! li) t' \<and> ls' = ls[li := ls' ! li] \<and>
    csm_buckets (ls' ! li) t' = (csm_buckets (ls ! li) t)
      [unat index := csm_buckets (ls ! li) t ! unat index @ [(tag, clump_num)]]"
  using add_entry_csm_spec [OF assms] by simp

definition full_csm :: tsbcsm where
  "full_csm = init_tsbcsm\<lparr>t_name := ''csm0'', t_num_entries := 2, t_start_addr := 0x1000, t_link_ptr := Some 0,
     t_entries := [zero_tsbcsm_entry, \<lparr>ce_tag = 5, ce_data = 7, ce_clump_num = 3, ce_block = Some (0, 0),
                                       ce_block_tsb = Some (0, 0, 0)\<rparr>]\<rparr>"

lemma full_csm_ok: "csm_ok demo_link full_csm"
proof -
  have "ce_tag e \<noteq> TSB_LINK_TAG" if "e \<in> set (t_entries full_csm)" for e
    using that by (auto simp: full_csm_def zero_tsbcsm_entry_def TSB_LINK_TAG_def)
  moreover have "area_ok demo_link" by (rule init_area_ok) (simp add: demo_link_def init_tsb_link_def)
  ultimately show ?thesis by (auto simp: csm_ok_def)
qed

lemma full_csm_add: "\<not> isl (add_entry_csm True [demo_link] full_csm 1 6 8 4 (0, 1) (0, 1, 0))"
  by code_simp

lemma full_csm_buckets: "csm_buckets demo_link full_csm = [[], [(5, 3)]]"
  by code_simp

theorem add_entry_csm_refines_multimap_witness:
  "\<exists>ls' t'. add_entry_csm True [demo_link] full_csm 1 6 8 4 (0, 1) (0, 1, 0) = Inr (ls', t') \<and>
     csm_buckets (ls' ! 0) t' = [[], [(5, 3), (6, 4)]]"
proof -
  obtain ls' t' where add: "add_entry_csm True [demo_link] full_csm 1 6 8 4 (0, 1) (0, 1, 0) = Inr (ls', t')"
    using returns_ex [OF full_csm_add] by auto
  have "plain_pair 6 8" by code_simp
  then have "csm_buckets (ls' ! 0) t' = (csm_buckets ([demo_link] ! 0) full_csm)
      [unat (1 :: u64) := csm_buckets ([demo_link] ! 0) full_csm ! unat (1 :: u64) @ [(6, 4)]]"
    using add_entry_csm_refines_multimap [of full_csm 0 "[demo_link]" 6 8 True 1 4 "(0, 1)" "(0, 1, 0)" ls' t'] add full_csm_ok
    by (simp add: full_csm_def)
  with add show ?thesis by (simp add: full_csm_buckets)
qed

text \<open>C5: Tables that share a link area do not disturb one another. Take the TSBs of the program as
  initialisation leaves them, all on one empty, 32-byte aligned link area; add any sequence of
  translations, each to any of the TSBs, so that their chains grow in turns in the one array of
  nodes. Then following the \<open>link\<close> addresses from slot \<open>i\<close> of TSB \<open>n\<close> ends and reads
  exactly the pairs added to that TSB at that index, in the order they were added.\<close>

theorem shared_area_keeps_tables_apart:
  assumes "finish_tsb_init mem links tv = Inr tv0"
    and "list_all (\<lambda>t. t_link_ptr t = Some li) (tv_vector tv0)" "li < length ls"
    and "tl_entries (ls ! li) = []" "tl_start_addr (ls ! li) AND 31 = 0"
    and "list_all (\<lambda>(n, _, tag, data, _). plain_pair tag data) ads"
    and "add_shared allow ls (tv_vector tv0) ads = Inr (ls', ts')"
    and "n < length ts'" "i < length (t_entries (ts' ! n))"
  shows "hw_slot (Suc (length (tl_entries (ls' ! li)))) (ls' ! li) (t_entries (ts' ! n) ! i) =
     Some (added_at (added_to ads n) i)"
  by (rule shared_walk [OF assms])

definition demo_two_tsbs :: "tsb_entry tsb_vector_st" where
  "demo_two_tsbs = \<lparr>tv_vector = [demo_tsb, demo_tsb\<lparr>t_name := ''tsb1'', t_start_addr := 0x1800\<rparr>], tv_open = NO_OPEN_TSB\<rparr>"

definition demo_shared_adds :: "(nat \<times> addition) list" where
  "demo_shared_adds = [(0, 1, 5, 7, (0, 0), (0, 0, 0)), (1, 1, 15, 17, (0, 0), (0, 0, 0)), (1, 1, 16, 18, (0, 0), (0, 0, 0)),
     (0, 1, 6, 8, (0, 0), (0, 0, 0)), (1, 1, 19, 20, (0, 0), (0, 0, 0))]"

definition demo_shared :: "(tsb_entry tsb_vector_st \<times> tsb_link list \<times> tsb list) res" where
  "demo_shared = bindr (finish_tsb_init (\<lambda>_. True) demo_links demo_two_tsbs) (\<lambda>tv0.
     bindr (add_shared True [demo_link] (tv_vector tv0) demo_shared_adds) (\<lambda>(ls', ts'). Inr (tv0, ls', ts')))"

lemma demo_shared_returns: "case demo_shared of Inl _ \<Rightarrow> False
    | Inr (tv0, ls', ts') \<Rightarrow> list_all (\<lambda>t. t_link_ptr t = Some 0) (tv_vector tv0) \<and> length ts' = 2 \<and>
        length (t_entries (ts' ! 1)) = 4"
  by code_simp

lemma demo_shared_plain: "list_all (\<lambda>(n, _, tag, data, _). plain_pair tag data) demo_shared_adds"
  by code_simp

lemma demo_shared_added: "added_at (added_to demo_shared_adds 1) 1 = [(15, 17), (16, 18), (19, 20)]"
  by code_simp

theorem shared_area_keeps_tables_apart_witness:
  "\<exists>tv0 ls' ts'. demo_shared = Inr (tv0, ls', ts') \<and>
     hw_slot (Suc (length (tl_entries (ls' ! 0)))) (ls' ! 0) (t_entries (ts' ! 1) ! 1) =
       Some [(15, 17), (16, 18), (19, 20)]"
proof -
  obtain tv0 ls' ts' where r: "demo_shared = Inr (tv0, ls', ts')" and lp: "list_all (\<lambda>t. t_link_ptr t = Some 0) (tv_vector tv0)"
    and len: "length ts' = 2" "length (t_entries (ts' ! 1)) = 4"
    using demo_shared_returns by (auto split: sum.splits)
  from r have fin: "finish_tsb_init (\<lambda>_. True) demo_links demo_two_tsbs = Inr tv0"
    and add: "add_shared True [demo_link] (tv_vector tv0) demo_shared_adds = Inr (ls', ts')"
    by (auto simp: demo_shared_def bindr_Inr_iff)
  have "hw_slot (Suc (length (tl_entries (ls' ! 0)))) (ls' ! 0) (t_entries (ts' ! 1) ! 1) =
      Some (added_at (added_to demo_shared_adds 1) 1)"
    by (rule shared_area_keeps_tables_apart [OF fin lp _ _ _ demo_shared_plain add])
      (simp_all add: len [unfolded One_nat_def] demo_link_def init_tsb_link_def)
  with r show ?thesis unfolding demo_shared_added by blast
qed

section \<open>Blocks in TSBs\<close>

text \<open>C6: Adding a block to a TSB adds exactly its pages. When \<open>add_block_tsb_to_tsb\<close> returns, the bucket of
  every index has been extended by the (tag, data) pairs of the block's pages with that index, in
  page order, and by nothing else.\<close>

theorem block_adds_its_pages:
  assumes li: "t_link_ptr tsb = Some li" "li < length ls" and ok: "tsb_ok (ls ! li) tsb"
    and ctx: "page_context block bt (get_tsb_size_bits tsb) = Inr c"
    and plain: "list_all (page_plain bt c) [0..<unat (pc_num_pages c)]"
    and add: "add_block_tsb_to_tsb allow bref btref block bt ls tsb = Inr (ls', tsb')"
  shows "tsb_ok (ls' ! li) tsb' \<and> (\<forall>i < length (t_entries tsb).
      tsb_buckets (ls' ! li) tsb' ! i =
        tsb_buckets (ls ! li) tsb ! i @ pairs_at bt c [0..<unat (pc_num_pages c)] i)"
proof -
  from plain have "\<And>p. p \<in> set [0..<unat (pc_num_pages c)] \<Longrightarrow> page_plain bt c p" by (simp add: list_all_iff)
  from add_pages_spec [OF li ok this add [unfolded add_block_tsb_to_tsb_def ctx bindr_simps(2)]]
  show ?thesis by simp
qed

definition demo_block_tsb :: block_tsb where
  "demo_block_tsb = init_block_tsb\<lparr>bt_name := ''tsb0'', bt_tsb := Some 0, bt_page_size := 0x2000,
     bt_va_index_bits := \<lparr>br_hi = 14, br_lo = 13\<rparr>, bt_tag_addr_bits := \<lparr>br_hi = 41, br_lo = 0\<rparr>,
     bt_tte_tag_addr_bits := \<lparr>br_hi = 63, br_lo = 22\<rparr>, bt_data_addr_bits := \<lparr>br_hi = 39, br_lo = 13\<rparr>,
     bt_tag_base := 0, bt_data_base := 0x8000000000000000\<rparr>"

definition demo_block :: block where
  "demo_block = (init_block 0)\<lparr>b_name := ''text'', b_va := 0x400000, b_ra := 0x10000, b_pa := 0x10000,
     b_d_length := 0x4001, b_tsbs := [demo_block_tsb]\<rparr>"

definition demo_fresh_tsb :: tsb where
  "demo_fresh_tsb = demo_tsb\<lparr>t_link_ptr := Some 0, t_entries := replicate 4 zero_tsb_entry\<rparr>"

definition demo_ctx :: page_ctx where
  "demo_ctx = \<lparr>pc_index_mask = 3, pc_index_shift = 13, pc_tag_mask = mask 42,
     pc_tte_tag_mask = push_bit 22 (mask 42), pc_data_mask = push_bit 13 (mask 27), pc_page_size_log = 13,
     pc_num_pages = 3, pc_aligned_start = 0x400000, pc_aligned_start_ra = 0x10000\<rparr>"

lemma demo_ctx: "page_context demo_block demo_block_tsb (get_tsb_size_bits demo_fresh_tsb) = Inr demo_ctx"
  by code_simp

lemma demo_pages: "list_all (page_plain demo_block_tsb demo_ctx) [0..<unat (pc_num_pages demo_ctx)] \<and>
    pairs_at demo_block_tsb demo_ctx [0..<unat (pc_num_pages demo_ctx)] 2 = [(1, 0x8000000000014000)]"
  by code_simp

lemma demo_fresh_tsb_ok: "tsb_ok demo_link demo_fresh_tsb"
  "tsb_buckets demo_link demo_fresh_tsb = replicate 4 []"
proof -
  have "area_ok demo_link" by (rule init_area_ok) (simp add: demo_link_def init_tsb_link_def)
  then show "tsb_ok demo_link demo_fresh_tsb" "tsb_buckets demo_link demo_fresh_tsb = replicate 4 []"
    using fresh_tsb [of demo_fresh_tsb demo_link] by (simp_all add: demo_fresh_tsb_def)
qed

lemma demo_block_add: "\<not> isl (add_block_tsb_to_tsb True (0, 0) (0, 0, 0) demo_block demo_block_tsb [demo_link] demo_fresh_tsb)"
  by code_simp

theorem block_adds_its_pages_witness:
  "\<exists>ls' tsb'. add_block_tsb_to_tsb True (0, 0) (0, 0, 0) demo_block demo_block_tsb [demo_link] demo_fresh_tsb = Inr (ls', tsb') \<and>
     tsb_buckets (ls' ! 0) tsb' ! 2 = [(1, 0x8000000000014000)]"
proof -
  obtain ls' tsb' where add: "add_block_tsb_to_tsb True (0, 0) (0, 0, 0) demo_block demo_block_tsb [demo_link] demo_fresh_tsb = Inr (ls', tsb')"
    using returns_ex [OF demo_block_add] by auto
  have "tsb_ok (ls' ! 0) tsb' \<and> (\<forall>i < length (t_entries demo_fresh_tsb).
      tsb_buckets (ls' ! 0) tsb' ! i =
        tsb_buckets ([demo_link] ! 0) demo_fresh_tsb ! i @
        pairs_at demo_block_tsb demo_ctx [0..<unat (pc_num_pages demo_ctx)] i)"
    by (rule block_adds_its_pages [OF _ _ _ demo_ctx _ add])
      (use demo_fresh_tsb_ok demo_pages in \<open>simp_all add: demo_fresh_tsb_def\<close>)
  then have "tsb_buckets (ls' ! 0) tsb' ! 2 = tsb_buckets demo_link demo_fresh_tsb ! 2 @
        pairs_at demo_block_tsb demo_ctx [0..<unat (pc_num_pages demo_ctx)] 2"
    by (simp add: demo_fresh_tsb_def)
  with add demo_pages demo_fresh_tsb_ok(2) show ?thesis by simp
qed

text \<open>C7: The words of one page, bit by bit. The index is the page's virtual address between the index
  bits (the high end moved by the size of the TSB); the data word takes the data bits from the real
  address and the rest from the base; the tag takes the tag bits from the virtual address, moved
  from the position of the \<open>tte\<close> tag, and the rest from its base.\<close>

theorem page_words:
  assumes ctx: "page_context block bt size' = Inr c" and pe: "page_entry bt c p = Inr (index, tag, data)"
    and n: "n < 64"
  defines "va \<equiv> pc_aligned_start c + push_bit (unat (pc_page_size_log c)) p"
    and "ra \<equiv> pc_aligned_start_ra c + push_bit (unat (pc_page_size_log c)) p"
    and "k \<equiv> n - nat (br_lo (bt_tag_addr_bits bt)) + nat (br_lo (bt_tte_tag_addr_bits bt))"
  shows "unat index = unat va div 2 ^ nat (br_lo (bt_va_index_bits bt))
            mod 2 ^ nat (br_hi (bt_va_index_bits bt) + uint size' - br_lo (bt_va_index_bits bt) + 1) \<and>
    bit data n = (if in_range (bt_data_addr_bits bt) n then bit ra n else bit (bt_data_base bt) n) \<and>
    bit tag n = (if in_range (bt_tag_addr_bits bt) n
                 then in_range (bt_tte_tag_addr_bits bt) k \<and> bit va k else bit (bt_tag_base bt) n)"
  using page_entry_bits(1) [OF ctx pe] page_entry_bits(2,3) [OF ctx pe n]
  unfolding va_def ra_def k_def by blast

lemma demo_page: "page_entry demo_block_tsb demo_ctx 2 = Inr (2, 1, 0x8000000000014000)"
  by code_simp

theorem page_words_witness:
  "unat (2 :: u64) = 0x404000 div 2 ^ 13 mod 2 ^ 2 \<and> bit (0x8000000000014000 :: u64) 14 \<and> bit (1 :: u64) 0"
proof -
  have va: "pc_aligned_start demo_ctx + push_bit (unat (pc_page_size_log demo_ctx)) 2 = 0x404000"
    "pc_aligned_start_ra demo_ctx + push_bit (unat (pc_page_size_log demo_ctx)) 2 = 0x14000"
    by code_simp+
  have b: "bit (0x404000 :: u64) 22" "bit (0x14000 :: u64) 14" by code_simp+
  from page_words [OF demo_ctx demo_page, of 0] page_words [OF demo_ctx demo_page, of 14] b
  show ?thesis
    unfolding va by (simp add: demo_block_tsb_def in_range_def demo_fresh_tsb_def demo_tsb_def get_tsb_size_bits_def init_tsb_def)
qed

text \<open>A block of \<open>L\<close> bytes has as many pages as \<open>L\<close> bytes need: \<open>L\<close> divided by the page
  size, rounded up.\<close>

theorem block_page_count:
  assumes "page_context block bt size' = Inr c" "bt_page_size bt = 2 ^ k" "k < 64"
    and "unat (b_d_length block) \<le> 2 ^ 64 - 2 ^ k"
  shows "unat (pc_num_pages c) = (unat (b_d_length block) + 2 ^ k - 1) div 2 ^ k"
  by (rule num_pages_eq [OF assms])

theorem block_page_count_witness: "unat (pc_num_pages demo_ctx) = (0x4001 + 2 ^ 13 - 1) div 2 ^ 13"
  using block_page_count [OF demo_ctx, of 13] by (simp add: demo_block_tsb_def demo_block_def)

text \<open>What a \<open>block_tsb\<close> that passes its check satisfies: all four bit ranges are set and lie in 0
  to 63, tag and data bases are set, the page size is a power of two below \<open>2^31\<close>, and the
  block's addresses that are set are multiples of it.\<close>

theorem checked_block_tsb:
  assumes "sanity_check_block_tsb block bt = Inr ()"
  shows "bits_ok (bt_va_index_bits bt) \<and> bits_ok (bt_tag_addr_bits bt) \<and>
    bits_ok (bt_tte_tag_addr_bits bt) \<and> bits_ok (bt_data_addr_bits bt) \<and>
    bt_tag_base bt \<noteq> NO_ADDR \<and> bt_data_base bt \<noteq> NO_ADDR \<and>
    (\<exists>k<31. bt_page_size bt = 2 ^ k \<and>
       (\<forall>a \<in> {b_ra block, b_va block, b_pa block}. a \<noteq> NO_ADDR \<longrightarrow> 2 ^ k dvd unat a))"
  by (rule sanity_check_block_tsb_ok [OF assms])

theorem checked_block_tsb_witness: "\<exists>k<31. bt_page_size demo_block_tsb = 2 ^ k \<and> 2 ^ k dvd unat (b_va demo_block)"
proof -
  have "sanity_check_block_tsb demo_block demo_block_tsb = Inr ()" by code_simp
  moreover have "b_va demo_block \<noteq> NO_ADDR" by (simp add: demo_block_def NO_ADDR_def)
  ultimately show ?thesis using checked_block_tsb [of demo_block demo_block_tsb] by blast
qed

section \<open>The memory image\<close>

text \<open>C8: The image is exact. Load the image of a block whose length is a multiple of 32 bytes into zeroed
  memory: every 64-bit word at the block's physical addresses is the big-endian reading of the eight
  bytes of the section at the block's offset, whether zero lines were compressed or not, and with or
  without environment zeroing.\<close>

theorem block_image_exact:
  assumes "block_generate_image mem little pa_size compress_on env_zero pm b scn = Inr (pm', out)"
    and "b_in_image b \<noteq> 0" and "pa_mask pa_size = Inr mk" and "b_pa b AND mk = b_pa b"
    and "unat (b_d_offset b) = 4 * base" and "unat (b_d_length b) = 32 * m"
    and "unat (b_d_offset b) + unat (b_d_length b) \<le> length (image_buf scn b)"
    and "unat (b_d_length b) < 2 ^ 33" and "8 * j < unat (b_d_length b)"
  shows "memory_of (load_items a out) (b_pa b + of_nat (8 * j)) =
    be64 (image_buf scn b) (unat (b_d_offset b) + 8 * j)"
  by (rule block_image_memory [OF assms])

definition demo_scn :: elf_scn where
  "demo_scn = \<lparr>sc_ndx = 1, sc_type = SHT_PROGBITS, sc_name = Some ''.text'', sc_addr = 0x400000, sc_size = 96,
     sc_entsize = 0, sc_buf = map word_of_nat [1..<33] @ replicate 32 0 @ map word_of_nat [65..<97], sc_syms = []\<rparr>"

definition demo_image_block :: block where
  "demo_image_block = demo_block\<lparr>b_compress := 1, b_d_length := 96\<rparr>"

definition demo_image :: "bool \<Rightarrow> (physmap_t \<times> img_item list) res" where
  "demo_image little = bindr (init_physmap (\<lambda>_. True)) (\<lambda>pm.
     block_generate_image (\<lambda>_. True) little 40 True True pm demo_image_block demo_scn)"

lemma demo_image_returns: "\<not> isl (demo_image True)"
  by code_simp

lemma demo_pa_mask: "pa_mask 40 = Inr 0xffffffffff \<and> b_pa demo_image_block AND 0xffffffffff = b_pa demo_image_block"
  by code_simp

theorem block_image_exact_witness:
  "\<exists>pm out. demo_image True = Inr (pm, out) \<and> memory_of (load_items 0 out) 0x10048 = 0x494a4b4c4d4e4f50"
proof -
  obtain pm out where r: "demo_image True = Inr (pm, out)" using returns_ex [OF demo_image_returns] by auto
  then obtain pm0 where gen: "block_generate_image (\<lambda>_. True) True 40 True True pm0 demo_image_block demo_scn = Inr (pm, out)"
    by (auto simp: demo_image_def bindr_Inr_iff)
  have "memory_of (load_items 0 out) (b_pa demo_image_block + of_nat (8 * 9)) =
      be64 (image_buf demo_scn demo_image_block) (unat (b_d_offset demo_image_block) + 8 * 9)"
    by (rule block_image_exact [OF gen _ conjunct1 [OF demo_pa_mask] conjunct2 [OF demo_pa_mask], of 0 3])
      (simp_all add: demo_image_block_def demo_block_def init_block_def image_buf_def demo_scn_def SHT_NOBITS_def SHT_PROGBITS_def)
  moreover have "b_pa demo_image_block + of_nat (8 * 9) = 0x10048" by (simp add: demo_image_block_def demo_block_def)
  moreover have "be64 (image_buf demo_scn demo_image_block) (unat (b_d_offset demo_image_block) + 8 * 9) = 0x494a4b4c4d4e4f50"
    by code_simp
  ultimately show ?thesis using r by auto
qed

text \<open>The image does not depend on the byte order of the host: with the swap compiled in exactly on
  little-endian hosts, both give the same file and the same physical map, for every block.\<close>

theorem image_host_independent:
  "block_generate_image mem True pa_size compress_on env_zero pm b scn =
   block_generate_image mem False pa_size compress_on env_zero pm b scn"
proof -
  have "gen_lines \<lparr>g_little = True, g_buf = buf, g_base = ba, g_words = w, g_compress = cp, g_env_zero = ez, g_start_pa = pa\<rparr> i s =
        gen_lines \<lparr>g_little = False, g_buf = buf, g_base = ba, g_words = w, g_compress = cp, g_env_zero = ez, g_start_pa = pa\<rparr> i s"
    for buf ba w cp ez pa i s
    using gen_lines_endian [where c = "\<lparr>g_little = True, g_buf = buf, g_base = ba, g_words = w, g_compress = cp,
        g_env_zero = ez, g_start_pa = pa\<rparr>" and b = True and b' = False and i = i and s = s] by simp
  then show ?thesis by (simp add: block_generate_image_def Let_def)
qed

text \<open>C9: Where the end of a compressed block goes. Let the block be any whose length, in 32-bit words,
  is not a multiple of a line: \<open>m\<close> full lines and \<open>r\<close> more words. Let the full lines from \<open>k\<close> on
  be zero, and the line before them, if there is one, not. Then the file places the non-zero ones of the first
  \<open>k\<close> lines at their addresses, and after them the words of the partial line at \<open>b_pa + 32 * k\<close>, right
  behind line \<open>k - 1\<close>. The place of the partial line is \<open>b_pa + 32 * m\<close>, so it is misplaced
  whenever a run of zero lines precedes it (\<open>k < m\<close>): the run is compressed, but for a partial line
  \<open>zero_line\<close> is not computed and no address line ends the run.\<close>

theorem partial_line_after_run_misplaced:
  assumes "block_generate_image mem little pa_size True env_zero pm b scn = Inr (pm', out)"
    and "b_in_image b \<noteq> 0" and "b_compress b \<noteq> 0" and "pa_mask pa_size = Inr mk" "b_pa b AND mk = b_pa b"
    and "unat (b_d_offset b) = 4 * base" and "unat (b_d_length b) div 4 = 8 * m + r" "0 < r" "r < 8"
    and "4 * (base + 8 * m + r) \<le> length (image_buf scn b)" and "unat (b_d_length b) < 2 ^ 32"
    and "k \<le> m" and "list_all (\<lambda>i. zero_run (image_buf scn b) (base + 8 * i) 8) [k..<m]"
    and "k = 0 \<or> \<not> zero_run (image_buf scn b) (base + 8 * (k - 1)) 8"
  shows "load_items a out =
    map (\<lambda>j. (b_pa b + of_nat (8 * j), be64 (image_buf scn b) (4 * base + 8 * j)))
      (filter (\<lambda>j. \<not> zero_run (image_buf scn b) (base + 8 * (j div 4)) 8) [0 ..< 4 * k]) @
    place (b_pa b + of_nat (32 * k)) (map word_pair (tail_pairs (image_buf scn b) (base + 8 * m) r))"
  using assms(13) by (intro block_image_tail [OF assms(1-12) _ assms(14)]) (simp add: list_all_iff)

definition demo_tail_block :: block where
  "demo_tail_block = demo_block\<lparr>b_compress := 1, b_d_length := 72\<rparr>"

definition demo_tail :: "(physmap_t \<times> img_item list) res" where
  "demo_tail = bindr (init_physmap (\<lambda>_. True)) (\<lambda>pm.
     block_generate_image (\<lambda>_. True) True 40 True True pm demo_tail_block demo_scn)"

lemma demo_tail_returns: "\<not> isl demo_tail"
  by code_simp

lemma demo_tail_pa: "pa_mask 40 = Inr 0xffffffffff \<and> b_pa demo_tail_block AND 0xffffffffff = b_pa demo_tail_block"
  by code_simp

text \<open>The zero tests of a line, as a computation.\<close>

lemma zero_run_all: "zero_run buf j n \<longleftrightarrow> list_all (\<lambda>t. be32 buf (j + t) = 0) [0..<n]"
  by (auto simp: zero_run_def list_all_iff)

lemma demo_tail_lines: "list_all (\<lambda>i. zero_run (image_buf demo_scn demo_tail_block) (0 + 8 * i) 8) [1..<2] \<and>
    \<not> zero_run (image_buf demo_scn demo_tail_block) (0 + 8 * (1 - 1)) 8"
  unfolding zero_run_all by code_simp

lemma demo_tail_words: "place (b_pa demo_tail_block + of_nat (32 * 1)) (map word_pair (tail_pairs (image_buf demo_scn demo_tail_block) (0 + 8 * 2) 2))
    = [(0x10020, 0x4142434445464748)]"
  by code_simp

theorem partial_line_after_run_misplaced_witness:
  "\<exists>pm out. demo_tail = Inr (pm, out) \<and> last (load_items 0 out) = (0x10020, 0x4142434445464748)"
proof -
  obtain pm out where r: "demo_tail = Inr (pm, out)" using returns_ex [OF demo_tail_returns] by auto
  then obtain pm0 where gen: "block_generate_image (\<lambda>_. True) True 40 True True pm0 demo_tail_block demo_scn = Inr (pm, out)"
    by (auto simp: demo_tail_def bindr_Inr_iff)
  have "load_items 0 out =
    map (\<lambda>j. (b_pa demo_tail_block + of_nat (8 * j), be64 (image_buf demo_scn demo_tail_block) (4 * 0 + 8 * j)))
      (filter (\<lambda>j. \<not> zero_run (image_buf demo_scn demo_tail_block) (0 + 8 * (j div 4)) 8) [0 ..< 4 * 1]) @
    place (b_pa demo_tail_block + of_nat (32 * 1)) (map word_pair (tail_pairs (image_buf demo_scn demo_tail_block) (0 + 8 * 2) 2))"
    by (rule partial_line_after_run_misplaced [OF gen _ _ conjunct1 [OF demo_tail_pa] conjunct2 [OF demo_tail_pa]
          _ _ _ _ _ _ _ conjunct1 [OF demo_tail_lines] disjI2 [OF conjunct2 [OF demo_tail_lines]]])
      (simp_all add: demo_tail_block_def demo_block_def init_block_def image_buf_def demo_scn_def SHT_NOBITS_def SHT_PROGBITS_def)
  then have "last (load_items 0 out) = (0x10020, 0x4142434445464748)" unfolding demo_tail_words by simp
  with r show ?thesis by blast
qed

text \<open>C10: Nothing overlaps in the image. Take any run of the program on a .goldfinger file that ends normally, and let
  every region of its physical map start inside the physical address space (no bit above the PA size
  the parser set). Then the regions are pairwise disjoint and the words of the image file fall into groups \<open>wss\<close>, one for each
  region in the order the objects were written, each word at an address inside the region of its group. So when
  the file is loaded, what a region holds is what its own object wrote: no block, TSB or link area
  overwrites a word of another.\<close>

theorem image_words_in_own_region:
  assumes "process_goldfinger_file env c = Inr r"
    and "\<forall>t p q n. e_yyparse env t p = Inr (q, n) \<longrightarrow> n = pa_size" and "pa_mask pa_size = Inr mk"
    and "list_all (\<lambda>e. pm_start e AND mk = pm_start e) (vec_list (r_physmap r))"
  shows "(\<forall>i j. i < j \<longrightarrow> j < length (vec_list (r_physmap r)) \<longrightarrow>
       region (vec_list (r_physmap r) ! i) \<inter> region (vec_list (r_physmap r) ! j) = {}) \<and>
     (\<exists>wss. load_items 0 (r_image r) = concat wss \<and>
       list_all2 (\<lambda>e ws. \<forall>(b, w) \<in> set ws. unat b \<in> region e) (vec_list (r_physmap r)) wss \<and>
       (\<forall>i < length (vec_list (r_physmap r)). \<forall>b. unat b \<in> region (vec_list (r_physmap r) ! i) \<longrightarrow>
          memory_of (load_items 0 (r_image r)) b = memory_of (wss ! i) b))"
proof
  show dis: "\<forall>i j. i < j \<longrightarrow> j < length (vec_list (r_physmap r)) \<longrightarrow>
       region (vec_list (r_physmap r) ! i) \<inter> region (vec_list (r_physmap r) ! j) = {}"
    using file_run_ok [OF assms(1)] by (simp add: physmap_ok_def)
  show "\<exists>wss. load_items 0 (r_image r) = concat wss \<and>
       list_all2 (\<lambda>e ws. \<forall>(b, w) \<in> set ws. unat b \<in> region e) (vec_list (r_physmap r)) wss \<and>
       (\<forall>i < length (vec_list (r_physmap r)). \<forall>b. unat b \<in> region (vec_list (r_physmap r) ! i) \<longrightarrow>
          memory_of (load_items 0 (r_image r)) b = memory_of (wss ! i) b)"
    by (rule laid_out_memory [OF file_run_layout [OF assms(1) _ assms(3,4)]]) (use dis assms(2) in blast)+
qed

definition demo_env :: gf_env where
  "demo_env = \<lparr>e_mem = (\<lambda>_. True), e_little = True, e_getcwd = True, e_chdir = (\<lambda>_. True), e_text = (\<lambda>_. Some []),
     e_stdin = [], e_creat = (\<lambda>_. True), e_elf = (\<lambda>_. None),
     e_yyparse = (\<lambda>_ p. Inr (p\<lparr>p_tsbs := \<lparr>tv_vector = [demo_tsb], tv_open = NO_OPEN_TSB\<rparr>,
                               p_tsb_links := \<lparr>lv_vector = [demo_link], lv_open = NO_OPEN_TSB_LINK\<rparr>\<rparr>, 40))\<rparr>"

definition demo_cmdline :: cmdline where
  "demo_cmdline = (init_cmdline VERBOSE_NORMAL)\<lparr>c_in := Some ''-'', c_gentsbs := True\<rparr>"

lemma demo_file_run: "case process_goldfinger_file demo_env demo_cmdline of Inl _ \<Rightarrow> False
   | Inr r \<Rightarrow> length (vec_list (r_physmap r)) = 2"
  by code_simp

lemma demo_file_low: "case process_goldfinger_file demo_env demo_cmdline of Inl _ \<Rightarrow> False
   | Inr r \<Rightarrow> list_all (\<lambda>e. pm_start e AND 0xffffffffff = pm_start e) (vec_list (r_physmap r))"
  by code_simp

theorem image_words_in_own_region_witness:
  "\<exists>r wss. process_goldfinger_file demo_env demo_cmdline = Inr r \<and> length (vec_list (r_physmap r)) = 2 \<and>
     load_items 0 (r_image r) = concat wss \<and>
     region (vec_list (r_physmap r) ! 0) \<inter> region (vec_list (r_physmap r) ! 1) = {}"
proof -
  obtain r where r: "process_goldfinger_file demo_env demo_cmdline = Inr r" "length (vec_list (r_physmap r)) = 2"
    using demo_file_run by (auto split: sum.splits)
  have low: "list_all (\<lambda>e. pm_start e AND 0xffffffffff = pm_start e) (vec_list (r_physmap r))"
    using demo_file_low r(1) by simp
  have pa: "\<forall>t p q n. e_yyparse demo_env t p = Inr (q, n) \<longrightarrow> n = 40" by (simp add: demo_env_def)
  note all = image_words_in_own_region [OF r(1) pa conjunct1 [OF demo_pa_mask] low]
  from all have "region (vec_list (r_physmap r) ! 0) \<inter> region (vec_list (r_physmap r) ! 1) = {}" using r(2) by simp
  with all r show ?thesis by blast
qed

text \<open>Without that condition it fails. The header of a block carries the address masked to the PA size, the
  physical map the address as it was given, so two blocks whose addresses differ above the PA size are
  accepted and loaded to the same place.\<close>

definition demo_high_block :: block where
  "demo_high_block = demo_image_block\<lparr>b_pa := 0x10000010000\<rparr>"

definition demo_overlap :: "(img_item list \<times> img_item list) res" where
  "demo_overlap = bindr (init_physmap (\<lambda>_. True)) (\<lambda>pm.
     bindr (block_generate_image (\<lambda>_. True) True 40 False True pm demo_image_block demo_scn) (\<lambda>(pm1, out1).
     bindr (block_generate_image (\<lambda>_. True) True 40 False True pm1 demo_high_block demo_scn) (\<lambda>(pm2, out2).
       Inr (out1, out2))))"

theorem masked_blocks_overlap:
  "case demo_overlap of Inl _ \<Rightarrow> False
   | Inr (out1, out2) \<Rightarrow> length (load_items 0 out1) = 12 \<and> load_items 0 out1 = load_items 0 out2"
  by code_simp

text \<open>C11: A block is refused with \<open>M_PACOLLIDE\<close> exactly when its region is not reversed and some
  earlier region starts before its end and ends after its start.\<close>

theorem block_collision_exact:
  assumes "physmap_ok pm"
  shows "add_block_to_physmap (\<lambda>_. True) pm f l n start stop sec seg = Inl (Exit M_PACOLLIDE) \<longleftrightarrow>
     start \<le> stop \<and> (\<exists>e \<in> set (vec_list pm). pm_start e < stop \<and> start < pm_stop e)"
  by (rule add_block_collides_iff [OF assms])

definition demo_map :: physmap_t where
  "demo_map = (case bindr (init_physmap (\<lambda>_. True)) (\<lambda>pm. add_object_to_physmap (\<lambda>_. True) pm ''f'' 1 1 0x1000 0x2000 ''TSB'' ''t'')
     of Inr pm \<Rightarrow> pm | Inl _ \<Rightarrow> undefined)"

lemma demo_map_def': "bindr (init_physmap (\<lambda>_. True)) (\<lambda>pm. add_object_to_physmap (\<lambda>_. True) pm ''f'' 1 1 0x1000 0x2000 ''TSB'' ''t'') = Inr demo_map"
proof -
  have "\<not> isl (bindr (init_physmap (\<lambda>_. True)) (\<lambda>pm. add_object_to_physmap (\<lambda>_. True) pm ''f'' 1 1 0x1000 0x2000 ''TSB'' ''t''))"
    by code_simp
  from returns_ex [OF this] show ?thesis unfolding demo_map_def by auto
qed

theorem block_collision_exact_witness:
  "add_block_to_physmap (\<lambda>_. True) demo_map ''g'' 2 2 0x1fff 0x3000 ''s'' ''m'' = Inl (Exit M_PACOLLIDE)"
proof -
  from demo_map_def' obtain pm where pm: "init_physmap (\<lambda>_. True) = Inr pm"
    and add: "add_object_to_physmap (\<lambda>_. True) pm ''f'' 1 1 0x1000 0x2000 ''TSB'' ''t'' = Inr demo_map"
    by (auto simp: bindr_Inr_iff)
  from add_object_keeps [OF conjunct1 [OF init_physmap_ok [OF pm]] add]
  obtain c where c: "physmap_ok demo_map" "vec_list demo_map = vec_list pm @ [c]" "pm_start c = 0x1000" "pm_stop c = 0x2000"
    by blast
  have "\<exists>e \<in> set (vec_list demo_map). pm_start e < 0x3000 \<and> 0x1fff < pm_stop e"
    using c(2-4) by (intro bexI [of _ c]) simp_all
  then show ?thesis using block_collision_exact [OF c(1)] by simp
qed

text \<open>A block stays inside its section. When the end of a block is an address (checked) or the end of
  the section, the computed offset and length describe bytes of the section, and the block's virtual
  address is the section's plus the offset.\<close>

theorem block_range_inside_section:
  assumes "block_calculate_size pa_size s b = Inr b'" "b_end_label b = None"
    and "b_end_va b = NO_ADDR \<or> b_no_end_range_check b = 0"
    and "unat (sec_start_va s) + unat (sec_length s) < 2 ^ 64"
  shows "unat (b_d_offset b') + unat (b_d_length b') \<le> unat (sec_length s) \<and>
         unat (b_va b') = unat (sec_start_va s) + unat (b_d_offset b')"
  by (rule block_inside_section [OF assms])

definition demo_section :: linked_section where
  "demo_section = \<lparr>sec_name = ''.text'', sec_section_name = None, sec_segment_name = None,
     sec_symtab = \<lparr>elements = [], len = 0, alloc_len = 0, elem_size = 8, init_elem_func = None, vec_name = []\<rparr>,
     sec_shndx = 1, sec_start_va = 0x400000, sec_length = 0x6000\<rparr>"

definition demo_range_block :: block where
  "demo_range_block = demo_block\<lparr>b_va := 0x402000, b_end_va := 0x405000\<rparr>"

lemma demo_range: "case block_calculate_size 40 demo_section demo_range_block of Inl _ \<Rightarrow> False
    | Inr b' \<Rightarrow> b_d_offset b' = 0x2000 \<and> b_d_length b' = 0x3000"
  by code_simp

theorem block_range_inside_section_witness:
  "\<exists>b'. block_calculate_size 40 demo_section demo_range_block = Inr b' \<and>
     unat (b_d_offset b') + unat (b_d_length b') \<le> 0x6000"
proof -
  obtain b' where b': "block_calculate_size 40 demo_section demo_range_block = Inr b'"
    using demo_range by (auto split: sum.splits)
  from block_range_inside_section [OF b'] have "unat (b_d_offset b') + unat (b_d_length b') \<le> unat (sec_length demo_section)"
    by (simp add: demo_range_block_def demo_block_def init_block_def demo_section_def)
  with b' show ?thesis by (simp add: demo_section_def)
qed

section \<open>Parsing\<close>

text \<open>C12: Whatever calls the parser makes, in any order: applications have distinct names; within an
  application linked sections have distinct names; and every closed block passed its checks and is
  bound to the section whose name it gave.\<close>

theorem parser_objects_wellformed:
  assumes "app_reach mem s"
  shows "distinct (map a_name (av_vector s)) \<and> (\<forall>a \<in> set (av_vector s).
    distinct (map sec_name (a_linked_sections a)) \<and>
    (\<forall>k < length (a_blocks a). \<forall>i. b_linked_section_obj (a_blocks a ! k) = Some i \<longrightarrow>
       i < length (a_linked_sections a) \<and>
       b_link_section (a_blocks a ! k) = Some (sec_name (a_linked_sections a ! i)) \<and>
       sanity_check_block (a_blocks a ! k) = Inr ()))"
proof -
  have inv: "parser_inv s" by (rule app_reach_inv [OF assms])
  have "block_closed_ok a k" if "a \<in> set (av_vector s)" "k < length (a_blocks a)" for a k
    using inv that by (simp add: parser_inv_def app_inv_def)
  then show ?thesis
    using inv unfolding parser_inv_def app_inv_def by (fastforce simp: block_closed_ok_def)
qed

definition demo_parse :: "app_vector_st res" where
  "demo_parse =
     bindr (open_new_app (clear_app_vector \<lparr>av_vector = [], av_open = NO_OPEN_APP\<rparr>) ''diag'' 1) (\<lambda>s1.
     bindr (open_new_block 0 ''text'' 2 s1) (\<lambda>s2.
     bindr (set_block (B_link_section ''.text'') s2) (\<lambda>s3.
     bindr (set_block (B_pa 0x10000) s3) (\<lambda>s4.
     close_block (\<lambda>_. True) s4))))"

lemma demo_parse_returns: "case demo_parse of Inl _ \<Rightarrow> False
    | Inr s \<Rightarrow> length (av_vector s) = 1 \<and> length (a_blocks (av_vector s ! 0)) = 1 \<and>
        b_linked_section_obj (a_blocks (av_vector s ! 0) ! 0) = Some 0"
  by code_simp

theorem parser_objects_wellformed_witness:
  "\<exists>s. demo_parse = Inr s \<and>
     b_link_section (a_blocks (av_vector s ! 0) ! 0) = Some (sec_name (a_linked_sections (av_vector s ! 0) ! 0))"
proof -
  obtain s where s: "demo_parse = Inr s" and l: "length (av_vector s) = 1" "length (a_blocks (av_vector s ! 0)) = 1"
    "b_linked_section_obj (a_blocks (av_vector s ! 0) ! 0) = Some 0"
    using demo_parse_returns by (auto split: sum.splits)
  from s obtain s1 s2 s3 s4 where
    "open_new_app (clear_app_vector \<lparr>av_vector = [], av_open = NO_OPEN_APP\<rparr>) ''diag'' 1 = Inr s1"
    "open_new_block 0 ''text'' 2 s1 = Inr s2" "set_block (B_link_section ''.text'') s2 = Inr s3"
    "set_block (B_pa 0x10000) s3 = Inr s4" "close_block (\<lambda>_. True) s4 = Inr s"
    by (auto simp: demo_parse_def bindr_Inr_iff)
  then have "app_reach (\<lambda>_. True) s"
    by (meson app_reach.intros app_step.intros)
  from parser_objects_wellformed [OF this] l s show ?thesis
    by (metis Suc_eq_plus1 add_0 lessI nth_mem One_nat_def)
qed

text \<open>C13: Where \<open>splitsec\<close> puts the lines of a diag. The pieces \<open>fgets\<close> reads make up the
  file, and the string of each piece (all of it before its first null character) goes to exactly one
  side, in order: whole to a section file, or to the midas file, whole or, for an
  \<open>APPLICATION\<close> directive, up to the end of the application's name (\<open>midas_text\<close>).
  Nothing else is written but \<open>#line\<close> notes between the directives and the section map at the
  end of the midas file.\<close>

theorem splitsec_partitions_lines:
  assumes "splitsec f input = Inr st"
  shows "concat (fgets_all input) = input \<and>
    (\<exists>front dirs texts notes'. sp_midas st = front @ write_section_map st \<and>
       merges texts notes' front \<and> (\<forall>t \<in> set notes'. is_line_note t) \<and>
       list_all2 midas_text dirs texts \<and>
       merges dirs (map snd (sp_written st)) (map cstr (fgets_all input)))"
proof -
  from assms obtain st0 where
    run: "foldr_res (\<lambda>st buf. split_line f buf st) init_split (map cstr (fgets_all input)) = Inr st0"
    and st: "st = st0\<lparr>sp_midas := sp_midas st0 @ write_section_map st0\<rparr>"
    by (auto simp: splitsec_def bindr_Inr_iff)
  have "split_inv [] init_split"
    by (rule split_invI [of "[]" "[]" _ "[]"]) (simp_all add: init_split_def merges_nil)
  from split_lines_inv [OF run this] have "split_inv (map cstr (fgets_all input)) st0" by simp
  then obtain dirs texts anns where "merges texts anns (sp_midas st0)" "\<forall>t \<in> set anns. is_line_note t"
    "list_all2 midas_text dirs texts" "merges dirs (map snd (sp_written st0)) (map cstr (fgets_all input))"
    by (rule split_invE)
  then show ?thesis
    using fgets_all_concat [of input]
    by (intro conjI exI [of _ "sp_midas st0"] exI [of _ dirs] exI [of _ texts] exI [of _ anns])
      (simp_all add: st write_section_map_def)
qed

definition demo_diag :: string where
  "demo_diag = ''SECTION .main'' @ NL @ ''nop'' @ NL @ ''MIDAS_CC'' @ NL"

lemma demo_split: "case splitsec ''d.s'' demo_diag of Inl _ \<Rightarrow> False
    | Inr st \<Rightarrow> sp_written st = [(''sec0.main.s'', ''nop'' @ NL)]"
  by code_simp

theorem splitsec_partitions_lines_witness:
  "\<exists>st dirs. splitsec ''d.s'' demo_diag = Inr st \<and> sp_written st = [(''sec0.main.s'', ''nop'' @ NL)] \<and>
     merges dirs [''nop'' @ NL] (map cstr (fgets_all demo_diag))"
proof -
  obtain st where st: "splitsec ''d.s'' demo_diag = Inr st" "sp_written st = [(''sec0.main.s'', ''nop'' @ NL)]"
    using demo_split by (auto split: sum.splits)
  from splitsec_partitions_lines [OF st(1)] st show ?thesis by auto
qed

text \<open>Section files. After \<open>splitsec\<close> no two sections of the table have the same application and
  name, no two share a file, and the table is within its size.\<close>

theorem splitsec_files_distinct:
  assumes "splitsec f input = Inr st"
  shows "distinct (map (\<lambda>d. (sd_app_name d, sd_section_name d)) (sp_table st)) \<and>
    distinct (map sd_file_name (sp_table st)) \<and> length (sp_table st) \<le> 8192"
proof -
  from assms obtain st0 where run: "foldr_res (\<lambda>st buf. split_line f buf st) init_split (map cstr (fgets_all input)) = Inr st0"
    and st: "sp_table st = sp_table st0"
    by (auto simp: splitsec_def bindr_Inr_iff)
  have "table_wf init_split" by (simp add: table_wf_def init_split_def)
  then have "table_wf st0"
    by (rule foldr_res_invariant [OF run]) (rule split_line_wf)
  then show ?thesis
    using table_files_distinct [of st0] by (simp add: table_wf_def st MAX_SECTIONS_def)
qed

lemma demo_split_table: "case splitsec ''d.s'' (demo_diag @ ''SECTION .data'' @ NL) of Inl _ \<Rightarrow> False
    | Inr st \<Rightarrow> length (sp_table st) = 2"
  by code_simp

theorem splitsec_files_distinct_witness:
  "\<exists>st. splitsec ''d.s'' (demo_diag @ ''SECTION .data'' @ NL) = Inr st \<and>
     sd_file_name (sp_table st ! 0) \<noteq> sd_file_name (sp_table st ! 1)"
proof -
  obtain st where st: "splitsec ''d.s'' (demo_diag @ ''SECTION .data'' @ NL) = Inr st" "length (sp_table st) = 2"
    using demo_split_table by (auto split: sum.splits)
  from splitsec_files_distinct [OF st(1)] have "distinct (map sd_file_name (sp_table st))" by simp
  then have "map sd_file_name (sp_table st) ! 0 \<noteq> map sd_file_name (sp_table st) ! 1"
    using st(2) by (subst nth_eq_iff_index_eq) simp_all
  with st show ?thesis by auto
qed

text \<open>An \<open>APPLICATION\<close> directive loses the rest of its line. \<open>strtok\<close> has cut the buffer
  when the line is written, so the midas file gets the text up to the application's name and no
  newline.\<close>

theorem application_line_is_cut:
  "\<exists>st. split_line f (''APPLICATION diag opt'' @ NL) init_split = Inr st \<and>
     last (sp_midas st) = ''APPLICATION diag'' \<and> sp_appname st = ''diag''"
proof -
  have nw: "dropWhile isspace (''APPLICATION diag opt'' @ NL) = ''APPLICATION diag opt'' @ NL" by code_simp
  have ap: "strtok1 (drop 11 (''APPLICATION diag opt'' @ NL)) = Some ''diag''" by code_simp
  have cut: "strtok_cut (''APPLICATION diag opt'' @ NL) (drop 11 (''APPLICATION diag opt'' @ NL)) = ''APPLICATION diag''"
    by code_simp
  have st: "\<not> starts_with ''attr_'' (''APPLICATION diag opt'' @ NL)"
    "\<not> starts_with ''goldfinger_'' (''APPLICATION diag opt'' @ NL)"
    "\<not> starts_with ''SECTION'' (''APPLICATION diag opt'' @ NL)"
    "\<not> starts_with ''MIDAS_'' (''APPLICATION diag opt'' @ NL)"
    "starts_with ''APPLICATION'' (''APPLICATION diag opt'' @ NL)"
    by code_simp+
  show ?thesis
    unfolding split_line_def Let_def nw ap cut
    using st by (simp add: init_split_def put_directive_def put_midas_def)
qed

section \<open>The command line\<close>

text \<open>Options are processed from the left: what a prefix of options without arguments sets is the
  starting point of the rest, and a stop in the prefix is a stop of the whole.\<close>

theorem cmdline_left_to_right:
  assumes "set xs \<inter> set arg_options = {}"
  shows "process_cmdline (xs @ ys) c = bindr (process_cmdline xs c) (process_cmdline ys)"
  by (rule process_cmdline_append [OF assms])

theorem cmdline_left_to_right_witness:
  "process_cmdline ([''-genimage'', ''-version''] @ [''-nonsense'']) (init_cmdline 1) = Inl (Exit M_NOERROR)"
proof -
  have "set [''-genimage'', ''-version''] \<inter> set arg_options = {}" by code_simp
  from cmdline_left_to_right [OF this, of "[''-nonsense'']" "init_cmdline 1"] show ?thesis
    by (simp add: arg_options_def set_flag_option_def)
qed

text \<open>The command line never makes the program fail in another way than by its own exit: it stops
  only with status 0 or with \<open>M_GOLDFINGERARG\<close>, and an option that needs an argument and is the
  last word is \<open>M_GOLDFINGERARG\<close>.\<close>

theorem cmdline_stops:
  "(process_cmdline argv c = Inl e \<longrightarrow> e = Exit M_NOERROR \<or> e = Exit M_GOLDFINGERARG) \<and>
   (opt \<in> set arg_options \<longrightarrow> process_cmdline [opt] c = Inl (Exit M_GOLDFINGERARG))"
  using process_cmdline_exits process_cmdline_missing by blast

theorem cmdline_stops_witness:
  "process_cmdline [''-in''] (init_cmdline 1) = Inl (Exit M_GOLDFINGERARG)"
proof -
  have "''-in'' \<in> set arg_options" by code_simp
  with cmdline_stops [of "[]" "init_cmdline 1" Undef "''-in''"] show ?thesis by blast
qed

section \<open>Utilities\<close>

text \<open>\<open>log2\<close> is the floor of the binary logarithm on every non-zero 64-bit value, not only
  on the powers of two its comment guarantees, and its loop ends.\<close>

theorem log2_floor:
  assumes "n \<noteq> 0"
  shows "2 ^ unat (gf_log2 n) \<le> unat n \<and> unat n < 2 ^ (unat (gf_log2 n) + 1)"
  using floor_log2_bounds [of "unat n"] assms by (simp add: gf_log2_eq unat_eq_0)

theorem log2_floor_witness: "2 ^ unat (gf_log2 0x6000) \<le> (0x6000 :: nat) \<and> (0x6000 :: nat) < 2 ^ (unat (gf_log2 0x6000) + 1)"
  using log2_floor [of "0x6000"] by simp

text \<open>\<open>is_pow2\<close> is right for every value below \<open>2^31\<close>; from \<open>2^31\<close> on, the shift
  of the \<open>int\<close> constant \<open>1\<close> overflows and the behaviour is undefined.\<close>

theorem is_pow2_exact:
  "is_pow2 num = (if unat num < 2 ^ 31 then Inr (\<exists>k<31. num = 2 ^ k) else Inl Undef)"
  unfolding is_pow2_eq by (auto intro: if_cong)

text \<open>\<open>is_aligned\<close> gives an answer exactly for an alignment that is a power of two below
  \<open>2^31\<close>, and the answer is divisibility.\<close>

theorem is_aligned_exact:
  "is_aligned num al = Inr b \<longleftrightarrow> (\<exists>k<31. al = 2 ^ k \<and> b = (2 ^ k dvd unat num))"
  by (rule is_aligned_Inr_iff)

text \<open>A bit range gives the mask of its bits. For a range within 0 to 63 that is not reversed the mask
  has exactly the bits of the range, but for the full range the shift by 64 is undefined, although the
  check of a \<open>block_tsb\<close> lets it pass.\<close>

theorem bit_range_mask_exact:
  assumes "bits_ok r" and "br_lo r \<le> br_hi r"
  shows "(br_hi r = 63 \<and> br_lo r = 0 \<longrightarrow> bit_range_to_mask_64 r = Inl Undef) \<and>
    (\<not> (br_hi r = 63 \<and> br_lo r = 0) \<longrightarrow> (\<exists>m. bit_range_to_mask_64 r = Inr m \<and>
       (\<forall>n<64. bit m n \<longleftrightarrow> in_range r n)))"
proof (cases "br_hi r = 63 \<and> br_lo r = 0")
  case True
  then show ?thesis by (simp add: bit_range_to_mask_64_def bit_range_to_shifted_mask_64_def shl64_def)
next
  case False
  define w where "w = nat (br_hi r - br_lo r + 1)"
  from False assms have "w < 64" "br_hi r - br_lo r + 1 = int w" "0 \<le> br_lo r" "br_lo r < 64"
    by (auto simp: bits_ok_def w_def)
  then obtain m where m: "bit_range_to_mask_64 r = Inr m"
    by (auto simp: bit_range_to_mask_64_def bit_range_to_shifted_mask_64_def shl64_def)
  with mask_64_bit(1) [OF m] False show ?thesis by auto
qed

theorem bit_range_mask_exact_witness:
  "bit_range_to_mask_64 \<lparr>br_hi = 63, br_lo = 0\<rparr> = Inl Undef \<and>
   (\<exists>m. bit_range_to_mask_64 \<lparr>br_hi = 39, br_lo = 13\<rparr> = Inr m \<and> \<not> bit m 40)"
proof -
  have "bits_ok \<lparr>br_hi = 63, br_lo = 0\<rparr>" "bits_ok \<lparr>br_hi = 39, br_lo = 13\<rparr>" by code_simp+
  with bit_range_mask_exact [of "\<lparr>br_hi = 63, br_lo = 0\<rparr>"] bit_range_mask_exact [of "\<lparr>br_hi = 39, br_lo = 13\<rparr>"]
  show ?thesis by (auto simp: in_range_def)
qed

text \<open>\<open>set_pa_size\<close> accepts 1 to 64, but with 64 the physical-address mask of the image and of the
  symbol table is an undefined shift; for every smaller size the mask is the low bits.\<close>

theorem pa_size_mask:
  "(set_pa_size 64 = Inr 64 \<and> pa_mask 64 = Inl Undef) \<and>
   (1 \<le> p \<and> p < 64 \<longrightarrow> set_pa_size p = Inr p \<and> pa_mask p = Inr (mask (nat p)))"
  by (simp add: set_pa_size_def pa_mask_def shl64_def mask_eq_exp_minus_1 push_bit_eq_mult)

theorem pa_size_mask_witness: "pa_mask 40 = Inr (mask 40)"
  using pa_size_mask [of 40] by simp

section \<open>Containers\<close>

text \<open>Adding elements to a vector appends that many fresh elements and keeps the old ones, growth
  included; the index returned is that of the first.\<close>

theorem vector_add_appends:
  assumes "vec_ok v" "init_elem_func v = Some x" "0 \<le> num" "add_vector_elements mem v num = Inr (i, w)"
  shows "i = len v \<and> vec_ok w \<and> vec_list w = vec_list v @ replicate (nat num) x"
  using add_vector_elements_appends [OF assms] by simp

definition demo_vector :: "nat vector_t" where
  "demo_vector = \<lparr>elements = replicate 40 None, len = 0, alloc_len = 40, elem_size = 8,
     init_elem_func = Some 7, vec_name = []\<rparr>"

theorem vector_add_appends_witness:
  "\<exists>w. add_vector_elements (\<lambda>_. True) demo_vector 41 = Inr (0, w) \<and> vec_list w = replicate 41 7"
proof -
  have ok: "vec_ok demo_vector" "vec_list demo_vector = []"
    by (simp_all add: demo_vector_def vec_ok_def int_ok_def vec_list_def)
  obtain w where add: "add_vector_elements (\<lambda>_. True) demo_vector 41 = Inr (len demo_vector, w)"
    using add_vector_elements_succeeds [of demo_vector 7 41 "\<lambda>_. True"] ok by (auto simp: demo_vector_def)
  from vector_add_appends [OF ok(1) _ _ add] ok(2) add show ?thesis by (simp add: demo_vector_def)
qed

text \<open>With memory, and while the lengths stay within \<open>int\<close>, an addition returns.\<close>

theorem vector_add_returns:
  assumes "vec_ok v" "init_elem_func v = Some x" "0 \<le> num" "alloc_len v + 4 * (len v + num) < 2 ^ 31"
    and "\<And>n. mem n"
  shows "\<exists>w. add_vector_elements mem v num = Inr (len v, w)"
  by (rule add_vector_elements_succeeds [OF assms])

theorem vector_add_returns_witness: "\<exists>w. add_vector_elements (\<lambda>_. True) demo_vector 100 = Inr (0, w)"
  using vector_add_returns [of demo_vector 7 100 "\<lambda>_. True"]
  by (simp add: demo_vector_def vec_ok_def int_ok_def)

text \<open>The symbol table of a section. After the table of an empty section was built, looking up a name
  finds the first symbol of the file that has this name and is defined in the section, and nothing
  when there is none.\<close>

theorem symbol_lookup_in_built_table:
  assumes ini: "init_linked_section mem = Inr s0" and s: "s = s0\<lparr>sec_shndx := ndx\<rparr>"
    and b: "build_linked_section_symbol_table mem s scn = Inr s'"
  shows "lookup_symtab (sec_symtab s') name =
    Inr (find (\<lambda>e. name = sym_name e)
          (section_symbols ndx (take (unat (sc_size scn div sc_entsize scn)) (sc_syms scn))))"
proof -
  from ini have "symtab_ok (sec_symtab s) \<and> vec_list (sec_symtab s) = []"
    by (auto simp: init_linked_section_def s dest: init_symtab_ok)
  moreover from this have "symtab_ok (sec_symtab s') \<and> vec_list (sec_symtab s') =
      vec_list (sec_symtab s) @ section_symbols (sec_shndx s) (take (unat (sc_size scn div sc_entsize scn)) (sc_syms scn))"
    using build_symbol_table_spec [of s mem scn s'] b by simp
  moreover have "symtab_ent_lookup_compare name = (\<lambda>e. name = sym_name e)"
    by (simp add: symtab_ent_lookup_compare_def fun_eq_iff)
  ultimately show ?thesis by (simp add: lookup_symtab_eq s)
qed

definition demo_symtab_scn :: elf_scn where
  "demo_symtab_scn = \<lparr>sc_ndx = 5, sc_type = SHT_SYMTAB, sc_name = Some ''.symtab'', sc_addr = 0, sc_size = 72,
     sc_entsize = 24, sc_buf = [], sc_syms =
       [\<lparr>es_name = Some [], es_shndx = 0, es_value = 0, es_size = 0\<rparr>,
        \<lparr>es_name = Some ''main'', es_shndx = 2, es_value = 8, es_size = 4\<rparr>,
        \<lparr>es_name = Some ''main'', es_shndx = 1, es_value = 0x400000, es_size = 4\<rparr>]\<rparr>"

definition demo_symtab_run :: "(linked_section \<times> linked_section) res" where
  "demo_symtab_run = bindr (init_linked_section (\<lambda>_. True)) (\<lambda>s0.
     bindr (build_linked_section_symbol_table (\<lambda>_. True) (s0\<lparr>sec_shndx := 1\<rparr>) demo_symtab_scn) (\<lambda>s'. Inr (s0, s')))"

lemma demo_symtab_returns: "\<not> isl demo_symtab_run"
  by code_simp

theorem symbol_lookup_in_built_table_witness:
  "\<exists>s0 s'. demo_symtab_run = Inr (s0, s') \<and> lookup_symtab (sec_symtab s') ''main'' =
     Inr (Some \<lparr>sym_name = ''main'', sym_value = 0x400000, sym_size = 4\<rparr>)"
proof -
  obtain s0 s' where r: "demo_symtab_run = Inr (s0, s')" using returns_ex [OF demo_symtab_returns] by auto
  then have i: "init_linked_section (\<lambda>_. True) = Inr s0"
    and b: "build_linked_section_symbol_table (\<lambda>_. True) (s0\<lparr>sec_shndx := 1\<rparr>) demo_symtab_scn = Inr s'"
    by (auto simp: demo_symtab_run_def bindr_Inr_iff)
  have "find (\<lambda>e. ''main'' = sym_name e) (section_symbols 1 (take (unat (sc_size demo_symtab_scn div sc_entsize demo_symtab_scn)) (sc_syms demo_symtab_scn)))
      = Some \<lparr>sym_name = ''main'', sym_value = 0x400000, sym_size = 4\<rparr>"
    by code_simp
  with symbol_lookup_in_built_table [OF i refl b, of "''main''"]
  have "lookup_symtab (sec_symtab s') ''main'' = Inr (Some \<lparr>sym_name = ''main'', sym_value = 0x400000, sym_size = 4\<rparr>)"
    by simp
  with r show ?thesis by blast
qed

section \<open>Defects the model shows\<close>

text \<open>A TSB with an odd number of entries makes the writer read past the end of its array: once the
  region is accepted, \<open>write_tsb\<close> is undefined.\<close>

lemma write_pairs_odd:
  assumes n: "odd n" "length es = n"
  shows "even i \<Longrightarrow> i < n \<Longrightarrow> write_pairs su ez zero row start es n i skip la printed = Inl Undef"
proof (induction "n - i" arbitrary: su i skip la printed rule: less_induct)
  case less
  show ?case
  proof (cases "i + 1 < n")
    case True
    have "i + 2 \<noteq> n" using n(1) less.prems(1) by (metis even_add even_numeral)
    with True have i2: "even (i + 2)" "i + 2 < n" "n - (i + 2) < n - i" using less.prems by auto
    have "write_pairs su ez zero row start es n (i + 2) sk la' pr = Inl Undef" for su sk la' pr
      by (rule less.hyps [OF i2(3,1,2)])
    then show ?thesis using True less.prems n by (subst write_pairs.simps) (simp add: Let_def)
  next
    case False
    with less.prems n show ?thesis by (subst write_pairs.simps) (simp add: nth_res_def Let_def)
  qed
qed

theorem odd_tsb_undefined:
  assumes "odd (unat (t_num_entries t))" and "length (t_entries t) = unat (t_num_entries t)"
    and "add_object_to_physmap mem pm (t_srcfile t) (t_srcline t) (t_lineno t) (t_start_addr t)
           (t_start_addr t + t_num_entries t * BYTES_PER_ENTRY) ''TSB'' (t_name t) = Inr pm'"
  shows "write_tsb mem su ez pm t = Inl Undef"
proof -
  have "0 < unat (t_num_entries t)" using assms(1) by (rule odd_pos)
  then show ?thesis using assms(3) write_pairs_odd [OF assms(1,2), of 0] by (simp add: write_tsb_def)
qed

definition odd_tsb :: tsb where
  "odd_tsb = demo_tsb\<lparr>t_num_entries := 3, t_entries := replicate 3 zero_tsb_entry\<rparr>"

lemma odd_tsb_add: "\<not> isl (bindr (init_physmap (\<lambda>_. True)) (\<lambda>pm.
    bindr (add_object_to_physmap (\<lambda>_. True) pm (t_srcfile odd_tsb) (t_srcline odd_tsb) (t_lineno odd_tsb) (t_start_addr odd_tsb)
      (t_start_addr odd_tsb + t_num_entries odd_tsb * BYTES_PER_ENTRY) ''TSB'' (t_name odd_tsb)) (\<lambda>pm'. Inr (pm, pm'))))"
  by code_simp

theorem odd_tsb_undefined_witness:
  "\<exists>pm. init_physmap (\<lambda>_. True) = Inr pm \<and> write_tsb (\<lambda>_. True) True True pm odd_tsb = Inl Undef"
proof -
  obtain pm pm' where pm: "init_physmap (\<lambda>_. True) = Inr pm" and
    add: "add_object_to_physmap (\<lambda>_. True) pm (t_srcfile odd_tsb) (t_srcline odd_tsb) (t_lineno odd_tsb) (t_start_addr odd_tsb)
      (t_start_addr odd_tsb + t_num_entries odd_tsb * BYTES_PER_ENTRY) ''TSB'' (t_name odd_tsb) = Inr pm'"
    using returns_ex [OF odd_tsb_add] by (auto simp: bindr_Inr_iff)
  have "write_tsb (\<lambda>_. True) True True pm odd_tsb = Inl Undef"
    by (rule odd_tsb_undefined [OF _ _ add]) (simp_all add: odd_tsb_def)
  with pm show ?thesis by blast
qed

text \<open>C14: The image of a \<open>tsbcsm\<close> never contains the address of a chain. A link entry keeps the
  address of its chain in \<open>data\<close>, but \<open>write_tsbcsm\<close> prints the clump number: whatever the
  addresses in the link entries are, the file is the same.\<close>

lemma write_pairs_map:
  assumes "\<And>e. zero (f e) = zero e" and "\<And>e. row (f e) = row e"
  shows "write_pairs su ez zero row start (map f es) n i skip la printed =
         write_pairs su ez zero row start es n i skip la printed"
proof (induction "n - i" arbitrary: su i skip la printed rule: less_induct)
  case less
  show ?case
  proof (cases "i < n \<and> i + 1 < length es")
    case True
    then have rec: "write_pairs su ez zero row start (map f es) n (i + 2) sk la' pr =
        write_pairs su ez zero row start es n (i + 2) sk la' pr" for su sk la' pr
      by (intro less.hyps) auto
    show ?thesis using True by (subst (1 2) write_pairs.simps) (simp add: rec assms Let_def nth_res_def cong: if_cong del: add_2_eq_Suc')
  next
    case False
    then show ?thesis by (subst (1 2) write_pairs.simps) (auto simp: nth_res_def Let_def bindr_def)
  qed
qed

theorem csm_chain_address_never_written:
  "write_tsbcsm mem su ez pm (t\<lparr>t_entries := map (\<lambda>e. if ce_tag e = TSB_LINK_TAG then e\<lparr>ce_data := a\<rparr> else e) (t_entries t)\<rparr>) =
   write_tsbcsm mem su ez pm t"
  unfolding write_tsbcsm_def by (simp add: write_pairs_map)

text \<open>The first line of an error message gives the number of the code and its text from the table,
  for every code, and nothing is printed when errors are switched off.\<close>

lemma strtok_lines_first:
  "CHR 0x0A \<notin> set xs \<Longrightarrow> cur @ xs \<noteq> [] \<Longrightarrow> strtok_lines cur (xs @ CHR 0x0A # r) = (cur @ xs) # strtok_lines [] r"
  by (induction xs arbitrary: cur) auto

lemma dec_nat_no_newline: "CHR 0x0A \<notin> set (dec_nat n)"
  using dec_nat_digits [of n] by auto

lemma Errstrings_no_newline: "list_all (\<lambda>t. CHR 0x0A \<notin> set t \<and> length t < 100) Errstrings \<and> length Errstrings = 40"
  by code_simp

theorem error_message_first_line:
  "(\<exists>rest. gf_error_lines False (int (m_num c)) msg =
      (''goldfinger: ERROR '' @ dec_nat (m_num c) @ '' ('' @ Errstrings ! m_num c @ ''):'') # rest) \<and>
   gf_error_lines True (int (m_num c)) msg = []"
proof -
  have n: "m_num c < 39" using m_num_range [of c] by (simp add: SENTINEL_ERROR_def)
  have e: "CHR 0x0A \<notin> set (Errstrings ! m_num c)" "length (Errstrings ! m_num c) < 100"
    using Errstrings_no_newline n by (auto simp: list_all_length)
  define hd where "hd = ''ERROR '' @ dec_nat (m_num c) @ '' ('' @ Errstrings ! m_num c @ ''):''"
  have hd: "CHR 0x0A \<notin> set hd" using e(1) dec_nat_no_newline by (simp add: hd_def)
  have "length (dec_nat (m_num c)) \<le> 2"
    using n by (subst dec_nat.simps, subst dec_nat.simps) auto
  then have len: "length (hd @ NL) < SBUFSIZE - 1" using e(2) by (simp add: hd_def SBUFSIZE_def)
  have t: "take (SBUFSIZE - 1) (''ERROR '' @ dec_int (int (m_num c)) @ '' ('' @ Errstrings ! m_num c @ ''):'' @ [CHR 0x0A]) = hd @ [CHR 0x0A]"
    using len by (subst take_all) (simp_all add: hd_def dec_int_def)
  have l: "length (hd @ [CHR 0x0A]) < SBUFSIZE" using len by (simp add: SBUFSIZE_def)
  have i: "0 \<le> int (m_num c) \<and> int (m_num c) < SENTINEL_ERROR" using n by (simp add: SENTINEL_ERROR_def)
  have "gf_error_lines False (int (m_num c)) msg =
      map (\<lambda>ptr. ''goldfinger: '' @ ptr)
        (strtok_lines [] ((hd @ [CHR 0x0A]) @ take (SBUFSIZE - length (hd @ [CHR 0x0A]) - 1) msg))"
    unfolding gf_error_lines_def Let_def if_P [OF i] nat_int t if_P [OF l] by (rule if_False)
  moreover have "hd \<noteq> []" by (simp add: hd_def)
  moreover have "''goldfinger: '' @ hd = ''goldfinger: ERROR '' @ dec_nat (m_num c) @ '' ('' @ Errstrings ! m_num c @ ''):''"
    by (simp add: hd_def)
  ultimately show ?thesis
    using strtok_lines_first [OF hd, of "[]"] by (simp add: gf_error_lines_def [of True])
qed

section \<open>The simulated memory\<close>

text \<open>C15: The simulated memory is a memory. Start the memory model on an image made of whole 64-byte lines
  and do any sequence of reads and writes outside line 0: every read returns the word last written there,
  or the word of the image, or zero. Neither the B-tree nor the line kept from the last access shows.\<close>

theorem simulated_memory_is_memory:
  assumes "list_all item_fits items" and "whole_lines items" and "length cbuf = BUFFER"
    and "list_all (\<lambda>x. line_key (op_addr x) \<noteq> 0) ops"
  shows "\<exists>st st'. init_jbus_model_call prev cbuf (Some (render items)) False = Inr st \<and>
    run_ops read_64b_call write_64b_call ops st =
      Inr (flat_ops ops (\<lambda>a. memory_of (load_items 0 items) (word_addr a)), st')"
proof -
  obtain st where st: "init_jbus_model_call prev cbuf (Some (render items)) False = Inr st" "iob_ok st"
    "iob_mem st = (\<lambda>a. memory_of (load_items 0 items) (word_addr a))"
    using loaded_memory [OF assms(1-3)] by blast
  then show ?thesis using iob.run_refines [OF st(2), of ops] assms(4) by (auto simp: list_all_iff)
qed

definition demo_items :: "img_item list" where
  "demo_items = [Note ''demo'', At 0x10000 ''data'', Row64 [1, 2, 3, 4], Row64 [5, 6, 7, 8]]"

definition demo_ops :: "mem_op list" where
  "demo_ops = [Read 0x10008, Write 0x10008 42, Read 0x10038, Read 0x1000c, Write 0x80 9, Read 0x80, Read 0x88]"

theorem simulated_memory_is_memory_witness:
  "\<exists>st st'. init_jbus_model_call (CHR ''x'') (replicate BUFFER 0) (Some (render demo_items)) False = Inr st \<and>
     run_ops read_64b_call write_64b_call demo_ops st = Inr ([2, 8, 42, 9, 0], st')"
proof -
  have "list_all item_fits demo_items" by (simp add: demo_items_def)
  moreover have "whole_lines demo_items"
    by (simp add: whole_lines_def demo_items_def chunk_lines.simps)
  moreover have "list_all (\<lambda>x. line_key (op_addr x) \<noteq> 0) demo_ops" by (simp add: demo_ops_def line_key_def)
  ultimately have run: "\<exists>st st'. init_jbus_model_call (CHR ''x'') (replicate BUFFER 0) (Some (render demo_items)) False = Inr st \<and>
      run_ops read_64b_call write_64b_call demo_ops st =
        Inr (flat_ops demo_ops (\<lambda>a. memory_of (load_items 0 demo_items) (word_addr a)), st')"
    by (intro simulated_memory_is_memory) simp_all
  have "flat_ops demo_ops (\<lambda>a. memory_of (load_items 0 demo_items) (word_addr a)) = [2, 8, 42, 9, 0]"
    by (simp add: demo_ops_def demo_items_def same_word_def word_addr_def memory_of_def)
  then show ?thesis using run by simp
qed

text \<open>C16: What goldfinger writes is what the processor reads. For a block that is not compressed, at an
  address and of a length that are multiples of 64, the image that \<open>block_generate_image\<close> writes is
  loaded, and reading any word of the block returns the eight bytes of the section, big-endian.\<close>

theorem block_reaches_processor:
  assumes "block_generate_image mem little pa_size compress_on env_zero pm b scn = Inr (pm', out)"
    and "b_in_image b \<noteq> 0" and "pa_mask pa_size = Inr mk" and "b_pa b AND mk = b_pa b"
    and "b_compress b = 0 \<or> \<not> compress_on"
    and "unat (b_d_offset b) = 4 * base" and "unat (b_d_length b) = 64 * n"
    and "unat (b_d_offset b) + unat (b_d_length b) \<le> length (image_buf scn b)"
    and "unat (b_d_length b) < 2 ^ 33" and "b_pa b AND 63 = 0" and "unat (b_pa b) + unat (b_d_length b) \<le> 2 ^ 40"
    and "CHR 0x0A \<notin> set (b_section_name b)" and "CHR 0x0A \<notin> set (b_segment_name b)"
    and "length (b_section_name b) + length (b_segment_name b) \<le> 900" and "length cbuf = BUFFER"
    and "b_pa b \<noteq> 0" and "j < 8 * n"
  shows "\<exists>st st'. init_jbus_model_call prev cbuf (Some (render out)) False = Inr st \<and>
    read_64b_call (b_pa b + of_nat (8 * j)) st = Inr (be64 (image_buf scn b) (unat (b_d_offset b) + 8 * j), st')"
proof -
  obtain st where st: "init_jbus_model_call prev cbuf (Some (render out)) False = Inr st" "iob_ok st"
    "iob_mem st (b_pa b + of_nat (8 * j)) = be64 (image_buf scn b) (unat (b_d_offset b) + 8 * j)"
    using block_readback [OF assms(1-15)] assms(17) by blast
  have "unat (b_pa b) + 8 * j < 2 ^ 40" using assms(7,11,17) by simp
  then have "line_key (b_pa b + of_nat (8 * j)) \<noteq> 0" by (rule line_key_nonzero [OF assms(10,16)])
  then show ?thesis using st iob.rd_ok [OF st(2)] by metis
qed

definition demo_plain_block :: block where
  "demo_plain_block = demo_block\<lparr>b_compress := 0, b_d_length := 64\<rparr>"

definition demo_plain_image :: "(physmap_t \<times> img_item list) res" where
  "demo_plain_image = bindr (init_physmap (\<lambda>_. True)) (\<lambda>pm.
     block_generate_image (\<lambda>_. True) True 40 True True pm demo_plain_block demo_scn)"

theorem block_reaches_processor_witness:
  "\<exists>pm out st st'. demo_plain_image = Inr (pm, out) \<and>
     init_jbus_model_call (CHR ''x'') (replicate BUFFER 0) (Some (render out)) False = Inr st \<and>
     read_64b_call 0x10008 st = Inr (0x090a0b0c0d0e0f10, st')"
proof -
  have "\<not> isl demo_plain_image" by code_simp
  then obtain pm out where r: "demo_plain_image = Inr (pm, out)" using returns_ex by fastforce
  then obtain pm0 where gen: "block_generate_image (\<lambda>_. True) True 40 True True pm0 demo_plain_block demo_scn = Inr (pm, out)"
    by (auto simp: demo_plain_image_def bindr_Inr_iff)
  have mk: "pa_mask 40 = Inr 0xffffffffff \<and> b_pa demo_plain_block AND 0xffffffffff = b_pa demo_plain_block" by code_simp
  note b = demo_plain_block_def demo_block_def init_block_def image_buf_def demo_scn_def SHT_NOBITS_def SHT_PROGBITS_def
  obtain st st' where "init_jbus_model_call (CHR ''x'') (replicate BUFFER 0) (Some (render out)) False = Inr st"
    "read_64b_call (b_pa demo_plain_block + of_nat (8 * 1)) st =
       Inr (be64 (image_buf demo_scn demo_plain_block) (unat (b_d_offset demo_plain_block) + 8 * 1), st')"
    using block_reaches_processor [OF gen _ conjunct1 [OF mk] conjunct2 [OF mk], of 0 1 "replicate BUFFER 0" 1 "CHR ''x''"]
    by (auto simp: b)
  moreover have "b_pa demo_plain_block + of_nat (8 * 1) = 0x10008" by (simp add: demo_plain_block_def demo_block_def)
  moreover have "be64 (image_buf demo_scn demo_plain_block) (unat (b_d_offset demo_plain_block) + 8 * 1) = 0x090a0b0c0d0e0f10"
    by code_simp
  ultimately show ?thesis using r by auto
qed

text \<open>C17: The loader inserts exactly the complete 64-byte lines of the image and those an address line cuts
  short; a line that the end of the file cuts short is lost, and of two lines with the same address the first is kept.\<close>

theorem loader_inserts_lines:
  assumes "list_all item_fits items" and "length cbuf = BUFFER"
  shows "\<exists>root. read_mem prev cbuf (Some (render items)) b_create = Inr root \<and> tree_ok root \<and>
    (\<forall>k. b_Find root k = Inr (find (\<lambda>a. key a = k) (map line_atom (image_lines 0 [] items))))"
proof -
  obtain root where root: "read_mem prev cbuf (Some (render items)) b_create = Inr root"
    "foldr_res b_insert b_create (image_atoms 0 [] items) = Inr root"
    using read_mem_loads [OF assms b_create_ok(1)] by blast
  have "image_atoms 0 [] items = map line_atom (image_lines 0 [] items)" using image_atoms_lines [of 0 "[]" items] by simp
  then show ?thesis using root inserted_atoms [OF root(2)] by (auto simp: b_Find_spec)
qed

theorem loader_inserts_lines_witness:
  "\<exists>root. read_mem (CHR ''x'') (replicate BUFFER 0) (Some (render [At 0x40 ''a'', Row64 [1, 2, 3, 4]])) b_create = Inr root \<and>
     b_Find root 1 = Inr None"
proof -
  have "list_all item_fits [At 0x40 ''a'', Row64 [1, 2, 3, 4]]" "length (replicate BUFFER (0 :: u8)) = BUFFER" by code_simp+
  moreover have "image_lines 0 [] [At 0x40 ''a'', Row64 [1, 2, 3, 4]] = []" by code_simp
  ultimately show ?thesis using loader_inserts_lines [of "[At 0x40 ''a'', Row64 [1, 2, 3, 4]]" "replicate BUFFER 0" "CHR ''x''"] by auto
qed

text \<open>C18: A gap inside a 64-byte line gets stale data. When an image leaves out 32 zero bytes at the start of a
  line, as goldfinger does when it compresses, the loader fills them with the first half of the line
  before: the processor reads those words where the image means zero.\<close>

theorem compressed_gap_reads_stale:
  assumes "a AND 63 = 0" and "unat a < 2 ^ 39" and "length ws = 8" and "length vs = 4" and "length cbuf = BUFFER"
    and "j < 4"
  shows "\<exists>st. init_jbus_model_call prev cbuf (Some (render (gap_image a ws vs))) False = Inr st \<and>
    iob_mem st (a + 64 + of_nat (8 * j)) = ws ! j \<and>
    memory_of (load_items 0 (gap_image a ws vs)) (a + 64 + of_nat (8 * j)) = 0"
proof -
  obtain st where "init_jbus_model_call prev cbuf (Some (render (gap_image a ws vs))) False = Inr st"
    "iob_mem st (a + 64 + of_nat (8 * j)) = ws ! j"
    using gap_filled [OF assms(1-5)] assms(6) by blast
  moreover have "memory_of (load_items 0 (gap_image a ws vs)) (a + 64 + of_nat (8 * j)) = 0"
    by (rule gap_is_zero) (rule assms)+
  ultimately show ?thesis by blast
qed

theorem compressed_gap_reads_stale_witness:
  "\<exists>st. init_jbus_model_call (CHR ''x'') (replicate BUFFER 0) (Some (render (gap_image 0x1000 [1, 2, 3, 4, 5, 6, 7, 8] [9, 9, 9, 9]))) False = Inr st \<and>
     iob_mem st 0x1050 = 3"
  using compressed_gap_reads_stale [where a = "0x1000" and ws = "[1, 2, 3, 4, 5, 6, 7, 8]" and vs = "[9, 9, 9, 9]" and j = 2
      and cbuf = "replicate BUFFER 0" and prev = "CHR ''x''"] by auto

text \<open>The first access decides about line 0. Right after the start the pointer of the cached line is NULL
  and its address is 0: a read of any address in line 0 dereferences NULL, whatever the image holds.\<close>

theorem first_read_of_line_zero:
  assumes "init_jbus_model_call prev cbuf file False = Inr st" and "line_key a = 0"
  shows "read_64b_call a st = Inl Undef"
  using assms by (auto simp: init_jbus_model_call_def read_64b_call_def deref_def)

theorem first_read_of_line_zero_witness:
  "\<exists>st. init_jbus_model_call (CHR ''x'') (replicate BUFFER 0) (Some (render [At 0 ''zero'', Row64 [1, 2, 3, 4, 5, 6, 7, 8]])) False = Inr st \<and>
     iob_mem st 8 = 2 \<and> read_64b_call 8 st = Inl Undef"
proof -
  let ?items = "[At 0 ''zero'', Row64 [1, 2, 3, 4, 5, 6, 7, 8]]"
  have "list_all item_fits ?items" "whole_lines ?items" by (simp_all add: whole_lines_def chunk_lines.simps)
  then obtain st where st: "init_jbus_model_call (CHR ''x'') (replicate BUFFER 0) (Some (render ?items)) False = Inr st"
    "iob_mem st = (\<lambda>a. memory_of (load_items 0 ?items) (word_addr a))"
    using loaded_memory [of ?items "replicate BUFFER 0" "CHR ''x''"] by auto
  moreover have "memory_of (load_items 0 ?items) (word_addr 8) = 2" by (simp add: word_addr_def memory_of_def)
  moreover have "line_key 8 = 0" by (simp add: line_key_def)
  ultimately show ?thesis using first_read_of_line_zero [OF st(1), of 8] by auto
qed

section \<open>The B-tree of lines\<close>

text \<open>C19: Insertion refines insertion into the sorted list of atoms. It always returns, it keeps the tree
  balanced, every node but the root half full and the keys in order, it adds an atom with a new key at its
  place and leaves a tree that has the key as it was.\<close>

theorem btree_insert_refines_list:
  assumes "tree_ok t"
  shows "\<exists>t'. b_insert t a = Inr t' \<and> tree_ok t' \<and> atoms_of t' = ins_atom a (atoms_of t)"
  by (rule b_insert_spec [OF assms])

theorem btree_insert_refines_list_witness:
  "\<exists>root'. b_insert b_create (line_atom (64, [1])) = Inr root' \<and> atoms_of root' = [line_atom (64, [1])]"
  using btree_insert_refines_list [OF b_create_ok(1), of "line_atom (64, [1])"] by (auto simp: b_create_ok ins_atom_def)

text \<open>C20: After any sequence of insertions a search returns the first atom that was inserted with the key,
  and NULL when there is none; it always ends.\<close>

theorem btree_search_after_inserts:
  "\<exists>root. foldr_res b_insert b_create as = Inr root \<and> (\<forall>k. b_Find root k = Inr (find (\<lambda>a. key a = k) as))"
  using bt.put_all_from_start [of "as"] by blast

section \<open>Register files and boot ROM\<close>

text \<open>C21: The check byte of the register files makes a code of distance four. Two different data words
  of four or eight bytes, each with its check byte, differ in at least four bits: one wrong bit can
  be corrected and two can be told.\<close>

theorem check_byte_distance:
  assumes "length d = num_bytes fl" and "length d' = num_bytes fl" and "d \<noteq> d'"
  shows "\<exists>s s'. syndrome d fl = Inr s \<and> syndrome d' fl = Inr s' \<and> 4 \<le> bit_distance d d' + bit_count (s XOR s')"
  by (rule syndrome_distance [OF assms])

theorem check_byte_distance_witness:
  "\<exists>s s'. syndrome [1, 2, 3, 4] True = Inr s \<and> syndrome [1, 2, 3, 5] True = Inr s' \<and> 3 \<le> bit_count (s XOR s')"
proof -
  have "length [1, 2, 3, 4 :: u8] = num_bytes True" "length [1, 2, 3, 5 :: u8] = num_bytes True"
    by (simp_all add: num_bytes_def)
  moreover have "bit_distance [1, 2, 3, 4] [1, 2, 3, 5] = 1" by code_simp
  ultimately show ?thesis using check_byte_distance [of "[1, 2, 3, 4]" True "[1, 2, 3, 5]"] by auto
qed

text \<open>C22: Every word that the random filling writes is a word of that code. For a memory of words of four or
  eight data bytes and a check byte it returns, no bit is left unknown, and each check byte is the
  one of the data beside it, whether the data is random or given.\<close>

theorem random_fill_is_coded:
  assumes "length mem = num * (Suc (num_bytes fl) * 2)" and "length data = 8"
  shows "\<exists>mem'. slam_memory rnd slam data fl num (Suc (num_bytes fl)) mem = Inr mem' \<and> length mem' = length mem \<and>
    (\<forall>w < num. codeword fl mem' w)"
  by (rule slam_memory_ok [OF assms])

theorem random_fill_is_coded_witness:
  "\<exists>mem'. slam_memory (\<lambda>n. of_nat n) None (replicate 8 0) True 2 5 (replicate 20 7) = Inr mem' \<and> codeword True mem' 1"
  using random_fill_is_coded [of "replicate 20 7" 2 True "replicate 8 0" "\<lambda>n. of_nat n" None] by (auto simp: num_bytes_def)

text \<open>C23: The boot loader ends with the first partition in memory. When the transmitter becomes empty again and
  again and the destination has room, it returns 0 and the destination holds, word by word, the blocks
  of the card from the first block of the first partition on; block numbers are cut to 32 bits, and
  neither the signature nor the last block of the partition is looked at.\<close>

theorem boot_loads_first_partition:
  assumes "ready dev" and "length buf1 = 64" and "length buf2 = 64" and "64 * unat sz \<le> length dest"
  shows "\<exists>b'. gpt_find_boot_partition dev sd buf1 buf2 dest sz b =
    Inr (0, card_words sd (lba_addr (first_partition sd)) (64 * unat sz) @ drop (64 * unat sz) dest, b')"
  by (rule boot_partition_ok [OF assms])

definition demo_dev :: device where
  "demo_dev = (\<lambda>n a. if even n then 0x20 else 0)"

definition demo_card :: card where
  "demo_card = (\<lambda>a. if a = 0xf000000248 then 2 else if a = 0xf000000420 then 0x100000800 else drop_bit 3 a AND 0xff)"

lemma demo_ready: "ready demo_dev" "spi_ready demo_dev"
proof -
  show "ready demo_dev" unfolding ready_def is_transmit_empty_def demo_dev_def
    by (intro allI, rule_tac x = "2 * n" in exI) simp
  show "spi_ready demo_dev" unfolding spi_ready_def demo_dev_def
    by (intro allI, rule_tac x = "2 * n" in exI) simp
qed

theorem boot_loads_first_partition_witness:
  "\<exists>b'. gpt_find_boot_partition demo_dev demo_card (replicate 64 0) (replicate 64 0) (replicate 65 7) 1 \<lparr>bus_reads = 0, bus_log = []\<rparr> =
     Inr (0, card_words demo_card 0xf000100000 64 @ [7], b')"
proof -
  have "lba_addr (first_partition demo_card) = 0xf000100000"
    by (simp add: first_partition_def lba_addr_def demo_card_def PITON_SD_BASE_ADDR_def)
  then show ?thesis
    using boot_loads_first_partition [OF demo_ready(1), of "replicate 64 0" "replicate 64 0" 1 "replicate 65 7" demo_card
        "\<lparr>bus_reads = 0, bus_log = []\<rparr>"] by (simp add: drop_replicate)
qed

text \<open>C24: A number is printed in decimal. When the transmitter becomes empty again and again,
  \<open>print_uart_dec\<close> with one digit at least returns the number of digits of the value, and has sent exactly
  its decimal digits, without leading zeros, to the transmit register.\<close>

theorem serial_number_is_decimal:
  assumes "ready dev"
  shows "\<exists>b'. print_uart_dec dev val 1 b = Inr (length (dec_nat (unat val)), b') \<and>
    bus_log b' = bus_log b @ map (\<lambda>c. (UART_THR, ucast (of_char c :: u8))) (dec_nat (unat val))"
  using print_uart_dec_sends [OF assms, of val b] by (auto simp: sends_def)

theorem serial_number_is_decimal_witness:
  "\<exists>b'. print_uart_dec demo_dev 207 1 \<lparr>bus_reads = 0, bus_log = []\<rparr> = Inr (3, b') \<and>
     bus_log b' = [(UART_THR, 0x32), (UART_THR, 0x30), (UART_THR, 0x37)]"
proof -
  have "dec_nat 207 = ''207''" by (simp add: dec_nat.simps)
  then show ?thesis using serial_number_is_decimal [OF demo_ready(1), of 207 "\<lparr>bus_reads = 0, bus_log = []\<rparr>"] by auto
qed

text \<open>C25: A transfer over SPI is framed. When the receive queue fills again and again and the buffers are long
  enough, a transfer of at most 256 bytes returns 0, has written exactly the selection of the slave, the
  bytes in order, the start, the release and the stop, and has stored a received value for every
  byte and nothing else.\<close>

theorem spi_transfer_is_framed:
  assumes "spi_ready dev" and "sz \<le> 256" and "unat sz \<le> length bytes" and "unat sz \<le> length ret"
  shows "\<exists>ret' b'. spi_write_bytes dev bytes sz ret b = Inr (0, ret', b') \<and>
    length ret' = length ret \<and> drop (unat sz) ret' = drop (unat sz) ret \<and>
    (\<forall>i < unat sz. \<exists>m > bus_reads b. ret' ! i = ucast (dev m SPI_RECEIVE_REG)) \<and>
    bus_log b' = bus_log b @ [(SPI_SLAVE_SELECT_REG, 0xfffffffe)] @
      map (\<lambda>x. (SPI_TRANSMIT_REG, ucast x)) (take (unat sz) bytes) @
      [(SPI_CONTROL_REG, 0x106), (SPI_SLAVE_SELECT_REG, 0xffffffff), (SPI_CONTROL_REG, 0x06)]"
  by (rule spi_transfer [OF assms])

theorem spi_transfer_is_framed_witness:
  "\<exists>ret' b'. spi_write_bytes demo_dev [0xaa, 0xbb] 2 [0, 0, 9] \<lparr>bus_reads = 0, bus_log = []\<rparr> = Inr (0, ret', b') \<and> length ret' = 3 \<and>
     bus_log b' = [(SPI_SLAVE_SELECT_REG, 0xfffffffe), (SPI_TRANSMIT_REG, 0xaa), (SPI_TRANSMIT_REG, 0xbb),
       (SPI_CONTROL_REG, 0x106), (SPI_SLAVE_SELECT_REG, 0xffffffff), (SPI_CONTROL_REG, 0x06)]"
  using spi_transfer_is_framed [OF demo_ready(2), of 2 "[0xaa, 0xbb]" "[0, 0, 9]" "\<lparr>bus_reads = 0, bus_log = []\<rparr>"] by auto

section \<open>Interrupts\<close>

definition demo_event :: event_record where
  "demo_event = event_of 1 ''5'' ''1'' ''2'' 0 2"

definition demo_line :: string where
  "demo_line = event_line (dec_nat 1) (pc_text 0x1000) ''5'' [''1'', ''2'', ''0'', ''2'']"

text \<open>C26: The bridge is a queue. After \<open>manual_init\<close> with events whose fields fit, whatever calls the simulator
  makes, the run does not fail, each packet delivered has the fixed header and one request in its last word, and what was
  delivered followed by what is pending is the boot request and then the interrupts the reported program
  counters ask for, in order: none is lost, doubled or overtaken.\<close>

theorem bridge_is_queue:
  assumes "manual_init rnd pargs prev ev iob_inst = Inr st" and "events_ok (io_events st)"
  shows "\<exists>ws st'. iob_run rnd calls st = Inr (map packet ws, st') \<and>
    ws @ pending st' = boot_word pargs # interrupts (io_events st) calls"
  using run_is_queue [OF manual_init_ok(1) [OF assms], of rnd calls] manual_init_ok(2) [OF assms] by auto

lemma demo_events:
  "get_event CHR ''x'' (Some demo_line) Map.empty = Inr [0x1000 \<mapsto> [demo_event]]" "ev_ok demo_event" "ev_wait demo_event = 2"
proof -
  have p: "list_all plain_token [''5'', ''1'', ''2'', ''0'', ''2'']" by code_simp
  have l: "length demo_line < BUFFER" by (simp add: demo_line_def event_line_def dec_nat.simps pc_text_def separated_def BUFFER_def)
  have v: "key_int (iob_getEight ''0'') = 0" "key_int (iob_getEight ''2'') = 2" by code_simp+
  show "get_event CHR ''x'' (Some demo_line) Map.empty = Inr [0x1000 \<mapsto> [demo_event]]"
    using event_file_one [OF p _ l [unfolded demo_line_def], of "CHR ''x''"] v by (simp add: demo_line_def demo_event_def)
  show "ev_ok demo_event" by code_simp
  show "ev_wait demo_event = 2" by code_simp
qed

theorem bridge_is_queue_witness:
  "\<exists>st ws st'. manual_init (\<lambda>_. 0) None CHR ''x'' (Some demo_line) iob_inst = Inr st \<and>
    iob_run (\<lambda>_. 0) (replicate 3 (Report 0x1000) @ [Cycle, Cycle]) st = Inr (map packet ws, st') \<and>
    ws @ pending st' = boot_word None # replicate 2 (irq_word demo_event)"
proof -
  obtain st where st: "manual_init (\<lambda>_. 0) None CHR ''x'' (Some demo_line) iob_inst = Inr st" "io_events st = [0x1000 \<mapsto> [demo_event]]"
    using manual_init_one [OF demo_events(1)] by blast
  have "events_ok (io_events st)" using demo_events(2) by (simp add: st(2) events_ok_def)
  moreover have "interrupts (io_events st) (replicate 3 (Report 0x1000) @ [Cycle, Cycle]) = replicate 2 (irq_word demo_event)"
    using interrupts_of_one_event [of "0x1000" demo_event 3] demo_events(3)
    by (simp add: interrupts_append st(2) del: interrupts.simps(3)) 
  ultimately show ?thesis using bridge_is_queue [OF st(1), of "replicate 3 (Report 0x1000) @ [Cycle, Cycle]"] st(1) by auto
qed

text \<open>C27: Every interrupt is delivered. With nine more cycles and eleven per interrupt after the last report, whatever the
  random delays are, everything was delivered and nothing is pending.\<close>

theorem interrupts_delivered:
  assumes "manual_init rnd pargs prev ev iob_inst = Inr st" and "events_ok (io_events st)"
    and "9 + 11 * length (interrupts (io_events st) calls) \<le> n"
  shows "\<exists>st'. iob_run rnd (calls @ replicate n Cycle) st =
      Inr (map packet (boot_word pargs # interrupts (io_events st) calls), st') \<and>
    pending st' = [] \<and> io_events st' = remaining (io_events st) calls"
  using run_delivers [OF manual_init_ok(1) [OF assms(1,2)], of calls n rnd] manual_init_ok(2,3) [OF assms(1,2)] assms(3) by auto

theorem interrupts_delivered_witness:
  "\<exists>st st'. manual_init (\<lambda>_. 0) None CHR ''x'' (Some demo_line) iob_inst = Inr st \<and>
    iob_run (\<lambda>_. 0) ([Report 0x1000] @ replicate 20 Cycle) st = Inr (map packet [boot_word None, irq_word demo_event], st')"
proof -
  obtain st where st: "manual_init (\<lambda>_. 0) None CHR ''x'' (Some demo_line) iob_inst = Inr st" "io_events st = [0x1000 \<mapsto> [demo_event]]"
    using manual_init_one [OF demo_events(1)] by blast
  have "events_ok (io_events st)" using demo_events(2) by (simp add: st(2) events_ok_def)
  moreover have "interrupts (io_events st) [Report 0x1000] = [irq_word demo_event]"
    using demo_events(3) by (simp add: st(2) due_def)
  ultimately show ?thesis using interrupts_delivered [OF st(1), of "[Report 0x1000]" 20] st(1)
    by (simp del: append.simps interrupts.simps replicate.simps) blast
qed

text \<open>C28: From the event file to the processor. A file with the line
  \<open>trig_pc_d(k, 64'hpc) -> intp(thread, type, vector, source, number)\<close> makes the bridge deliver the boot request and, when
  the program counter is reported \<open>m\<close> times, the smaller of \<open>m\<close> and the number of equal interrupts with the
  fields of the line, after a bounded number of cycles.\<close>

theorem event_line_makes_interrupts:
  assumes "list_all plain_token [th, ty, ve, so, nu]" and "k < 2 ^ 31"
    and "length (event_line (dec_nat k) (pc_text pc) th [ty, ve, so, nu]) < BUFFER"
    and "e = event_of (int k) th ty ve (key_int (iob_getEight so)) (key_int (iob_getEight nu))" and "ev_ok e"
  shows "\<exists>st st'. manual_init rnd pargs prev (Some (event_line (dec_nat k) (pc_text pc) th [ty, ve, so, nu])) iob_inst = Inr st \<and>
    iob_run rnd (replicate m (Report pc) @ replicate (9 + 11 * m) Cycle) st =
      Inr (map packet (boot_word pargs # replicate (min m (nat (ev_wait e))) (irq_word e)), st')"
proof -
  have g: "get_event prev (Some (event_line (dec_nat k) (pc_text pc) th [ty, ve, so, nu])) Map.empty = Inr [pc \<mapsto> [e]]"
    unfolding assms(4) by (rule event_file_one [OF assms(1-3)])
  obtain st where st: "manual_init rnd pargs prev (Some (event_line (dec_nat k) (pc_text pc) th [ty, ve, so, nu])) iob_inst = Inr st"
    "io_events st = [pc \<mapsto> [e]]"
    using manual_init_one [OF g] by blast
  have ok: "events_ok (io_events st)" using assms(5) by (simp add: st(2) events_ok_def)
  have i: "interrupts (io_events st) (replicate m (Report pc)) = replicate (min m (nat (ev_wait e))) (irq_word e)"
    by (simp only: st(2) interrupts_of_one_event)
  show ?thesis using run_delivers [OF manual_init_ok(1) [OF st(1) ok], of "replicate m (Report pc)" "9 + 11 * m" rnd]
      manual_init_ok(2,3) [OF st(1) ok] st(1) by (auto simp: i)
qed

theorem event_line_makes_interrupts_witness:
  "\<exists>st st'. manual_init (\<lambda>_. 0) None CHR ''x'' (Some demo_line) iob_inst = Inr st \<and>
    iob_run (\<lambda>_. 0) (replicate 3 (Report 0x1000) @ replicate (9 + 11 * 3) Cycle) st =
      Inr (map packet (boot_word None # replicate 2 (irq_word demo_event)), st')"
proof -
  have p: "list_all plain_token [''5'', ''1'', ''2'', ''0'', ''2'']" by code_simp
  have l: "length demo_line < BUFFER" by (simp add: demo_line_def event_line_def dec_nat.simps pc_text_def separated_def BUFFER_def)
  have v: "key_int (iob_getEight ''0'') = 0" "key_int (iob_getEight ''2'') = 2" by code_simp+
  show ?thesis
    using event_line_makes_interrupts [OF p _ l [unfolded demo_line_def], of demo_event "\<lambda>_. 0" None "CHR ''x''" 3] demo_events(2,3) v
    unfolding demo_line_def [symmetric] by (simp add: demo_event_def)
qed

text \<open>C29: A line without source and number is misread. The search for the fourth argument runs into the end of
  the line and goes on in front of the buffer: the source is read from the keyword \<open>trig_pc_d\<close> and the number of
  interrupts from the first argument of the trigger, not the default of one.\<close>

theorem short_event_line:
  assumes "list_all plain_token [th, ty, ve]" and "k < 2 ^ 31" and "prev \<notin> {CHR 0x00, CHR 0x0A, CHR '' ''}"
    and "length (event_line (dec_nat k) (pc_text pc) th [ty, ve]) < BUFFER"
  shows "\<exists>e. read_event prev (event_line (dec_nat k) (pc_text pc) th [ty, ve]) = Inr (Some (pc, e)) \<and>
    ev_wait e = max 1 (key_int (iob_getEight (dec_nat k))) \<and> ev_src e = key_int (iob_getEight (prev # ''trig_pc_d''))"
  using read_short_line [OF assms] by (auto simp: event_of_def Let_def max_def)

theorem short_event_line_witness:
  "\<exists>e. read_event CHR ''x'' (event_line (dec_nat 7) (pc_text 0x1000) ''5'' [''1'', ''2'']) = Inr (Some (0x1000, e)) \<and> ev_wait e = 7"
proof -
  have "list_all plain_token [''5'', ''1'', ''2'']" "key_int (iob_getEight ''7'') = 7" by code_simp+
  moreover have "dec_nat 7 = ''7''" by (simp add: dec_nat.simps)
  moreover have "length (event_line (dec_nat 7) (pc_text 0x1000) ''5'' [''1'', ''2'']) < BUFFER"
    by (simp add: event_line_def dec_nat.simps pc_text_def separated_def BUFFER_def)
  ultimately show ?thesis using short_event_line [of "''5''" "''1''" "''2''" 7 "CHR ''x''" "0x1000"] by auto
qed

section \<open>Distributed simulation\<close>

text \<open>C30: The connections are well formed. For a table of memory controllers that fits the grid every rank has a
  port, its ports are in increasing order and lead to different ranks, each of which exists and has a port that leads
  back.\<close>

theorem connections_wellformed:
  assumes "mcs_ok T1 T2 mcs" and "r < num_ranks T1 T2 mcs"
  shows "ports T1 T2 mcs r \<noteq> [] \<and> sorted_wrt (<) (map fst (ports T1 T2 mcs r)) \<and> distinct (map snd (ports T1 T2 mcs r)) \<and>
    (\<forall>(i, s) \<in> set (ports T1 T2 mcs r). s < num_ranks T1 T2 mcs \<and> (\<exists>j. (j, r) \<in> set (ports T1 T2 mcs s)))"
  using has_port [OF assms] ports_distinct [OF assms] ports_symmetric [OF assms] by auto

definition demo_mcs :: "mc_map_t list" where
  "demo_mcs = [\<lparr>mc_x = 1, mc_y = 0, mc_p = PORT_E\<rparr>, \<lparr>mc_x = 0, mc_y = 1, mc_p = PORT_W\<rparr>]"

lemma demo_mcs_ok: "mcs_ok 2 2 demo_mcs"
  by code_simp

theorem connections_wellformed_witness:
  "ports 2 2 demo_mcs 3 = [(0, 4), (1, 1), (2, 6)] \<and> (\<exists>j. (j, 3) \<in> set (ports 2 2 demo_mcs 6))"
proof -
  have p: "ports 2 2 demo_mcs 3 = [(0, 4), (1, 1), (2, 6)]" by code_simp
  have "3 < num_ranks 2 2 demo_mcs" by code_simp
  with connections_wellformed [OF demo_mcs_ok, of 3] p show ?thesis by simp
qed

definition demo_design :: "(nat, nat) verilated" where
  "demo_design = \<lparr>noc_out = (\<lambda>r i v. 10 * v + r + i), eval = (\<lambda>r clk inp v. if clk = 1 then v + inp (2 * r) + 1 else v)\<rparr>"

definition demo_node :: "nat \<Rightarrow> (nat, nat) node" where
  "demo_node r = \<lparr>nd_state = r, nd_in = (\<lambda>_. 0)\<rparr>"

definition demo_net :: "nat list \<Rightarrow> (nat, nat) network" where
  "demo_net rs = the (schedule demo_design (ports 1 1 []) (\<lambda>_. 0) 2 2 rs (start_net demo_design demo_node))"

lemma demo_schedule:
  assumes "schedule demo_design (ports 1 1 []) (\<lambda>_. 0) 2 2 rs (start_net demo_design demo_node) \<noteq> None" and "list_all (\<lambda>r. r < 2) rs"
  shows "(mpi_step demo_design (ports 1 1 []) (\<lambda>_. 0) 2 2 (num_ranks 1 1 []) ^^ length rs) (start_net demo_design demo_node) (demo_net rs)"
  using assms by (intro schedule_steps) (auto simp: demo_net_def num_ranks_def numeral_2_eq_2)

definition demo_order :: "nat list" where
  "demo_order = [1, 0, 0, 0, 0, 1, 1, 1, 0, 0, 1, 1]"

lemma demo_run:
  "(mpi_step demo_design (ports 1 1 []) (\<lambda>_. 0) 2 2 (num_ranks 1 1 []) ^^ 12) (start_net demo_design demo_node) (demo_net demo_order)"
  "(mpi_step demo_design (ports 1 1 []) (\<lambda>_. 0) 2 2 (num_ranks 1 1 []) ^^ 5) (start_net demo_design demo_node) (demo_net (take 5 demo_order))"
proof -
  have "case schedule demo_design (ports 1 1 []) (\<lambda>_. 0) 2 2 demo_order (start_net demo_design demo_node) of None \<Rightarrow> False | _ \<Rightarrow> True"
    by code_simp
  moreover have "case schedule demo_design (ports 1 1 []) (\<lambda>_. 0) 2 2 (take 5 demo_order) (start_net demo_design demo_node) of None \<Rightarrow> False | _ \<Rightarrow> True"
    by code_simp
  moreover have "list_all (\<lambda>r. r < 2) demo_order" "list_all (\<lambda>r. r < 2) (take 5 demo_order)" by code_simp+
  moreover have "length demo_order = 12" "length (take 5 demo_order) = 5" by code_simp+
  ultimately show
    "(mpi_step demo_design (ports 1 1 []) (\<lambda>_. 0) 2 2 (num_ranks 1 1 []) ^^ 12) (start_net demo_design demo_node) (demo_net demo_order)"
    "(mpi_step demo_design (ports 1 1 []) (\<lambda>_. 0) 2 2 (num_ranks 1 1 []) ^^ 5) (start_net demo_design demo_node) (demo_net (take 5 demo_order))"
    using demo_schedule [of demo_order] demo_schedule [of "take 5 demo_order"] by (auto split: option.splits)
qed

lemma demo_grid_ok: "mcs_ok 1 1 []"
  by code_simp

text \<open>C31: The distributed simulation computes what a simulation in lock step computes. In whatever order the ranks
  take their steps, the object \<open>top\<close> of a rank between two rounds is the one it has after as many rounds when all ranks
  exchange and evaluate at the same time.\<close>

theorem distributed_equals_lockstep:
  assumes "mcs_ok T1 T2 mcs" and "(mpi_step M (ports T1 T2 mcs) smart_max cap K (num_ranks T1 T2 mcs))\<^sup>*\<^sup>* (start_net M init) s"
    and "r < num_ranks T1 T2 mcs" and "pr_at (nw_proc s r) = 0"
  shows "pr_top (nw_proc s r) = lock_run M (ports T1 T2 mcs) smart_max init (pr_round (nw_proc s r)) r"
proof -
  note g = Abs_grid [OF assms(1)]
  show ?thesis
    using mesh.same_as_lock [OF mesh.reachable_ok, of M "Abs_mesh_grid (T1, T2, mcs)" smart_max cap K init s r, unfolded g] assms(2-4) by simp
qed

theorem distributed_equals_lockstep_witness:
  "pr_round (nw_proc (demo_net demo_order) 1) = 2 \<and>
   pr_top (nw_proc (demo_net demo_order) 1) = lock_run demo_design (ports 1 1 []) (\<lambda>_. 0) demo_node 2 1"
proof -
  have a: "pr_at (nw_proc (demo_net demo_order) 1) = 0" "pr_round (nw_proc (demo_net demo_order) 1) = 2" by code_simp+
  have r: "1 < num_ranks 1 1 []" by (simp add: num_ranks_def)
  show ?thesis
    using distributed_equals_lockstep [OF demo_grid_ok relpowp_imp_rtranclp [OF demo_run(1)] r a(1)] a(2) by simp
qed

text \<open>C32: The distributed simulation goes on when MPI stores messages. A send may wait: for room among the \<open>cap\<close>
  messages MPI stores for a pair of ranks, or for its receiver. When MPI stores at least one message per pair, then in every
  state that can be reached some rank can take a step or all ranks completed their rounds with the state of the simulation
  in lock step; when it stores none, all ranks wait in their first send and nothing ever moves. A run has at most
  \<open>2 * ports + 1\<close> steps per rank and round.\<close>

theorem simulation_never_deadlocks:
  assumes "mcs_ok T1 T2 mcs" and "(mpi_step M (ports T1 T2 mcs) smart_max cap K (num_ranks T1 T2 mcs) ^^ k) (start_net M init) s"
  shows "k \<le> (\<Sum>r < num_ranks T1 T2 mcs. K * (2 * length (ports T1 T2 mcs r) + 1)) \<and>
    (0 < cap \<longrightarrow> (\<exists>s'. mpi_step M (ports T1 T2 mcs) smart_max cap K (num_ranks T1 T2 mcs) s s') \<or>
     (\<forall>r < num_ranks T1 T2 mcs. pr_round (nw_proc s r) = K \<and> pr_top (nw_proc s r) = lock_run M (ports T1 T2 mcs) smart_max init K r)) \<and>
    (cap = 0 \<longrightarrow> s = start_net M init \<and> (\<nexists>s'. mpi_step M (ports T1 T2 mcs) smart_max cap K (num_ranks T1 T2 mcs) s s'))"
proof -
  let ?g = "Abs_mesh_grid (T1, T2, mcs)"
  note g = Abs_grid [OF assms(1)]
  note run = mesh.run_length [where g = ?g and M = M and smart_max = smart_max and cap = cap and K = K and k = k and init = init and s = s, unfolded g, OF assms(2)]
  have "k \<le> (\<Sum>r < num_ranks T1 T2 mcs. K * (2 * length (ports T1 T2 mcs r) + 1))"
    using run mesh.steps_done_bound [where g = ?g and M = M and smart_max = smart_max and K = K and init = init and s = s, unfolded g] by auto
  moreover have "(mpi_step M (ports T1 T2 mcs) smart_max cap K (num_ranks T1 T2 mcs))\<^sup>*\<^sup>* (start_net M init) s"
    using assms(2) by (rule relpowp_imp_rtranclp)
  from mesh.final_state [where g = ?g and M = M and smart_max = smart_max and cap = cap and K = K and init = init and s = s, unfolded g, OF this]
  have "0 < cap \<Longrightarrow> (\<nexists>s'. mpi_step M (ports T1 T2 mcs) smart_max cap K (num_ranks T1 T2 mcs) s s') \<Longrightarrow> r < num_ranks T1 T2 mcs \<Longrightarrow>
      pr_round (nw_proc s r) = K \<and> pr_top (nw_proc s r) = lock_run M (ports T1 T2 mcs) smart_max init K r" for r by blast
  moreover have "s = start_net M init" if "cap = 0"
  proof (cases k)
    case (Suc k')
    then obtain u where "mpi_step M (ports T1 T2 mcs) smart_max cap K (num_ranks T1 T2 mcs) (start_net M init) u"
      using assms(2) by (blast dest: relpowp_Suc_D2)
    then show ?thesis using nothing_moves_unbuffered [OF assms(1)] that by blast
  qed (use assms(2) in simp)
  ultimately show ?thesis using nothing_moves_unbuffered [OF assms(1)] by blast
qed

theorem simulation_never_deadlocks_witness:
  "(\<exists>s'. mpi_step demo_design (ports 1 1 []) (\<lambda>_. 0) 2 2 (num_ranks 1 1 []) (demo_net (take 5 demo_order)) s') \<and>
   12 \<le> (\<Sum>r < num_ranks 1 1 []. 2 * (2 * length (ports 1 1 [] r) + 1))"
proof -
  have "pr_round (nw_proc (demo_net (take 5 demo_order)) 1) = 0" by code_simp
  moreover have "1 < num_ranks 1 1 []" by (simp add: num_ranks_def)
  ultimately show ?thesis
    using simulation_never_deadlocks [OF demo_grid_ok demo_run(1)] simulation_never_deadlocks [OF demo_grid_ok demo_run(2)] by force
qed

text \<open>C33: At most two messages are on their way from one rank to another, so buffers for two messages per
  connection are enough for the sends never to wait.\<close>

theorem two_messages_buffered:
  assumes "mcs_ok T1 T2 mcs" and "(mpi_step M (ports T1 T2 mcs) smart_max cap K (num_ranks T1 T2 mcs))\<^sup>*\<^sup>* (start_net M init) s"
    and "r < num_ranks T1 T2 mcs" and "(i, d) \<in> set (ports T1 T2 mcs r)"
  shows "length (nw_chan s r d) \<le> 2"
  using mesh.chan_bound [OF mesh.reachable_ok, of M "Abs_mesh_grid (T1, T2, mcs)" smart_max cap K init s r i d, unfolded Abs_grid [OF assms(1)]] assms(2-4)
  by simp

theorem two_messages_buffered_witness:
  "length (nw_chan (demo_net (take 5 demo_order)) 0 1) \<le> 2 \<and> length (nw_chan (demo_net (take 5 demo_order)) 0 1) = 2"
proof -
  have "(0, 1) \<in> set (ports 1 1 [] 0)" "0 < num_ranks 1 1 []" by (simp_all add: chipset_ports num_ranks_def)
  moreover have "length (nw_chan (demo_net (take 5 demo_order)) 0 1) = 2" by code_simp
  ultimately show ?thesis
    using two_messages_buffered [OF demo_grid_ok relpowp_imp_rtranclp [OF demo_run(2)], of 0 0 1] by simp
qed

text \<open>C34: All ranks stop together. Whatever the tiles commit, no rank waits for ever in the reduction; after \<open>n\<close> turns all
  ranks made the same number of turns and have the same verdict, which is the greatest the tiles found; they went on as
  long as no check found a trap and stopped at the first check that did.\<close>

theorem ranks_stop_together:
  fixes tiles mems n good bad commits
  defines "found \<equiv> tile_traps tiles good bad commits" and "N \<equiv> 1 + tiles + mems"
  shows "\<exists>k hs. main_run found N n = Some hs \<and> length hs = N \<and>
    list_all (\<lambda>h. ticks h = k \<and> global_trap h = (if stops found N k then Max ((\<lambda>r. first_trap (found r) k) ` {..<N}) else CONTINUE)) hs \<and>
    (k = n \<or> stops found N k) \<and> list_all (\<lambda>j. \<not> stops found N j) [0..<k]"
proof -
  have N: "0 < N" by (simp add: N_def)
  have pos: "found r t = Some v \<Longrightarrow> 0 \<le> v" for r t v unfolding found_def by (rule tile_traps_nonneg)
  define k where "k = turns_done found N n"
  have "(\<lambda>r. first_trap (found r) k) ` {..<N} = set (map (\<lambda>r. first_trap (found r) k) [0..<N])" by auto
  then have m: "mpi_check_trap (map (\<lambda>r. first_trap (found r) k) [0..<N]) = Max ((\<lambda>r. first_trap (found r) k) ` {..<N})"
    using N by (simp only: mpi_check_trap_Max) (simp add: mpi_check_trap_Max)
  have "verdict found N k = (if stops found N k then Max ((\<lambda>r. first_trap (found r) k) ` {..<N}) else CONTINUE)"
    using verdict_stops [OF N, of found k] pos m by (auto simp: verdict_def stops_def)
  then have "list_all (\<lambda>h. ticks h = k \<and> global_trap h = (if stops found N k then Max ((\<lambda>r. first_trap (found r) k) ` {..<N}) else CONTINUE))
      (state_after found N n)"
    by (simp add: state_after_def k_def [symmetric] list_all_iff Let_def)
  moreover have "main_run found N n = Some (state_after found N n)" by (rule main_run_state [OF N]) (rule pos)
  moreover have "length (state_after found N n) = N" by (simp add: state_after_def Let_def)
  moreover have "k = n \<or> stops found N k" using turns_done_cases by (simp add: k_def)
  moreover have "list_all (\<lambda>j. \<not> stops found N j) [0..<k]" using before_turns_done by (auto simp: list_all_iff k_def)
  ultimately show ?thesis by blast
qed

text \<open>C35: A trap ends the simulation. When a tile commits an instruction at a trap address in turn \<open>t\<close>, all ranks have left
  the loop with a good or a bad verdict after turn 14001 or \<open>t + 2001\<close>, whichever is later.\<close>

theorem trap_ends_simulation:
  assumes "check_trap good bad (commits r t) \<noteq> CONTINUE" and "1 \<le> r" and "r \<le> tiles" and "max 14001 (t + 2001) \<le> n"
  shows "\<exists>hs. main_run (tile_traps tiles good bad commits) (1 + tiles + mems) n = Some hs \<and>
    list_all (\<lambda>h. global_trap h \<in> {GOOD_EXIT, BAD_EXIT} \<and> ticks h \<le> max 14001 (t + 2001)) hs"
proof -
  let ?found = "tile_traps tiles good bad commits" and ?N = "1 + tiles + mems"
  have N: "0 < ?N" by simp
  have "?found r t = Some (check_trap good bad (commits r t))" using assms(2,3) by (simp add: tile_traps_def)
  note stays = first_trap_stays [where f = "?found r", OF this assms(1)]
  obtain m where m: "t < m" "m \<le> max 14001 (t + 2001)" "check_turn m" using next_check_turn by blast
  have "stops ?found ?N m" unfolding stops_def list_ex_iff using stays [OF m(1)] m(3) assms(2,3)
    by (intro conjI bexI [of _ r]) (simp_all del: upt_Suc)
  then have le: "turns_done ?found ?N n \<le> m" using before_turns_done by (meson not_less)
  moreover have "m \<le> n" using m(2) assms(4) by linarith
  ultimately have st: "stops ?found ?N (turns_done ?found ?N n)"
    using \<open>stops ?found ?N m\<close> turns_done_cases by (metis order_antisym)
  note k = le st
  let ?k = "turns_done ?found ?N n"
  have v: "verdict ?found ?N ?k \<noteq> CONTINUE"
    using verdict_stops [OF N, of ?found ?k] k(2) tile_traps_nonneg by blast
  have ft: "first_trap (?found a) j \<in> {CONTINUE, GOOD_EXIT, BAD_EXIT}" for a j
    using check_trap_values [of good bad] by (induction j) (auto simp: tile_traps_def)
  have "verdict ?found ?N ?k \<in> (\<lambda>a. first_trap (?found a) ?k) ` {0..<?N} \<union> {CONTINUE}"
  proof (cases "check_turn ?k")
    case True
    have "Max (set (map (\<lambda>r. first_trap (?found r) ?k) [0..<?N])) \<in> set (map (\<lambda>r. first_trap (?found r) ?k) [0..<?N])"
      by (rule Max_in) simp_all
    then show ?thesis using True by (simp add: verdict_def mpi_check_trap_Max del: upt_Suc)
  qed (simp add: verdict_def)
  then obtain a where "verdict ?found ?N ?k = first_trap (?found a) ?k" using v by auto
  then have "verdict ?found ?N ?k \<in> {GOOD_EXIT, BAD_EXIT}" using v ft [of a ?k] by auto
  moreover have "main_run ?found ?N n = Some (state_after ?found ?N n)"
    by (rule main_run_state [OF N]) (rule tile_traps_nonneg)
  ultimately show ?thesis using k(1) m(2) by (simp add: state_after_def list_all_iff Let_def)
qed

definition demo_commits :: "nat \<Rightarrow> nat \<Rightarrow> (u8 \<times> u64) list" where
  "demo_commits r t = (if r = 2 \<and> t = 7 then [(0, 0x40), (1, 0x82000)] else [])"

theorem trap_ends_simulation_witness:
  "\<exists>hs. main_run (tile_traps 4 [0x82000] [] demo_commits) (1 + 4 + 1) 15000 = Some hs \<and>
    list_all (\<lambda>h. global_trap h \<in> {GOOD_EXIT, BAD_EXIT} \<and> ticks h \<le> 14001) hs"
proof -
  have "check_trap [0x82000] [] (demo_commits 2 7) \<noteq> CONTINUE" by code_simp
  from trap_ends_simulation [where good = "[0x82000]" and bad = "[]" and commits = demo_commits and r = 2 and t = 7, OF this, of 4 15000 1]
  show ?thesis by simp
qed

text \<open>C36: The trap arguments are read back. The traps found among the arguments are the addresses of the trap
  arguments of that kind, in order, whatever other arguments there are.\<close>

theorem trap_arguments_read_back:
  assumes "list_all (arg_ok bad) as"
  shows "get_traps (map (arg_text bad) as) bad = concat (map arg_traps as)"
  by (rule get_traps_args [OF assms])

theorem trap_arguments_read_back_witness:
  "get_traps [''+good_trap0='' @ hex_digits 16 (0x82000 :: u64), ''+mem_image=m'', ''+good_trap31='' @ hex_digits 16 (0x1c :: u64)] False = [0x82000, 0x1c]"
proof -
  have "dec_nat 31 = ''31''" "dec_nat 0 = ''0''" by (simp_all add: dec_nat.simps)
  moreover have "list_all (arg_ok False) [Inr (0, 0x82000), Inl ''+mem_image=m'', Inr (31, 0x1c)]" by (simp add: starts_with_def)
  from trap_arguments_read_back [OF this] show ?thesis
    using calculation by (simp add: arg_text_def trap_str_def)
qed

text \<open>C37: The final report is complete. With one core per tile rank the chipset receives a report of
  every memory and tile: when some tile has no load to divide by the report is undefined, otherwise it is the full report
  (each tile's counters in order, the packets summed over the tiles, column by column where there are any) and no message
  is left. The rows of the performance counters are all of them, each once.\<close>

theorem statistics_reported:
  "chipset_report percent tiles mcs stat now trap (all_reports tiles mcs tops mem) =
     (if \<exists>r. 1 \<le> r \<and> r \<le> tiles \<and> tc_cache_st (tops r) 11 = 0 then Inl Undefined
      else Inr (full_report percent tiles mcs tops mem stat now trap, \<lambda>_. [])) \<and>
   concat (map (\<lambda>row. slice row (hpm_values c)) [0..<HPM_ROW_NUM]) = hpm_values c"
  using chipset_report_ok slices_all [of "hpm_values c"] by (simp add: hpm_values_def)

text \<open>C40: Every core is simulated once. When the tile ranks have room for the cores of the machine, the enabled cores
  of all tile ranks, in order, have the coordinates of the machine row by row.\<close>

theorem cores_enabled_once:
  assumes "0 < X" and "X * Y \<le> T1 * T2 * T3"
  shows "map (\<lambda>c. (default_coreid_x c, default_coreid_y c)) (filter cpu_enable (concat (map (\<lambda>r. core_ids T3 X Y (int r)) [1..<T1 * T2 + 1]))) =
    concat (map (\<lambda>y. map (\<lambda>x. (int x, int y)) [0..<X]) [0..<Y])"
  unfolding enabled_cores [OF assms(2)] core_rows [OF assms(1), symmetric] by (simp add: core_at_def)

theorem cores_enabled_once_witness:
  "map (\<lambda>c. (default_coreid_x c, default_coreid_y c)) (filter cpu_enable (concat (map (\<lambda>r. core_ids 2 3 1 (int r)) [1..<2 * 1 + 1]))) =
    [(0, 0), (1, 0), (2, 0)]"
proof -
  have "concat (map (\<lambda>y. map (\<lambda>x. (int x, int y)) [0..<3]) [0..<1]) = [(0, 0), (1, 0), (2, 0)]" by code_simp
  then show ?thesis using cores_enabled_once [of 3 1 2 1 2] by simp
qed

section \<open>The latency model\<close>

text \<open>C38: The latency model always answers and stays within its curves. From its start, with 51 curves that
  \<open>curve_ok\<close> describes (latencies up to \<open>256 * m\<close>, an end that does not point far up) and whatever rounding \<open>fl\<close> with
  the properties \<open>fl_ok\<close>, every sequence of reads and writes is answered: no assertion fails, no index is out of range,
  nothing is divided by zero and every conversion fits. The latency is at least the lead-off latency, and it grows by at
  most \<open>1024 * m\<close> in a window of 1000 accesses; an answer is at most 512
  times the bound of the latency, for frequencies up to 1024 GHz.\<close>

theorem latency_model_answers:
  assumes "fl_ok fl" and "length curves = 51" and "list_all (\<lambda>c. curve_ok fl m (map (scaled_point fl) c)) curves"
    and "16 \<le> freq" and "freq \<le> 1024000" and "0 < m" and "1024 * m * (int (length accs) div 1000 + 1) < 2 ^ 32"
  shows "\<exists>bc rs bc' lead. delay_init_call fl (map Some curves) freq None = Inr (Some bc) \<and> run_accesses fl bc accs = Inr (rs, bc') \<and>
    length rs = length accs \<and> (\<forall>r \<in> set rs. int (unat r) \<le> 524288 * m * (int (length accs) div 1000 + 1)) \<and>
    getLeadOffLatency bc' = Inr lead \<and> lead \<le> bc_latency bc' \<and>
    int (unat (bc_latency bc')) \<le> 1024 * m * (int (length accs) div 1000 + 1)"
  using assms by (rule model_returns)

definition example_curves :: "(double \<times> double) list list" where
  "example_curves = replicate 51 [(134400, 512), (147840, 300), (67200, 200)]"

lemma example_curves_ok:
  "length example_curves = 51" "list_all (\<lambda>c. curve_ok fl256 2 (map (scaled_point fl256) c)) example_curves"
  using example_curve_ok by (simp_all add: example_curves_def list_all_iff)

theorem latency_model_answers_witness:
  "\<exists>bc rs bc'. delay_init_call fl256 (map Some example_curves) 1500 None = Inr (Some bc) \<and>
    run_accesses fl256 bc [(1, False), (7, True), (7, False)] = Inr (rs, bc') \<and> length rs = 3 \<and> (\<forall>r \<in> set rs. int (unat r) \<le> 1048576)"
  using latency_model_answers [OF fl256_ok example_curves_ok, of 1500 "[(1, False), (7, True), (7, False)]"] by auto

text \<open>C39: The memory controllers of a distributed simulation share one latency model. After any number of ticks with
  any requests, the state of the model is that of the single model run on the requests of all controllers, in the order of
  their ranks in every 128 cycles (each cycle number is one too small, as the code has it); the clocks agree, so every
  message finds its receiver, every controller works with the last answer of the model (150 before the first message), and
  the chipset has counted every request.\<close>

theorem latency_model_shared:
  assumes "fl_ok fl" and "length curves = 51" and "list_all (\<lambda>c. curve_ok fl m (map (scaled_point fl) c)) curves"
    and "0 < m" and "1024 * m * (int (length (all_accesses n req t)) div 1000 + 1) < 2 ^ 32" and "t \<le> 2 ^ 37"
  shows "\<exists>bc rs c ms. delay_init_call fl (map Some curves) OP_FRQ_MHZ None = Inr (Some bc) \<and>
    latmodel_run fl (map Some curves) n req t = Inr (c, ms) \<and> run_accesses fl bc (all_accesses n req t) = Inr (rs, lc_model c) \<and>
    length ms = n \<and> lc_mem_lat c = last rs \<and>
    (\<forall>i < n. lm_clk_cnt (ms ! i) = lc_clk_cnt c \<and> lm_mem_lat (ms ! i) = (if t < 127 then 150 else last rs) \<and>
      lm_rd_lat_in (ms ! i) = ucast (lm_mem_lat (ms ! i))) \<and>
    ls_rd_cnt (lc_st c) + ls_wr_cnt (lc_st c) + 1 = of_nat (length rs)"
proof -
  have f: "16 \<le> OP_FRQ_MHZ" "OP_FRQ_MHZ \<le> 1024000" by (simp_all add: OP_FRQ_MHZ_def)
  obtain bc rs bc' where d: "delay_init_call fl (map Some curves) OP_FRQ_MHZ None = Inr (Some bc)"
    and r: "run_accesses fl bc (all_accesses n req t) = Inr (rs, bc')"
    using model_returns [OF assms(1-3) f assms(4,5)] by blast
  obtain c ms where "latmodel_run fl (map Some curves) n req t = Inr (c, ms)" "ranks_at n req t rs bc' c ms"
    using latmodel_refines [OF d r assms(6)] by blast
  with d r show ?thesis unfolding ranks_at_def mem_at_def by metis
qed

definition example_request :: "nat \<Rightarrow> nat \<Rightarrow> u8 \<times> u8" where
  "example_request i t = (if i = 1 \<and> t = 5 then (1, 0) else if i = 0 \<and> t = 9 then (0, 1) else (0, 0))"

theorem latency_model_shared_witness:
  "\<exists>c ms. latmodel_run fl256 (map Some example_curves) 2 example_request 130 = Inr (c, ms) \<and> length ms = 2 \<and>
    lm_mem_lat (ms ! 0) = lc_mem_lat c \<and> lm_mem_lat (ms ! 1) = lc_mem_lat c \<and> ls_rd_cnt (lc_st c) + ls_wr_cnt (lc_st c) + 1 = 3"
proof -
  have l: "length (all_accesses 2 example_request 130) = 3"
    by (simp add: all_accesses_def sync_accesses_def accesses_of_def access_of_def requests_of_def mem_request_def example_request_def
        upt_rec RD_REQ_def WR_REQ_def NO_REQ_def)
  then have "1024 * 2 * (int (length (all_accesses 2 example_request 130)) div 1000 + 1) < 2 ^ 32" by simp
  from latency_model_shared [OF fl256_ok example_curves_ok _ this] obtain bc rs c ms where
    r: "run_accesses fl256 bc (all_accesses 2 example_request 130) = Inr (rs, lc_model c)"
    "latmodel_run fl256 (map Some example_curves) 2 example_request 130 = Inr (c, ms)" "length ms = 2" "lc_mem_lat c = last rs"
    "\<forall>i < 2. lm_mem_lat (ms ! i) = last rs" "ls_rd_cnt (lc_st c) + ls_wr_cnt (lc_st c) + 1 = of_nat (length rs)"
    by auto
  moreover have "length rs = 3" using run_accesses_length [OF r(1)] l by simp
  ultimately show ?thesis by auto
qed

text \<open>The report of the latency model reads the bandwidth of the last full window. When fewer than 1000
  accesses were made there is none, and \<open>outputBW\<close> is read although it was never set.\<close>

theorem latency_report_needs_window:
  assumes "fl_ok fl" and "length curves = 51" and "list_all (\<lambda>c. curve_ok fl m (map (scaled_point fl) c)) curves"
    and "0 < m" and "1024 * m < 2 ^ 32" and "length (all_accesses n req t) < 1000" and "t \<le> 2 ^ 37"
  shows "\<exists>c ms. latmodel_run fl (map Some curves) n req t = Inr (c, ms) \<and> latmodel_line fl show c = Inl Undef"
proof -
  have f: "16 \<le> OP_FRQ_MHZ" "OP_FRQ_MHZ \<le> 1024000" by (simp_all add: OP_FRQ_MHZ_def)
  have m: "m < 2 ^ 22" using assms(5) by simp
  obtain bc where d: "delay_init_call fl (map Some curves) OP_FRQ_MHZ None = Inr (Some bc)" "accesses_so_far 0 bc = 0"
    "bc_window_size bc = 1000" "bc_outputBW bc = None"
    using delay_init_ok [OF assms(1,3,2,4) m f] by blast
  have b: "1024 * m * (int (length (all_accesses n req t)) div 1000 + 1) < 2 ^ 32" using assms(5,6) by simp
  obtain rs bc' where r: "run_accesses fl bc (all_accesses n req t) = Inr (rs, bc')"
    using model_returns [OF assms(1-3) f assms(4) b] d(1) by auto
  have "int (unat (bc_count bc)) = 0" using d(2) by (simp add: accesses_so_far_def)
  then have "unat (bc_count bc) = 0" by (simp only: of_nat_eq_0_iff)
  then have "bc_outputBW bc' = None" using run_keeps_bandwidth [OF r] d(3,4) assms(6) by simp
  then show ?thesis using latmodel_refines [OF d(1) r assms(7)] line_needs_bandwidth by (auto simp: ranks_at_def)
qed

end
